(* ===== verification/Prelude.thy ===== *)
theory Prelude
  imports Main "HOL-Library.Word" "HOL-Library.Multiset"
begin

text \<open>
  Vocabulary shared by every component: how a C++ call ends (\<open>res\<close>), the
  sequencing and assertion combinators the operations are written with, byte
  blocks (slices of a list, a block copied over another one) and the lemma
  collections the component proofs are run with.
\<close>

section \<open>How a call ends\<close>

text \<open>
  A call of the library returns a value or ends the process. \<open>AssertFail\<close> is a
  failed \<^verbatim>\<open>assert\<close>, \<open>FatalLog\<close> is \<^verbatim>\<open>LOG_FATAL\<close> or \<^verbatim>\<open>LOG_SYSFATAL\<close> (both call
  \<^verbatim>\<open>abort\<close>), \<open>OutOfBounds\<close> is an access outside a C++ array or container,
  \<open>LengthError\<close> is the exception \<^verbatim>\<open>std::length_error\<close> of a container asked to
  grow beyond its \<^verbatim>\<open>max_size\<close>, \<open>BadAlloc\<close> is \<^verbatim>\<open>std::bad_alloc\<close> and \<open>NullDeref\<close>
  is the use of a null pointer or of an empty \<^verbatim>\<open>std::function\<close>, \<open>UseAfterFree\<close> the
  use of an object that has been destroyed, \<open>Terminated\<close> is \<^verbatim>\<open>std::terminate\<close>.
\<close>

datatype fault = AssertFail | FatalLog | OutOfBounds | LengthError | BadAlloc | NullDeref | UseAfterFree | Terminated

type_synonym 'a res = "fault + 'a"

definition bindR :: "'a res \<Rightarrow> ('a \<Rightarrow> 'b res) \<Rightarrow> 'b res" where
  "bindR m f = (case m of Inl e \<Rightarrow> Inl e | Inr x \<Rightarrow> f x)"

definition mapR :: "('a \<Rightarrow> 'b) \<Rightarrow> 'a res \<Rightarrow> 'b res" where
  "mapR f m = (case m of Inl e \<Rightarrow> Inl e | Inr x \<Rightarrow> Inr (f x))"

text \<open>\<open>ensure c k\<close> is \<^verbatim>\<open>assert(c);\<close> followed by \<open>k\<close>.\<close>

definition ensure :: "bool \<Rightarrow> 'a res \<Rightarrow> 'a res" where
  "ensure c k = (if c then k else Inl AssertFail)"

text \<open>\<open>loop_only inl k\<close> is \<^verbatim>\<open>loop_->AssertInLoopThread();\<close> followed by \<open>k\<close>, where \<open>inl\<close>
  says whether the caller is the thread of the loop.\<close>

definition loop_only :: "bool \<Rightarrow> 'a res \<Rightarrow> 'a res" where
  "loop_only inl k = (if inl then k else Inl FatalLog)"

lemma loop_only_simps [simp]:
  "loop_only True k = k"
  "loop_only False k = Inl FatalLog"
  by (simp_all add: loop_only_def)

lemma bindR_simps [simp]:
  "bindR (Inl e) f = Inl e"
  "bindR (Inr x) f = f x"
  by (simp_all add: bindR_def)

lemma mapR_simps [simp]:
  "mapR g (Inl e) = Inl e"
  "mapR g (Inr x) = Inr (g x)"
  by (simp_all add: mapR_def)

text \<open>When a call of the library succeeds; the components unfold with this collection.\<close>

named_theorems res_iffs

lemma bindR_Inr_iff [res_iffs]: "bindR m f = Inr y \<longleftrightarrow> (\<exists>x. m = Inr x \<and> f x = Inr y)"
  by (cases m) auto

lemma mapR_Inr_iff [res_iffs]: "mapR g m = Inr y \<longleftrightarrow> (\<exists>x. m = Inr x \<and> y = g x)"
  by (cases m) auto

lemma Inr_mapR_iff: "Inr y = mapR g m \<longleftrightarrow> (\<exists>x. m = Inr x \<and> y = g x)"
  by (cases m) auto

lemma ensure_True [simp]: "c \<Longrightarrow> ensure c k = k"
  by (simp add: ensure_def)

lemma ensure_False [simp]: "\<not> c \<Longrightarrow> ensure c k = Inl AssertFail"
  by (simp add: ensure_def)

lemma ensure_Inr_iff [res_iffs]: "ensure c k = Inr y \<longleftrightarrow> c \<and> k = Inr y"
  by (simp add: ensure_def)

lemma case_resD: "case m of Inl e \<Rightarrow> False | Inr x \<Rightarrow> P x \<Longrightarrow> \<exists>x. m = Inr x \<and> P x"
  by (cases m) auto

section \<open>Numbers as text\<close>

text \<open>\<^verbatim>\<open>std::to_string\<close> of an unsigned number.\<close>

definition digit :: "nat \<Rightarrow> char" where
  "digit d = char_of (48 + d)"

fun to_string :: "nat \<Rightarrow> string" where
  "to_string n = (if n < 10 then [digit n] else to_string (n div 10) @ [digit (n mod 10)])"

declare to_string.simps [simp del]

definition number_of :: "string \<Rightarrow> nat" where
  "number_of s = foldl (\<lambda>a ch. a * 10 + (of_char ch - 48)) 0 s"

lemma of_char_digit: "d < 10 \<Longrightarrow> of_char (digit d) = 48 + d"
  by (simp add: digit_def)

lemma number_of_to_string [simp]: "number_of (to_string n) = n"
proof (induction n rule: to_string.induct)
  case (1 n)
  show ?case
  proof (cases "n < 10")
    case True
    then show ?thesis by (subst to_string.simps) (simp add: number_of_def of_char_digit)
  next
    case False
    with 1 show ?thesis
      by (subst to_string.simps) (simp add: number_of_def of_char_digit)
  qed
qed

lemma to_string_inject [simp]: "to_string m = to_string n \<longleftrightarrow> m = n"
  by (metis number_of_to_string)

lemma to_string_digits: "ch \<in> set (to_string n) \<Longrightarrow> (of_char ch :: nat) \<in> {48 ..< 58}"
proof (induction n rule: to_string.induct)
  case (1 n)
  then show ?case by (subst (asm) (2) to_string.simps) (auto simp: of_char_digit split: if_splits)
qed

lemma to_string_nonempty [simp]: "to_string n \<noteq> []"
  by (subst to_string.simps) simp

text \<open>\<^verbatim>\<open>std::to_string\<close> and \<^verbatim>\<open>%d\<close> of a signed number.\<close>

definition int_to_string :: "int \<Rightarrow> string" where
  "int_to_string i = (if i < 0 then CHR ''-'' # to_string (nat (- i)) else to_string (nat i))"

lemma int_to_string_inject: "int_to_string i = int_to_string j \<longleftrightarrow> i = j"
proof -
  have no: "CHR ''-'' # s \<noteq> to_string n" for s n
  proof
    assume "CHR ''-'' # s = to_string n"
    then have "CHR ''-'' \<in> set (to_string n)" by (metis list.set_intros(1))
    then have "(of_char CHR ''-'' :: nat) \<in> {48 ..< 58}" by (rule to_string_digits)
    then show False by simp
  qed
  show ?thesis using no no [symmetric] by (auto simp: int_to_string_def eq_nat_nat_iff)
qed

section \<open>Blocks of a list\<close>

type_synonym byte = "8 word"

text \<open>\<open>seg i n xs\<close> is the \<open>n\<close> elements of \<open>xs\<close> from index \<open>i\<close>;
  \<open>blit xs i ys\<close> is \<open>xs\<close> with the block \<open>ys\<close> written over it from index \<open>i\<close>.\<close>

definition seg :: "nat \<Rightarrow> nat \<Rightarrow> 'a list \<Rightarrow> 'a list" where
  "seg i n xs = take n (drop i xs)"

definition blit :: "'a list \<Rightarrow> nat \<Rightarrow> 'a list \<Rightarrow> 'a list" where
  "blit xs i ys = take i xs @ ys @ drop (i + length ys) xs"

lemma length_seg [simp]: "length (seg i n xs) = min n (length xs - i)"
  by (simp add: seg_def)

lemma seg_0 [simp]: "seg i 0 xs = []"
  by (simp add: seg_def)

lemma length_blit [simp]: "i + length ys \<le> length xs \<Longrightarrow> length (blit xs i ys) = length xs"
  by (simp add: blit_def)

lemma blit_Nil [simp]: "blit xs i [] = xs"
  by (simp add: blit_def)

lemma nth_seg: "k < n \<Longrightarrow> i + k < length xs \<Longrightarrow> seg i n xs ! k = xs ! (i + k)"
  by (simp add: seg_def)

lemma nth_blit:
  assumes "i + length ys \<le> length xs" and "k < length xs"
  shows "blit xs i ys ! k = (if i \<le> k \<and> k < i + length ys then ys ! (k - i) else xs ! k)"
  using assms by (auto simp: blit_def nth_append)

lemma seg_blit_same:
  assumes "i + length ys \<le> length xs"
  shows "seg i (length ys) (blit xs i ys) = ys"
  using assms by (intro nth_equalityI) (simp_all add: nth_seg nth_blit)

lemma seg_blit_left:
  assumes "i + length ys \<le> length xs" and "j + n \<le> i"
  shows "seg j n (blit xs i ys) = seg j n xs"
  using assms by (intro nth_equalityI) (simp_all add: nth_seg nth_blit)

lemma seg_append_split: "seg i (m + n) xs = seg i m xs @ seg (i + m) n xs"
  by (simp add: seg_def take_add add.commute)

lemma seg_append_left: "i + n \<le> length xs \<Longrightarrow> seg i n (xs @ ys) = seg i n xs"
  by (simp add: seg_def)

lemma take_seg: "m \<le> n \<Longrightarrow> take m (seg i n xs) = seg i m xs"
  by (simp add: seg_def min_def)

lemma drop_seg: "drop m (seg i n xs) = seg (i + m) (n - m) xs"
  by (simp add: seg_def drop_take add.commute)

text \<open>\<^verbatim>\<open>std::copy\<close> from a separate array into a vector, element by element.\<close>

fun copy_in :: "'a list \<Rightarrow> nat \<Rightarrow> 'a list \<Rightarrow> 'a list res" where
  "copy_in dst i [] = Inr dst"
| "copy_in dst i (x # xs) =
     (if i < length dst then copy_in (dst[i := x]) (Suc i) xs else Inl OutOfBounds)"

text \<open>\<^verbatim>\<open>std::copy(v+s, v+s+n, v+d)\<close> inside one vector: a forward loop, so a
  byte already overwritten is read as overwritten.\<close>

fun copy_within :: "'a list \<Rightarrow> nat \<Rightarrow> nat \<Rightarrow> nat \<Rightarrow> 'a list res" where
  "copy_within v s d 0 = Inr v"
| "copy_within v s d (Suc n) =
     (if s < length v \<and> d < length v then copy_within (v[d := v ! s]) (Suc s) (Suc d) n
      else Inl OutOfBounds)"

lemma blit_Cons: "i < length xs \<Longrightarrow> blit (xs[i := y]) (Suc i) ys = blit xs i (y # ys)"
  by (simp add: blit_def take_Suc_conv_app_nth)

lemma copy_in_eq_blit: "i + length ys \<le> length xs \<Longrightarrow> copy_in xs i ys = Inr (blit xs i ys)"
  by (induction xs i ys rule: copy_in.induct) (auto simp: blit_Cons)

lemma seg_Suc: "i < length xs \<Longrightarrow> seg i (Suc n) xs = xs ! i # seg (Suc i) n xs"
  by (simp add: seg_def Cons_nth_drop_Suc [symmetric])

lemma seg_update_left: "j < i \<Longrightarrow> seg i n (xs[j := y]) = seg i n xs"
  by (simp add: seg_def)

text \<open>The forward copy is a block move whenever it moves towards the front.\<close>

lemma copy_within_eq_blit:
  "d \<le> s \<Longrightarrow> s + n \<le> length v \<Longrightarrow> copy_within v s d n = Inr (blit v d (seg s n v))"
proof (induction v s d n rule: copy_within.induct)
  case (2 v s d n)
  then have "copy_within v s d (Suc n)
      = Inr (blit (v[d := v ! s]) (Suc d) (seg (Suc s) n (v[d := v ! s])))"
    by simp
  with 2 show ?case by (simp add: seg_update_left blit_Cons seg_Suc)
qed simp

section \<open>Exchanging and dropping elements\<close>

text \<open>\<^verbatim>\<open>std::swap(v[i], v[j])\<close>, and the idiom \<^verbatim>\<open>swap(v[i], v.back()); v.pop_back()\<close>
  that removes an element without moving the others.\<close>

definition swap_at :: "nat \<Rightarrow> nat \<Rightarrow> 'a list \<Rightarrow> 'a list" where
  "swap_at i j xs = xs[i := xs ! j, j := xs ! i]"

definition swap_pop :: "nat \<Rightarrow> 'a list \<Rightarrow> 'a list" where
  "swap_pop i xs = butlast (swap_at i (length xs - 1) xs)"

lemma length_swap_at [simp]: "length (swap_at i j xs) = length xs"
  by (simp add: swap_at_def)

lemma nth_swap_at:
  "i < length xs \<Longrightarrow> j < length xs \<Longrightarrow> k < length xs \<Longrightarrow>
   swap_at i j xs ! k = (if k = j then xs ! i else if k = i then xs ! j else xs ! k)"
  by (simp add: swap_at_def nth_list_update)

lemma mset_swap_at [simp]:
  "i < length xs \<Longrightarrow> j < length xs \<Longrightarrow> mset (swap_at i j xs) = mset xs"
  using mset_swap [of j xs i] by (simp add: swap_at_def)

lemma set_swap_at [simp]:
  "i < length xs \<Longrightarrow> j < length xs \<Longrightarrow> set (swap_at i j xs) = set xs"
  using mset_swap_at by (metis set_mset_mset)

lemma length_swap_pop [simp]: "length (swap_pop i xs) = length xs - 1"
  by (simp add: swap_pop_def)

lemma nth_swap_pop:
  "i < length xs \<Longrightarrow> k < length xs - 1 \<Longrightarrow>
   swap_pop i xs ! k = (if k = i then last xs else xs ! k)"
  by (cases "xs = []") (auto simp: swap_pop_def nth_butlast nth_swap_at last_conv_nth)

lemma mset_swap_pop:
  assumes "i < length xs"
  shows "add_mset (xs ! i) (mset (swap_pop i xs)) = mset xs"
proof -
  have ne: "swap_at i (length xs - 1) xs \<noteq> []" using assms by (auto simp flip: length_0_conv)
  have "last (swap_at i (length xs - 1) xs) = xs ! i"
    using assms ne by (simp add: last_conv_nth nth_swap_at)
  then have "swap_at i (length xs - 1) xs = swap_pop i xs @ [xs ! i]"
    using ne by (metis append_butlast_last_id swap_pop_def)
  then have "mset (swap_at i (length xs - 1) xs) = add_mset (xs ! i) (mset (swap_pop i xs))"
    by simp
  then show ?thesis using assms by simp
qed

lemma swap_pop_last: "i = length l - 1 \<Longrightarrow> swap_pop i l = butlast l"
  by (simp add: swap_pop_def swap_at_def)

end
