(* ===== verification/Endian.thy ===== *)
theory Endian
  imports Prelude
begin

text \<open>
  Integers in memory and \<^verbatim>\<open>base/Endian.h\<close>. \<open>le_bytes n x\<close> is the object
  representation of an \<open>n\<close>-byte integer on the (little-endian) host, what
  \<^verbatim>\<open>memcpy(p, &x, n)\<close> writes; \<open>word_of_le\<close> reads it back. The conversions of
  \<^verbatim>\<open>Endian.h\<close> only call Boost.Endian, which is not part of the repository: its
  functions are arguments of the model, and \<open>boost_endian\<close> states their documented
  effect on the bytes of an integer.
\<close>

fun le_bytes :: "nat \<Rightarrow> 'a::len word \<Rightarrow> byte list" where
  "le_bytes 0 x = []"
| "le_bytes (Suc n) x = ucast x # le_bytes n (drop_bit 8 x)"

fun word_of_le :: "byte list \<Rightarrow> 'a::len word" where
  "word_of_le [] = 0"
| "word_of_le (b # bs) = or (ucast b) (push_bit 8 (word_of_le bs))"

lemma length_le_bytes [simp]: "length (le_bytes n x) = n"
  by (induction n arbitrary: x) auto

lemma word_of_le_le_bytes: "word_of_le (le_bytes n x) = take_bit (8 * n) (x :: 'a::len word)"
proof (induction n arbitrary: x)
  case (Suc n)
  show ?case
  proof (rule bit_word_eqI)
    fix k assume "k < LENGTH('a)"
    then show "bit (word_of_le (le_bytes (Suc n) x) :: 'a word) k = bit (take_bit (8 * Suc n) x) k"
      by (cases "k < 8") (auto simp: Suc bit_or_iff bit_push_bit_iff bit_drop_bit_eq bit_ucast_iff
          bit_take_bit_iff dest: bit_imp_le_length)
  qed
qed simp

lemma word_of_le_inverse:
  "LENGTH('a::len) \<le> 8 * n \<Longrightarrow> word_of_le (le_bytes n x) = (x :: 'a word)"
  by (simp add: word_of_le_le_bytes take_bit_word_eq_self)

lemma le_bytes_inject:
  "LENGTH('a::len) \<le> 8 * n \<Longrightarrow> le_bytes n x = le_bytes n y \<longleftrightarrow> x = (y :: 'a word)"
  by (metis word_of_le_inverse)

lemma bit_word_of_le_less: "bit (word_of_le bs :: 'a::len word) k \<Longrightarrow> k < 8 * length bs"
proof (induction bs arbitrary: k)
  case (Cons c cs)
  show ?case
  proof (cases "k < 8")
    case False
    with Cons.prems have "bit (word_of_le cs :: 'a word) (k - 8)"
      by (auto simp: bit_or_iff bit_push_bit_iff bit_ucast_iff dest: bit_imp_le_length)
    then have "k - 8 < 8 * length cs" by (rule Cons.IH)
    then show ?thesis by simp
  qed simp
qed simp

lemma le_bytes_word_of_le:
  "length bs = n \<Longrightarrow> 8 * n \<le> LENGTH('a::len) \<Longrightarrow> le_bytes n (word_of_le bs :: 'a word) = bs"
proof (induction bs arbitrary: n)
  case (Cons b bs)
  let ?w = "word_of_le bs :: 'a word"
  have low: "ucast (or (ucast b) (push_bit 8 ?w)) = b"
    by (rule bit_word_eqI) (use Cons.prems in \<open>auto simp: bit_ucast_iff bit_or_iff bit_push_bit_iff\<close>)
  have bnd: "bit ?w k \<Longrightarrow> k < 8 * length bs" for k
    by (rule bit_word_of_le_less)
  have high: "drop_bit 8 (or (ucast b) (push_bit 8 ?w)) = ?w"
    by (rule bit_word_eqI)
      (use Cons.prems in \<open>auto simp: bit_drop_bit_eq bit_or_iff bit_push_bit_iff bit_ucast_iff
        dest: bnd bit_imp_le_length\<close>)
  show ?case using Cons by (cases n) (simp_all add: low high del: drop_bit_or)
qed auto

section \<open>The conversions of Endian.h\<close>

definition NativeToBig :: "('a::len word \<Rightarrow> 'a word) \<Rightarrow> 'a word \<Rightarrow> 'a word" where
  "NativeToBig native_to_big i = native_to_big i"

definition BigToNative :: "('a::len word \<Rightarrow> 'a word) \<Rightarrow> 'a word \<Rightarrow> 'a word" where
  "BigToNative big_to_native big = big_to_native big"

definition NativeToLittle :: "('a::len word \<Rightarrow> 'a word) \<Rightarrow> 'a word \<Rightarrow> 'a word" where
  "NativeToLittle native_to_little i = native_to_little i"

definition LittleToNative :: "('a::len word \<Rightarrow> 'a word) \<Rightarrow> 'a word \<Rightarrow> 'a word" where
  "LittleToNative little_to_native little = little_to_native little"

text \<open>
  What Boost.Endian documents for an \<open>n\<close>-byte integer on a little-endian host: both
  conversions reverse the bytes of the object representation.
\<close>

definition boost_endian :: "nat \<Rightarrow> ('a::len word \<Rightarrow> 'a word) \<Rightarrow> ('a word \<Rightarrow> 'a word) \<Rightarrow> bool" where
  "boost_endian n n2b b2n \<longleftrightarrow>
     (\<forall>x. le_bytes n (n2b x) = rev (le_bytes n x)) \<and> (\<forall>x. le_bytes n (b2n x) = rev (le_bytes n x))"

text \<open>A concrete conversion with that effect, for the witnesses: a byte swap.\<close>

definition byteswap :: "nat \<Rightarrow> 'a::len word \<Rightarrow> 'a word" where
  "byteswap n x = word_of_le (rev (le_bytes n x))"

lemma boost_endian_byteswap:
  "8 * n \<le> LENGTH('a::len) \<Longrightarrow> boost_endian n (byteswap n) (byteswap n :: 'a word \<Rightarrow> 'a word)"
  by (simp add: boost_endian_def byteswap_def le_bytes_word_of_le)

lemma boost_endian_inverse:
  assumes "boost_endian n n2b b2n" and "LENGTH('a::len) \<le> 8 * n"
  shows "b2n (n2b x) = (x :: 'a word)"
proof -
  have "le_bytes n (b2n (n2b x)) = le_bytes n x"
    using assms(1) by (simp add: boost_endian_def)
  with assms(2) show ?thesis by (simp add: le_bytes_inject)
qed

lemma boost_endian_bytes: "boost_endian n n2b b2n \<Longrightarrow> le_bytes n (n2b x) = rev (le_bytes n x)"
  by (simp add: boost_endian_def)

end
