(* ===== verification/ByteQueue.thy ===== *)
theory ByteQueue
  imports Prelude
begin

text \<open>
  The contract between the input and output buffers and the connections that use
  them: a FIFO of bytes. The client appends at the back and retrieves from the front;
  \<open>contents\<close> is the abstraction, \<open>room\<close> how many bytes may still be appended. The
  interpretation on the model of \<^verbatim>\<open>Buffer\<close> is in theory \<open>Buffer\<close>, the client is
  theory \<open>TcpConnection\<close>.
\<close>

locale byte_queue =
  fixes invar :: "'b \<Rightarrow> bool"
    and contents :: "'b \<Rightarrow> byte list"
    and room :: "'b \<Rightarrow> nat"
    and append :: "byte list \<Rightarrow> 'b \<Rightarrow> 'b res"
    and retrieve :: "nat \<Rightarrow> 'b \<Rightarrow> 'b res"
  assumes append_total: "invar b \<Longrightarrow> length d \<le> room b \<Longrightarrow> \<exists>b'. append d b = Inr b'"
    and append_law: "invar b \<Longrightarrow> append d b = Inr b' \<Longrightarrow> invar b' \<and> contents b' = contents b @ d"
    and retrieve_total: "invar b \<Longrightarrow> n \<le> length (contents b) \<Longrightarrow> \<exists>b'. retrieve n b = Inr b'"
    and retrieve_law: "invar b \<Longrightarrow> retrieve n b = Inr b' \<Longrightarrow>
      invar b' \<and> n \<le> length (contents b) \<and> contents b' = drop n (contents b)"
begin

lemma append_invar: "invar b \<Longrightarrow> append d b = Inr b' \<Longrightarrow> invar b'"
  using append_law by blast

lemma append_contents: "invar b \<Longrightarrow> append d b = Inr b' \<Longrightarrow> contents b' = contents b @ d"
  using append_law by blast

lemma retrieve_invar: "invar b \<Longrightarrow> retrieve n b = Inr b' \<Longrightarrow> invar b'"
  using retrieve_law by blast

lemma retrieve_contents: "invar b \<Longrightarrow> retrieve n b = Inr b' \<Longrightarrow> contents b' = drop n (contents b)"
  using retrieve_law by blast

text \<open>What was taken off the front and what is left is what there was.\<close>

lemma retrieve_splits:
  assumes "invar b" and "retrieve n b = Inr b'"
  shows "take n (contents b) @ contents b' = contents b"
  using assms by (simp add: retrieve_contents)

text \<open>One element of a byte stream handed over in two parts, the part that went out at
  once and the part that was queued: nothing is lost, repeated or reordered.\<close>

lemma append_rest_stream:
  assumes "invar b" and "append (drop n d) b = Inr b'" and "contents b = []"
  shows "take n d @ contents b' = d"
  using assms by (simp add: append_contents)

lemma append_stream:
  assumes "invar b" and "append d b = Inr b'"
  shows "out @ contents b' = (out @ contents b) @ d"
  using assms by (simp add: append_contents)

lemma retrieve_stream:
  assumes "invar b" and "retrieve n b = Inr b'"
  shows "(out @ take n (contents b)) @ contents b' = out @ contents b"
  using retrieve_splits [OF assms] by simp

end

end
