(* ===== verification/Buffer.thy ===== *)
theory Buffer
  imports ByteQueue Endian
begin

text \<open>
  The class \<^verbatim>\<open>Buffer\<close> of \<^verbatim>\<open>Buffer.h\<close> and \<^verbatim>\<open>Buffer.cpp\<close>: a vector of bytes with a
  reader and a writer index. Sizes are \<open>nat\<close>: the vector never grows beyond
  \<open>max_size\<close> \<open>= 2^63 - 1\<close> (\<^verbatim>\<open>resize\<close> throws), and the data of a call is an object
  in memory, so no sum of the code reaches \<open>2^64\<close>. Assertions are branches. Shown:
  the index invariant, the contents after every operation, that the two growth
  strategies are indistinguishable from outside, the network-order integer round
  trips, what \<^verbatim>\<open>ReadFd\<close> leaves in the buffer, and the refinement of a byte FIFO.
\<close>

section \<open>State and accessors\<close>

definition kCheapPrepend :: nat where "kCheapPrepend = 8"
definition kInitialSize :: nat where "kInitialSize = 1024"

record buffer =
  buffer_vec :: "byte list"
  readerIndex :: nat
  writerIndex :: nat

definition new_Buffer :: "nat \<Rightarrow> buffer" where
  "new_Buffer initialSize =
     \<lparr>buffer_vec = replicate (kCheapPrepend + initialSize) 0,
      readerIndex = kCheapPrepend, writerIndex = kCheapPrepend\<rparr>"

definition ReadableBytes :: "buffer \<Rightarrow> nat" where
  "ReadableBytes b = writerIndex b - readerIndex b"

definition WriteableBytes :: "buffer \<Rightarrow> nat" where
  "WriteableBytes b = length (buffer_vec b) - writerIndex b"

definition PrependableBytes :: "buffer \<Rightarrow> nat" where
  "PrependableBytes b = readerIndex b"

text \<open>\<^verbatim>\<open>Peek()\<close> is a pointer to the first readable byte: the bytes from there on.\<close>

definition Peek :: "buffer \<Rightarrow> byte list" where
  "Peek b = drop (readerIndex b) (buffer_vec b)"

section \<open>Consuming\<close>

definition RetrieveAll :: "buffer \<Rightarrow> buffer" where
  "RetrieveAll b = b\<lparr>readerIndex := kCheapPrepend, writerIndex := kCheapPrepend\<rparr>"

definition Retrieve :: "nat \<Rightarrow> buffer \<Rightarrow> buffer res" where
  "Retrieve len b = ensure (len \<le> ReadableBytes b)
     (Inr (if len < ReadableBytes b then b\<lparr>readerIndex := readerIndex b + len\<rparr>
           else RetrieveAll b))"

definition RetrieveAsString :: "nat \<Rightarrow> buffer \<Rightarrow> (byte list \<times> buffer) res" where
  "RetrieveAsString len b = ensure (len \<le> ReadableBytes b)
     (mapR (Pair (take len (Peek b))) (Retrieve len b))"

definition RetrieveAllAsString :: "buffer \<Rightarrow> (byte list \<times> buffer) res" where
  "RetrieveAllAsString b = RetrieveAsString (ReadableBytes b) b"

section \<open>Producing\<close>

definition max_size :: nat where "max_size = 2 ^ 63 - 1"

definition vec_resize :: "nat \<Rightarrow> byte list \<Rightarrow> byte list res" where
  "vec_resize n v = (if max_size < n then Inl LengthError
     else Inr (take n v @ replicate (n - length v) 0))"

definition BroadenSpace :: "nat \<Rightarrow> buffer \<Rightarrow> buffer res" where
  "BroadenSpace len b =
     (if WriteableBytes b + PrependableBytes b < len + kCheapPrepend
      then mapR (\<lambda>v. b\<lparr>buffer_vec := v\<rparr>) (vec_resize (writerIndex b + len) (buffer_vec b))
      else ensure (kCheapPrepend < readerIndex b)
        (let readable = ReadableBytes b
         in bindR (copy_within (buffer_vec b) (readerIndex b) kCheapPrepend
                     (writerIndex b - readerIndex b))
            (\<lambda>v. let b' = \<lparr>buffer_vec = v, readerIndex = kCheapPrepend,
                          writerIndex = kCheapPrepend + readable\<rparr>
                 in ensure (readable = ReadableBytes b') (Inr b'))))"

definition EnsureWriteableBytes :: "nat \<Rightarrow> buffer \<Rightarrow> buffer res" where
  "EnsureWriteableBytes len b =
     bindR (if WriteableBytes b < len then BroadenSpace len b else Inr b)
       (\<lambda>b'. ensure (len \<le> WriteableBytes b') (Inr b'))"

definition HasWritten :: "nat \<Rightarrow> buffer \<Rightarrow> buffer res" where
  "HasWritten len b = ensure (len \<le> WriteableBytes b)
     (Inr (b\<lparr>writerIndex := writerIndex b + len\<rparr>))"

definition Append :: "byte list \<Rightarrow> buffer \<Rightarrow> buffer res" where
  "Append data b =
     bindR (EnsureWriteableBytes (length data) b) (\<lambda>b1.
     bindR (copy_in (buffer_vec b1) (writerIndex b1) data) (\<lambda>v.
     HasWritten (length data) (b1\<lparr>buffer_vec := v\<rparr>)))"

definition Prepend :: "byte list \<Rightarrow> buffer \<Rightarrow> buffer res" where
  "Prepend data b = ensure (length data \<le> PrependableBytes b)
     (let r = readerIndex b - length data
      in mapR (\<lambda>v. b\<lparr>buffer_vec := v, readerIndex := r\<rparr>) (copy_in (buffer_vec b) r data))"

section \<open>Reading from a descriptor\<close>

text \<open>
  What \<^verbatim>\<open>readv(2)\<close> did is an argument: it failed with an \<^verbatim>\<open>errno\<close>, or it delivered
  bytes, which fill the first block of the vector before the second. The second block is
  the 64 KiB array on the stack, offered only when the buffer has less room than that.
\<close>

datatype readv_result = ReadvError int | ReadvData "byte list"

definition extrabuf_size :: nat where "extrabuf_size = 65536"

definition iov_capacity :: "buffer \<Rightarrow> nat" where
  "iov_capacity b = (if WriteableBytes b < extrabuf_size then WriteableBytes b + extrabuf_size
     else WriteableBytes b)"

fun ReadFd :: "readv_result \<Rightarrow> buffer \<Rightarrow> (int \<times> int option \<times> buffer) res" where
  "ReadFd (ReadvError e) b = Inr (-1, Some e, b)"
| "ReadFd (ReadvData d) b =
     (let writable = WriteableBytes b; n = length d
      in if iov_capacity b < n then Inl OutOfBounds
      else bindR (copy_in (buffer_vec b) (writerIndex b) (take writable d)) (\<lambda>v.
        let b1 = b\<lparr>buffer_vec := v\<rparr>; extrabuf = drop writable d
        in if n \<le> writable then Inr (int n, None, b1\<lparr>writerIndex := writerIndex b1 + n\<rparr>)
        else mapR (\<lambda>b2. (int n, None, b2))
               (Append (take (n - writable) extrabuf)
                  (b1\<lparr>writerIndex := length (buffer_vec b1)\<rparr>))))"

fun read_bytes :: "readv_result \<Rightarrow> byte list" where
  "read_bytes (ReadvError e) = []"
| "read_bytes (ReadvData d) = d"

section \<open>Integers in network byte order\<close>

definition append_int :: "nat \<Rightarrow> ('a::len word \<Rightarrow> 'a word) \<Rightarrow> 'a word \<Rightarrow> buffer \<Rightarrow> buffer res" where
  "append_int n n2b x b = Append (le_bytes n (NativeToBig n2b x)) b"

definition peek_int :: "nat \<Rightarrow> ('a::len word \<Rightarrow> 'a word) \<Rightarrow> buffer \<Rightarrow> 'a word res" where
  "peek_int n b2n b = ensure (n \<le> ReadableBytes b)
     (Inr (BigToNative b2n (word_of_le (take n (Peek b)))))"

definition read_int :: "nat \<Rightarrow> ('a::len word \<Rightarrow> 'a word) \<Rightarrow> buffer \<Rightarrow> ('a word \<times> buffer) res" where
  "read_int n b2n b = bindR (peek_int n b2n b) (\<lambda>x. mapR (Pair x) (Retrieve n b))"

definition prepend_int :: "nat \<Rightarrow> ('a::len word \<Rightarrow> 'a word) \<Rightarrow> 'a word \<Rightarrow> buffer \<Rightarrow> buffer res" where
  "prepend_int n n2b x b = Prepend (le_bytes n (NativeToBig n2b x)) b"

definition AppendInt64 :: "(64 word \<Rightarrow> 64 word) \<Rightarrow> 64 word \<Rightarrow> buffer \<Rightarrow> buffer res" where
  "AppendInt64 = append_int 8"
definition AppendInt32 :: "(32 word \<Rightarrow> 32 word) \<Rightarrow> 32 word \<Rightarrow> buffer \<Rightarrow> buffer res" where
  "AppendInt32 = append_int 4"
definition AppendInt16 :: "(16 word \<Rightarrow> 16 word) \<Rightarrow> 16 word \<Rightarrow> buffer \<Rightarrow> buffer res" where
  "AppendInt16 = append_int 2"
definition AppendInt8 :: "8 word \<Rightarrow> buffer \<Rightarrow> buffer res" where
  "AppendInt8 x b = Append [x] b"

definition PeekInt64 :: "(64 word \<Rightarrow> 64 word) \<Rightarrow> buffer \<Rightarrow> 64 word res" where
  "PeekInt64 = peek_int 8"
definition PeekInt32 :: "(32 word \<Rightarrow> 32 word) \<Rightarrow> buffer \<Rightarrow> 32 word res" where
  "PeekInt32 = peek_int 4"
definition PeekInt16 :: "(16 word \<Rightarrow> 16 word) \<Rightarrow> buffer \<Rightarrow> 16 word res" where
  "PeekInt16 = peek_int 2"
definition PeekInt8 :: "buffer \<Rightarrow> 8 word res" where
  "PeekInt8 b = ensure (1 \<le> ReadableBytes b) (Inr (hd (Peek b)))"

definition ReadInt64 :: "(64 word \<Rightarrow> 64 word) \<Rightarrow> buffer \<Rightarrow> (64 word \<times> buffer) res" where
  "ReadInt64 = read_int 8"
definition ReadInt32 :: "(32 word \<Rightarrow> 32 word) \<Rightarrow> buffer \<Rightarrow> (32 word \<times> buffer) res" where
  "ReadInt32 = read_int 4"
definition ReadInt16 :: "(16 word \<Rightarrow> 16 word) \<Rightarrow> buffer \<Rightarrow> (16 word \<times> buffer) res" where
  "ReadInt16 = read_int 2"
definition ReadInt8 :: "buffer \<Rightarrow> (8 word \<times> buffer) res" where
  "ReadInt8 b = bindR (PeekInt8 b) (\<lambda>x. mapR (Pair x) (Retrieve 1 b))"

text \<open>The short-cuts that take an integer out; the readers are a look and such a step.\<close>

definition RetrieveInt64 :: "buffer \<Rightarrow> buffer res" where
  "RetrieveInt64 = Retrieve 8"
definition RetrieveInt32 :: "buffer \<Rightarrow> buffer res" where
  "RetrieveInt32 = Retrieve 4"
definition RetrieveInt16 :: "buffer \<Rightarrow> buffer res" where
  "RetrieveInt16 = Retrieve 2"
definition RetrieveInt8 :: "buffer \<Rightarrow> buffer res" where
  "RetrieveInt8 = Retrieve 1"

lemma ReadInt_steps:
  "ReadInt64 f b = bindR (PeekInt64 f b) (\<lambda>x. mapR (Pair x) (RetrieveInt64 b))"
  "ReadInt32 g b = bindR (PeekInt32 g b) (\<lambda>x. mapR (Pair x) (RetrieveInt32 b))"
  "ReadInt16 h b = bindR (PeekInt16 h b) (\<lambda>x. mapR (Pair x) (RetrieveInt16 b))"
  "ReadInt8 b = bindR (PeekInt8 b) (\<lambda>x. mapR (Pair x) (RetrieveInt8 b))"
  by (simp_all add: ReadInt64_def ReadInt32_def ReadInt16_def ReadInt8_def read_int_def PeekInt64_def PeekInt32_def
      PeekInt16_def RetrieveInt64_def RetrieveInt32_def RetrieveInt16_def RetrieveInt8_def)

definition PrependInt64 :: "(64 word \<Rightarrow> 64 word) \<Rightarrow> 64 word \<Rightarrow> buffer \<Rightarrow> buffer res" where
  "PrependInt64 = prepend_int 8"
definition PrependInt32 :: "(32 word \<Rightarrow> 32 word) \<Rightarrow> 32 word \<Rightarrow> buffer \<Rightarrow> buffer res" where
  "PrependInt32 = prepend_int 4"
definition PrependInt16 :: "(16 word \<Rightarrow> 16 word) \<Rightarrow> 16 word \<Rightarrow> buffer \<Rightarrow> buffer res" where
  "PrependInt16 = prepend_int 2"
definition PrependIntInt8 :: "8 word \<Rightarrow> buffer \<Rightarrow> buffer res" where
  "PrependIntInt8 x b = Prepend [x] b"

section \<open>Invariant and abstraction\<close>

definition buf_ok :: "buffer \<Rightarrow> bool" where
  "buf_ok b \<longleftrightarrow> readerIndex b \<le> writerIndex b \<and> writerIndex b \<le> length (buffer_vec b)
     \<and> kCheapPrepend \<le> writerIndex b \<and> length (buffer_vec b) \<le> max_size"

definition contents :: "buffer \<Rightarrow> byte list" where
  "contents b = seg (readerIndex b) (ReadableBytes b) (buffer_vec b)"

definition room :: "buffer \<Rightarrow> nat" where
  "room b = max_size - writerIndex b"

lemmas buf_sizes = ReadableBytes_def WriteableBytes_def PrependableBytes_def room_def

lemma buf_okD:
  assumes "buf_ok b"
  shows "readerIndex b \<le> writerIndex b" "writerIndex b \<le> length (buffer_vec b)"
    "kCheapPrepend \<le> writerIndex b" "length (buffer_vec b) \<le> max_size"
  using assms by (simp_all add: buf_ok_def)

lemma length_contents: "buf_ok b \<Longrightarrow> length (contents b) = ReadableBytes b"
  by (auto simp: contents_def buf_ok_def buf_sizes)

lemma contents_at:
  "contents \<lparr>buffer_vec = v, readerIndex = r, writerIndex = r + n\<rparr> = seg r n v"
  by (simp add: contents_def ReadableBytes_def)

lemma take_Peek: "n \<le> ReadableBytes b \<Longrightarrow> take n (Peek b) = take n (contents b)"
  by (simp add: Peek_def contents_def seg_def min_def)

lemma buf_ok_new: "kCheapPrepend + n \<le> max_size \<Longrightarrow> buf_ok (new_Buffer n)"
  by (simp add: buf_ok_def new_Buffer_def)

lemma contents_new [simp]: "contents (new_Buffer n) = []"
  by (simp add: contents_def new_Buffer_def ReadableBytes_def)

subsection \<open>Consuming\<close>

lemma RetrieveAll_ok: "buf_ok b \<Longrightarrow> buf_ok (RetrieveAll b)"
  by (simp add: buf_ok_def RetrieveAll_def)

lemma contents_RetrieveAll [simp]: "contents (RetrieveAll b) = []"
  by (simp add: contents_def RetrieveAll_def ReadableBytes_def)

lemma Retrieve_total: "n \<le> ReadableBytes b \<Longrightarrow> \<exists>b'. Retrieve n b = Inr b'"
  by (simp add: Retrieve_def)

lemma Retrieve_too_long: "ReadableBytes b < n \<Longrightarrow> Retrieve n b = Inl AssertFail"
  by (simp add: Retrieve_def)

lemma Retrieve_Inr:
  assumes "buf_ok b" and "Retrieve n b = Inr b'"
  shows "buf_ok b' \<and> n \<le> length (contents b) \<and> contents b' = drop n (contents b)"
proof -
  from assms(2) have n: "n \<le> ReadableBytes b"
    and b': "b' = (if n < ReadableBytes b then b\<lparr>readerIndex := readerIndex b + n\<rparr>
           else RetrieveAll b)"
    by (auto simp: Retrieve_def res_iffs)
  show ?thesis
  proof (cases "n < ReadableBytes b")
    case True
    with assms(1) n b' show ?thesis
      by (auto simp: length_contents buf_ok_def buf_sizes contents_def drop_seg)
  next
    case False
    with assms(1) n b' show ?thesis
      by (simp add: length_contents RetrieveAll_ok)
  qed
qed

lemma RetrieveAsString_eq:
  assumes "buf_ok b" and "n \<le> ReadableBytes b"
  shows "\<exists>b'. RetrieveAsString n b = Inr (take n (contents b), b') \<and> buf_ok b'
     \<and> contents b' = drop n (contents b)"
proof -
  obtain b' where b': "Retrieve n b = Inr b'" using Retrieve_total assms(2) by blast
  with Retrieve_Inr [OF assms(1) b'] assms(2) show ?thesis
    by (simp add: RetrieveAsString_def take_Peek)
qed

subsection \<open>Producing\<close>

lemma vec_resize_grow:
  "length v \<le> n \<Longrightarrow> n \<le> max_size \<Longrightarrow> vec_resize n v = Inr (v @ replicate (n - length v) 0)"
  by (simp add: vec_resize_def)

lemma BroadenSpace_grow:
  assumes "buf_ok b" and "WriteableBytes b < len"
    and "WriteableBytes b + PrependableBytes b < len + kCheapPrepend"
    and "writerIndex b + len \<le> max_size"
  shows "BroadenSpace len b = Inr (b\<lparr>buffer_vec :=
     buffer_vec b @ replicate (writerIndex b + len - length (buffer_vec b)) 0\<rparr>)"
  using assms by (simp add: BroadenSpace_def vec_resize_grow buf_ok_def WriteableBytes_def)

lemma BroadenSpace_move:
  assumes "buf_ok b" and "WriteableBytes b < len"
    and "\<not> WriteableBytes b + PrependableBytes b < len + kCheapPrepend"
  shows "BroadenSpace len b = Inr \<lparr>buffer_vec = blit (buffer_vec b) kCheapPrepend (contents b),
     readerIndex = kCheapPrepend, writerIndex = kCheapPrepend + ReadableBytes b\<rparr>"
proof -
  have lt: "kCheapPrepend < readerIndex b" using assms by (simp add: buf_sizes)
  moreover have "copy_within (buffer_vec b) (readerIndex b) kCheapPrepend (ReadableBytes b)
      = Inr (blit (buffer_vec b) kCheapPrepend (contents b))"
    unfolding contents_def using lt assms(1)
    by (intro copy_within_eq_blit) (auto simp: buf_ok_def buf_sizes)
  ultimately show ?thesis
    using assms(3) by (simp add: BroadenSpace_def ReadableBytes_def [symmetric])
      (simp add: ReadableBytes_def)
qed

lemma BroadenSpace_Inr:
  assumes "buf_ok b" and "WriteableBytes b < len" and "BroadenSpace len b = Inr b'"
  shows "buf_ok b' \<and> contents b' = contents b \<and> len \<le> WriteableBytes b'"
proof (cases "WriteableBytes b + PrependableBytes b < len + kCheapPrepend")
  case True
  have "writerIndex b + len \<le> max_size"
    using assms(3) True by (auto simp: BroadenSpace_def vec_resize_def split: if_splits)
  with BroadenSpace_grow assms True show ?thesis
    by (auto simp: buf_ok_def contents_def buf_sizes seg_append_left)
next
  case False
  have fits: "kCheapPrepend + length (contents b) \<le> length (buffer_vec b)"
    using assms(1,2) False by (simp add: length_contents) (auto simp: buf_ok_def buf_sizes)
  have b': "b' = \<lparr>buffer_vec = blit (buffer_vec b) kCheapPrepend (contents b),
     readerIndex = kCheapPrepend, writerIndex = kCheapPrepend + ReadableBytes b\<rparr>"
    using BroadenSpace_move [OF assms(1,2) False] assms(3) by simp
  have "contents b' = contents b"
    using seg_blit_same [OF fits] length_contents [OF assms(1)] by (simp add: b' contents_at)
  moreover have "buf_ok b'" "len \<le> WriteableBytes b'"
    using fits assms(1) False length_contents [OF assms(1)]
    by (auto simp: b' buf_ok_def buf_sizes)
  ultimately show ?thesis by blast
qed

lemma BroadenSpace_total:
  assumes "buf_ok b" and "WriteableBytes b < len" and "len \<le> room b"
  shows "\<exists>b'. BroadenSpace len b = Inr b'"
  using assms BroadenSpace_grow BroadenSpace_move
  by (cases "WriteableBytes b + PrependableBytes b < len + kCheapPrepend")
    (auto simp: room_def buf_ok_def)

lemma EnsureWriteableBytes_Inr:
  assumes "buf_ok b" and "EnsureWriteableBytes len b = Inr b'"
  shows "buf_ok b' \<and> contents b' = contents b \<and> len \<le> WriteableBytes b'"
  using assms BroadenSpace_Inr [OF assms(1)]
  by (auto simp: EnsureWriteableBytes_def res_iffs split: if_splits)

lemma EnsureWriteableBytes_total:
  assumes "buf_ok b" and "len \<le> room b"
  shows "\<exists>b'. EnsureWriteableBytes len b = Inr b'"
proof (cases "WriteableBytes b < len")
  case True
  then obtain b' where "BroadenSpace len b = Inr b'"
    using BroadenSpace_total assms by blast
  with BroadenSpace_Inr [OF assms(1) True this] True show ?thesis
    by (simp add: EnsureWriteableBytes_def)
qed (simp add: EnsureWriteableBytes_def)

text \<open>Writing a block at the writer index, what \<^verbatim>\<open>Append\<close> and \<^verbatim>\<open>ReadFd\<close> share.\<close>

lemma write_block:
  assumes "buf_ok b" and "length d \<le> WriteableBytes b"
  defines "b' \<equiv> b\<lparr>buffer_vec := blit (buffer_vec b) (writerIndex b) d,
     writerIndex := writerIndex b + length d\<rparr>"
  shows "buf_ok b' \<and> contents b' = contents b @ d"
proof -
  have fit: "writerIndex b + length d \<le> length (buffer_vec b)" "readerIndex b \<le> writerIndex b"
    using assms(1,2) by (auto simp: buf_ok_def buf_sizes)
  let ?v = "blit (buffer_vec b) (writerIndex b) d"
  have "ReadableBytes b' = ReadableBytes b + length d"
    using fit by (simp add: b'_def ReadableBytes_def)
  then have "contents b' = seg (readerIndex b) (ReadableBytes b + length d) ?v"
    by (simp add: contents_def b'_def)
  also have "\<dots> = seg (readerIndex b) (ReadableBytes b) ?v @ seg (writerIndex b) (length d) ?v"
    using fit(2) by (simp only: seg_append_split) (simp add: ReadableBytes_def)
  also have "\<dots> = contents b @ d"
    using fit by (simp add: seg_blit_same seg_blit_left contents_def ReadableBytes_def)
  finally show ?thesis
    using assms(1) fit by (simp add: buf_ok_def b'_def)
qed

lemma Append_eq:
  assumes "buf_ok b" and "EnsureWriteableBytes (length d) b = Inr b1"
  shows "Append d b = Inr (b1\<lparr>buffer_vec := blit (buffer_vec b1) (writerIndex b1) d,
     writerIndex := writerIndex b1 + length d\<rparr>)"
proof -
  have "buf_ok b1" "length d \<le> WriteableBytes b1"
    using EnsureWriteableBytes_Inr [OF assms] by blast+
  then have "writerIndex b1 + length d \<le> length (buffer_vec b1)"
    by (auto simp: buf_ok_def buf_sizes)
  then show ?thesis
    by (simp add: Append_def assms(2) copy_in_eq_blit HasWritten_def WriteableBytes_def)
qed

lemma Append_Inr:
  assumes "buf_ok b" and "Append d b = Inr b'"
  shows "buf_ok b' \<and> contents b' = contents b @ d"
proof -
  obtain b1 where b1: "EnsureWriteableBytes (length d) b = Inr b1"
    using assms(2) by (auto simp: Append_def res_iffs)
  note ok = EnsureWriteableBytes_Inr [OF assms(1) b1]
  from write_block [of b1 d] ok Append_eq [OF assms(1) b1] assms(2) show ?thesis by auto
qed

lemma Append_total:
  assumes "buf_ok b" and "length d \<le> room b"
  shows "\<exists>b'. Append d b = Inr b'"
  using EnsureWriteableBytes_total [OF assms] Append_eq [OF assms(1)] by blast

text \<open>The writer index never moves further than the bytes appended, so the room left is
  at least the room there was less those bytes.\<close>

lemma Append_writerIndex:
  assumes "buf_ok b" and "Append d b = Inr b'"
  shows "writerIndex b' \<le> writerIndex b + length d"
proof -
  obtain b1 where b1: "EnsureWriteableBytes (length d) b = Inr b1"
    using assms(2) by (auto simp: Append_def res_iffs)
  have "writerIndex b1 \<le> writerIndex b"
  proof (cases "WriteableBytes b < length d")
    case True
    then have B: "BroadenSpace (length d) b = Inr b1"
      using b1 by (auto simp: EnsureWriteableBytes_def res_iffs)
    show ?thesis
    proof (cases "WriteableBytes b + PrependableBytes b < length d + kCheapPrepend")
      case True
      then show ?thesis using B by (auto simp: BroadenSpace_def res_iffs)
    next
      case False
      with BroadenSpace_move [OF assms(1) \<open>WriteableBytes b < length d\<close>] B assms(1)
        \<open>WriteableBytes b < length d\<close>
      show ?thesis by (auto simp: buf_ok_def buf_sizes)
    qed
  next
    case False
    then show ?thesis using b1 by (auto simp: EnsureWriteableBytes_def res_iffs)
  qed
  then show ?thesis using Append_eq [OF assms(1) b1] assms(2) by auto
qed

lemma Retrieve_writerIndex: "buf_ok b \<Longrightarrow> Retrieve n b = Inr b' \<Longrightarrow> writerIndex b' \<le> writerIndex b"
  by (auto simp: Retrieve_def res_iffs RetrieveAll_def buf_ok_def)

text \<open>How much memory an append takes: none while the free bytes before and behind the
  contents are enough, otherwise exactly what the writer index needs.\<close>

lemma Append_size:
  assumes "buf_ok b" and "Append d b = Inr b'"
  shows "length (buffer_vec b') =
    (if WriteableBytes b < length d \<and>
        WriteableBytes b + PrependableBytes b < length d + kCheapPrepend
     then writerIndex b + length d else length (buffer_vec b))"
proof -
  obtain b1 where b1: "EnsureWriteableBytes (length d) b = Inr b1"
    using assms(2) by (auto simp: Append_def res_iffs)
  have ok: "buf_ok b1" "length d \<le> WriteableBytes b1"
    using EnsureWriteableBytes_Inr [OF assms(1) b1] by blast+
  then have "length (buffer_vec b') = length (buffer_vec b1)"
    using Append_eq [OF assms(1) b1] assms(2) by (auto simp: buf_ok_def buf_sizes)
  also have "\<dots> = (if WriteableBytes b < length d \<and>
        WriteableBytes b + PrependableBytes b < length d + kCheapPrepend
     then writerIndex b + length d else length (buffer_vec b))"
  proof (cases "WriteableBytes b < length d")
    case True
    then have B: "BroadenSpace (length d) b = Inr b1"
      using b1 by (auto simp: EnsureWriteableBytes_def res_iffs)
    show ?thesis
    proof (cases "WriteableBytes b + PrependableBytes b < length d + kCheapPrepend")
      case T: True
      then have "writerIndex b + length d \<le> max_size"
        using B by (auto simp: BroadenSpace_def vec_resize_def split: if_splits)
      with BroadenSpace_grow [OF assms(1) True T] B T True assms(1)
      show ?thesis by (auto simp: buf_ok_def buf_sizes)
    next
      case F: False
      then have "kCheapPrepend + length (contents b) \<le> length (buffer_vec b)"
        using assms(1) True by (simp add: length_contents) (auto simp: buf_ok_def buf_sizes)
      with BroadenSpace_move [OF assms(1) True F] B F show ?thesis by auto
    qed
  next
    case False
    then show ?thesis using b1 by (auto simp: EnsureWriteableBytes_def res_iffs)
  qed
  finally show ?thesis .
qed

subsection \<open>Prepending\<close>

lemma Prepend_Inr:
  assumes "buf_ok b" and "length d \<le> PrependableBytes b"
  shows "\<exists>b'. Prepend d b = Inr b' \<and> buf_ok b' \<and> contents b' = d @ contents b
    \<and> writerIndex b' = writerIndex b"
proof -
  let ?r = "readerIndex b - length d" and ?v = "buffer_vec b"
  have fit: "?r + length d = readerIndex b" "readerIndex b \<le> length ?v"
    "readerIndex b \<le> writerIndex b" "writerIndex b \<le> length ?v"
    using assms by (auto simp: buf_ok_def buf_sizes)
  then have P: "Prepend d b = Inr (b\<lparr>buffer_vec := blit ?v ?r d, readerIndex := ?r\<rparr>)"
    using assms(2) by (simp add: Prepend_def Let_def copy_in_eq_blit)
  have "seg (readerIndex b) n (blit ?v ?r d) = seg (readerIndex b) n ?v" for n
    using fit by (simp add: seg_def blit_def)
  moreover have "writerIndex b - ?r = length d + ReadableBytes b"
    using fit by (simp add: ReadableBytes_def)
  ultimately have "contents (b\<lparr>buffer_vec := blit ?v ?r d, readerIndex := ?r\<rparr>) = d @ contents b"
    using fit by (simp add: contents_def ReadableBytes_def [of "b\<lparr>buffer_vec := _, readerIndex := _\<rparr>"]
        seg_append_split seg_blit_same)
  with P fit assms show ?thesis by (auto simp: buf_ok_def)
qed

lemma Prepend_too_long: "PrependableBytes b < length d \<Longrightarrow> Prepend d b = Inl AssertFail"
  by (simp add: Prepend_def)

subsection \<open>Reading from a descriptor\<close>

lemma ReadFd_in_place:
  assumes "buf_ok b" and "length d \<le> WriteableBytes b"
  shows "\<exists>b'. ReadFd (ReadvData d) b = Inr (int (length d), None, b') \<and> buf_ok b'
    \<and> contents b' = contents b @ d \<and> length (buffer_vec b') = length (buffer_vec b)"
proof -
  have fit: "writerIndex b + length d \<le> length (buffer_vec b)"
    using assms by (auto simp: buf_ok_def buf_sizes)
  then show ?thesis
    using write_block [OF assms] assms(2)
    by (simp add: copy_in_eq_blit Let_def iov_capacity_def)
qed

lemma ReadFd_overflow:
  assumes "buf_ok b" and "WriteableBytes b < length d" and "length d \<le> iov_capacity b"
    and "length d \<le> room b"
  shows "\<exists>b'. ReadFd (ReadvData d) b = Inr (int (length d), None, b') \<and> buf_ok b'
    \<and> contents b' = contents b @ d"
proof -
  let ?w = "WriteableBytes b" and ?hd = "take (WriteableBytes b) d" and ?tl = "drop (WriteableBytes b) d"
  let ?b1 = "b\<lparr>buffer_vec := blit (buffer_vec b) (writerIndex b) ?hd,
     writerIndex := writerIndex b + length ?hd\<rparr>"
  have fit: "writerIndex b + length ?hd = length (buffer_vec b)"
    using assms(1,2) by (auto simp: buf_ok_def buf_sizes)
  have b1: "buf_ok ?b1" "contents ?b1 = contents b @ ?hd"
    using write_block [OF assms(1), of ?hd] by simp_all
  have "length ?tl \<le> room ?b1"
    using assms(4) fit by (simp add: room_def)
  then obtain b' where b': "Append ?tl ?b1 = Inr b'"
    using Append_total [OF b1(1)] by blast
  have "ReadFd (ReadvData d) b = Inr (int (length d), None, b')"
    using assms(2,3) fit b' by (simp add: Let_def copy_in_eq_blit)
  with Append_Inr [OF b1(1) b'] b1(2) show ?thesis by simp
qed

lemma ReadFd_ok:
  assumes "buf_ok b" and "length d \<le> iov_capacity b" and "length d \<le> room b"
  shows "(\<exists>b'. ReadFd (ReadvData d) b = Inr (int (length d), None, b') \<and> buf_ok b'
      \<and> contents b' = contents b @ d) \<and> ReadFd (ReadvError e) b = Inr (-1, Some e, b)"
proof (cases "length d \<le> WriteableBytes b")
  case True
  with ReadFd_in_place [OF assms(1)] show ?thesis by auto
next
  case False
  with ReadFd_overflow [OF assms(1) _ assms(2,3)] show ?thesis by simp
qed

lemma ReadFd_writerIndex:
  assumes "buf_ok b" and "ReadFd rr b = Inr (ret, e, b')"
  shows "writerIndex b' \<le> writerIndex b + length (read_bytes rr)"
proof (cases rr)
  case (ReadvData d)
  let ?w = "WriteableBytes b" and ?hd = "take (WriteableBytes b) d"
  let ?b1 = "b\<lparr>buffer_vec := blit (buffer_vec b) (writerIndex b) ?hd, writerIndex := writerIndex b + length ?hd\<rparr>"
  have fit: "writerIndex b + ?w = length (buffer_vec b)" using assms(1) by (auto simp: buf_ok_def buf_sizes)
  have b1: "buf_ok ?b1" using write_block [OF assms(1), of ?hd] by simp
  show ?thesis
  proof (cases "length d \<le> ?w")
    case True
    with assms(2) ReadvData fit show ?thesis by (auto simp: Let_def copy_in_eq_blit split: if_splits)
  next
    case False
    with assms(2) ReadvData fit have "Append (drop ?w d) ?b1 = Inr b'"
      by (auto simp: Let_def copy_in_eq_blit res_iffs split: if_splits)
    with Append_writerIndex [OF b1] False ReadvData fit show ?thesis by fastforce
  qed
qed (use assms(2) in simp)

subsection \<open>Integers\<close>

lemma read_int_contents:
  assumes "buf_ok b" and "contents b = le_bytes n (n2b x) @ rest"
    and "boost_endian n n2b b2n" and "LENGTH('a::len) \<le> 8 * n"
  shows "\<exists>b'. read_int n b2n b = Inr (x :: 'a word, b') \<and> buf_ok b' \<and> contents b' = rest"
proof -
  have n: "n \<le> ReadableBytes b"
    using length_contents [OF assms(1)] assms(2) by (metis le_add1 length_append length_le_bytes)
  then obtain b' where b': "Retrieve n b = Inr b'" using Retrieve_total by blast
  have "peek_int n b2n b = Inr x"
    using n assms(2) boost_endian_inverse [OF assms(3,4)]
    by (simp add: peek_int_def take_Peek BigToNative_def word_of_le_inverse [OF assms(4)])
  with b' Retrieve_Inr [OF assms(1) b'] assms(2) show ?thesis
    by (simp add: read_int_def)
qed

lemma read_int_short: "ReadableBytes b < n \<Longrightarrow> read_int n b2n b = Inl AssertFail"
  by (simp add: read_int_def peek_int_def)

lemma read_int_ok: "n \<le> ReadableBytes b \<Longrightarrow> \<exists>y. read_int n b2n b = Inr y"
  using Retrieve_total [of n b] by (auto simp: read_int_def peek_int_def)

lemma read_int_AssertFail_iff: "read_int n f b = Inl AssertFail \<longleftrightarrow> ReadableBytes b < n"
  using read_int_short [of b n f] read_int_ok [of n b f] by (cases "ReadableBytes b < n") auto

section \<open>The buffer implements a byte FIFO\<close>

interpretation buffer_queue: byte_queue buf_ok contents room Append Retrieve
proof unfold_locales
  fix b and d :: "byte list" assume "buf_ok b" and "length d \<le> room b"
  then show "\<exists>b'. Append d b = Inr b'" by (rule Append_total)
next
  fix b b' and d :: "byte list" assume "buf_ok b" and "Append d b = Inr b'"
  then show "buf_ok b' \<and> contents b' = contents b @ d" by (rule Append_Inr)
next
  fix b n assume "buf_ok b" and "n \<le> length (contents b)"
  then show "\<exists>b'. Retrieve n b = Inr b'" by (simp add: length_contents Retrieve_total)
next
  fix b n b' assume "buf_ok b" and "Retrieve n b = Inr b'"
  then show "buf_ok b' \<and> n \<le> length (contents b) \<and> contents b' = drop n (contents b)"
    by (rule Retrieve_Inr)
qed

text \<open>Sequences of calls, and the same sequence on a plain list of bytes.\<close>

datatype buf_op = OpAppend "byte list" | OpRetrieve nat | OpRetrieveAll | OpRetrieveAsString nat | OpReadFd readv_result

fun buf_step :: "buf_op \<Rightarrow> buffer \<Rightarrow> (byte list \<times> buffer) res" where
  "buf_step (OpAppend d) b = mapR (Pair []) (Append d b)"
| "buf_step (OpRetrieve n) b = mapR (Pair []) (Retrieve n b)"
| "buf_step OpRetrieveAll b = Inr ([], RetrieveAll b)"
| "buf_step (OpRetrieveAsString n) b = RetrieveAsString n b"
| "buf_step (OpReadFd rr) b = mapR (\<lambda>(ret, savedErrno, b1). ([], b1)) (ReadFd rr b)"

fun buf_run :: "buf_op list \<Rightarrow> buffer \<Rightarrow> (byte list \<times> buffer) res" where
  "buf_run [] b = Inr ([], b)"
| "buf_run (x # xs) b = bindR (buf_step x b) (\<lambda>(out, b1).
     mapR (\<lambda>(outs, b2). (out @ outs, b2)) (buf_run xs b1))"

fun fifo_step :: "buf_op \<Rightarrow> byte list \<Rightarrow> (byte list \<times> byte list) option" where
  "fifo_step (OpAppend d) q = Some ([], q @ d)"
| "fifo_step (OpRetrieve n) q = (if n \<le> length q then Some ([], drop n q) else None)"
| "fifo_step OpRetrieveAll q = Some ([], [])"
| "fifo_step (OpRetrieveAsString n) q =
     (if n \<le> length q then Some (take n q, drop n q) else None)"
| "fifo_step (OpReadFd rr) q = Some ([], q @ read_bytes rr)"

fun fifo_run :: "buf_op list \<Rightarrow> byte list \<Rightarrow> (byte list \<times> byte list) option" where
  "fifo_run [] q = Some ([], q)"
| "fifo_run (x # xs) q = (case fifo_step x q of None \<Rightarrow> None
     | Some (out, q1) \<Rightarrow> (case fifo_run xs q1 of None \<Rightarrow> None
         | Some (outs, q2) \<Rightarrow> Some (out @ outs, q2)))"

fun op_bytes :: "buf_op \<Rightarrow> nat" where
  "op_bytes (OpAppend d) = length d"
| "op_bytes (OpReadFd rr) = length (read_bytes rr)"
| "op_bytes _ = 0"

text \<open>What \<^verbatim>\<open>readv(2)\<close> promises: it fills the blocks it is given and no more.\<close>

fun readv_fits :: "buf_op \<Rightarrow> buffer \<Rightarrow> bool" where
  "readv_fits (OpReadFd rr) b \<longleftrightarrow> length (read_bytes rr) \<le> iov_capacity b"
| "readv_fits _ b \<longleftrightarrow> True"

fun readv_contract :: "buf_op list \<Rightarrow> buffer \<Rightarrow> bool" where
  "readv_contract [] b \<longleftrightarrow> True"
| "readv_contract (x # xs) b \<longleftrightarrow> readv_fits x b
     \<and> (case buf_step x b of Inl f \<Rightarrow> True | Inr (out, b1) \<Rightarrow> readv_contract xs b1)"

definition simulates :: "(byte list \<times> buffer) res \<Rightarrow> (byte list \<times> byte list) option \<Rightarrow> bool" where
  "simulates c a = (case c of Inl f \<Rightarrow> f = AssertFail \<and> a = None
     | Inr (out, b) \<Rightarrow> buf_ok b \<and> a = Some (out, contents b))"

lemma buf_step_simulates:
  assumes "buf_ok b" and "op_bytes x \<le> room b" and "readv_fits x b"
  shows "simulates (buf_step x b) (fifo_step x (contents b))"
proof (cases x)
  case (OpAppend d)
  then show ?thesis
    using assms Append_total [OF assms(1), of d] Append_Inr [OF assms(1)]
    by (auto simp: simulates_def)
next
  case (OpRetrieve n)
  show ?thesis
  proof (cases "n \<le> ReadableBytes b")
    case True
    then obtain b' where "Retrieve n b = Inr b'" using Retrieve_total by blast
    with Retrieve_Inr [OF assms(1) this] OpRetrieve show ?thesis by (simp add: simulates_def)
  qed (simp add: simulates_def OpRetrieve Retrieve_too_long length_contents [OF assms(1)])
next
  case OpRetrieveAll
  then show ?thesis using assms(1) by (simp add: simulates_def RetrieveAll_ok)
next
  case (OpRetrieveAsString n)
  then show ?thesis
    using assms(1) RetrieveAsString_eq [OF assms(1), of n] length_contents [OF assms(1)]
    by (cases "n \<le> ReadableBytes b") (auto simp: simulates_def RetrieveAsString_def)
next
  case (OpReadFd rr)
  show ?thesis
  proof (cases rr)
    case (ReadvData d)
    with OpReadFd assms ReadFd_ok [OF assms(1), of d] obtain b' where
      "ReadFd rr b = Inr (int (length d), None, b')" "buf_ok b'" "contents b' = contents b @ d" by auto
    then show ?thesis by (simp add: OpReadFd ReadvData simulates_def del: ReadFd.simps)
  qed (use assms(1) OpReadFd in \<open>simp add: simulates_def\<close>)
qed

lemma buf_step_room:
  assumes "buf_ok b" and "buf_step x b = Inr (out, b')"
  shows "room b \<le> room b' + op_bytes x"
proof (cases x)
  case (OpReadFd rr)
  with assms(2) obtain ret e where "ReadFd rr b = Inr (ret, e, b')" by (auto simp: res_iffs simp del: ReadFd.simps)
  from ReadFd_writerIndex [OF assms(1) this] OpReadFd show ?thesis by (auto simp: room_def)
qed (use assms Append_writerIndex [OF assms(1)] Retrieve_writerIndex [OF assms(1)]
  in \<open>fastforce simp: res_iffs room_def RetrieveAsString_def RetrieveAll_def buf_ok_def\<close>)+

section \<open>Properties\<close>

text \<open>C13. A buffer is a byte FIFO. Any sequence of \<^verbatim>\<open>Append\<close>, \<^verbatim>\<open>Retrieve\<close>, \<^verbatim>\<open>RetrieveAll\<close>,
  \<^verbatim>\<open>RetrieveAsString\<close> and \<^verbatim>\<open>ReadFd\<close> calls, run on a well-formed buffer with room for the bytes it
  appends and reads, where \<^verbatim>\<open>readv\<close> delivers no more than the blocks it is given hold, returns exactly the strings that the same calls return on a plain list of bytes
  and leaves exactly that list as its contents, whichever way the buffer grew in between; and
  the only way it can fail is the assertion that stops a \<^verbatim>\<open>Retrieve\<close> of more than there is.\<close>

theorem buffer_refines_fifo:
  assumes "buf_ok b" and "sum_list (map op_bytes ops) \<le> room b" and "readv_contract ops b"
  shows "simulates (buf_run ops b) (fifo_run ops (contents b))"
  using assms
proof (induction ops arbitrary: b)
  case Nil
  then show ?case by (simp add: simulates_def)
next
  case (Cons x xs)
  have step: "simulates (buf_step x b) (fifo_step x (contents b))"
    using Cons.prems by (intro buf_step_simulates) auto
  show ?case
  proof (cases "buf_step x b")
    case (Inl f)
    with step show ?thesis by (simp add: simulates_def)
  next
    case (Inr y)
    obtain out b1 where y: "y = (out, b1)" by (cases y)
    with step Inr have b1: "buf_ok b1" "fifo_step x (contents b) = Some (out, contents b1)"
      by (auto simp: simulates_def)
    have "sum_list (map op_bytes xs) \<le> room b1"
      using buf_step_room [OF Cons.prems(1) Inr [unfolded y]] Cons.prems(2) by simp
    moreover have "readv_contract xs b1" using Cons.prems(3) Inr y by simp
    ultimately show ?thesis using Cons.IH [OF b1(1)] Inr y b1(2)
      by (auto simp: simulates_def split: sum.splits option.splits)
  qed
qed

theorem buffer_refines_fifo_witness:
  "simulates (buf_run [OpAppend [1, 2, 3], OpRetrieveAsString 2, OpReadFd (ReadvData [4, 5]), OpRetrieve 5] (new_Buffer 4)) None
   \<and> simulates (buf_run [OpAppend [1, 2, 3], OpRetrieveAsString 2, OpReadFd (ReadvData [4, 5])] (new_Buffer 4))
      (Some ([1, 2], [3, 4, 5]))"
proof -
  let ?b = "new_Buffer 4" and ?ops = "[OpAppend [1, 2, 3], OpRetrieveAsString 2, OpReadFd (ReadvData [4, 5])]"
  have fits: "readv_fits x b" if "x \<in> set (?ops @ [OpRetrieve 5])" for x b
    using that by (auto simp: iov_capacity_def extrabuf_size_def)
  have contract: "readv_contract xs b" if "set xs \<subseteq> set (?ops @ [OpRetrieve 5])" for xs b
    using that by (induction xs arbitrary: b) (use fits in \<open>auto split: sum.splits\<close>)
  have room: "sum_list (map op_bytes ?ops) \<le> room ?b" "sum_list (map op_bytes (?ops @ [OpRetrieve 5])) \<le> room ?b"
    by (simp_all add: room_def new_Buffer_def kCheapPrepend_def max_size_def)
  have ok: "buf_ok ?b" by (rule buf_ok_new) (simp add: kCheapPrepend_def max_size_def)
  have "contents ?b = []" by (simp add: contents_def ReadableBytes_def new_Buffer_def)
  with buffer_refines_fifo [OF ok room(2) contract] buffer_refines_fifo [OF ok room(1) contract] show ?thesis by simp
qed

text \<open>\<^verbatim>\<open>Append\<close> always succeeds while the vector may still grow, keeps the index
  invariant and puts the data behind the contents; it enlarges the vector only when the free
  bytes before and behind the contents together cannot take the data and the 8 bytes kept for
  prepending, and then exactly to the new writer index. No assertion inside it can fail.\<close>

lemma Append_spec:
  assumes "buf_ok b" and "length d \<le> room b"
  shows "\<exists>b'. Append d b = Inr b' \<and> buf_ok b' \<and> contents b' = contents b @ d
    \<and> length (buffer_vec b') =
      (if WriteableBytes b < length d \<and>
          WriteableBytes b + PrependableBytes b < length d + kCheapPrepend
       then writerIndex b + length d else length (buffer_vec b))"
proof -
  obtain b' where "Append d b = Inr b'" using Append_total [OF assms] by blast
  with Append_Inr [OF assms(1) this] Append_size [OF assms(1) this] show ?thesis by blast
qed

lemma Append_spec_example:
  "\<exists>b'. Append [7, 8, 9] (new_Buffer 2) = Inr b' \<and> buf_ok b' \<and> contents b' = [7, 8, 9]
    \<and> length (buffer_vec b') = 11"
  using Append_spec [of "new_Buffer 2" "[7, 8, 9]"]
  by (simp add: buf_ok_new room_def new_Buffer_def kCheapPrepend_def max_size_def buf_sizes
      buf_ok_def [of "\<lparr>buffer_vec = _, readerIndex = 8, writerIndex = 8\<rparr>"] contents_def
      [of "\<lparr>buffer_vec = _, readerIndex = 8, writerIndex = 8\<rparr>"])

text \<open>\<^verbatim>\<open>Prepend\<close> puts its data in front of the contents and moves nothing else; with
  more data than there are bytes before the reader index it stops at its assertion.\<close>

lemma Prepend_spec:
  assumes "buf_ok b"
  shows "if length d \<le> PrependableBytes b
    then \<exists>b'. Prepend d b = Inr b' \<and> buf_ok b' \<and> contents b' = d @ contents b
      \<and> writerIndex b' = writerIndex b
    else Prepend d b = Inl AssertFail"
  using Prepend_Inr [OF assms] Prepend_too_long [of b d] by simp

lemma Prepend_spec_example:
  "(\<exists>b'. Prepend [1, 2] (new_Buffer 4) = Inr b' \<and> buf_ok b' \<and> contents b' = [1, 2]
     \<and> writerIndex b' = 8) \<and> Prepend (replicate 9 0) (new_Buffer 4) = Inl AssertFail"
  using Prepend_spec [OF buf_ok_new, of 4 "[1, 2]"] Prepend_spec [OF buf_ok_new, of 4 "replicate 9 0"]
  by (simp add: kCheapPrepend_def max_size_def PrependableBytes_def new_Buffer_def)
    (simp add: contents_def ReadableBytes_def)

text \<open>C35. Integers survive the wire format, at every width. Behind whatever the buffer
  holds, \<^verbatim>\<open>AppendInt64\<close> and its narrower forms add the bytes of the value with the most
  significant first; and from any buffer whose contents start with those bytes, however they
  came there, \<^verbatim>\<open>ReadInt64\<close> and its narrower forms return the value and leave the rest.\<close>

theorem network_int_roundtrip:
  assumes "boost_endian n n2b b2n" and "LENGTH('a::len) = 8 * n"
    and "buf_ok b" and "n \<le> room b"
  shows "\<exists>b1. append_int n n2b (x :: 'a word) b = Inr b1 \<and> buf_ok b1
    \<and> contents b1 = contents b @ rev (le_bytes n x)
    \<and> (\<forall>b2 rest. buf_ok b2 \<and> contents b2 = rev (le_bytes n x) @ rest \<longrightarrow>
         (\<exists>b3. read_int n b2n b2 = Inr (x, b3) \<and> buf_ok b3 \<and> contents b3 = rest))"
proof -
  have bytes: "le_bytes n (n2b x) = rev (le_bytes n x)"
    by (rule boost_endian_bytes [OF assms(1)])
  obtain b1 where b1: "Append (le_bytes n (n2b x)) b = Inr b1"
    using Append_total [OF assms(3)] assms(4) by force
  have "\<exists>b3. read_int n b2n b2 = Inr (x, b3) \<and> buf_ok b3 \<and> contents b3 = rest"
    if "buf_ok b2" "contents b2 = rev (le_bytes n x) @ rest" for b2 rest
    using read_int_contents [OF that(1) _ assms(1)] that(2) bytes assms(2) by simp
  with b1 Append_Inr [OF assms(3) b1] bytes show ?thesis
    by (simp add: append_int_def NativeToBig_def)
qed

theorem network_int_roundtrip_witness:
  "\<exists>b1. AppendInt32 (byteswap 4) 0x01020304 (new_Buffer 16) = Inr b1
    \<and> contents b1 = [1, 2, 3, 4]
    \<and> (\<exists>b3. ReadInt32 (byteswap 4) b1 = Inr (0x01020304, b3) \<and> contents b3 = [])"
proof -
  let ?x = "0x01020304 :: 32 word"
  have be: "rev (le_bytes 4 ?x) = [1, 2, 3, 4]" by code_simp
  have ok: "buf_ok (new_Buffer 16)" "4 \<le> room (new_Buffer 16)"
    by (simp_all add: buf_ok_new room_def kCheapPrepend_def max_size_def)
      (simp add: new_Buffer_def kCheapPrepend_def)
  have len: "LENGTH(32) = 8 * 4" by simp
  have swap: "boost_endian 4 (byteswap 4) (byteswap 4 :: 32 word \<Rightarrow> 32 word)"
    by (rule boost_endian_byteswap) simp
  obtain b1 where b1: "append_int 4 (byteswap 4) ?x (new_Buffer 16) = Inr b1" "buf_ok b1"
      "contents b1 = contents (new_Buffer 16) @ rev (le_bytes 4 ?x)"
    and rd: "\<forall>b2 rest. buf_ok b2 \<and> contents b2 = rev (le_bytes 4 ?x) @ rest \<longrightarrow>
         (\<exists>b3. read_int 4 (byteswap 4) b2 = Inr (?x, b3) \<and> buf_ok b3 \<and> contents b3 = rest)"
    using network_int_roundtrip [OF swap len ok, of ?x] by blast
  from b1 be have "contents b1 = [1, 2, 3, 4]" by simp
  with b1(1,2) rd [rule_format, of b1 "[]"] be show ?thesis
    unfolding AppendInt32_def ReadInt32_def by auto
qed

text \<open>The integer readers check that the whole integer is there: \<^verbatim>\<open>ReadInt64\<close> returns
  exactly when at least eight bytes are readable (its comment asks for the size of a 32-bit
  integer only, which is not enough), and the narrower readers likewise.\<close>

theorem ReadInt_needs_all_bytes:
  "(ReadInt64 b2n8 b = Inl AssertFail \<longleftrightarrow> ReadableBytes b < 8)
   \<and> (ReadInt32 b2n4 b = Inl AssertFail \<longleftrightarrow> ReadableBytes b < 4)
   \<and> (ReadInt16 b2n2 b = Inl AssertFail \<longleftrightarrow> ReadableBytes b < 2)
   \<and> (ReadInt8 b = Inl AssertFail \<longleftrightarrow> ReadableBytes b < 1)"
proof -
  have "ReadInt8 b = Inl AssertFail \<longleftrightarrow> ReadableBytes b < 1"
    using Retrieve_total [of 1 b]
    by (cases "ReadableBytes b < 1") (auto simp: ReadInt8_def PeekInt8_def)
  then show ?thesis by (simp add: ReadInt64_def ReadInt32_def ReadInt16_def read_int_AssertFail_iff)
qed

end
