(* ===== verification/TimerHeap.thy ===== *)
theory TimerHeap
  imports Prelude
begin

text \<open>
  \<^verbatim>\<open>Timer\<close> of \<^verbatim>\<open>Timer.h\<close> and the class \<^verbatim>\<open>TimerMinHeap\<close> of \<^verbatim>\<open>TimerQueue.cpp\<close>: a binary
  heap of timers in an array, ordered by expiration, with a map from timer ids to array
  positions. Times are \<open>int\<close> (nanoseconds of the steady clock, intervals in
  milliseconds), ids are 32-bit words. An owning pointer to a timer is the timer.
  The assertions of this class state facts between its own fields; they are
  lemmas here (\<open>heap_indexed\<close> is kept), not branches. Shown: the position map is exact
  after every operation, the timers are those expected, \<^verbatim>\<open>Add\<close>, \<^verbatim>\<open>Adjust\<close> and the
  removal of the top keep the heap order, and the removal of another timer need not.
\<close>

section \<open>Timers\<close>

type_synonym timer_id = "32 word"

record timer =
  timer_cb :: nat
  expiration :: int
  interval :: int
  timer_id :: timer_id

definition Repeat :: "timer \<Rightarrow> bool" where
  "Repeat t \<longleftrightarrow> interval t \<noteq> 0"

section \<open>The heap\<close>

record timer_heap =
  timerList :: "timer list"
  positions :: "timer_id \<rightharpoonup> nat"

definition new_TimerMinHeap :: timer_heap where
  "new_TimerMinHeap = \<lparr>timerList = [], positions = Map.empty\<rparr>"

abbreviation exp_at :: "timer_heap \<Rightarrow> nat \<Rightarrow> int" where
  "exp_at h i \<equiv> expiration (timerList h ! i)"

definition Heap_Empty :: "timer_heap \<Rightarrow> bool" where
  "Heap_Empty h \<longleftrightarrow> timerList h = []"

definition Heap_Top :: "timer_heap \<Rightarrow> timer" where
  "Heap_Top h = hd (timerList h)"

text \<open>\<^verbatim>\<open>positions_[timerList_[i]->GetId()] = i\<close>, and a swap followed by the two updates.\<close>

definition place :: "nat \<Rightarrow> timer_heap \<Rightarrow> timer_heap" where
  "place i h = h\<lparr>positions := (positions h)(timer_id (timerList h ! i) \<mapsto> i)\<rparr>"

definition swap_timers :: "nat \<Rightarrow> nat \<Rightarrow> timer_heap \<Rightarrow> timer_heap" where
  "swap_timers i j h = place j (place i (h\<lparr>timerList := swap_at i j (timerList h)\<rparr>))"

text \<open>The loop of \<^verbatim>\<open>Add\<close>; the flag says that the new timer became the top.\<close>

function sift_up :: "timer_heap \<Rightarrow> nat \<Rightarrow> timer_heap \<times> bool" where
  "sift_up h idx =
     (let parent_idx = (idx - 1) div 2
      in if exp_at h idx < exp_at h parent_idx
         then let h' = swap_timers idx parent_idx h
              in if parent_idx \<noteq> 0 then sift_up h' parent_idx else (h', True)
         else (h, False))"
  by pat_completeness auto
termination
  by (relation "measure snd") auto

declare sift_up.simps [simp del]

definition Heap_Add :: "timer \<Rightarrow> timer_heap \<Rightarrow> timer_heap \<times> bool" where
  "Heap_Add t h =
     (let idx = length (timerList h);
          h1 = \<lparr>timerList = timerList h @ [t], positions = (positions h)(timer_id t \<mapsto> idx)\<rparr>
      in if idx = 0 then (h1, True) else sift_up h1 idx)"

text \<open>The child to move up, or the index itself when both children are not earlier.\<close>

definition sift_candidate :: "timer_heap \<Rightarrow> nat \<Rightarrow> nat" where
  "sift_candidate h cur_mid =
     (let left = cur_mid * 2 + 1; right = cur_mid * 2 + 2;
          c = (if left < length (timerList h) \<and> exp_at h left < exp_at h cur_mid
               then left else cur_mid)
      in if right < length (timerList h) \<and> exp_at h right < exp_at h c then right else c)"

lemma sift_candidate_cases:
  "sift_candidate h k = k \<or> k < sift_candidate h k \<and> sift_candidate h k < length (timerList h)"
  by (simp add: sift_candidate_def Let_def)

lemma length_place [simp]: "timerList (place i h) = timerList h"
  by (simp add: place_def)

lemma timerList_swap_timers [simp]:
  "timerList (swap_timers i j h) = swap_at i j (timerList h)"
  by (simp add: swap_timers_def)

function Adjust :: "timer_heap \<Rightarrow> nat \<Rightarrow> timer_heap" where
  "Adjust h cur_mid =
     (if cur_mid * 2 + 1 < length (timerList h)
      then let candidate = sift_candidate h cur_mid
           in if candidate \<noteq> cur_mid
              then Adjust (swap_timers candidate cur_mid h) candidate
              else h
      else h)"
  by pat_completeness auto
termination
  by (relation "measure (\<lambda>(h, k). length (timerList h) - k)")
    (use sift_candidate_cases in \<open>fastforce simp: Let_def\<close>)+

declare Adjust.simps [simp del]

text \<open>\<^verbatim>\<open>positions_[id]\<close> reads 0 for an id that is not there (it inserts the entry, which
  the following \<^verbatim>\<open>erase\<close> takes out again).\<close>

definition PopMovedTimer :: "timer_id \<Rightarrow> timer_heap \<Rightarrow> timer_heap" where
  "PopMovedTimer tid h =
     (if 1 < length (timerList h)
      then let target_idx = (case positions h tid of None \<Rightarrow> 0 | Some i \<Rightarrow> i);
               flag = (timer_id (last (timerList h)) \<noteq> tid);
               h1 = \<lparr>timerList = swap_pop target_idx (timerList h),
                     positions = (positions h)(tid := None)\<rparr>
           in if flag then Adjust (place target_idx h1) target_idx else h1
      else if length (timerList h) = 1 then new_TimerMinHeap
      else h)"

definition Heap_Pop :: "timer_heap \<Rightarrow> timer_heap" where
  "Heap_Pop h = PopMovedTimer (timer_id (hd (timerList h))) h"

definition Heap_Del :: "timer_id \<Rightarrow> timer_heap \<Rightarrow> timer_heap \<times> bool" where
  "Heap_Del tid h =
     (case positions h tid of
        None \<Rightarrow> (h, False)
      | Some idx \<Rightarrow>
          if idx = 0 then (Heap_Pop h, True)
          else let backTimer_id = timer_id (last (timerList h));
                   h1 = \<lparr>timerList = swap_pop idx (timerList h),
                         positions = (positions h)(tid := None)\<rparr>
               in (if backTimer_id \<noteq> tid
                   then Adjust (h1\<lparr>positions := (positions h1)(backTimer_id \<mapsto> idx)\<rparr>) idx
                   else h1, False))"

section \<open>The position map\<close>

text \<open>The map sends the id of every timer in the array to its index, and nothing else.\<close>

definition heap_indexed :: "timer_heap \<Rightarrow> bool" where
  "heap_indexed h \<longleftrightarrow> (\<forall>k i. positions h k = Some i \<longleftrightarrow>
     i < length (timerList h) \<and> timer_id (timerList h ! i) = k)"

lemma heap_indexed_new [simp]: "heap_indexed new_TimerMinHeap"
  by (simp add: heap_indexed_def new_TimerMinHeap_def)

lemma heap_indexedD:
  "heap_indexed h \<Longrightarrow> positions h k = Some i \<Longrightarrow>
   i < length (timerList h) \<and> timer_id (timerList h ! i) = k"
  by (simp add: heap_indexed_def)

lemma heap_indexed_pos:
  "heap_indexed h \<Longrightarrow> i < length (timerList h) \<Longrightarrow>
   positions h (timer_id (timerList h ! i)) = Some i"
  by (simp add: heap_indexed_def)

lemma heap_indexed_inj:
  assumes "heap_indexed h" "i < length (timerList h)" "j < length (timerList h)"
    and "timer_id (timerList h ! i) = timer_id (timerList h ! j)"
  shows "i = j"
  using assms heap_indexed_pos by (metis option.inject)

lemma heap_indexed_distinct: "heap_indexed h \<Longrightarrow> distinct (map timer_id (timerList h))"
  by (auto simp: distinct_conv_nth dest: heap_indexed_inj)

text \<open>The asserted equality of the two sizes.\<close>

lemma heap_indexed_dom: "heap_indexed h \<Longrightarrow> dom (positions h) = timer_id ` set (timerList h)"
  unfolding dom_def set_conv_nth by (auto simp: heap_indexed_def)

lemma heap_indexed_size: "heap_indexed h \<Longrightarrow> card (dom (positions h)) = length (timerList h)"
  by (metis distinct_card heap_indexed_distinct heap_indexed_dom length_map set_map)

lemma heap_indexed_swap_timers:
  assumes "heap_indexed h" and "i < length (timerList h)" and "j < length (timerList h)"
  shows "heap_indexed (swap_timers i j h)"
  unfolding heap_indexed_def
proof (intro allI)
  fix k m
  note inj = heap_indexed_inj [OF assms(1)]
  have pos: "positions (swap_timers i j h) =
      (positions h)(timer_id (timerList h ! j) \<mapsto> i, timer_id (timerList h ! i) \<mapsto> j)"
    using assms by (simp add: swap_timers_def place_def nth_swap_at)
  have h: "positions h k = Some m \<longleftrightarrow> m < length (timerList h) \<and> timer_id (timerList h ! m) = k"
    using assms(1) by (simp add: heap_indexed_def)
  consider (i) "k = timer_id (timerList h ! i)"
    | (j) "k = timer_id (timerList h ! j)" "k \<noteq> timer_id (timerList h ! i)"
    | (other) "k \<noteq> timer_id (timerList h ! i)" "k \<noteq> timer_id (timerList h ! j)"
    by blast
  then show "positions (swap_timers i j h) k = Some m \<longleftrightarrow>
      m < length (timerList (swap_timers i j h))
      \<and> timer_id (timerList (swap_timers i j h) ! m) = k"
  proof cases
    case i
    have "m < length (timerList h) \<and> timer_id (swap_at i j (timerList h) ! m) = k \<longleftrightarrow> m = j"
      using assms(2,3) inj [of m i] inj [of j i] unfolding i by (auto simp: nth_swap_at split: if_splits)
    then show ?thesis by (auto simp: pos i)
  next
    case j
    have "m < length (timerList h) \<and> timer_id (swap_at i j (timerList h) ! m) = k \<longleftrightarrow> m = i"
      using assms(2,3) inj [of m j] j(2) unfolding j(1) by (auto simp: nth_swap_at split: if_splits)
    then show ?thesis using j by (auto simp: pos)
  next
    case other
    then have "timer_id (swap_at i j (timerList h) ! m) = k \<longleftrightarrow> timer_id (timerList h ! m) = k"
      if "m < length (timerList h)" using assms(2,3) that by (auto simp: nth_swap_at)
    then show ?thesis using other h by (auto simp: pos)
  qed
qed

lemma parent_less: "0 < (i::nat) \<Longrightarrow> (i - 1) div 2 < i"
  by (cases i) auto

lemma sift_up_indexed:
  "heap_indexed h \<Longrightarrow> k < length (timerList h) \<Longrightarrow> heap_indexed (fst (sift_up h k))"
proof (induction h k rule: sift_up.induct)
  case (1 h k)
  let ?p = "(k - 1) div 2"
  have p: "?p < length (timerList h)" "0 < length (timerList h)" using "1.prems" by linarith+
  show ?case
  proof (cases "exp_at h k < exp_at h ?p")
    case True
    with 1 p show ?thesis
      by (subst sift_up.simps) (simp add: Let_def heap_indexed_swap_timers)
  next
    case False
    with 1 show ?thesis by (subst sift_up.simps) simp
  qed
qed

lemma sift_up_mset:
  "k < length (timerList h) \<Longrightarrow> mset (timerList (fst (sift_up h k))) = mset (timerList h)"
proof (induction h k rule: sift_up.induct)
  case (1 h k)
  let ?p = "(k - 1) div 2"
  have p: "?p < length (timerList h)" "0 < length (timerList h)" using "1.prems" by linarith+
  show ?case
  proof (cases "exp_at h k < exp_at h ?p")
    case True
    with 1 p show ?thesis by (subst sift_up.simps) (simp add: Let_def)
  next
    case False
    with 1 show ?thesis by (subst sift_up.simps) simp
  qed
qed

lemma Adjust_indexed: "heap_indexed h \<Longrightarrow> heap_indexed (Adjust h k)"
proof (induction h k rule: Adjust.induct)
  case (1 h k)
  show ?case
  proof (cases "k * 2 + 1 < length (timerList h) \<and> sift_candidate h k \<noteq> k")
    case True
    with sift_candidate_cases [of h k] 1 show ?thesis
      by (subst Adjust.simps) (simp add: Let_def heap_indexed_swap_timers)
  next
    case False
    with "1.prems" show ?thesis by (subst Adjust.simps) (simp add: Let_def)
  qed
qed

lemma Adjust_mset [simp]: "mset (timerList (Adjust h k)) = mset (timerList h)"
proof (induction h k rule: Adjust.induct)
  case (1 h k)
  show ?case
  proof (cases "k * 2 + 1 < length (timerList h) \<and> sift_candidate h k \<noteq> k")
    case True
    with sift_candidate_cases [of h k] 1 show ?thesis
      by (subst Adjust.simps) (simp add: Let_def)
  next
    case False
    then show ?thesis by (subst Adjust.simps) (simp add: Let_def)
  qed
qed

lemma Adjust_length [simp]: "length (timerList (Adjust h k)) = length (timerList h)"
  by (metis Adjust_mset size_mset)

section \<open>The heap order\<close>

definition heap_ordered :: "timer list \<Rightarrow> bool" where
  "heap_ordered l \<longleftrightarrow> (\<forall>i. 0 < i \<and> i < length l \<longrightarrow>
     expiration (l ! ((i - 1) div 2)) \<le> expiration (l ! i))"

text \<open>Ordered but for the timer at \<open>k\<close>, which may be too early for its place
  (\<open>up_ok\<close>) or too late (\<open>down_ok\<close>).\<close>

definition up_ok :: "timer list \<Rightarrow> nat \<Rightarrow> bool" where
  "up_ok l k \<longleftrightarrow>
     (\<forall>i. 0 < i \<and> i < length l \<and> i \<noteq> k \<longrightarrow> expiration (l ! ((i - 1) div 2)) \<le> expiration (l ! i))
   \<and> (0 < k \<longrightarrow> (\<forall>i. 0 < i \<and> i < length l \<and> (i - 1) div 2 = k \<longrightarrow>
        expiration (l ! ((k - 1) div 2)) \<le> expiration (l ! i)))"

definition down_ok :: "timer list \<Rightarrow> nat \<Rightarrow> bool" where
  "down_ok l k \<longleftrightarrow>
     (\<forall>i. 0 < i \<and> i < length l \<and> (i - 1) div 2 \<noteq> k \<longrightarrow>
        expiration (l ! ((i - 1) div 2)) \<le> expiration (l ! i))
   \<and> (0 < k \<longrightarrow> (\<forall>i. 0 < i \<and> i < length l \<and> (i - 1) div 2 = k \<longrightarrow>
        expiration (l ! ((k - 1) div 2)) \<le> expiration (l ! i)))"

lemma heap_ordered_Nil [simp]: "heap_ordered []"
  by (simp add: heap_ordered_def)

text \<open>The top is a minimum, as soon as the order holds up to the index looked at.\<close>

lemma root_le_prefix:
  assumes "\<And>i. 0 < i \<Longrightarrow> i < m \<Longrightarrow> expiration (l ! ((i - 1) div 2)) \<le> expiration (l ! i)"
    and "j < m"
  shows "expiration (l ! 0) \<le> expiration (l ! j)"
  using assms(2)
proof (induction j rule: less_induct)
  case (less j)
  show ?case
  proof (cases "j = 0")
    case False
    with parent_less [of j] less have "expiration (l ! 0) \<le> expiration (l ! ((j - 1) div 2))"
      by simp
    with assms(1) [of j] less.prems False show ?thesis by simp
  qed simp
qed

lemma heap_ordered_root:
  assumes "heap_ordered l" and "t \<in> set l"
  shows "expiration (hd l) \<le> expiration t"
proof -
  obtain j where j: "j < length l" "t = l ! j" using assms(2) by (auto simp: in_set_conv_nth)
  have "expiration (l ! 0) \<le> expiration (l ! j)"
    by (rule root_le_prefix [OF _ j(1)]) (use assms(1) in \<open>simp add: heap_ordered_def\<close>)
  moreover have "hd l = l ! 0" using j(1) by (cases l) auto
  ultimately show ?thesis by (simp add: j(2))
qed

text \<open>One step of each loop.\<close>

lemma children_of: "0 < i \<Longrightarrow> (i - 1) div 2 = k \<longleftrightarrow> i = k * 2 + 1 \<or> i = k * 2 + (2::nat)"
  by arith

lemma down_ok_swap:
  assumes down: "down_ok l k" and c: "(c - 1) div 2 = k" "0 < c" "c < length l"
    and least: "\<And>i. 0 < i \<Longrightarrow> i < length l \<Longrightarrow> (i - 1) div 2 = k \<Longrightarrow> expiration (l ! c) \<le> expiration (l ! i)"
    and lt: "expiration (l ! c) < expiration (l ! k)"
  shows "down_ok (swap_at c k l) c"
proof -
  let ?l = "swap_at c k l"
  have kc: "k < c" using c parent_less by blast
  with c(3) have k: "k < length l" by simp
  note nth = nth_swap_at [OF c(3) k]
  have par: "(i - 1) div 2 \<noteq> i" if "0 < i" for i :: nat using parent_less [OF that] by simp
  have "expiration (?l ! ((i - 1) div 2)) \<le> expiration (?l ! i)"
    if i: "0 < i" "i < length l" "(i - 1) div 2 \<noteq> c" for i
  proof -
    have pl: "(i - 1) div 2 < length l" using parent_less [OF i(1)] i(2) by simp
    consider "i = c" | "i = k" | "i \<noteq> c" "i \<noteq> k" "(i - 1) div 2 = k"
      | "i \<noteq> c" "i \<noteq> k" "(i - 1) div 2 \<noteq> k" by blast
    then show ?thesis
    proof cases
      case 1
      then show ?thesis using c kc lt k by (simp add: nth)
    next
      case 2
      then have "expiration (l ! ((k - 1) div 2)) \<le> expiration (l ! c)"
        using down c i(1) by (simp add: down_ok_def)
      then show ?thesis using 2 i pl par [of k] by (simp add: nth)
    next
      case 3
      then show ?thesis using least [OF i(1,2)] i k by (simp add: nth)
    next
      case 4
      then show ?thesis using down i pl by (simp add: nth down_ok_def)
    qed
  qed
  moreover have "expiration (?l ! ((c - 1) div 2)) \<le> expiration (?l ! i)"
    if i: "0 < i" "i < length l" "(i - 1) div 2 = c" for i
  proof -
    have "c < i" using i parent_less by blast
    moreover have "expiration (l ! c) \<le> expiration (l ! i)"
      using down i kc by (auto simp: down_ok_def)
    ultimately show ?thesis using c(1) i kc k by (simp add: nth)
  qed
  ultimately show ?thesis by (simp add: down_ok_def)
qed

lemma sift_candidate_le_child:
  assumes "0 < i" "i < length (timerList h)" "(i - 1) div 2 = k"
  shows "exp_at h (sift_candidate h k) \<le> exp_at h i"
proof -
  from assms children_of have "i = k * 2 + 1 \<or> i = k * 2 + 2" by blast
  with assms(2) show ?thesis by (auto simp: sift_candidate_def Let_def)
qed

lemma sift_candidate_least:
  assumes "sift_candidate h k \<noteq> k"
  shows "0 < sift_candidate h k" "(sift_candidate h k - 1) div 2 = k"
    "sift_candidate h k < length (timerList h)"
    "exp_at h (sift_candidate h k) < exp_at h k"
  using assms by (auto simp: sift_candidate_def Let_def split: if_splits)

lemma Adjust_ordered:
  "down_ok (timerList h) k \<Longrightarrow> heap_ordered (timerList (Adjust h k))"
proof (induction h k rule: Adjust.induct)
  case (1 h k)
  show ?case
  proof (cases "k * 2 + 1 < length (timerList h) \<and> sift_candidate h k \<noteq> k")
    case True
    let ?c = "sift_candidate h k"
    have "down_ok (swap_at ?c k (timerList h)) ?c"
      using True sift_candidate_least [of h k] sift_candidate_le_child
      by (intro down_ok_swap "1.prems") auto
    with 1 True show ?thesis by (subst Adjust.simps) (simp add: Let_def)
  next
    case False
    have "exp_at h ((i - 1) div 2) \<le> exp_at h i" if i: "0 < i" "i < length (timerList h)" for i
    proof (cases "(i - 1) div 2 = k")
      case True
      then have "k * 2 + 1 < length (timerList h)" using i children_of [of i k] by auto
      with False True i show ?thesis using sift_candidate_le_child [of i h k] by simp
    next
      case False
      then show ?thesis using "1.prems" i by (simp add: down_ok_def)
    qed
    then have "heap_ordered (timerList h)" by (simp add: heap_ordered_def)
    with False show ?thesis by (subst Adjust.simps) (simp add: Let_def)
  qed
qed

lemma up_ok_swap:
  assumes up: "up_ok l k" and k: "0 < k" "k < length l"
    and lt: "expiration (l ! k) < expiration (l ! ((k - 1) div 2))"
  shows "up_ok (swap_at k ((k - 1) div 2) l) ((k - 1) div 2)"
proof -
  define p where "p = (k - 1) div 2"
  let ?l = "swap_at k p l"
  have pk: "p < k" unfolding p_def by (rule parent_less [OF k(1)])
  note lt = lt [folded p_def]
  have kp: "0 < k \<Longrightarrow> 0 < i \<Longrightarrow> i < length l \<Longrightarrow> (i - 1) div 2 = k \<Longrightarrow>
      expiration (l ! p) \<le> expiration (l ! i)" for i
    using up by (simp add: up_ok_def p_def)
  from pk k have p: "p < length l" by simp
  note nth = nth_swap_at [OF k(2) p]
  have "expiration (?l ! ((i - 1) div 2)) \<le> expiration (?l ! i)"
    if i: "0 < i" "i < length l" "i \<noteq> p" for i
  proof -
    have pi: "(i - 1) div 2 < i" by (rule parent_less [OF i(1)])
    then have pl: "(i - 1) div 2 < length l" using i(2) by simp
    consider "i = k" | "i \<noteq> k" "(i - 1) div 2 = p" | "i \<noteq> k" "(i - 1) div 2 = k"
      | "i \<noteq> k" "(i - 1) div 2 \<noteq> p" "(i - 1) div 2 \<noteq> k" by blast
    then show ?thesis
    proof cases
      case 1
      then have "(i - 1) div 2 = p" by (simp only: p_def)
      with 1 show ?thesis using lt pk p i by (simp add: nth)
    next
      case 2
      then have "expiration (l ! p) \<le> expiration (l ! i)" using up i by (auto simp: up_ok_def)
      with 2 lt i p pk show ?thesis by (simp add: nth)
    next
      case 3
      then have "expiration (l ! p) \<le> expiration (l ! i)" using kp i k by simp
      with 3 i pk k show ?thesis by (simp add: nth)
    next
      case 4
      then show ?thesis using up i pl by (simp add: nth up_ok_def)
    qed
  qed
  moreover have "expiration (?l ! ((p - 1) div 2)) \<le> expiration (?l ! i)"
    if i: "0 < i" "i < length l" "(i - 1) div 2 = p" "0 < p" for i
  proof -
    have q: "(p - 1) div 2 < p" by (rule parent_less [OF i(4)])
    then have ql: "(p - 1) div 2 < length l" using p by simp
    have pp: "expiration (l ! ((p - 1) div 2)) \<le> expiration (l ! p)"
      using up i(4) p pk by (simp add: up_ok_def)
    have "p < i" using i parent_less by metis
    show ?thesis
    proof (cases "i = k")
      case True
      then show ?thesis using pp q ql pk k by (simp add: nth)
    next
      case False
      then have "expiration (l ! p) \<le> expiration (l ! i)" using up i by (auto simp: up_ok_def)
      with False pp q ql pk i \<open>p < i\<close> show ?thesis by (simp add: nth)
    qed
  qed
  ultimately show ?thesis unfolding p_def [symmetric] by (simp add: up_ok_def)
qed

lemma sift_up_ordered:
  "up_ok (timerList h) k \<Longrightarrow> 0 < k \<Longrightarrow> k < length (timerList h) \<Longrightarrow>
   heap_ordered (timerList (fst (sift_up h k))) \<and> (snd (sift_up h k) \<longleftrightarrow> exp_at h k < exp_at h 0)"
proof (induction h k rule: sift_up.induct)
  case (1 h k)
  define p where "p = (k - 1) div 2"
  have pk: "p < k" using parent_less [OF "1.prems"(2)] by (simp add: p_def)
  note IH = "1.IH" [OF p_def]
  note step = sift_up.simps [of h k, folded p_def]
  have ne: "timerList h \<noteq> []" using "1.prems"(3) by auto
  have chain: "exp_at h 0 \<le> exp_at h p"
    by (rule root_le_prefix [OF _ pk]) (use "1.prems" in \<open>simp add: up_ok_def\<close>)
  show ?case
  proof (cases "exp_at h k < exp_at h p")
    case True
    have up: "up_ok (swap_at k p (timerList h)) p"
      using up_ok_swap "1.prems" True by (simp add: p_def)
    have nth: "exp_at (swap_timers k p h) p = exp_at h k"
      "0 < p \<Longrightarrow> exp_at (swap_timers k p h) 0 = exp_at h 0"
      using pk ne "1.prems"(3) by (simp_all add: nth_swap_at)
    show ?thesis
    proof (cases "p = 0")
      case z: True
      have "heap_ordered (swap_at k 0 (timerList h))"
        using up by (simp add: z up_ok_def heap_ordered_def)
      with True z step show ?thesis by (simp add: Let_def)
    next
      case False
      then show ?thesis
        using IH [OF True refl False] up nth pk "1.prems"(3) True step by (simp add: Let_def)
    qed
  next
    case False
    have "exp_at h ((i - 1) div 2) \<le> exp_at h i" if "0 < i" "i < length (timerList h)" for i
      using that "1.prems"(1) False by (cases "i = k") (auto simp: up_ok_def p_def)
    then have "heap_ordered (timerList h)" by (simp add: heap_ordered_def)
    with False chain step show ?thesis by (simp add: Let_def)
  qed
qed

section \<open>The operations\<close>

definition heap_ok :: "timer_heap \<Rightarrow> bool" where
  "heap_ok h \<longleftrightarrow> heap_indexed h \<and> heap_ordered (timerList h)"

lemma heap_ok_new [simp]: "heap_ok new_TimerMinHeap"
  by (simp add: heap_ok_def) (simp add: new_TimerMinHeap_def)

subsection \<open>Adding\<close>

lemma heap_indexed_append:
  assumes "heap_indexed h" and "positions h (timer_id t) = None"
  shows "heap_indexed \<lparr>timerList = timerList h @ [t],
     positions = (positions h)(timer_id t \<mapsto> length (timerList h))\<rparr>"
  unfolding heap_indexed_def
proof (intro allI)
  fix k i
  have "timer_id (timerList h ! i) \<noteq> timer_id t" if "i < length (timerList h)" for i
    using assms heap_indexed_pos [OF assms(1) that] by auto
  then show "(positions \<lparr>timerList = timerList h @ [t],
        positions = (positions h)(timer_id t \<mapsto> length (timerList h))\<rparr> k = Some i) =
      (i < length (timerList \<lparr>timerList = timerList h @ [t],
        positions = (positions h)(timer_id t \<mapsto> length (timerList h))\<rparr>) \<and>
       timer_id (timerList \<lparr>timerList = timerList h @ [t],
        positions = (positions h)(timer_id t \<mapsto> length (timerList h))\<rparr> ! i) = k)"
    using assms(1) by (auto simp: heap_indexed_def nth_append less_Suc_eq)
qed

lemma up_ok_append: "heap_ordered l \<Longrightarrow> up_ok (l @ [t]) (length l)"
proof -
  assume o: "heap_ordered l"
  have "(i - 1) div 2 < length l" if "0 < i" "i < Suc (length l)" for i
    using that by linarith
  then show ?thesis
    using o by (auto simp: up_ok_def heap_ordered_def nth_append)
qed

lemma Heap_Add_indexed:
  "heap_indexed h \<Longrightarrow> positions h (timer_id t) = None \<Longrightarrow> heap_indexed (fst (Heap_Add t h))"
  using heap_indexed_append [of h t]
  by (cases "timerList h = []") (auto simp: Heap_Add_def Let_def sift_up_indexed)

lemma Heap_Add_mset: "mset (timerList (fst (Heap_Add t h))) = add_mset t (mset (timerList h))"
  by (simp add: Heap_Add_def Let_def sift_up_mset)

lemma Heap_Add_ordered:
  assumes "heap_ordered (timerList h)"
  shows "heap_ordered (timerList (fst (Heap_Add t h)))"
    and "snd (Heap_Add t h) \<longleftrightarrow> timerList h = [] \<or> expiration t < expiration (hd (timerList h))"
proof -
  let ?h = "\<lparr>timerList = timerList h @ [t],
     positions = (positions h)(timer_id t \<mapsto> length (timerList h))\<rparr>"
  show "heap_ordered (timerList (fst (Heap_Add t h)))"
    using sift_up_ordered [of ?h "length (timerList h)"] up_ok_append [OF assms, of t]
    by (auto simp: Heap_Add_def Let_def heap_ordered_def)
  show "snd (Heap_Add t h) \<longleftrightarrow> timerList h = [] \<or> expiration t < expiration (hd (timerList h))"
    using sift_up_ordered [of ?h "length (timerList h)"] up_ok_append [OF assms, of t]
    by (auto simp: Heap_Add_def Let_def nth_append hd_conv_nth)
qed

subsection \<open>Removing\<close>

text \<open>What \<^verbatim>\<open>PopMovedTimer\<close> and \<^verbatim>\<open>Del\<close> do at the index the map gives them.\<close>

definition remove_at :: "nat \<Rightarrow> timer_heap \<Rightarrow> timer_heap" where
  "remove_at i h =
     (let h1 = \<lparr>timerList = swap_pop i (timerList h),
                positions = (positions h)(timer_id (timerList h ! i) := None)\<rparr>
      in if i = length (timerList h) - 1 then h1 else Adjust (place i h1) i)"

lemma heap_indexed_last_id:
  assumes "heap_indexed h" and "i < length (timerList h)"
  shows "timer_id (last (timerList h)) = timer_id (timerList h ! i) \<longleftrightarrow> i = length (timerList h) - 1"
  using assms heap_indexed_inj [OF assms(1), of "length (timerList h) - 1" i]
  by (cases "timerList h = []") (auto simp: last_conv_nth)

lemma PopMovedTimer_eq:
  assumes "heap_indexed h" and "i < length (timerList h)"
  shows "PopMovedTimer (timer_id (timerList h ! i)) h = remove_at i h"
proof (cases "1 < length (timerList h)")
  case True
  then show ?thesis
    using assms heap_indexed_last_id [OF assms]
    by (simp add: PopMovedTimer_def remove_at_def Let_def heap_indexed_pos)
next
  case False
  with assms(2) have len: "length (timerList h) = 1" and i: "i = 0" by auto
  have "positions h k = None" if "k \<noteq> timer_id (timerList h ! 0)" for k
    using assms(1) len that by (cases "positions h k") (auto dest: heap_indexedD)
  then have "(positions h)(timer_id (timerList h ! 0) := None) = Map.empty"
    by (auto simp: fun_eq_iff)
  moreover have "swap_pop 0 (timerList h) = []" using len by (simp flip: length_0_conv)
  ultimately show ?thesis
    using len i by (simp add: PopMovedTimer_def remove_at_def Let_def new_TimerMinHeap_def)
qed

lemma Heap_Pop_eq: "heap_indexed h \<Longrightarrow> timerList h \<noteq> [] \<Longrightarrow> Heap_Pop h = remove_at 0 h"
  by (simp add: Heap_Pop_def hd_conv_nth PopMovedTimer_eq)

lemma Heap_Del_eq:
  assumes "heap_indexed h" and "i < length (timerList h)"
  shows "Heap_Del (timer_id (timerList h ! i)) h = (remove_at i h, i = 0)"
proof -
  have pos: "positions h (timer_id (timerList h ! i)) = Some i"
    using assms by (rule heap_indexed_pos)
  have last_id: "place i \<lparr>timerList = swap_pop i (timerList h), positions = p\<rparr> =
      \<lparr>timerList = swap_pop i (timerList h), positions = p(timer_id (last (timerList h)) \<mapsto> i)\<rparr>"
    if "i \<noteq> length (timerList h) - 1" for p
    using that assms(2) by (simp add: place_def nth_swap_pop)
  show ?thesis
    using assms Heap_Pop_eq [OF assms(1)] heap_indexed_last_id [OF assms] last_id
    by (auto simp: Heap_Del_def pos remove_at_def Let_def)
qed

lemma Heap_Del_absent: "positions h tid = None \<Longrightarrow> Heap_Del tid h = (h, False)"
  by (simp add: Heap_Del_def)

lemma heap_indexed_swap_pop:
  assumes "heap_indexed h" and i: "i < length (timerList h)"
  defines "h1 \<equiv> \<lparr>timerList = swap_pop i (timerList h),
     positions = (positions h)(timer_id (timerList h ! i) := None)\<rparr>"
  shows "heap_indexed (if i = length (timerList h) - 1 then h1 else place i h1)"
proof -
  let ?l = "timerList h" and ?n = "length (timerList h) - 1"
  note inj = heap_indexed_inj [OF assms(1)]
  have h: "positions h k = Some m \<longleftrightarrow> m < length ?l \<and> timer_id (?l ! m) = k" for k m
    using assms(1) by (simp add: heap_indexed_def)
  have l1: "swap_pop i ?l ! m = (if m = i then ?l ! ?n else ?l ! m)" if "m < ?n" for m
    using i that by (cases "?l = []") (auto simp: nth_swap_pop last_conv_nth)
  show ?thesis
  proof (cases "i = ?n")
    case True
    have "m < ?n \<and> timer_id (swap_pop i ?l ! m) = k \<longleftrightarrow>
        k \<noteq> timer_id (?l ! i) \<and> positions h k = Some m" for k m
    proof (cases "m < ?n")
      case m: True
      then have "timer_id (?l ! m) \<noteq> timer_id (?l ! i)" using True i inj [of m i] by auto
      moreover have "swap_pop i ?l ! m = ?l ! m" using l1 [OF m] m True by simp
      ultimately show ?thesis using m True i by (auto simp: h)
    next
      case F: False
      then have "m < length ?l \<Longrightarrow> m = i" using True by simp
      with F show ?thesis by (auto simp: h)
    qed
    then have "(positions h1 k = Some m) = (m < length (timerList h1) \<and> timer_id (timerList h1 ! m) = k)"
      for k m by (simp add: h1_def)
    then show ?thesis using True by (simp add: heap_indexed_def)
  next
    case False
    then have lt: "i < ?n" "?n < length ?l" using i by auto
    have pos: "positions (place i h1) k = Some m \<longleftrightarrow> (if k = timer_id (?l ! ?n) then m = i
        else k \<noteq> timer_id (?l ! i) \<and> m < length ?l \<and> timer_id (?l ! m) = k)" for k m
      using lt by (auto simp: place_def h1_def l1 h)
    have "m < ?n \<and> timer_id (swap_pop i ?l ! m) = k \<longleftrightarrow> (if k = timer_id (?l ! ?n) then m = i
        else k \<noteq> timer_id (?l ! i) \<and> m < length ?l \<and> timer_id (?l ! m) = k)" for k m
    proof (cases "m < ?n")
      case True
      then have "timer_id (?l ! m) \<noteq> timer_id (?l ! ?n)" using inj [of m ?n] lt by auto
      moreover have "m \<noteq> i \<Longrightarrow> timer_id (?l ! m) \<noteq> timer_id (?l ! i)"
        using inj [of m i] lt True by auto
      ultimately show ?thesis using True by (auto simp: l1)
    next
      case F: False
      then have "m < length ?l \<Longrightarrow> m = ?n" by simp
      with F lt show ?thesis by auto
    qed
    then show ?thesis
      using False by (simp add: heap_indexed_def pos) (simp add: place_def h1_def)
  qed
qed

lemma remove_at_indexed:
  "heap_indexed h \<Longrightarrow> i < length (timerList h) \<Longrightarrow> heap_indexed (remove_at i h)"
  using heap_indexed_swap_pop [of h i]
  by (auto simp: remove_at_def Let_def Adjust_indexed split: if_splits)

lemma remove_at_mset:
  "i < length (timerList h) \<Longrightarrow>
   add_mset (timerList h ! i) (mset (timerList (remove_at i h))) = mset (timerList h)"
  by (simp add: remove_at_def Let_def mset_swap_pop)

lemma remove_at_length:
  "i < length (timerList h) \<Longrightarrow> length (timerList (remove_at i h)) = length (timerList h) - 1"
  by (simp add: remove_at_def Let_def)

text \<open>The order is restored by moving the replacement down only. That is enough at the
  top; elsewhere the replacement must not be earlier than the parent of the gap.\<close>

lemma down_ok_swap_pop:
  assumes o: "heap_ordered l" and i: "i < length l"
    and parent: "0 < i \<Longrightarrow> expiration (l ! ((i - 1) div 2)) \<le> expiration (last l)"
  shows "down_ok (swap_pop i l) i"
proof -
  have "expiration (swap_pop i l ! ((j - 1) div 2)) \<le> expiration (swap_pop i l ! j)"
    if j: "0 < j" "j < length l - 1" "(j - 1) div 2 \<noteq> i" for j
  proof -
    have pj: "(j - 1) div 2 < length l - 1" using parent_less [OF j(1)] j(2) by simp
    show ?thesis
      using o j pj i parent by (cases "j = i") (auto simp: nth_swap_pop heap_ordered_def)
  qed
  moreover have "expiration (swap_pop i l ! ((i - 1) div 2)) \<le> expiration (swap_pop i l ! j)"
    if j: "0 < i" "0 < j" "j < length l - 1" "(j - 1) div 2 = i" for j
  proof -
    have "i < j" "(i - 1) div 2 < i" using parent_less j by blast+
    moreover have "expiration (l ! ((i - 1) div 2)) \<le> expiration (l ! i)"
      "expiration (l ! i) \<le> expiration (l ! j)"
      using o j i by (auto simp: heap_ordered_def)
    ultimately show ?thesis using i j(3) by (simp add: nth_swap_pop)
  qed
  ultimately show ?thesis by (simp add: down_ok_def)
qed

lemma heap_ordered_butlast: "heap_ordered l \<Longrightarrow> heap_ordered (butlast l)"
  unfolding heap_ordered_def
proof (intro allI impI)
  fix i assume o: "\<forall>i. 0 < i \<and> i < length l \<longrightarrow> expiration (l ! ((i - 1) div 2)) \<le> expiration (l ! i)"
    and i: "0 < i \<and> i < length (butlast l)"
  then have "(i - 1) div 2 < length (butlast l)" using parent_less [of i] by linarith
  with o i show "expiration (butlast l ! ((i - 1) div 2)) \<le> expiration (butlast l ! i)"
    by (auto simp: nth_butlast)
qed

lemma remove_at_ordered:
  assumes "heap_ordered (timerList h)" and "i < length (timerList h)"
    and "0 < i \<Longrightarrow> exp_at h ((i - 1) div 2) \<le> expiration (last (timerList h))"
  shows "heap_ordered (timerList (remove_at i h))"
proof (cases "i = length (timerList h) - 1")
  case True
  with assms(1) show ?thesis
    by (simp add: remove_at_def Let_def swap_pop_last heap_ordered_butlast)
next
  case False
  with down_ok_swap_pop [OF assms] show ?thesis
    by (simp add: remove_at_def Let_def Adjust_ordered)
qed

text \<open>Only then: an earlier replacement stays below the parent of the gap, since the children of the gap are not earlier
  than that parent.\<close>

lemma remove_at_disorder:
  assumes o: "heap_ordered (timerList h)" and i: "0 < i" "i < length (timerList h)"
    and early: "expiration (last (timerList h)) < exp_at h ((i - 1) div 2)"
  shows "\<not> heap_ordered (timerList (remove_at i h))"
proof
  let ?l = "timerList h" and ?p = "(i - 1) div 2"
  let ?h1 = "place i \<lparr>timerList = swap_pop i ?l, positions = (positions h)(timer_id (?l ! i) := None)\<rparr>"
  assume ordered: "heap_ordered (timerList (remove_at i h))"
  have below: "exp_at h ?p \<le> expiration (?l ! i)" using o i by (simp add: heap_ordered_def)
  have inner: "i < length ?l - 1"
  proof (rule ccontr)
    assume "\<not> ?thesis"
    with i(2) have "?l \<noteq> []" "i = length ?l - 1" by auto
    then have "last ?l = ?l ! i" by (simp add: last_conv_nth)
    with early below show False by simp
  qed
  have at: "exp_at ?h1 i = expiration (last ?l)" "exp_at ?h1 ?p = exp_at h ?p"
    using inner i parent_less [OF i(1)] by (simp_all add: nth_swap_pop)
  have kids: "exp_at ?h1 i \<le> exp_at ?h1 j" if j: "j = i * 2 + 1 \<or> j = i * 2 + 2" "j < length ?l - 1" for j
  proof -
    have "(j - 1) div 2 = i" "0 < j" "j \<noteq> i" using j(1) by auto
    then have "expiration (?l ! i) \<le> expiration (?l ! j)" using o j(2) by (auto simp: heap_ordered_def)
    moreover have "exp_at ?h1 j = expiration (?l ! j)" using j(2) i(2) \<open>j \<noteq> i\<close> by (simp add: nth_swap_pop)
    ultimately show ?thesis using below early at(1) by simp
  qed
  have "sift_candidate ?h1 i = i"
    using kids [of "i * 2 + 1"] kids [of "i * 2 + 2"] i(2) by (auto simp: sift_candidate_def Let_def)
  then have "timerList (Adjust ?h1 i) = swap_pop i ?l" by (subst Adjust.simps) (simp add: Let_def)
  then have "timerList (remove_at i h) = swap_pop i ?l" using inner by (simp add: remove_at_def Let_def)
  with ordered have "expiration (swap_pop i ?l ! ?p) \<le> expiration (swap_pop i ?l ! i)"
    using i inner by (auto simp: heap_ordered_def)
  with at early show False by simp
qed

lemma remove_top_ok: "heap_ok h \<Longrightarrow> timerList h \<noteq> [] \<Longrightarrow> heap_ok (remove_at 0 h)"
  by (simp add: heap_ok_def remove_at_indexed remove_at_ordered)

subsection \<open>Replacing the top\<close>

text \<open>\<^verbatim>\<open>heap_->Top().reset(new Timer(...))\<close> with the id of the old top, then
  \<^verbatim>\<open>heap_->Adjust(0)\<close>: how a repeating timer is put back.\<close>

definition Replace_Top :: "timer \<Rightarrow> timer_heap \<Rightarrow> timer_heap" where
  "Replace_Top t h = Adjust (h\<lparr>timerList := (timerList h)[0 := t]\<rparr>) 0"

lemma Replace_Top_mset:
  assumes "timerList h \<noteq> []"
  shows "mset (timerList (Replace_Top t h)) = add_mset t (mset (timerList h) - {#Heap_Top h#})"
  using assms by (cases "timerList h") (simp_all add: Replace_Top_def Heap_Top_def)

lemma Replace_Top_ok:
  assumes "heap_ok h" and "timerList h \<noteq> []" and "timer_id t = timer_id (Heap_Top h)"
  shows "heap_ok (Replace_Top t h)"
proof -
  obtain x xs where l: "timerList h = x # xs" using assms(2) by (cases "timerList h") auto
  have "timer_id ((timerList h)[0 := t] ! i) = timer_id (timerList h ! i)" for i
    using assms(3) by (cases i) (simp_all add: l Heap_Top_def)
  then have "heap_indexed (h\<lparr>timerList := (timerList h)[0 := t]\<rparr>)"
    using assms(1) by (simp add: heap_ok_def heap_indexed_def)
  moreover have "down_ok ((timerList h)[0 := t]) 0"
    using assms(1) by (auto simp: down_ok_def heap_ok_def heap_ordered_def nth_list_update)
  ultimately show ?thesis
    by (simp add: heap_ok_def Replace_Top_def Adjust_indexed Adjust_ordered)
qed

section \<open>The interface of the timer queue\<close>

text \<open>
  What \<^verbatim>\<open>TimerQueue\<close> relies on: a store of timers whose top is an earliest one, with the
  flag of \<open>add\<close> telling that the top changed. The queue's lemmas are proved here once.
\<close>

locale timer_store =
  fixes invar :: "'h \<Rightarrow> bool"
    and timers :: "'h \<Rightarrow> timer multiset"
    and isempty :: "'h \<Rightarrow> bool"
    and top_of :: "'h \<Rightarrow> timer"
    and add :: "timer \<Rightarrow> 'h \<Rightarrow> 'h \<times> bool"
    and pop_top :: "'h \<Rightarrow> 'h"
    and replace_top :: "timer \<Rightarrow> 'h \<Rightarrow> 'h"
  assumes empty_iff: "invar h \<Longrightarrow> isempty h \<longleftrightarrow> timers h = {#}"
    and top_mem: "invar h \<Longrightarrow> \<not> isempty h \<Longrightarrow> top_of h \<in># timers h"
    and top_least: "invar h \<Longrightarrow> t \<in># timers h \<Longrightarrow> expiration (top_of h) \<le> expiration t"
    and add_law: "invar h \<Longrightarrow> timer_id t \<notin> timer_id ` set_mset (timers h) \<Longrightarrow>
      invar (fst (add t h)) \<and> timers (fst (add t h)) = add_mset t (timers h)
      \<and> (snd (add t h) \<longleftrightarrow> isempty h \<or> expiration t < expiration (top_of h))"
    and pop_law: "invar h \<Longrightarrow> \<not> isempty h \<Longrightarrow>
      invar (pop_top h) \<and> timers (pop_top h) = timers h - {#top_of h#}"
    and replace_law: "invar h \<Longrightarrow> \<not> isempty h \<Longrightarrow> timer_id t = timer_id (top_of h) \<Longrightarrow>
      invar (replace_top t h) \<and> timers (replace_top t h) = add_mset t (timers h - {#top_of h#})"
begin

lemma not_expired:
  "invar h \<Longrightarrow> now < expiration (top_of h) \<Longrightarrow> t \<in># timers h \<Longrightarrow> now < expiration t"
  using top_least by force

lemma top_expiration_eq:
  assumes "invar h" and "t \<in># timers h" and "\<And>s. s \<in># timers h \<Longrightarrow> expiration t \<le> expiration s"
  shows "expiration (top_of h) = expiration t"
proof -
  have "\<not> isempty h" using assms(1,2) empty_iff by auto
  with assms top_least top_mem show ?thesis by (meson order_antisym)
qed

lemma add_not_empty:
  assumes "invar h" and "timer_id t \<notin> timer_id ` set_mset (timers h)"
  shows "\<not> isempty (fst (add t h))"
  using add_law [OF assms] empty_iff by auto

text \<open>The flag of \<open>add\<close> is exactly what is needed to keep track of the earliest
  expiration.\<close>

lemma add_top:
  assumes inv: "invar h" and new: "timer_id t \<notin> timer_id ` set_mset (timers h)"
  shows "expiration (top_of (fst (add t h)))
    = (if snd (add t h) then expiration t else expiration (top_of h))"
proof -
  note law = add_law [OF inv new]
  show ?thesis
  proof (cases "snd (add t h)")
    case True
    have "expiration t \<le> expiration s" if "s \<in># add_mset t (timers h)" for s
      using that True law top_least [OF inv, of s] empty_iff [OF inv] by fastforce
    with True law top_expiration_eq [of "fst (add t h)" t] show ?thesis by simp
  next
    case False
    then have ne: "\<not> isempty h" and le: "expiration (top_of h) \<le> expiration t"
      using law by auto
    have "expiration (top_of h) \<le> expiration s" if "s \<in># add_mset t (timers h)" for s
      using that le top_least [OF inv, of s] by auto
    with False law ne top_mem [OF inv] top_expiration_eq [of "fst (add t h)" "top_of h"]
    show ?thesis by simp
  qed
qed

text \<open>Both ways of dealing with an expired top leave fewer timers that are due.\<close>

lemma pop_fewer_due:
  assumes "invar h" and "\<not> isempty h" and "expiration (top_of h) \<le> T"
  shows "size {#t \<in># timers (pop_top h). expiration t \<le> T#} < size {#t \<in># timers h. expiration t \<le> T#}"
proof -
  obtain M where M: "timers h = add_mset (top_of h) M"
    using top_mem [OF assms(1,2)] by (metis multi_member_split)
  with pop_law [OF assms(1,2)] assms(3) show ?thesis by simp
qed

lemma replace_fewer_due:
  assumes "invar h" and "\<not> isempty h" and "expiration (top_of h) \<le> T"
    and "timer_id t = timer_id (top_of h)" and "T < expiration t"
  shows "size {#t \<in># timers (replace_top t h). expiration t \<le> T#}
     < size {#t \<in># timers h. expiration t \<le> T#}"
proof -
  obtain M where M: "timers h = add_mset (top_of h) M"
    using top_mem [OF assms(1,2)] by (metis multi_member_split)
  with replace_law [OF assms(1,2,4)] assms(3,5) show ?thesis by simp
qed

end

definition heap_timers :: "timer_heap \<Rightarrow> timer multiset" where
  "heap_timers h = mset (timerList h)"

definition Pop_Top :: "timer_heap \<Rightarrow> timer_heap" where
  "Pop_Top h = PopMovedTimer (timer_id (Heap_Top h)) h"

lemma Pop_Top_eq:
  assumes "heap_indexed h" and "timerList h \<noteq> []"
  shows "Pop_Top h = remove_at 0 h"
  using assms PopMovedTimer_eq [of h 0] by (simp add: Pop_Top_def Heap_Top_def hd_conv_nth)

lemma remove_top_mset:
  "timerList h \<noteq> [] \<Longrightarrow> mset (timerList (remove_at 0 h)) = mset (timerList h) - {#Heap_Top h#}"
  using remove_at_mset [of 0 h]
  by (metis Heap_Top_def add_mset_remove_trivial hd_conv_nth length_greater_0_conv)

lemma absent_id: "heap_indexed h \<Longrightarrow> timer_id t \<notin> timer_id ` set (timerList h) \<Longrightarrow>
    positions h (timer_id t) = None"
  using heap_indexed_dom by (metis domIff)

interpretation heap_store: timer_store heap_ok heap_timers Heap_Empty Heap_Top Heap_Add
  Pop_Top Replace_Top
proof unfold_locales
  fix h and t :: timer assume ok: "heap_ok h" and new: "timer_id t \<notin> timer_id ` set_mset (heap_timers h)"
  then have "positions h (timer_id t) = None"
    by (simp add: absent_id heap_ok_def heap_timers_def)
  with ok show "heap_ok (fst (Heap_Add t h)) \<and> heap_timers (fst (Heap_Add t h)) = add_mset t (heap_timers h)
      \<and> (snd (Heap_Add t h) \<longleftrightarrow> Heap_Empty h \<or> expiration t < expiration (Heap_Top h))"
    using Heap_Add_indexed [of h t] Heap_Add_ordered [of h t]
    by (simp add: heap_ok_def heap_timers_def Heap_Add_mset Heap_Empty_def Heap_Top_def)
next
  fix h assume "heap_ok h" and "\<not> Heap_Empty h"
  then show "heap_ok (Pop_Top h) \<and> heap_timers (Pop_Top h) = heap_timers h - {#Heap_Top h#}"
    using remove_top_ok [of h]
    by (simp add: Pop_Top_eq heap_ok_def Heap_Empty_def remove_top_mset heap_timers_def)
next
  fix h and t :: timer assume "heap_ok h" and "\<not> Heap_Empty h" and "timer_id t = timer_id (Heap_Top h)"
  then show "heap_ok (Replace_Top t h)
      \<and> heap_timers (Replace_Top t h) = add_mset t (heap_timers h - {#Heap_Top h#})"
    by (simp add: Replace_Top_ok Replace_Top_mset Heap_Empty_def heap_timers_def)
qed (auto simp: heap_timers_def Heap_Empty_def Heap_Top_def heap_ok_def heap_ordered_root)

section \<open>Properties\<close>

text \<open>C27. \<^verbatim>\<open>Add\<close> keeps the heap: in an ordered heap that does not hold its id, the new
  timer is inserted, the order holds again, the position map is exact, and the returned flag
  says precisely whether the new timer is now strictly the earliest.\<close>

theorem Heap_Add_spec:
  assumes "heap_ok h" and "positions h (timer_id t) = None"
  shows "heap_ok (fst (Heap_Add t h))
    \<and> mset (timerList (fst (Heap_Add t h))) = add_mset t (mset (timerList h))
    \<and> (snd (Heap_Add t h) \<longleftrightarrow> (\<forall>s \<in> set (timerList h). expiration t < expiration s))"
proof -
  have root: "expiration t < expiration (hd (timerList h)) \<longleftrightarrow>
      (\<forall>s \<in> set (timerList h). expiration t < expiration s)" if "timerList h \<noteq> []"
    using assms(1) that heap_ordered_root [of "timerList h"] unfolding heap_ok_def
    by (metis hd_in_set order_less_le_trans)
  then show ?thesis
    using assms Heap_Add_indexed [of h t] Heap_Add_ordered [of h t]
    by (cases "timerList h = []") (auto simp: heap_ok_def Heap_Add_mset)
qed

definition mk_timer :: "int \<Rightarrow> timer_id \<Rightarrow> timer" where
  "mk_timer e i = \<lparr>timer_cb = 0, expiration = e, interval = 0, timer_id = i\<rparr>"

theorem Heap_Add_spec_witness:
  "heap_ok (fst (Heap_Add (mk_timer 5 1) (fst (Heap_Add (mk_timer 9 0) new_TimerMinHeap))))
   \<and> snd (Heap_Add (mk_timer 5 1) (fst (Heap_Add (mk_timer 9 0) new_TimerMinHeap)))"
proof -
  let ?h = "fst (Heap_Add (mk_timer 9 0) new_TimerMinHeap)"
  have h: "?h = \<lparr>timerList = [mk_timer 9 0], positions = [0 \<mapsto> 0]\<rparr>"
    by (simp add: Heap_Add_def new_TimerMinHeap_def mk_timer_def)
  have "heap_ok ?h"
    unfolding h by (auto simp: heap_ok_def heap_indexed_def heap_ordered_def mk_timer_def split: if_splits)
  from Heap_Add_spec [OF this, of "mk_timer 5 1", unfolded h] show ?thesis
    unfolding h by (simp add: mk_timer_def)
qed

text \<open>C28. \<^verbatim>\<open>Del\<close> removes the right timer: for every id it finds, exactly that timer leaves
  the array and the position map is exact again, and the flag says whether it was the top; an
  unknown id changes nothing. In a heap the order survives exactly when the timer is the top, or when the
  last timer, which takes its place, is not earlier than the parent of that place: \<^verbatim>\<open>Del\<close> moves
  it down only.\<close>

theorem Heap_Del_spec:
  assumes "heap_indexed h"
  shows "case positions h tid of
      None \<Rightarrow> Heap_Del tid h = (h, False)
    | Some i \<Rightarrow> heap_indexed (fst (Heap_Del tid h))
        \<and> add_mset (timerList h ! i) (mset (timerList (fst (Heap_Del tid h)))) = mset (timerList h)
        \<and> timer_id (timerList h ! i) = tid
        \<and> (snd (Heap_Del tid h) \<longleftrightarrow> i = 0)
        \<and> (heap_ordered (timerList h) \<longrightarrow>
             (heap_ordered (timerList (fst (Heap_Del tid h))) \<longleftrightarrow>
              i = 0 \<or> exp_at h ((i - 1) div 2) \<le> expiration (last (timerList h))))"
proof (cases "positions h tid")
  case None
  then show ?thesis by (simp add: Heap_Del_absent)
next
  case (Some i)
  then have i: "i < length (timerList h)" "timer_id (timerList h ! i) = tid"
    using heap_indexedD [OF assms] by auto
  from Heap_Del_eq [OF assms i(1)] i(2) have "Heap_Del tid h = (remove_at i h, i = 0)" by simp
  moreover have "heap_ordered (timerList (remove_at i h)) \<longleftrightarrow>
      i = 0 \<or> exp_at h ((i - 1) div 2) \<le> expiration (last (timerList h))" if o: "heap_ordered (timerList h)"
    using remove_at_ordered [OF o i(1)] remove_at_disorder [OF o _ i(1)] by (blast intro: gr0I leI)
  ultimately show ?thesis using Some i remove_at_indexed [OF assms i(1)] remove_at_mset [OF i(1)] by simp
qed

definition seven_timers :: timer_heap where
  "seven_timers =
     \<lparr>timerList = [mk_timer 1 1, mk_timer 4 4, mk_timer 2 2, mk_timer 5 5, mk_timer 6 6,
                   mk_timer 7 7, mk_timer 3 3],
      positions = [1 \<mapsto> 0, 4 \<mapsto> 1, 2 \<mapsto> 2, 5 \<mapsto> 3, 6 \<mapsto> 4, 7 \<mapsto> 5, 3 \<mapsto> 6]\<rparr>"

lemma all_less_7: "(\<forall>i<7. P i) \<longleftrightarrow> P 0 \<and> P 1 \<and> P 2 \<and> P 3 \<and> P 4 \<and> P 5 \<and> P (6::nat)"
  by (simp add: numeral_eq_Suc All_less_Suc) blast

lemma seven_timers_indexed: "heap_indexed seven_timers"
proof -
  have len: "length (timerList seven_timers) = 7" by (simp add: seven_timers_def)
  have fwd: "\<forall>i<7. positions seven_timers (timer_id (timerList seven_timers ! i)) = Some i"
    unfolding all_less_7 by (simp add: seven_timers_def mk_timer_def)
  moreover have "i < 7 \<and> timer_id (timerList seven_timers ! i) = k"
    if "positions seven_timers k = Some i" for k i
    using that by (auto simp: seven_timers_def mk_timer_def split: if_splits)
  ultimately show ?thesis unfolding heap_indexed_def len by blast
qed

lemma seven_timers_ordered: "heap_ordered (timerList seven_timers)"
proof -
  have "\<forall>i<7. 0 < i \<longrightarrow> exp_at seven_timers ((i - 1) div 2) \<le> exp_at seven_timers i"
    unfolding all_less_7 by (simp add: seven_timers_def mk_timer_def)
  then show ?thesis by (simp add: heap_ordered_def) (simp add: seven_timers_def)
qed

theorem Heap_Del_spec_witness:
  "\<not> heap_ordered (timerList (fst (Heap_Del 6 seven_timers))) \<and> heap_ordered (timerList (fst (Heap_Del 7 seven_timers)))
   \<and> \<not> snd (Heap_Del 5 seven_timers) \<and> snd (Heap_Del 1 seven_timers)"
  using Heap_Del_spec [OF seven_timers_indexed, of 6] Heap_Del_spec [OF seven_timers_indexed, of 7]
    Heap_Del_spec [OF seven_timers_indexed, of 5] Heap_Del_spec [OF seven_timers_indexed, of 1] seven_timers_ordered
  by (simp add: seven_timers_def mk_timer_def)

text \<open>\<^verbatim>\<open>Del\<close> can break the heap. In a well-formed heap of seven timers the timer at
  index 3 is deleted; the last timer takes its place below a later one and \<^verbatim>\<open>Del\<close> only
  moves it down, so the array is no longer ordered, and after the two earliest timers are
  removed the top expires at 4 although a timer that expires at 3 is in the heap.\<close>

theorem Heap_Del_breaks_order:
  "heap_ok seven_timers
   \<and> \<not> heap_ordered (timerList (fst (Heap_Del 5 seven_timers)))
   \<and> map expiration (timerList (Pop_Top (Pop_Top (fst (Heap_Del 5 seven_timers))))) = [4, 3, 7, 6]"
proof -
  have del: "timerList (fst (Heap_Del 5 seven_timers)) =
      [mk_timer 1 1, mk_timer 4 4, mk_timer 2 2, mk_timer 3 3, mk_timer 6 6, mk_timer 7 7]"
    by code_simp
  have "\<not> heap_ordered (timerList (fst (Heap_Del 5 seven_timers)))"
  proof
    assume "heap_ordered (timerList (fst (Heap_Del 5 seven_timers)))"
    from this [unfolded heap_ordered_def del, rule_format, of 3] show False
      by (simp add: mk_timer_def)
  qed
  moreover have "map expiration (timerList (Pop_Top (Pop_Top (fst (Heap_Del 5 seven_timers)))))
      = [4, 3, 7, 6]"
    by code_simp
  ultimately show ?thesis
    using seven_timers_indexed seven_timers_ordered by (simp add: heap_ok_def)
qed

end
