(* ===== verification/TimerQueue.thy ===== *)
theory TimerQueue
  imports TimerHeap "HOL-Library.Signed_Division"
begin

text \<open>
  The class \<^verbatim>\<open>TimerQueue\<close> of \<^verbatim>\<open>TimerQueue.cpp\<close> with \<^verbatim>\<open>Watcher\<close> of \<^verbatim>\<open>Timer.h\<close>: it owns
  a heap of timers and keeps one timerfd armed at the earliest expiration. The value given
  to \<^verbatim>\<open>timerfd_settime\<close> is part of the state, the readings of the steady clock are an
  argument (\<open>clk k\<close> is the \<open>k\<close>-th reading), and a task handed to the event loop is
  either run at once or queued in \<open>tq_pending\<close>. Shown: the timerfd always stands at the
  earliest expiration, \<^verbatim>\<open>GetExpiredTimers\<close> terminates and hands out exactly the timers that
  are due, in order, and re-arms the repeating ones.
\<close>

section \<open>State and construction\<close>

definition TimePoint_max :: int where "TimePoint_max = 2 ^ 63 - 1"

datatype tq_task = TaskAdd timer | TaskCancel timer_id

record timer_queue =
  tq_heap :: timer_heap
  nextTimerId :: timer_id
  latestTime :: int
  timerfd :: "int \<times> int"
  tq_pending :: "tq_task list"

definition new_TimerQueue :: timer_queue where
  "new_TimerQueue = \<lparr>tq_heap = new_TimerMinHeap, nextTimerId = 0, latestTime = TimePoint_max,
     timerfd = (0, 0), tq_pending = []\<rparr>"

text \<open>Seconds and nanoseconds of a time point, by \<^verbatim>\<open>duration_cast\<close>, which truncates.\<close>

definition to_itimerspec :: "int \<Rightarrow> int \<times> int" where
  "to_itimerspec dura = (let sec = dura sdiv 1000000000 in (sec, dura - sec * 1000000000))"

definition ResetTimerfd :: "timer_queue \<Rightarrow> timer_queue" where
  "ResetTimerfd q = q\<lparr>timerfd := (if latestTime q \<noteq> TimePoint_max
     then to_itimerspec (latestTime q) else (0, 0))\<rparr>"

section \<open>Adding and cancelling\<close>

definition AddTimerInLoop :: "bool \<Rightarrow> timer \<Rightarrow> timer_queue \<Rightarrow> timer_queue res" where
  "AddTimerInLoop inl t q = loop_only inl
     (let timeout = expiration t;
          (h, latest_need_update) = Heap_Add t (tq_heap q);
          q1 = q\<lparr>tq_heap := h\<rparr>
      in Inr (if latest_need_update then ResetTimerfd (q1\<lparr>latestTime := timeout\<rparr>) else q1))"

definition CancelTimerInLoop :: "bool \<Rightarrow> timer_id \<Rightarrow> timer_queue \<Rightarrow> timer_queue res" where
  "CancelTimerInLoop inl tid q = loop_only inl
     (let (h, latest_need_update) = Heap_Del tid (tq_heap q);
          q1 = q\<lparr>tq_heap := h\<rparr>
      in Inr (if latest_need_update
              then ResetTimerfd (q1\<lparr>latestTime :=
                     (if Heap_Empty h then TimePoint_max else expiration (Heap_Top h))\<rparr>)
              else q1))"

fun run_task :: "bool \<Rightarrow> tq_task \<Rightarrow> timer_queue \<Rightarrow> timer_queue res" where
  "run_task inl (TaskAdd t) q = AddTimerInLoop inl t q"
| "run_task inl (TaskCancel tid) q = CancelTimerInLoop inl tid q"

text \<open>\<^verbatim>\<open>EventLoop::RunInEventLoop\<close>: in the thread of the loop the task runs now,
  otherwise the loop runs it later.\<close>

definition submit :: "bool \<Rightarrow> tq_task \<Rightarrow> timer_queue \<Rightarrow> timer_queue res" where
  "submit inl task q = (if inl then run_task inl task q
     else Inr (q\<lparr>tq_pending := tq_pending q @ [task]\<rparr>))"

definition AddTimer ::
    "bool \<Rightarrow> int \<Rightarrow> int \<Rightarrow> nat \<Rightarrow> timer_queue \<Rightarrow> (timer_id \<times> timer_queue) res" where
  "AddTimer inl when itv cb q = ensure (when \<noteq> TimePoint_max)
     (let cur_timer_id = nextTimerId q;
          t = \<lparr>timer_cb = cb, expiration = when, interval = itv, timer_id = cur_timer_id\<rparr>
      in mapR (Pair cur_timer_id)
           (submit inl (TaskAdd t) (q\<lparr>nextTimerId := nextTimerId q + 1\<rparr>)))"

definition CancelTimer :: "bool \<Rightarrow> timer_id \<Rightarrow> timer_queue \<Rightarrow> timer_queue res" where
  "CancelTimer inl tid q = submit inl (TaskCancel tid) q"

definition cancelTimer :: "bool \<Rightarrow> timer_id \<Rightarrow> timer_queue \<Rightarrow> timer_queue res" where
  "cancelTimer inl tid q = CancelTimer inl tid q"

text \<open>\<^verbatim>\<open>EventLoop::RunAt\<close>, \<^verbatim>\<open>RunAfter\<close> and \<^verbatim>\<open>RunEvery\<close>; delays and intervals are in
  milliseconds, \<open>now\<close> is the reading of the steady clock.\<close>

definition ms_to_ns :: "int \<Rightarrow> int" where "ms_to_ns d = d * 1000000"

definition RunAt :: "bool \<Rightarrow> int \<Rightarrow> nat \<Rightarrow> timer_queue \<Rightarrow> (timer_id \<times> timer_queue) res" where
  "RunAt inl when cb q = AddTimer inl when 0 cb q"

definition RunAfter ::
    "bool \<Rightarrow> int \<Rightarrow> int \<Rightarrow> nat \<Rightarrow> timer_queue \<Rightarrow> (timer_id \<times> timer_queue) res" where
  "RunAfter inl now delay cb q = RunAt inl (now + ms_to_ns delay) cb q"

definition RunEvery ::
    "bool \<Rightarrow> int \<Rightarrow> int \<Rightarrow> nat \<Rightarrow> timer_queue \<Rightarrow> (timer_id \<times> timer_queue) res" where
  "RunEvery inl now itv cb q = AddTimer inl (now + ms_to_ns itv) itv cb q"

section \<open>Expiry\<close>

text \<open>A repeating timer is put back under its id, an interval after a fresh reading.\<close>

definition rearmed :: "int \<Rightarrow> timer \<Rightarrow> timer" where
  "rearmed now t = t\<lparr>expiration := now + ms_to_ns (interval t)\<rparr>"

text \<open>The loop of \<^verbatim>\<open>GetExpiredTimers\<close>; \<open>k\<close> counts the clock readings made so far.
  Nothing in the code bounds it, so it is a partial function: \<open>None\<close> is a loop that does
  not end.\<close>

partial_function (option) expire_loop ::
    "(nat \<Rightarrow> int) \<Rightarrow> nat \<Rightarrow> timer_heap \<Rightarrow> timer list \<Rightarrow> (timer_heap \<times> timer list \<times> nat) option" where
  "expire_loop clk k h result =
     (if Heap_Empty h then Some (h, result, k)
      else if expiration (Heap_Top h) \<le> clk k
      then (let t = Heap_Top h
            in if Repeat t
               then expire_loop clk (k + 2) (Replace_Top (rearmed (clk (k + 1)) t) h) (result @ [t])
               else expire_loop clk (k + 1) (PopMovedTimer (timer_id t) h) (result @ [t]))
      else Some (h, result, k + 1))"

declare expire_loop.simps [code]

definition finish_expiry :: "timer_heap \<Rightarrow> timer_queue \<Rightarrow> timer_queue res" where
  "finish_expiry h q =
     (let q1 = q\<lparr>tq_heap := h\<rparr>
      in if \<not> Heap_Empty h
         then ensure (latestTime q1 < expiration (Heap_Top h))
                (Inr (ResetTimerfd (q1\<lparr>latestTime := expiration (Heap_Top h)\<rparr>)))
         else Inr (ResetTimerfd (q1\<lparr>latestTime := TimePoint_max\<rparr>)))"

definition GetExpiredTimers ::
    "(nat \<Rightarrow> int) \<Rightarrow> timer_queue \<Rightarrow> (timer list \<times> timer_queue) res option" where
  "GetExpiredTimers clk q = (case expire_loop clk 0 (tq_heap q) [] of
       None \<Rightarrow> None
     | Some (h, result, k) \<Rightarrow> Some (mapR (Pair result) (finish_expiry h q)))"

text \<open>The callbacks are the user's: \<open>cb_effect\<close> says what a callback does to the queue
  (it may add and cancel timers). \<^verbatim>\<open>Watcher::HandleExpiredTimers\<close> checks the thread and
  reads the timerfd, which changes nothing of this state.\<close>

fun run_timers ::
    "(nat \<Rightarrow> timer_queue \<Rightarrow> timer_queue res) \<Rightarrow> timer list \<Rightarrow> timer_queue \<Rightarrow> timer_queue res" where
  "run_timers cb_effect [] q = Inr q"
| "run_timers cb_effect (t # ts) q =
     bindR (cb_effect (timer_cb t) q) (\<lambda>q1. run_timers cb_effect ts q1)"

definition HandleExpiredTimers ::
    "(nat \<Rightarrow> timer_queue \<Rightarrow> timer_queue res) \<Rightarrow> bool \<Rightarrow> (nat \<Rightarrow> int) \<Rightarrow> timer_queue \<Rightarrow>
     timer_queue res option" where
  "HandleExpiredTimers cb_effect inl clk q =
     (if inl then map_option (\<lambda>r. bindR r (\<lambda>(ts, q1). run_timers cb_effect ts q1))
                    (GetExpiredTimers clk q)
      else Some (Inl FatalLog))"

section \<open>The invariant\<close>

text \<open>The heap is well formed, \<^verbatim>\<open>latestTime_\<close> is the earliest expiration, and the timerfd is
  set to it.\<close>

definition earliest :: "timer_heap \<Rightarrow> int" where
  "earliest h = (if Heap_Empty h then TimePoint_max else expiration (Heap_Top h))"

definition armed_at :: "int \<Rightarrow> int \<times> int" where
  "armed_at d = (if d \<noteq> TimePoint_max then to_itimerspec d else (0, 0))"

definition tq_ok :: "timer_queue \<Rightarrow> bool" where
  "tq_ok q \<longleftrightarrow> heap_ok (tq_heap q) \<and> latestTime q = earliest (tq_heap q)
     \<and> timerfd q = armed_at (latestTime q)"

abbreviation queued_timers :: "timer_queue \<Rightarrow> timer multiset" where
  "queued_timers q \<equiv> heap_timers (tq_heap q)"

lemma tq_ok_new [simp]: "tq_ok new_TimerQueue"
  by (simp add: tq_ok_def new_TimerQueue_def earliest_def Heap_Empty_def armed_at_def)
    (simp add: new_TimerMinHeap_def)

lemma ResetTimerfd_eq: "ResetTimerfd q = q\<lparr>timerfd := armed_at (latestTime q)\<rparr>"
  by (simp add: ResetTimerfd_def armed_at_def)

lemma to_itimerspec_pos:
  "0 \<le> d \<Longrightarrow> to_itimerspec d = (d div 1000000000, d mod 1000000000)"
  by (simp add: to_itimerspec_def signed_divide_int_def sgn_if minus_div_mult_eq_mod)

lemma tq_ok_earliest:
  assumes "tq_ok q" and "t \<in># queued_timers q"
  shows "latestTime q \<le> expiration t"
  using assms heap_store.top_least heap_store.empty_iff
  by (auto simp: tq_ok_def earliest_def)

section \<open>Adding and cancelling keep the timerfd at the earliest expiration\<close>

lemma AddTimerInLoop_eq:
  "AddTimerInLoop True t q = Inr (let q1 = q\<lparr>tq_heap := fst (Heap_Add t (tq_heap q))\<rparr>
     in if snd (Heap_Add t (tq_heap q)) then ResetTimerfd (q1\<lparr>latestTime := expiration t\<rparr>) else q1)"
  by (simp add: AddTimerInLoop_def Let_def split: prod.splits)

lemma AddTimerInLoop_ok:
  assumes ok: "tq_ok q" and new: "timer_id t \<notin> timer_id ` set_mset (queued_timers q)"
  shows "\<exists>q'. AddTimerInLoop True t q = Inr q' \<and> tq_ok q'
    \<and> queued_timers q' = add_mset t (queued_timers q)"
proof -
  have heap: "heap_ok (tq_heap q)" using ok by (simp add: tq_ok_def)
  note law = heap_store.add_law [OF heap new]
  note top = heap_store.add_top [OF heap new]
  note ne = heap_store.add_not_empty [OF heap new]
  show ?thesis
  proof (cases "snd (Heap_Add t (tq_heap q))")
    case True
    with law top ne show ?thesis
      by (simp add: AddTimerInLoop_eq tq_ok_def earliest_def ResetTimerfd_eq)
  next
    case False
    with law top ne ok show ?thesis
      by (simp add: AddTimerInLoop_eq tq_ok_def earliest_def)
  qed
qed

lemma earliest_remove_at:
  assumes ok: "heap_ok h" and i: "0 < i" "i < length (timerList h)" and ok': "heap_ok (remove_at i h)"
  shows "earliest (remove_at i h) = earliest h"
proof -
  have ne: "\<not> Heap_Empty h" using i by (auto simp: Heap_Empty_def)
  have eq: "add_mset (timerList h ! i) (heap_timers (remove_at i h)) = heap_timers h"
    using remove_at_mset [OF i(2)] by (simp add: heap_timers_def)
  have "timerList h ! i \<noteq> timerList h ! 0"
    using ok i heap_indexed_inj [of h i 0] unfolding heap_ok_def by fastforce
  then have diff: "timerList h ! i \<noteq> Heap_Top h"
    using ne by (simp add: Heap_Top_def Heap_Empty_def hd_conv_nth)
  have mem: "Heap_Top h \<in># heap_timers (remove_at i h)"
    using diff heap_store.top_mem [OF ok ne] unfolding eq [symmetric] by auto
  have "expiration (Heap_Top (remove_at i h)) = expiration (Heap_Top h)"
  proof (rule heap_store.top_expiration_eq [OF ok' mem])
    fix s assume "s \<in># heap_timers (remove_at i h)"
    then show "expiration (Heap_Top h) \<le> expiration s"
      using heap_store.top_least [OF ok, of s] unfolding eq [symmetric] by simp
  qed
  moreover have "\<not> Heap_Empty (remove_at i h)"
    using mem heap_store.empty_iff [OF ok'] by auto
  ultimately show ?thesis using ne by (simp add: earliest_def)
qed

lemma CancelTimerInLoop_at:
  assumes "heap_ok (tq_heap q)" and i: "i < length (timerList (tq_heap q))"
    and "timer_id (timerList (tq_heap q) ! i) = tid"
  shows "CancelTimerInLoop True tid q = Inr (let q1 = q\<lparr>tq_heap := remove_at i (tq_heap q)\<rparr>
     in if i = 0 then ResetTimerfd (q1\<lparr>latestTime := earliest (tq_heap q1)\<rparr>) else q1)"
  using assms Heap_Del_eq [of "tq_heap q" i]
  by (simp add: CancelTimerInLoop_def heap_ok_def earliest_def Let_def)

text \<open>Cancelling is safe for the top, and for a timer whose place the last one may take.\<close>

definition safe_cancel :: "timer_id \<Rightarrow> timer_heap \<Rightarrow> bool" where
  "safe_cancel tid h \<longleftrightarrow> (case positions h tid of None \<Rightarrow> True
     | Some i \<Rightarrow> i = 0 \<or> exp_at h ((i - 1) div 2) \<le> expiration (last (timerList h)))"

lemma CancelTimerInLoop_ok:
  assumes ok: "tq_ok q" and safe: "safe_cancel tid (tq_heap q)"
  shows "\<exists>q'. CancelTimerInLoop True tid q = Inr q' \<and> tq_ok q'
    \<and> queued_timers q' = filter_mset (\<lambda>t. timer_id t \<noteq> tid) (queued_timers q)"
proof (cases "positions (tq_heap q) tid")
  case None
  have "heap_ok (tq_heap q)" using ok by (simp add: tq_ok_def)
  then have "tid \<notin> timer_id ` set (timerList (tq_heap q))"
    using None heap_indexed_dom [of "tq_heap q"] by (auto simp: heap_ok_def)
  then have "filter_mset (\<lambda>t. timer_id t \<noteq> tid) (queued_timers q) = queued_timers q"
    by (auto simp: heap_timers_def filter_mset_eq_conv)
  with ok None show ?thesis by (simp add: CancelTimerInLoop_def Heap_Del_absent)
next
  case (Some i)
  let ?h = "tq_heap q"
  have heap: "heap_ok ?h" and indexed: "heap_indexed ?h" using ok by (auto simp: tq_ok_def heap_ok_def)
  have i: "i < length (timerList ?h)" "timer_id (timerList ?h ! i) = tid"
    using heap_indexedD [OF indexed Some] by auto
  have heap': "heap_ok (remove_at i ?h)"
    using remove_at_ordered [of ?h i] remove_at_indexed [OF indexed i(1)] heap safe i(1) Some
    by (auto simp: heap_ok_def safe_cancel_def)
  have eq: "add_mset (timerList ?h ! i) (heap_timers (remove_at i ?h)) = heap_timers ?h"
    using remove_at_mset [OF i(1)] by (simp add: heap_timers_def)
  have "timer_id t \<noteq> tid" if "t \<in># heap_timers (remove_at i ?h)" for t
  proof -
    have "t \<noteq> timerList ?h ! i"
    proof
      assume "t = timerList ?h ! i"
      with that have "1 < count (heap_timers ?h) (timerList ?h ! i)"
        unfolding eq [symmetric] by (simp add: count_greater_zero_iff [symmetric] del: count_greater_zero_iff)
      then show False
        using distinct_count_atmost_1 [of "timerList ?h"] heap_indexed_distinct [OF indexed]
        by (simp add: heap_timers_def distinct_map split: if_splits)
    qed
    moreover have "t \<in> set (timerList ?h)"
      using that arg_cong [OF eq, of set_mset] by (auto simp: heap_timers_def)
    ultimately show ?thesis using heap_indexed_inj [OF indexed] i by (auto simp: in_set_conv_nth)
  qed
  then have "filter_mset (\<lambda>t. timer_id t \<noteq> tid) (heap_timers ?h) = heap_timers (remove_at i ?h)"
    using i(2) unfolding eq [symmetric] by (auto simp: filter_mset_eq_conv)
  then show ?thesis
    using ok heap' CancelTimerInLoop_at [OF heap i] earliest_remove_at [OF heap _ i(1) heap']
    by (cases "i = 0") (simp_all add: tq_ok_def ResetTimerfd_eq)
qed

section \<open>Expiry terminates and hands out what is due\<close>

text \<open>The clock does not go back, the whole phase ends by \<open>T\<close>, and no timer repeats within
  the phase.\<close>

definition phase_clock :: "(nat \<Rightarrow> int) \<Rightarrow> int \<Rightarrow> bool" where
  "phase_clock clk T \<longleftrightarrow> (\<forall>i j. i \<le> j \<longrightarrow> clk i \<le> clk j) \<and> (\<forall>i. clk i \<le> T)"

definition slow_repeats :: "(nat \<Rightarrow> int) \<Rightarrow> int \<Rightarrow> timer multiset \<Rightarrow> bool" where
  "slow_repeats clk T M \<longleftrightarrow> (\<forall>t \<in># M. Repeat t \<longrightarrow> (\<forall>i. T < clk i + ms_to_ns (interval t)))"

text \<open>What the loop promises of the timers \<open>M\<close> before, the timers \<open>M'\<close> after and the
  list handed out, where \<open>now\<close> is its first reading of the clock.\<close>

definition expiry_spec :: "(nat \<Rightarrow> int) \<Rightarrow> int \<Rightarrow> int \<Rightarrow> timer multiset \<Rightarrow> timer list \<Rightarrow> timer multiset \<Rightarrow> bool"
  where "expiry_spec clk now T M fired M' \<longleftrightarrow>
     sorted (map expiration fired) \<and> mset fired \<subseteq># M
   \<and> (\<forall>t \<in> set fired. expiration t \<le> T)
   \<and> (\<forall>t \<in># M'. now < expiration t)
   \<and> (\<exists>again. M' = M - mset fired + mset again
        \<and> list_all2 (\<lambda>t r. \<exists>i. r = rearmed (clk i) t) (filter Repeat fired) again)"

lemma rearmed_simps [simp]:
  "timer_id (rearmed now t) = timer_id t" "interval (rearmed now t) = interval t"
  "timer_cb (rearmed now t) = timer_cb t" "expiration (rearmed now t) = now + ms_to_ns (interval t)"
  "Repeat (rearmed now t) \<longleftrightarrow> Repeat t"
  by (simp_all add: rearmed_def Repeat_def)

text \<open>One more timer in front: the earliest one, gone or put back later than \<open>T\<close>.\<close>

lemma expiry_spec_once:
  assumes step: "expiry_spec clk now T (M - {#t#}) fired M'" and t: "t \<in># M" "\<not> Repeat t"
    and least: "\<forall>s \<in># M. expiration t \<le> expiration s" and due: "expiration t \<le> T"
  shows "expiry_spec clk now T M (t # fired) M'"
proof -
  obtain M0 where M: "M = add_mset t M0" using t by (metis multi_member_split)
  have "expiration t \<le> expiration s" if "s \<in> set fired" for s
    using that step least unfolding expiry_spec_def M by (auto dest: mset_subset_eqD)
  then show ?thesis using step t(2) due by (auto simp: expiry_spec_def M)
qed

lemma expiry_spec_repeat:
  assumes step: "expiry_spec clk now T (add_mset (rearmed (clk i) t) (M - {#t#})) fired M'"
    and t: "t \<in># M" "Repeat t" and least: "\<forall>s \<in># M. expiration t \<le> expiration s"
    and due: "expiration t \<le> T" and late: "T < expiration (rearmed (clk i) t)"
  shows "expiry_spec clk now T M (t # fired) M'"
proof -
  let ?r = "rearmed (clk i) t"
  obtain M0 where M: "M = add_mset t M0" using t by (metis multi_member_split)
  have notin: "?r \<notin> set fired" using step late by (auto simp: expiry_spec_def)
  have sub: "mset fired \<subseteq># M0"
  proof (rule mset_subset_eqI)
    fix s
    have "mset fired \<subseteq># add_mset ?r M0" using step by (simp add: expiry_spec_def M)
    then have "count (mset fired) s \<le> count (add_mset ?r M0) s" by (rule mset_subset_eq_count)
    moreover have "count (mset fired) ?r = 0" using notin by (simp add: count_eq_zero_iff)
    ultimately show "count (mset fired) s \<le> count M0 s" by (metis count_add_mset le0)
  qed
  have least': "expiration t \<le> expiration s" if "s \<in> set fired" for s
    using that sub least unfolding M by (auto dest: mset_subset_eqD)
  obtain again where "M' = add_mset ?r M0 - mset fired + mset again"
    and la: "list_all2 (\<lambda>t r. \<exists>i. r = rearmed (clk i) t) (filter Repeat fired) again"
    using step unfolding expiry_spec_def M by auto
  then have "M' = M - mset (t # fired) + mset (?r # again)"
    using sub by (auto simp: M mset_subset_eq_exists_conv)
  moreover have "list_all2 (\<lambda>t r. \<exists>i. r = rearmed (clk i) t) (filter Repeat (t # fired)) (?r # again)"
    using la t(2) by auto
  ultimately have ex: "\<exists>again. M' = M - mset (t # fired) + mset again
      \<and> list_all2 (\<lambda>t r. \<exists>i. r = rearmed (clk i) t) (filter Repeat (t # fired)) again"
    by blast
  have "sorted (map expiration (t # fired))" using step least' by (auto simp: expiry_spec_def)
  moreover have "mset (t # fired) \<subseteq># M" using sub by (simp add: M)
  moreover have "\<forall>s \<in> set (t # fired). expiration s \<le> T" "\<forall>s \<in># M'. now < expiration s"
    using step due by (auto simp: expiry_spec_def)
  ultimately show ?thesis using ex unfolding expiry_spec_def by blast
qed

lemma slow_repeats_rearmed:
  "slow_repeats clk T M \<Longrightarrow> t \<in># M \<Longrightarrow> slow_repeats clk T (add_mset (rearmed now t) (M - {#t#}))"
  by (auto simp: slow_repeats_def dest: in_diffD)

lemma expire_loop_spec:
  assumes "heap_ok h" and clk: "phase_clock clk T" and "slow_repeats clk T (heap_timers h)"
  shows "\<exists>h' fired k'. expire_loop clk k h result = Some (h', result @ fired, k') \<and> heap_ok h'
    \<and> expiry_spec clk (clk k) T (heap_timers h) fired (heap_timers h')"
  using assms(1,3)
proof (induction "size {#t \<in># heap_timers h. expiration t \<le> T#}" arbitrary: h k result rule: less_induct)
  case less
  note ok = less.prems(1) and slow = less.prems(2)
  let ?t = "Heap_Top h"
  have mono: "clk i \<le> clk j" if "i \<le> j" for i j using clk that by (simp add: phase_clock_def)
  have later: "expiry_spec clk (clk k) T M fired M'" if "expiry_spec clk (clk (k + n)) T M fired M'" for n M fired M'
    using that mono [of k "k + n"] by (force simp: expiry_spec_def)
  consider (nothing) "Heap_Empty h" | (early) "\<not> Heap_Empty h" "clk k < expiration ?t"
    | (once) "\<not> Heap_Empty h" "expiration ?t \<le> clk k" "\<not> Repeat ?t"
    | (again) "\<not> Heap_Empty h" "expiration ?t \<le> clk k" "Repeat ?t"
    by fastforce
  then show ?case
  proof cases
    case nothing
    then show ?thesis using ok heap_store.empty_iff [OF ok]
      by (subst expire_loop.simps) (simp add: expiry_spec_def)
  next
    case early
    then show ?thesis using ok heap_store.not_expired [OF ok]
      by (subst expire_loop.simps) (auto simp: expiry_spec_def)
  next
    case once
    have due: "expiration ?t \<le> T" using once(2) clk by (meson order_trans phase_clock_def)
    note pop = heap_store.pop_law [OF ok once(1)] and mem = heap_store.top_mem [OF ok once(1)]
    have "slow_repeats clk T (heap_timers (Pop_Top h))"
      using slow pop by (auto simp: slow_repeats_def dest: in_diffD)
    from less.hyps [OF heap_store.pop_fewer_due [OF ok once(1) due] _ this, of "k + 1" "result @ [?t]"] pop
    obtain h' fired k' where
      r: "expire_loop clk (k + 1) (Pop_Top h) (result @ [?t]) = Some (h', result @ ?t # fired, k')"
        "heap_ok h'" "expiry_spec clk (clk (k + 1)) T (heap_timers h - {#?t#}) fired (heap_timers h')"
      by auto
    have "expiry_spec clk (clk (k + 1)) T (heap_timers h) (?t # fired) (heap_timers h')"
      using expiry_spec_once [OF r(3) mem once(3)] heap_store.top_least [OF ok] due by blast
    note spec = later [OF this]
    have "expire_loop clk k h result = expire_loop clk (k + 1) (Pop_Top h) (result @ [?t])"
      using once by (subst expire_loop.simps) (simp add: Pop_Top_def Let_def)
    with r(1,2) spec show ?thesis by metis
  next
    case again
    let ?r = "rearmed (clk (k + 1)) ?t"
    have due: "expiration ?t \<le> T" using again(2) clk by (meson order_trans phase_clock_def)
    note mem = heap_store.top_mem [OF ok again(1)]
    have late: "T < expiration ?r" using slow mem again(3) by (simp add: slow_repeats_def)
    have id: "timer_id ?r = timer_id ?t" by simp
    note put = heap_store.replace_law [OF ok again(1) id]
    have "slow_repeats clk T (heap_timers (Replace_Top ?r h))"
      using slow_repeats_rearmed [OF slow mem] put by simp
    from less.hyps [OF heap_store.replace_fewer_due [OF ok again(1) due id late] _ this,
        of "k + 2" "result @ [?t]"] put
    obtain h' fired k' where
      r: "expire_loop clk (k + 2) (Replace_Top ?r h) (result @ [?t]) = Some (h', result @ ?t # fired, k')"
        "heap_ok h'" "expiry_spec clk (clk (k + 2)) T (add_mset ?r (heap_timers h - {#?t#})) fired (heap_timers h')"
      by auto
    have "expiry_spec clk (clk (k + 2)) T (heap_timers h) (?t # fired) (heap_timers h')"
      using expiry_spec_repeat [OF r(3) mem again(3) _ due late] heap_store.top_least [OF ok] by blast
    note spec = later [OF this]
    have "expire_loop clk k h result = expire_loop clk (k + 2) (Replace_Top ?r h) (result @ [?t])"
      using again by (subst expire_loop.simps) (simp add: Let_def)
    with r(1,2) spec show ?thesis by metis
  qed
qed

section \<open>Properties\<close>

lemma finish_expiry_ok:
  assumes ok: "heap_ok h" and later: "\<forall>t \<in># heap_timers h. now < expiration t"
    and latest: "latestTime q \<le> now"
  shows "\<exists>q'. finish_expiry h q = Inr q' \<and> tq_ok q' \<and> tq_heap q' = h"
proof (cases "Heap_Empty h")
  case False
  with heap_store.top_mem [OF ok] later latest have "latestTime q < expiration (Heap_Top h)" by force
  with False ok show ?thesis
    by (simp add: finish_expiry_def ResetTimerfd_eq tq_ok_def earliest_def)
qed (use ok in \<open>simp add: finish_expiry_def ResetTimerfd_eq tq_ok_def earliest_def\<close>)

lemma GetExpiredTimers_ok:
  assumes ok: "tq_ok q" and clk: "phase_clock clk T" and slow: "slow_repeats clk T (queued_timers q)"
    and fresh: "queued_timers q \<noteq> {#} \<longrightarrow> latestTime q \<le> clk 0"
  shows "\<exists>fired q'. GetExpiredTimers clk q = Some (Inr (fired, q')) \<and> tq_ok q' \<and> tq_pending q' = tq_pending q
    \<and> expiry_spec clk (clk 0) T (queued_timers q) fired (queued_timers q')
    \<and> {#t \<in># queued_timers q. expiration t \<le> clk 0#} \<subseteq># mset fired"
proof -
  have heap: "heap_ok (tq_heap q)" using ok by (simp add: tq_ok_def)
  from expire_loop_spec [OF heap clk slow, of 0 "[]"] obtain h' fired k' where
    r: "expire_loop clk 0 (tq_heap q) [] = Some (h', fired, k')" "heap_ok h'"
      "expiry_spec clk (clk 0) T (queued_timers q) fired (heap_timers h')" by auto
  have later: "\<forall>t \<in># heap_timers h'. clk 0 < expiration t" using r(3) by (simp add: expiry_spec_def)
  have due: "{#t \<in># queued_timers q. expiration t \<le> clk 0#} \<subseteq># mset fired"
  proof (rule mset_subset_eqI)
    fix t
    show "count {#t \<in># queued_timers q. expiration t \<le> clk 0#} t \<le> count (mset fired) t"
    proof (cases "expiration t \<le> clk 0")
      case True
      with later have "t \<notin># heap_timers h'" by force
      moreover obtain again where "heap_timers h' = queued_timers q - mset fired + mset again"
        using r(3) unfolding expiry_spec_def by blast
      ultimately have "t \<notin># queued_timers q - mset fired" by auto
      then show ?thesis using True by (simp add: in_diff_count not_less)
    qed simp
  qed
  have "\<exists>q'. finish_expiry h' q = Inr q' \<and> tq_ok q' \<and> tq_heap q' = h'"
  proof (cases "queued_timers q = {#}")
    case True
    then have "Heap_Empty h'" using r heap_store.empty_iff [OF r(2)] by (auto simp: expiry_spec_def)
    then show ?thesis using r(2) by (simp add: finish_expiry_def ResetTimerfd_eq tq_ok_def earliest_def)
  next
    case False
    with fresh finish_expiry_ok [OF r(2) later] show ?thesis by blast
  qed
  then obtain q' where q': "finish_expiry h' q = Inr q'" "tq_ok q'" "tq_heap q' = h'" by blast
  have "tq_pending q' = tq_pending q"
    using q'(1) by (auto simp: finish_expiry_def ResetTimerfd_eq Let_def res_iffs split: if_splits)
  with r due q' show ?thesis by (auto simp: GetExpiredTimers_def)
qed

text \<open>C16. \<^verbatim>\<open>GetExpiredTimers\<close> ends and is right: when the queue is consistent, the timerfd
  event is not stale, the clock does not go back and no repeating timer comes due again before
  the phase is over, it returns (its assertion holds) every timer that was due at the first
  reading of the clock and only due ones, in order of expiration; what stays is later than that
  reading, every repeating timer is back under its id an interval after a later reading, nothing
  else changed, and the timerfd stands at the earliest expiration left.\<close>

theorem GetExpiredTimers_spec:
  assumes ok: "tq_ok q" and clk: "phase_clock clk T" and slow: "slow_repeats clk T (queued_timers q)"
    and fresh: "queued_timers q \<noteq> {#} \<longrightarrow> latestTime q \<le> clk 0"
  shows "\<exists>fired q'. GetExpiredTimers clk q = Some (Inr (fired, q')) \<and> tq_ok q'
    \<and> expiry_spec clk (clk 0) T (queued_timers q) fired (queued_timers q')
    \<and> {#t \<in># queued_timers q. expiration t \<le> clk 0#} \<subseteq># mset fired"
  using GetExpiredTimers_ok [OF assms] by blast

text \<open>The invariant of the timer queue: adding a timer under a new id, or cancelling one
  where the heap stays a heap, succeeds in the thread of the loop, changes the set of timers by
  exactly that timer and leaves the timerfd set to the earliest expiration.\<close>

lemma timer_queue_invariant:
  assumes "tq_ok q"
  shows "(timer_id t \<notin> timer_id ` set_mset (queued_timers q) \<longrightarrow>
      (\<exists>q'. AddTimerInLoop True t q = Inr q' \<and> tq_ok q'
         \<and> queued_timers q' = add_mset t (queued_timers q)))
    \<and> (safe_cancel tid (tq_heap q) \<longrightarrow>
      (\<exists>q'. CancelTimerInLoop True tid q = Inr q' \<and> tq_ok q'
         \<and> queued_timers q' = filter_mset (\<lambda>t. timer_id t \<noteq> tid) (queued_timers q)))"
  using assms AddTimerInLoop_ok CancelTimerInLoop_ok by blast

text \<open>A queue of a one-shot timer at 5 and one at 3 that repeats every 2 milliseconds.\<close>

definition two_timers :: timer_queue where
  "two_timers = \<lparr>tq_heap = \<lparr>timerList = [\<lparr>timer_cb = 7, expiration = 3, interval = 2, timer_id = 1\<rparr>,
                              \<lparr>timer_cb = 8, expiration = 5, interval = 0, timer_id = 0\<rparr>],
                  positions = [1 \<mapsto> 0, 0 \<mapsto> 1]\<rparr>,
     nextTimerId = 2, latestTime = 3, timerfd = (0, 3), tq_pending = []\<rparr>"

lemma two_timers_ok: "tq_ok two_timers"
proof -
  have "armed_at 3 = (0, 3)" by (simp add: armed_at_def TimePoint_max_def to_itimerspec_pos)
  moreover have "heap_indexed (tq_heap two_timers)"
    by (auto simp: heap_indexed_def two_timers_def nth_Cons less_Suc_eq split: nat.splits)
  ultimately show ?thesis
    by (auto simp: tq_ok_def heap_ok_def two_timers_def heap_ordered_def earliest_def Heap_Empty_def
        Heap_Top_def less_Suc_eq)
qed

theorem GetExpiredTimers_spec_witness:
  "\<exists>fired q'. GetExpiredTimers (\<lambda>k. 10 + int (min k 9)) two_timers = Some (Inr (fired, q')) \<and> tq_ok q'
    \<and> {#t \<in># queued_timers two_timers. expiration t \<le> 10#} \<subseteq># mset fired"
  using GetExpiredTimers_spec [OF two_timers_ok, of "\<lambda>k. 10 + int (min k 9)" 19]
  by (fastforce simp: two_timers_def phase_clock_def slow_repeats_def heap_timers_def Repeat_def
      ms_to_ns_def)

lemma timer_queue_invariant_example:
  "\<exists>q'. AddTimerInLoop True (mk_timer 1 2) two_timers = Inr q' \<and> tq_ok q'
    \<and> queued_timers q' = add_mset (mk_timer 1 2) (queued_timers two_timers)"
  using timer_queue_invariant [OF two_timers_ok, of "mk_timer 1 2" 0]
  by (simp add: two_timers_def heap_timers_def mk_timer_def)

text \<open>What the kernel is told: when every timer expires after the epoch of the clock, the
  value in the timerfd is a normalised pair of seconds and nanoseconds that is the earliest
  expiration, and it is the disarming value exactly when there is no timer.\<close>

lemma timerfd_armed_spec:
  assumes "tq_ok q" and "\<forall>t \<in># queued_timers q. 0 < expiration t \<and> expiration t < TimePoint_max"
  shows "(timerfd q = (0, 0) \<longleftrightarrow> queued_timers q = {#})
    \<and> 0 \<le> snd (timerfd q) \<and> snd (timerfd q) < 1000000000
    \<and> (queued_timers q \<noteq> {#} \<longrightarrow>
         fst (timerfd q) * 1000000000 + snd (timerfd q) = Min (expiration ` set_mset (queued_timers q)))"
proof (cases "queued_timers q = {#}")
  case True
  with assms(1) heap_store.empty_iff show ?thesis
    by (auto simp: tq_ok_def earliest_def armed_at_def)
next
  case False
  have heap: "heap_ok (tq_heap q)" using assms(1) by (simp add: tq_ok_def)
  let ?e = "expiration (Heap_Top (tq_heap q))"
  have ne: "\<not> Heap_Empty (tq_heap q)" using False heap_store.empty_iff [OF heap] by simp
  have min: "Min (expiration ` set_mset (queued_timers q)) = ?e"
    using heap_store.top_least [OF heap] heap_store.top_mem [OF heap ne] by (intro Min_eqI) auto
  have e: "0 < ?e" "?e < TimePoint_max" using assms(2) heap_store.top_mem [OF heap ne] by auto
  then have fd: "timerfd q = (?e div 1000000000, ?e mod 1000000000)"
    using assms(1) ne by (simp add: tq_ok_def earliest_def armed_at_def to_itimerspec_pos)
  have "(?e div 1000000000, ?e mod 1000000000) \<noteq> (0, 0)"
    using e(1) by (metis Pair_inject div_mult_mod_eq add_0 mult_zero_left less_irrefl)
  then show ?thesis using False unfolding min fd by simp
qed

lemma timerfd_armed_spec_example:
  "fst (timerfd two_timers) * 1000000000 + snd (timerfd two_timers)
     = Min (expiration ` set_mset (queued_timers two_timers)) \<and> timerfd two_timers \<noteq> (0, 0)"
  using timerfd_armed_spec [OF two_timers_ok]
  by (simp add: two_timers_def heap_timers_def TimePoint_max_def)

text \<open>A timer at the epoch of the clock is never served: it is queued as the earliest, and
  the value written to the timerfd for it is the one that disarms the timerfd.\<close>

theorem epoch_timer_disarms:
  "case AddTimer True 0 0 cb new_TimerQueue of
     Inr (tid, q) \<Rightarrow> tid = 0 \<and> size (queued_timers q) = 1 \<and> latestTime q = 0 \<and> timerfd q = (0, 0)
   | Inl e \<Rightarrow> False"
  by (simp add: AddTimer_def submit_def AddTimerInLoop_eq new_TimerQueue_def new_TimerMinHeap_def
      Heap_Add_def ResetTimerfd_def to_itimerspec_pos heap_timers_def TimePoint_max_def)

text \<open>A stale timerfd event ends a debug build: when the event is handled before the
  earliest timer is due (the timer it announced has been cancelled in between), the assertion of
  \<^verbatim>\<open>GetExpiredTimers\<close> fails, because nothing expired and the top is still \<^verbatim>\<open>latestTime_\<close>.\<close>

theorem GetExpiredTimers_stale:
  assumes ok: "tq_ok q" and ne: "queued_timers q \<noteq> {#}" and early: "clk 0 < latestTime q"
  shows "GetExpiredTimers clk q = Some (Inl AssertFail)"
proof -
  have "\<not> Heap_Empty (tq_heap q)" using ok ne heap_store.empty_iff by (auto simp: tq_ok_def)
  moreover from this have "latestTime q = expiration (Heap_Top (tq_heap q))"
    using ok by (simp add: tq_ok_def earliest_def)
  moreover from calculation early have "expire_loop clk 0 (tq_heap q) [] = Some (tq_heap q, [], 1)"
    by (subst expire_loop.simps) simp
  ultimately show ?thesis by (simp add: GetExpiredTimers_def finish_expiry_def)
qed

theorem GetExpiredTimers_stale_witness:
  "GetExpiredTimers (\<lambda>k. 2) two_timers = Some (Inl AssertFail)"
  using GetExpiredTimers_stale [OF two_timers_ok, of "\<lambda>k. 2"]
  by (simp add: two_timers_def heap_timers_def)

definition seven_queue :: timer_queue where
  "seven_queue = ResetTimerfd (new_TimerQueue\<lparr>tq_heap := seven_timers, latestTime := 1\<rparr>)"

definition expire_at :: "int \<Rightarrow> timer_queue \<Rightarrow> timer list \<times> timer_queue" where
  "expire_at now q = (case GetExpiredTimers (\<lambda>k. now) q of
     Some (Inr r) \<Rightarrow> r | _ \<Rightarrow> ([], q))"

definition delayed_run :: "int list \<times> (int \<times> int) \<times> int list" where
  "delayed_run = (case CancelTimerInLoop True 5 seven_queue of
     Inl e \<Rightarrow> ([], (0, 0), [])
   | Inr q1 \<Rightarrow> (let (fired, q2) = expire_at 2 q1; (fired', q3) = expire_at 4 q2
       in (map expiration fired, timerfd q2, map expiration fired')))"

text \<open>Cancelling one timer can delay another. A consistent queue holds seven timers; the
  one at 5 is cancelled, the event at 2 is served (the timers at 1 and 2 fire), and the timerfd
  is then set to 4 although a timer expires at 3: it fires at 4, after the timer due at 4.\<close>

theorem CancelTimer_delays_another: "tq_ok seven_queue \<and> delayed_run = ([1, 2], (0, 4), [4, 3])"
proof -
  have "heap_ok seven_timers"
    using seven_timers_indexed seven_timers_ordered by (simp add: heap_ok_def)
  then have "tq_ok seven_queue"
    by (simp add: tq_ok_def seven_queue_def ResetTimerfd_eq earliest_def Heap_Empty_def Heap_Top_def)
      (simp add: seven_timers_def mk_timer_def)
  moreover have "delayed_run = ([1, 2], (0, 4), [4, 3])" by code_simp
  ultimately show ?thesis ..
qed

end
