(* ===== verification/Channel.thy ===== *)
theory Channel
  imports Prelude
begin

unbundle bit_operations_syntax

text \<open>
  The class \<^verbatim>\<open>Channel\<close> of \<^verbatim>\<open>Channel.cpp\<close>: one file descriptor, the events asked for, the
  events reported by the poller, and four callbacks. A callback is a number, and what it does
  is a parameter of the model: it may change the channel and the rest of the program (\<open>'w\<close>).
  A weak pointer is the identity of its object, \<open>alive\<close> tells which objects are alive.
  Log output is not modelled, so \<^verbatim>\<open>logHup_\<close>, which only decides about a log line, is left out.
  Shown: which callbacks a set of reported events leads to, and in which order.
\<close>

section \<open>Events\<close>

type_synonym events = "32 word"

definition POLLIN :: events where "POLLIN = 0x1"
definition POLLPRI :: events where "POLLPRI = 0x2"
definition POLLOUT :: events where "POLLOUT = 0x4"
definition POLLERR :: events where "POLLERR = 0x8"
definition POLLHUP :: events where "POLLHUP = 0x10"
definition POLLNVAL :: events where "POLLNVAL = 0x20"
definition POLLRDHUP :: events where "POLLRDHUP = 0x2000"

definition kNoneEvent :: events where "kNoneEvent = 0"
definition kReadEvent :: events where "kReadEvent = POLLIN OR POLLPRI OR POLLRDHUP"
definition kWriteEvent :: events where "kWriteEvent = POLLOUT"

lemmas poll_flags = POLLIN_def POLLPRI_def POLLOUT_def POLLERR_def POLLHUP_def POLLNVAL_def
  POLLRDHUP_def kNoneEvent_def kReadEvent_def kWriteEvent_def

text \<open>\<^verbatim>\<open>e & mask\<close> as a condition.\<close>

definition has_event :: "events \<Rightarrow> events \<Rightarrow> bool" where
  "has_event e m \<longleftrightarrow> e AND m \<noteq> 0"

lemma has_event_or: "has_event e (a OR b) \<longleftrightarrow> has_event e a \<or> has_event e b"
proof -
  have "e AND (a OR b) = (e AND a) OR (e AND b)" by (simp add: bit.conj_disj_distrib)
  then show ?thesis by (simp add: has_event_def or_eq_0_iff)
qed

section \<open>The channel\<close>

record channel =
  ch_fd :: int
  ch_events :: events
  eventHandling :: bool
  revents :: events
  ch_index :: int
  tie :: "nat option"
  readCb :: "nat option"
  writeCb :: "nat option"
  closeCb :: "nat option"
  errorCb :: "nat option"

definition new_Channel :: "int \<Rightarrow> channel" where
  "new_Channel fd = \<lparr>ch_fd = fd, ch_events = kNoneEvent, eventHandling = False,
     revents = kNoneEvent, ch_index = -1, tie = None,
     readCb = None, writeCb = None, closeCb = None, errorCb = None\<rparr>"

definition Tie :: "nat \<Rightarrow> channel \<Rightarrow> channel" where
  "Tie obj c = c\<lparr>tie := Some obj\<rparr>"

definition IsNoneEvent :: "channel \<Rightarrow> bool" where
  "IsNoneEvent c \<longleftrightarrow> ch_events c = kNoneEvent"

definition IsWriting :: "channel \<Rightarrow> bool" where
  "IsWriting c \<longleftrightarrow> has_event (ch_events c) kWriteEvent"

section \<open>Handling events\<close>

datatype cb_call = OnClose nat | OnError nat | OnRead nat int | OnWrite nat

text \<open>\<^verbatim>\<open>if (cb) { cb(); }\<close>.\<close>

definition call_if :: "(cb_call \<Rightarrow> channel \<times> 'w \<Rightarrow> (channel \<times> 'w) res) \<Rightarrow> (nat \<Rightarrow> cb_call) \<Rightarrow>
    nat option \<Rightarrow> channel \<times> 'w \<Rightarrow> (channel \<times> 'w) res" where
  "call_if run kind cb s = (case cb of None \<Rightarrow> Inr s | Some f \<Rightarrow> run (kind f) s)"

definition HandleEventsWithGuard :: "(cb_call \<Rightarrow> channel \<times> 'w \<Rightarrow> (channel \<times> 'w) res) \<Rightarrow> int \<Rightarrow>
    channel \<times> 'w \<Rightarrow> (channel \<times> 'w) res" where
  "HandleEventsWithGuard run receiveTime s = ensure (\<not> eventHandling (fst s))
     (let s0 = ((fst s)\<lparr>eventHandling := True\<rparr>, snd s)
      in bindR (if has_event (revents (fst s0)) POLLHUP \<and> \<not> has_event (revents (fst s0)) POLLIN
                then call_if run OnClose (closeCb (fst s0)) s0 else Inr s0)
        (\<lambda>s1. bindR (if has_event (revents (fst s1)) (POLLERR OR POLLNVAL)
                then call_if run OnError (errorCb (fst s1)) s1 else Inr s1)
        (\<lambda>s2. bindR (if has_event (revents (fst s2)) (POLLIN OR POLLRDHUP OR POLLPRI)
                then call_if run (\<lambda>f. OnRead f receiveTime) (readCb (fst s2)) s2 else Inr s2)
        (\<lambda>s3. bindR (if has_event (revents (fst s3)) POLLOUT
                then call_if run OnWrite (writeCb (fst s3)) s3 else Inr s3)
        (\<lambda>s4. Inr ((fst s4)\<lparr>eventHandling := False\<rparr>, snd s4))))))"

definition HandleEvents :: "(nat \<Rightarrow> bool) \<Rightarrow> (cb_call \<Rightarrow> channel \<times> 'w \<Rightarrow> (channel \<times> 'w) res) \<Rightarrow> int \<Rightarrow>
    channel \<times> 'w \<Rightarrow> (channel \<times> 'w) res" where
  "HandleEvents alive run receiveTime s = (case tie (fst s) of
       None \<Rightarrow> HandleEventsWithGuard run receiveTime s
     | Some obj \<Rightarrow> if alive obj then HandleEventsWithGuard run receiveTime s else Inr s)"

text \<open>The destructor.\<close>

definition Destruct_Channel :: "channel \<Rightarrow> unit res" where
  "Destruct_Channel c = ensure (\<not> eventHandling c) (Inr ())"

text \<open>The text of a set of events, for the log.\<close>

definition EventToString :: "int \<Rightarrow> events \<Rightarrow> string" where
  "EventToString fd ev = int_to_string fd @ '': ''
     @ (if has_event ev POLLIN then ''IN '' else []) @ (if has_event ev POLLPRI then ''PRI '' else [])
     @ (if has_event ev POLLOUT then ''OUT '' else []) @ (if has_event ev POLLHUP then ''HUP '' else [])
     @ (if has_event ev POLLRDHUP then ''RDHUP '' else []) @ (if has_event ev POLLERR then ''ERR '' else [])
     @ (if has_event ev POLLNVAL then ''NVAL '' else [])"

section \<open>The order of the callbacks\<close>

text \<open>The callbacks a channel is owed, in order, and the running of a list of them.\<close>

definition due_calls :: "int \<Rightarrow> channel \<Rightarrow> cb_call list" where
  "due_calls receiveTime c =
     (let r = revents c;
          calls = (\<lambda>kind cb. case cb of None \<Rightarrow> [] | Some f \<Rightarrow> [kind f])
      in (if has_event r POLLHUP \<and> \<not> has_event r POLLIN then calls OnClose (closeCb c) else [])
       @ (if has_event r POLLERR \<or> has_event r POLLNVAL then calls OnError (errorCb c) else [])
       @ (if has_event r POLLIN \<or> has_event r POLLPRI \<or> has_event r POLLRDHUP
          then calls (\<lambda>f. OnRead f receiveTime) (readCb c) else [])
       @ (if has_event r POLLOUT then calls OnWrite (writeCb c) else []))"

fun run_calls :: "(cb_call \<Rightarrow> 's \<Rightarrow> 's res) \<Rightarrow> cb_call list \<Rightarrow> 's \<Rightarrow> 's res" where
  "run_calls run [] s = Inr s"
| "run_calls run (k # ks) s = bindR (run k s) (run_calls run ks)"

lemma run_calls_append: "run_calls run (xs @ ys) s = bindR (run_calls run xs s) (run_calls run ys)"
  by (induction xs arbitrary: s) (auto simp: bindR_def split: sum.splits)

text \<open>Callbacks that leave the reported events and the callback slots of the channel alone.\<close>

definition same_dispatch :: "channel \<Rightarrow> channel \<Rightarrow> bool" where
  "same_dispatch c c' \<longleftrightarrow> revents c' = revents c \<and> closeCb c' = closeCb c \<and> errorCb c' = errorCb c
     \<and> readCb c' = readCb c \<and> writeCb c' = writeCb c"

definition keeps_dispatch :: "(cb_call \<Rightarrow> channel \<times> 'w \<Rightarrow> (channel \<times> 'w) res) \<Rightarrow> bool" where
  "keeps_dispatch run \<longleftrightarrow> (\<forall>k s s'. run k s = Inr s' \<longrightarrow> same_dispatch (fst s) (fst s'))"

lemma bindR_cong_Inr: "m = m' \<Longrightarrow> (\<And>x. m' = Inr x \<Longrightarrow> f x = g x) \<Longrightarrow> bindR m f = bindR m' g"
  by (cases m') auto

lemma call_if_run_calls:
  "call_if run kind cb s = run_calls run (case cb of None \<Rightarrow> [] | Some f \<Rightarrow> [kind f]) s"
  by (cases cb) (simp_all add: call_if_def bindR_def split: sum.splits)

lemma run_calls_dispatch:
  "keeps_dispatch run \<Longrightarrow> run_calls run ks s = Inr s' \<Longrightarrow> same_dispatch (fst s) (fst s')"
proof (induction ks arbitrary: s)
  case (Cons k ks)
  then obtain s1 where s1: "run k s = Inr s1" "run_calls run ks s1 = Inr s'" by (auto simp: res_iffs)
  have "same_dispatch (fst s) (fst s1)" using Cons.prems(1) s1(1) unfolding keeps_dispatch_def by blast
  with Cons.IH [OF Cons.prems(1) s1(2)] show ?case by (simp add: same_dispatch_def)
qed (simp add: same_dispatch_def)

text \<open>One stage of the handler.\<close>

lemma stage_eq:
  assumes "keeps_dispatch run" and "same_dispatch c (fst s)"
    and "\<And>s'. same_dispatch c (fst s') \<Longrightarrow> f s' = bindR (run_calls run ks s') g"
  shows "bindR (run_calls run js s) f = bindR (run_calls run (js @ ks) s) g"
proof -
  have "bindR (run_calls run js s) f = bindR (run_calls run js s) (\<lambda>s'. bindR (run_calls run ks s') g)"
    using assms run_calls_dispatch [OF assms(1)]
    by (intro bindR_cong_Inr) (auto simp: same_dispatch_def)
  then show ?thesis by (simp add: run_calls_append bindR_def split: sum.splits)
qed

definition stage :: "bool \<Rightarrow> (nat \<Rightarrow> cb_call) \<Rightarrow> nat option \<Rightarrow> cb_call list" where
  "stage owed kind cb = (if owed then case cb of None \<Rightarrow> [] | Some f \<Rightarrow> [kind f] else [])"

lemma stage_run:
  "(if b then call_if run kind cb s else Inr s) = run_calls run (stage b kind cb) s"
  by (simp add: stage_def call_if_run_calls)

lemma HandleEventsWithGuard_eq:
  assumes "\<not> eventHandling c"
  shows "HandleEventsWithGuard run receiveTime (c, w) =
     bindR (run_calls run (stage (has_event (revents c) POLLHUP \<and> \<not> has_event (revents c) POLLIN)
              OnClose (closeCb c)) (c\<lparr>eventHandling := True\<rparr>, w))
    (\<lambda>s1. bindR (run_calls run (stage (has_event (revents (fst s1)) (POLLERR OR POLLNVAL))
              OnError (errorCb (fst s1))) s1)
    (\<lambda>s2. bindR (run_calls run (stage (has_event (revents (fst s2)) (POLLIN OR POLLRDHUP OR POLLPRI))
              (\<lambda>f. OnRead f receiveTime) (readCb (fst s2))) s2)
    (\<lambda>s3. bindR (run_calls run (stage (has_event (revents (fst s3)) POLLOUT)
              OnWrite (writeCb (fst s3))) s3)
    (\<lambda>s4. Inr ((fst s4)\<lparr>eventHandling := False\<rparr>, snd s4)))))"
  using assms by (simp add: HandleEventsWithGuard_def stage_run Let_def)

lemma due_calls_eq:
  "due_calls receiveTime c =
     stage (has_event (revents c) POLLHUP \<and> \<not> has_event (revents c) POLLIN) OnClose (closeCb c)
   @ stage (has_event (revents c) (POLLERR OR POLLNVAL)) OnError (errorCb c)
   @ stage (has_event (revents c) (POLLIN OR POLLRDHUP OR POLLPRI))
       (\<lambda>f. OnRead f receiveTime) (readCb c)
   @ stage (has_event (revents c) POLLOUT) OnWrite (writeCb c)"
  by (auto simp: due_calls_def stage_def has_event_or)

lemma dispatch_eq:
  assumes run: "keeps_dispatch run" and idle: "\<not> eventHandling c"
  shows "HandleEvents alive run receiveTime (c, w) =
    (if \<exists>obj. tie c = Some obj \<and> \<not> alive obj then Inr (c, w)
     else mapR (\<lambda>(c', w'). (c'\<lparr>eventHandling := False\<rparr>, w'))
        (run_calls run (due_calls receiveTime c) (c\<lparr>eventHandling := True\<rparr>, w)))"
proof -
  define fin where "fin s = (Inr ((fst s)\<lparr>eventHandling := False\<rparr>, snd s) :: (channel \<times> 'a) res)" for s
  define wr where "wr c = stage (has_event (revents c) POLLOUT) OnWrite (writeCb c)" for c :: channel
  define rd where "rd c = stage (has_event (revents c) (POLLIN OR POLLRDHUP OR POLLPRI))
    (\<lambda>f. OnRead f receiveTime) (readCb c)" for c :: channel
  define er where "er c = stage (has_event (revents c) (POLLERR OR POLLNVAL)) OnError (errorCb c)" for c :: channel
  have keep: "wr c' = wr c" "rd c' = rd c" "er c' = er c" if "same_dispatch c c'" for c c' :: channel
    using that by (simp_all add: same_dispatch_def wr_def rd_def er_def)
  have 3: "bindR (run_calls run (rd (fst s)) s) (\<lambda>s. bindR (run_calls run (wr (fst s)) s) fin)
      = bindR (run_calls run (rd c @ wr c) s) fin" if "same_dispatch c (fst s)" for s
    using stage_eq [OF run that, of _ "wr c" fin] keep that by simp
  have 2: "bindR (run_calls run (er (fst s)) s)
        (\<lambda>s. bindR (run_calls run (rd (fst s)) s) (\<lambda>s. bindR (run_calls run (wr (fst s)) s) fin))
      = bindR (run_calls run (er c @ rd c @ wr c) s) fin" if "same_dispatch c (fst s)" for s
    using stage_eq [OF run that, of _ "rd c @ wr c" fin] keep that 3 by simp
  have s0: "same_dispatch c (fst (c\<lparr>eventHandling := True\<rparr>, w))" by (simp add: same_dispatch_def)
  have "HandleEventsWithGuard run receiveTime (c, w) =
      bindR (run_calls run (due_calls receiveTime c) (c\<lparr>eventHandling := True\<rparr>, w)) fin"
    unfolding HandleEventsWithGuard_eq [OF idle] due_calls_eq
      wr_def [symmetric] rd_def [symmetric] er_def [symmetric] fin_def [symmetric]
    using stage_eq [OF run s0, of _ "er c @ rd c @ wr c" fin] 2 by simp
  also have "\<dots> = mapR (\<lambda>(c', w'). (c'\<lparr>eventHandling := False\<rparr>, w'))
      (run_calls run (due_calls receiveTime c) (c\<lparr>eventHandling := True\<rparr>, w))"
    by (simp add: fin_def bindR_def mapR_def split: sum.splits prod.splits)
  finally show ?thesis by (auto simp: HandleEvents_def split: option.splits)
qed

section \<open>Properties\<close>

text \<open>C29. Dispatch: when no callback touches the reported events or the callback slots of its
  own channel, handling the events of a channel is running exactly the callbacks that are owed,
  each at most once, in the order close, error, read, write, with \<^verbatim>\<open>eventHandling_\<close> set meanwhile
  and cleared at the end; a channel tied to a dead object runs none.\<close>

theorem HandleEvents_dispatch:
  assumes run: "keeps_dispatch run" and idle: "\<not> eventHandling c"
  shows "HandleEvents alive run receiveTime (c, w) =
    (if \<exists>obj. tie c = Some obj \<and> \<not> alive obj then Inr (c, w)
     else mapR (\<lambda>(c', w'). (c'\<lparr>eventHandling := False\<rparr>, w'))
        (run_calls run (due_calls receiveTime c) (c\<lparr>eventHandling := True\<rparr>, w)))"
  by (rule dispatch_eq [OF assms])

definition record_calls :: "cb_call \<Rightarrow> channel \<times> cb_call list \<Rightarrow> (channel \<times> cb_call list) res" where
  "record_calls k s = Inr (fst s, snd s @ [k])"

definition full_channel :: "events \<Rightarrow> channel" where
  "full_channel r = (new_Channel 4)\<lparr>revents := r, readCb := Some 1, writeCb := Some 2,
     closeCb := Some 3, errorCb := Some 4, tie := Some 9\<rparr>"

theorem HandleEvents_dispatch_witness:
  "mapR snd (HandleEvents (\<lambda>obj. obj = 9) record_calls 77
     (full_channel (POLLOUT OR POLLHUP OR POLLRDHUP OR POLLERR), []))
   = Inr [OnClose 3, OnError 4, OnRead 1 77, OnWrite 2]"
proof -
  have keep: "keeps_dispatch record_calls"
    by (simp add: keeps_dispatch_def record_calls_def same_dispatch_def)
  have due: "due_calls 77 (full_channel (POLLOUT OR POLLHUP OR POLLRDHUP OR POLLERR))
      = [OnClose 3, OnError 4, OnRead 1 77, OnWrite 2]"
    by (simp add: due_calls_def full_channel_def has_event_def poll_flags new_Channel_def)
  show ?thesis
    by (subst HandleEvents_dispatch [OF keep])
      (simp_all add: due record_calls_def, simp_all add: full_channel_def new_Channel_def)
qed

end
