(* ===== verification/PollPoller.thy ===== *)
theory PollPoller
  imports Channel
begin

text \<open>
  The class \<^verbatim>\<open>PollPoller\<close> of \<^verbatim>\<open>PollPoller.cpp\<close> and the channel operations that go through
  it: an array of \<^verbatim>\<open>pollfd\<close>, a map from file descriptors to channels, and in every channel
  its index in the array. Channels live in a store (\<open>chan\<close>), a channel pointer is a number.
  The result of \<^verbatim>\<open>poll(2)\<close> is an argument (\<open>poll_contract\<close> is what its manual promises).
  Shown: the three structures agree after every operation, the operations implement a map from
  descriptors to the events polled for them, \<^verbatim>\<open>FillActiveChannels\<close> reports exactly the ready
  channels, and a channel once disabled is not polled again.
\<close>

section \<open>State\<close>

record pollfd =
  pfd_fd :: int
  pfd_events :: "16 word"
  pfd_revents :: "16 word"

record poll_state =
  pollfds :: "pollfd list"
  channels :: "int \<rightharpoonup> nat"
  chan :: "nat \<Rightarrow> channel"

definition upd_chan :: "nat \<Rightarrow> (channel \<Rightarrow> channel) \<Rightarrow> poll_state \<Rightarrow> poll_state" where
  "upd_chan c f s = s\<lparr>chan := (chan s)(c := f (chan s c))\<rparr>"

section \<open>Operations of the poller\<close>

definition UpdateChannel :: "bool \<Rightarrow> nat \<Rightarrow> poll_state \<Rightarrow> poll_state res" where
  "UpdateChannel inl c s = loop_only inl
     (let fd = ch_fd (chan s c); idx = ch_index (chan s c); ev = ucast (ch_events (chan s c))
      in if idx < 0
         then ensure (channels s fd = None)
           (let s1 = s\<lparr>pollfds := pollfds s @ [\<lparr>pfd_fd = fd, pfd_events = ev, pfd_revents = 0\<rparr>]\<rparr>;
                s2 = upd_chan c (\<lambda>ch. ch\<lparr>ch_index := int (length (pollfds s1) - 1)\<rparr>) s1
            in Inr (s2\<lparr>channels := (channels s2)(fd \<mapsto> c)\<rparr>))
         else ensure (channels s fd \<noteq> None) (ensure (channels s fd = Some c)
           (ensure (0 \<le> idx \<and> nat idx < length (pollfds s))
             (let p = (pollfds s ! nat idx)\<lparr>pfd_events := ev, pfd_revents := 0\<rparr>;
                  p' = (if IsNoneEvent (chan s c) then p\<lparr>pfd_fd := - fd - 1\<rparr> else p)
              in Inr (s\<lparr>pollfds := (pollfds s)[nat idx := p']\<rparr>)))))"

definition RemoveChannel :: "bool \<Rightarrow> nat \<Rightarrow> poll_state \<Rightarrow> poll_state res" where
  "RemoveChannel inl c s = loop_only inl
     (let fd = ch_fd (chan s c); idx = ch_index (chan s c)
      in ensure (channels s fd \<noteq> None) (ensure (channels s fd = Some c)
        (ensure (IsNoneEvent (chan s c)) (ensure (0 \<le> idx \<and> nat idx < length (pollfds s))
        (ensure (pfd_fd (pollfds s ! nat idx) = - fd - 1)
          (let s1 = s\<lparr>channels := (channels s)(fd := None)\<rparr>
           in if nat idx = length (pollfds s1) - 1
              then Inr (s1\<lparr>pollfds := butlast (pollfds s1)\<rparr>)
              else let at_end = pfd_fd (last (pollfds s1));
                       s2 = s1\<lparr>pollfds := swap_at (nat idx) (length (pollfds s1) - 1) (pollfds s1)\<rparr>;
                       channel_at_end = (if at_end < 0 then - at_end - 1 else at_end)
                   in case channels s2 channel_at_end of
                        None \<Rightarrow> Inl NullDeref
                      | Some d \<Rightarrow>
                          let s3 = upd_chan d (\<lambda>ch. ch\<lparr>ch_index := idx\<rparr>) s2
                          in Inr (s3\<lparr>pollfds := butlast (pollfds s3)\<rparr>)))))))"

text \<open>The list of active channels is built at the back, or at the front in a build with the
  memory pool (a \<^verbatim>\<open>forward_list\<close>).\<close>

fun FillActiveChannels ::
    "bool \<Rightarrow> pollfd list \<Rightarrow> nat \<Rightarrow> poll_state \<Rightarrow> nat list \<Rightarrow> (poll_state \<times> nat list) res" where
  "FillActiveChannels mempool [] numReady s active = Inr (s, active)"
| "FillActiveChannels mempool (p # ps) numReady s active =
     (if numReady = 0 then Inr (s, active)
      else if 0 < sint (pfd_revents p)
      then (case channels s (pfd_fd p) of
              None \<Rightarrow> Inl AssertFail
            | Some c \<Rightarrow> ensure (pfd_fd p = ch_fd (chan s c))
                (FillActiveChannels mempool ps (numReady - 1)
                   (upd_chan c (\<lambda>ch. ch\<lparr>revents := word_of_int (sint (pfd_revents p))\<rparr>) s)
                   (if mempool then c # active else active @ [c])))
      else FillActiveChannels mempool ps numReady s active)"

text \<open>\<^verbatim>\<open>poll(2)\<close> returned \<open>numReady\<close> and wrote \<open>rs\<close> into the array.\<close>

definition set_revents :: "16 word list \<Rightarrow> pollfd list \<Rightarrow> pollfd list" where
  "set_revents rs ps = map2 (\<lambda>p r. p\<lparr>pfd_revents := r\<rparr>) ps rs"

definition Poll :: "bool \<Rightarrow> int \<Rightarrow> 16 word list \<Rightarrow> poll_state \<Rightarrow> (poll_state \<times> nat list) res" where
  "Poll mempool numReady rs s =
     (let s1 = s\<lparr>pollfds := set_revents rs (pollfds s)\<rparr>
      in if 0 < numReady then FillActiveChannels mempool (pollfds s1) (nat numReady) s1 []
         else Inr (s1, []))"

section \<open>Operations of the channels\<close>

definition EnableReading :: "bool \<Rightarrow> nat \<Rightarrow> poll_state \<Rightarrow> poll_state res" where
  "EnableReading inl c s =
     UpdateChannel inl c (upd_chan c (\<lambda>ch. ch\<lparr>ch_events := ch_events ch OR kReadEvent\<rparr>) s)"

definition enableWriting :: "bool \<Rightarrow> nat \<Rightarrow> poll_state \<Rightarrow> poll_state res" where
  "enableWriting inl c s =
     UpdateChannel inl c (upd_chan c (\<lambda>ch. ch\<lparr>ch_events := ch_events ch OR kWriteEvent\<rparr>) s)"

definition disableWriting :: "bool \<Rightarrow> nat \<Rightarrow> poll_state \<Rightarrow> poll_state res" where
  "disableWriting inl c s =
     UpdateChannel inl c (upd_chan c (\<lambda>ch. ch\<lparr>ch_events := ch_events ch AND NOT kWriteEvent\<rparr>) s)"

definition disableAllEvents :: "bool \<Rightarrow> nat \<Rightarrow> poll_state \<Rightarrow> poll_state res" where
  "disableAllEvents inl c s =
     UpdateChannel inl c (upd_chan c (\<lambda>ch. ch\<lparr>ch_events := kNoneEvent\<rparr>) s)"

definition Channel_Remove :: "bool \<Rightarrow> nat \<Rightarrow> poll_state \<Rightarrow> poll_state res" where
  "Channel_Remove inl c s = ensure (IsNoneEvent (chan s c)) (RemoveChannel inl c s)"

section \<open>The invariant\<close>

definition real_fd :: "int \<Rightarrow> int" where
  "real_fd x = (if x < 0 then - x - 1 else x)"

text \<open>A registered channel is found at its index under its own descriptor, and every entry of
  the array belongs to a registered channel that knows its place.\<close>

definition registered :: "poll_state \<Rightarrow> nat \<Rightarrow> bool" where
  "registered s c \<longleftrightarrow> channels s (ch_fd (chan s c)) = Some c"

definition at_index :: "poll_state \<Rightarrow> int \<Rightarrow> nat \<Rightarrow> bool" where
  "at_index s fd c \<longleftrightarrow> 0 \<le> fd \<and> ch_fd (chan s c) = fd \<and> 0 \<le> ch_index (chan s c)
     \<and> nat (ch_index (chan s c)) < length (pollfds s)
     \<and> real_fd (pfd_fd (pollfds s ! nat (ch_index (chan s c)))) = fd"

definition poller_ok :: "poll_state \<Rightarrow> bool" where
  "poller_ok s \<longleftrightarrow>
     (\<forall>fd c. channels s fd = Some c \<longrightarrow> at_index s fd c)
   \<and> (\<forall>i < length (pollfds s). \<exists>c. channels s (real_fd (pfd_fd (pollfds s ! i))) = Some c
        \<and> ch_index (chan s c) = int i)"

text \<open>The abstract poller: which descriptors it knows, whether the kernel is asked about them,
  and for which events.\<close>

definition interest :: "poll_state \<Rightarrow> int \<rightharpoonup> bool \<times> 16 word" where
  "interest s fd = (case channels s fd of None \<Rightarrow> None
     | Some c \<Rightarrow> let p = pollfds s ! nat (ch_index (chan s c)) in Some (0 \<le> pfd_fd p, pfd_events p))"

lemma poller_okD: "poller_ok s \<Longrightarrow> channels s fd = Some c \<Longrightarrow> at_index s fd c"
  by (simp add: poller_ok_def)

lemma poller_ok_nth:
  "poller_ok s \<Longrightarrow> i < length (pollfds s) \<Longrightarrow>
   \<exists>c. channels s (real_fd (pfd_fd (pollfds s ! i))) = Some c \<and> ch_index (chan s c) = int i"
  by (simp add: poller_ok_def)

lemma real_fd_neg [simp]: "0 \<le> fd \<Longrightarrow> real_fd (- fd - 1) = fd" "0 \<le> fd \<Longrightarrow> real_fd fd = fd"
  by (simp_all add: real_fd_def)

lemma poller_index_inj:
  assumes "poller_ok s" and "channels s fd = Some c" and "channels s fd' = Some c'"
    and "ch_index (chan s c) = ch_index (chan s c')"
  shows "fd = fd' \<and> c = c'"
  using poller_okD [OF assms(1,2)] poller_okD [OF assms(1,3)] assms(2-4) by (auto simp: at_index_def)

lemma upd_chan_simps [simp]:
  "pollfds (upd_chan c f s) = pollfds s" "channels (upd_chan c f s) = channels s"
  "chan (upd_chan c f s) = (chan s)(c := f (chan s c))"
  by (simp_all add: upd_chan_def)

text \<open>Changing the events a channel asks for, or was told of, does not concern the poller.\<close>

lemma upd_chan_frame:
  assumes "\<And>ch. ch_fd (f ch) = ch_fd ch" and "\<And>ch. ch_index (f ch) = ch_index ch"
  shows "poller_ok (upd_chan c f s) \<longleftrightarrow> poller_ok s" and "interest (upd_chan c f s) = interest s"
    and "registered (upd_chan c f s) d \<longleftrightarrow> registered s d"
proof -
  have eq: "ch_fd (chan (upd_chan c f s) d) = ch_fd (chan s d)"
    "ch_index (chan (upd_chan c f s) d) = ch_index (chan s d)" for d using assms by simp_all
  then show "poller_ok (upd_chan c f s) \<longleftrightarrow> poller_ok s" by (simp add: poller_ok_def at_index_def)
  from eq show "interest (upd_chan c f s) = interest s"
    by (simp add: interest_def fun_eq_iff split: option.splits)
  from eq show "registered (upd_chan c f s) d \<longleftrightarrow> registered s d" by (simp add: registered_def)
qed

lemma interest_unregistered:
  assumes "\<And>x. channels p x \<noteq> Some k"
  shows "interest (upd_chan k f p) = interest p"
proof
  fix x show "interest (upd_chan k f p) x = interest p x"
  proof (cases "channels p x")
    case (Some d)
    then have "d \<noteq> k" using assms by blast
    with Some show ?thesis by (simp add: interest_def)
  qed (simp add: interest_def)
qed

section \<open>The operations keep the invariant and change one entry\<close>

lemma UpdateChannel_new:
  assumes ok: "poller_ok s" and new: "ch_index (chan s c) < 0"
    and fd: "0 \<le> ch_fd (chan s c)" and free: "channels s (ch_fd (chan s c)) = None"
  shows "\<exists>s'. UpdateChannel True c s = Inr s' \<and> poller_ok s' \<and> registered s' c
    \<and> interest s' = (interest s)(ch_fd (chan s c) \<mapsto> (True, ucast (ch_events (chan s c))))"
proof -
  define p where "p = \<lparr>pfd_fd = ch_fd (chan s c), pfd_events = ucast (ch_events (chan s c)), pfd_revents = 0\<rparr>"
  define s' where "s' = \<lparr>pollfds = pollfds s @ [p], channels = (channels s)(ch_fd (chan s c) \<mapsto> c),
    chan = (chan s)(c := (chan s c)\<lparr>ch_index := int (length (pollfds s))\<rparr>)\<rparr>"
  have eq: "UpdateChannel True c s = Inr s'"
    using new free by (simp add: UpdateChannel_def Let_def s'_def p_def upd_chan_def)
  have other: "d \<noteq> c" if "channels s x = Some d" for x d
    using poller_okD [OF ok that] new by (auto simp: at_index_def)
  have at: "at_index s' x d" if "channels s' x = Some d" for x d
  proof (cases "x = ch_fd (chan s c)")
    case True
    with that fd show ?thesis by (simp add: at_index_def s'_def p_def nth_append)
  next
    case False
    with that have "channels s x = Some d" by (simp add: s'_def)
    with poller_okD [OF ok this] other [OF this] show ?thesis
      by (simp add: at_index_def s'_def nth_append)
  qed
  have nth: "\<exists>d. channels s' (real_fd (pfd_fd (pollfds s' ! i))) = Some d \<and> ch_index (chan s' d) = int i"
    if i: "i < length (pollfds s')" for i
  proof (cases "i < length (pollfds s)")
    case True
    with poller_ok_nth [OF ok True] other free show ?thesis
      by (fastforce simp: s'_def nth_append)
  next
    case False
    with i fd show ?thesis by (simp add: s'_def p_def nth_append less_Suc_eq)
  qed
  have "interest s' x = ((interest s)(ch_fd (chan s c) \<mapsto> (True, ucast (ch_events (chan s c))))) x" for x
  proof (cases "x = ch_fd (chan s c)")
    case True
    then show ?thesis using fd by (simp add: interest_def s'_def p_def nth_append)
  next
    case False
    then show ?thesis using other poller_okD [OF ok, of x]
      by (auto simp: interest_def s'_def nth_append at_index_def split: option.splits)
  qed
  then have "interest s' = (interest s)(ch_fd (chan s c) \<mapsto> (True, ucast (ch_events (chan s c))))" ..
  moreover have "poller_ok s'" using at nth by (simp add: poller_ok_def)
  moreover have "registered s' c" by (simp add: registered_def s'_def)
  ultimately show ?thesis using eq by blast
qed

text \<open>For a registered channel only its own entry changes. It stays polled only if it was, and
  if it asks for some event.\<close>

lemma UpdateChannel_old:
  assumes ok: "poller_ok s" and reg: "registered s c"
  shows "\<exists>s'. UpdateChannel True c s = Inr s' \<and> poller_ok s' \<and> registered s' c
    \<and> interest s' = (interest s)(ch_fd (chan s c) \<mapsto>
        (fst (the (interest s (ch_fd (chan s c)))) \<and> \<not> IsNoneEvent (chan s c),
         ucast (ch_events (chan s c))))"
proof -
  define i where "i = nat (ch_index (chan s c))"
  define p where "p = pollfds s ! i"
  define p' where "p' = p\<lparr>pfd_events := ucast (ch_events (chan s c)), pfd_revents := 0,
    pfd_fd := (if IsNoneEvent (chan s c) then - ch_fd (chan s c) - 1 else pfd_fd p)\<rparr>"
  define s' where "s' = s\<lparr>pollfds := (pollfds s)[i := p']\<rparr>"
  have at: "at_index s (ch_fd (chan s c)) c" using poller_okD [OF ok] reg by (simp add: registered_def)
  then have idx: "0 \<le> ch_index (chan s c)" "i < length (pollfds s)" and fd: "0 \<le> ch_fd (chan s c)"
    and real: "real_fd (pfd_fd p) = ch_fd (chan s c)" by (auto simp: at_index_def i_def p_def)
  have p': "real_fd (pfd_fd p') = real_fd (pfd_fd p)" "pfd_events p' = ucast (ch_events (chan s c))"
      "0 \<le> pfd_fd p' \<longleftrightarrow> 0 \<le> pfd_fd p \<and> \<not> IsNoneEvent (chan s c)"
    using real fd by (auto simp: p'_def)
  have eq: "UpdateChannel True c s = Inr s'"
    using idx reg by (simp add: UpdateChannel_def Let_def s'_def p'_def registered_def i_def p_def)
  have same: "real_fd (pfd_fd (pollfds s' ! j)) = real_fd (pfd_fd (pollfds s ! j))" for j
    using idx p'(1) by (simp add: s'_def nth_list_update p_def)
  have "poller_ok s'"
    using ok same by (simp add: poller_ok_def at_index_def) (simp add: s'_def)
  moreover have "registered s' c" using reg by (simp add: registered_def s'_def)
  moreover have "interest s' x = ((interest s)(ch_fd (chan s c) \<mapsto>
        (fst (the (interest s (ch_fd (chan s c)))) \<and> \<not> IsNoneEvent (chan s c),
         ucast (ch_events (chan s c))))) x" for x
  proof (cases "x = ch_fd (chan s c)")
    case True
    then show ?thesis using reg idx p'
      by (simp add: interest_def registered_def s'_def i_def p_def Let_def)
  next
    case False
    have "nat (ch_index (chan s d)) \<noteq> i" if "channels s x = Some d" for d
      using that poller_index_inj [OF ok that, of "ch_fd (chan s c)" c] reg False idx poller_okD [OF ok that]
      by (auto simp: registered_def i_def at_index_def eq_nat_nat_iff)
    then have "(pollfds s)[i := p'] ! nat (ch_index (chan s d)) = pollfds s ! nat (ch_index (chan s d))"
      if "channels s x = Some d" for d using that by (metis nth_list_update_neq)
    then show ?thesis using False by (simp add: interest_def s'_def split: option.splits)
  qed
  ultimately show ?thesis using eq by blast
qed

lemma UpdateChannel_chan:
  assumes "poller_ok s" and "registered s c" and "UpdateChannel True c s = Inr s'"
  shows "chan s' = chan s"
  using assms poller_okD [of s "ch_fd (chan s c)" c]
  by (auto simp: UpdateChannel_def Let_def ensure_def registered_def at_index_def split: if_splits)

lemma UpdateChannel_channels:
  assumes "poller_ok s" and "registered s c" and "UpdateChannel True c s = Inr s'"
  shows "channels s' = channels s"
  using assms poller_okD [of s "ch_fd (chan s c)" c]
  by (auto simp: UpdateChannel_def Let_def ensure_def registered_def at_index_def split: if_splits)

text \<open>The operations on a registered channel: set the events, then update.\<close>

lemma set_events_ok:
  assumes ok: "poller_ok s" and reg: "registered s c"
    and f: "\<And>ch. ch_fd (f ch) = ch_fd ch" "\<And>ch. ch_index (f ch) = ch_index ch"
  shows "\<exists>s'. UpdateChannel True c (upd_chan c f s) = Inr s' \<and> poller_ok s' \<and> registered s' c
    \<and> chan s' = (chan s)(c := f (chan s c))
    \<and> interest s' = (interest s)(ch_fd (chan s c) \<mapsto>
        (fst (the (interest s (ch_fd (chan s c)))) \<and> \<not> IsNoneEvent (f (chan s c)),
         ucast (ch_events (f (chan s c)))))"
proof -
  have 1: "poller_ok (upd_chan c f s)" "registered (upd_chan c f s) c"
    using ok reg upd_chan_frame [of f] f by blast+
  from UpdateChannel_old [OF 1] UpdateChannel_chan [OF 1] show ?thesis
    by (auto simp: upd_chan_frame(2) [OF f] f)
qed

lemma RemoveChannel_eq:
  assumes ok: "poller_ok s" and reg: "registered s c" and none: "IsNoneEvent (chan s c)"
    and off: "\<not> fst (the (interest s (ch_fd (chan s c))))"
    and d: "channels s (real_fd (pfd_fd (last (pollfds s)))) = Some d"
  shows "RemoveChannel True c s = Inr (let i = nat (ch_index (chan s c)); d' = (chan s d)\<lparr>ch_index := int i\<rparr>
     in \<lparr>pollfds = swap_pop i (pollfds s), channels = (channels s)(ch_fd (chan s c) := None),
         chan = (if i = length (pollfds s) - 1 then chan s else (chan s)(d := d'))\<rparr>)"
proof -
  define i where "i = nat (ch_index (chan s c))"
  have at: "at_index s (ch_fd (chan s c)) c" using poller_okD [OF ok] reg by (simp add: registered_def)
  then have idx: "0 \<le> ch_index (chan s c)" "i < length (pollfds s)" by (auto simp: at_index_def i_def)
  have "pfd_fd (pollfds s ! i) < 0"
    using off reg by (simp add: interest_def registered_def i_def Let_def)
  then have entry: "pfd_fd (pollfds s ! i) = - ch_fd (chan s c) - 1"
    using at by (simp add: at_index_def real_fd_def i_def)
  show ?thesis
  proof (cases "i = length (pollfds s) - 1")
    case True
    then show ?thesis using reg none idx entry
      by (simp add: RemoveChannel_def registered_def Let_def swap_pop_last i_def)
  next
    case False
    have "real_fd (pfd_fd (last (pollfds s))) \<noteq> ch_fd (chan s c)"
    proof
      assume "real_fd (pfd_fd (last (pollfds s))) = ch_fd (chan s c)"
      moreover have "last (pollfds s) = pollfds s ! (length (pollfds s) - 1)"
        using idx by (metis last_conv_nth length_0_conv not_less_zero)
      moreover have "length (pollfds s) - 1 < length (pollfds s)" using idx by simp
      ultimately show False
        using poller_ok_nth [OF ok, of "length (pollfds s) - 1"] reg False
        by (auto simp: registered_def i_def)
    qed
    then show ?thesis using reg none idx entry False d
      by (simp add: RemoveChannel_def registered_def Let_def i_def swap_pop_def real_fd_def
          split: if_splits)
  qed
qed

lemma RemoveChannel_ok:
  assumes ok: "poller_ok s" and reg: "registered s c" and none: "IsNoneEvent (chan s c)"
    and off: "\<not> fst (the (interest s (ch_fd (chan s c))))"
  shows "\<exists>s'. RemoveChannel True c s = Inr s' \<and> poller_ok s'
    \<and> interest s' = (interest s)(ch_fd (chan s c) := None)"
proof -
  define i where "i = nat (ch_index (chan s c))"
  define n where "n = length (pollfds s) - 1"
  let ?fd = "ch_fd (chan s c)"
  have at: "at_index s ?fd c" using poller_okD [OF ok] reg by (simp add: registered_def)
  then have idx: "0 \<le> ch_index (chan s c)" "i < length (pollfds s)" by (auto simp: at_index_def i_def)
  then have n: "i \<le> n" "n < length (pollfds s)" and last: "last (pollfds s) = pollfds s ! n"
    by (cases "pollfds s = []"; auto simp: n_def last_conv_nth)+
  obtain d where d: "channels s (real_fd (pfd_fd (last (pollfds s)))) = Some d" "ch_index (chan s d) = int n"
    using poller_ok_nth [OF ok n(2)] by (auto simp: last)
  define s' where "s' = \<lparr>pollfds = swap_pop i (pollfds s), channels = (channels s)(?fd := None),
    chan = (if i = n then chan s else (chan s)(d := (chan s d)\<lparr>ch_index := int i\<rparr>))\<rparr>"
  have eq: "RemoveChannel True c s = Inr s'"
    using RemoveChannel_eq [OF ok reg none off d(1)] by (simp add: s'_def i_def n_def Let_def)
  note inj = poller_index_inj [OF ok]
  have nth: "pollfds s' ! k = (if k = i then pollfds s ! n else pollfds s ! k)" if "k < n" for k
    using that idx n by (simp add: s'_def nth_swap_pop last n_def)
  have len: "length (pollfds s') = n" by (simp add: s'_def n_def)
  have moved: "0 \<le> ch_index (chan s' e) \<and> nat (ch_index (chan s' e)) < n
      \<and> pollfds s' ! nat (ch_index (chan s' e)) = pollfds s ! nat (ch_index (chan s e))
      \<and> ch_fd (chan s' e) = ch_fd (chan s e)" if e: "channels s x = Some e" "x \<noteq> ?fd" for x e
  proof -
    have ate: "0 \<le> ch_index (chan s e)" "nat (ch_index (chan s e)) < length (pollfds s)"
      using poller_okD [OF ok e(1)] by (auto simp: at_index_def)
    have "nat (ch_index (chan s e)) \<noteq> i"
      using inj [OF e(1) reg [unfolded registered_def]] e(2) ate idx by (auto simp: i_def eq_nat_nat_iff)
    show ?thesis
    proof (cases "nat (ch_index (chan s e)) = n")
      case True
      then have "e = d" using inj [OF e(1) d(1)] d(2) ate by auto
      with True \<open>nat (ch_index (chan s e)) \<noteq> i\<close> n show ?thesis using nth [of i] by (simp add: s'_def)
    next
      case False
      then have "e \<noteq> d" using d(2) by auto
      with False \<open>nat (ch_index (chan s e)) \<noteq> i\<close> ate n nth show ?thesis by (simp add: s'_def n_def)
    qed
  qed
  have "at_index s' x e" if e: "channels s' x = Some e" for x e
  proof -
    have e': "channels s x = Some e" "x \<noteq> ?fd" using e by (auto simp: s'_def split: if_splits)
    with moved [OF e'] poller_okD [OF ok e'(1)] show ?thesis by (simp add: at_index_def len)
  qed
  moreover have "\<exists>e. channels s' (real_fd (pfd_fd (pollfds s' ! k))) = Some e \<and> ch_index (chan s' e) = int k"
    if k: "k < length (pollfds s')" for k
  proof -
    define j where "j = (if k = i then n else k)"
    have j: "j < length (pollfds s)" "j \<noteq> i" "pollfds s' ! k = pollfds s ! j"
      using k n nth [of k] by (auto simp: j_def len)
    obtain e where e: "channels s (real_fd (pfd_fd (pollfds s ! j))) = Some e" "ch_index (chan s e) = int j"
      using poller_ok_nth [OF ok j(1)] by auto
    have "real_fd (pfd_fd (pollfds s ! j)) \<noteq> ?fd"
      using e reg idx j(2) by (auto simp: registered_def i_def)
    moreover have "e = d" if "k = i" using that e d inj [OF e(1) d(1)] by (simp add: j_def)
    moreover have "e \<noteq> d" if "k \<noteq> i" using that e d k by (auto simp: j_def len)
    ultimately show ?thesis using e j k by (auto simp: s'_def j_def len)
  qed
  moreover have "interest s' x = ((interest s)(?fd := None)) x" for x
  proof (cases "x = ?fd \<or> channels s x = None")
    case True
    then show ?thesis by (auto simp: interest_def s'_def)
  next
    case False
    then obtain e where e: "channels s x = Some e" "x \<noteq> ?fd" by auto
    then have "channels s' x = Some e" by (simp add: s'_def)
    with e moved [OF e] show ?thesis by (simp add: interest_def)
  qed
  ultimately show ?thesis using eq unfolding poller_ok_def by blast
qed

section \<open>Reporting the ready channels\<close>

text \<open>What the manual of \<^verbatim>\<open>poll(2)\<close> promises: an answer per entry, the result is the number
  of entries with events, an entry with a negative descriptor has none, and events are positive
  flags.\<close>

definition poll_contract :: "pollfd list \<Rightarrow> int \<Rightarrow> 16 word list \<Rightarrow> bool" where
  "poll_contract ps numReady rs \<longleftrightarrow> length rs = length ps
     \<and> numReady = int (length (filter (\<lambda>r. r \<noteq> 0) rs))
     \<and> (\<forall>i < length ps. rs ! i \<noteq> 0 \<longrightarrow> 0 \<le> pfd_fd (ps ! i) \<and> 0 < sint (rs ! i))"

definition owner :: "poll_state \<Rightarrow> pollfd \<Rightarrow> nat" where
  "owner s p = the (channels s (pfd_fd p))"

definition mark :: "pollfd \<Rightarrow> poll_state \<Rightarrow> poll_state" where
  "mark p s = upd_chan (owner s p) (\<lambda>ch. ch\<lparr>revents := word_of_int (sint (pfd_revents p))\<rparr>) s"

definition ready :: "pollfd list \<Rightarrow> pollfd list" where
  "ready ps = filter (\<lambda>p. pfd_revents p \<noteq> 0) ps"

lemma mark_simps [simp]:
  "pollfds (mark p s) = pollfds s" "channels (mark p s) = channels s"
  "ch_fd (chan (mark p s) c) = ch_fd (chan s c)" "ch_index (chan (mark p s) c) = ch_index (chan s c)"
  "owner (mark p s) = owner s"
  by (simp_all add: mark_def owner_def fun_eq_iff)

lemma mark_frame:
  "poller_ok (mark p s) \<longleftrightarrow> poller_ok s" "interest (mark p s) = interest s"
  unfolding mark_def by (rule upd_chan_frame; simp)+

lemma fold_mark_frame:
  "(poller_ok (fold mark ps s) \<longleftrightarrow> poller_ok s) \<and> interest (fold mark ps s) = interest s"
  by (induction ps arbitrary: s) (simp_all add: mark_frame)

lemma FillActiveChannels_eq:
  assumes "\<And>p. p \<in> set ps \<Longrightarrow> pfd_revents p \<noteq> 0 \<Longrightarrow>
    0 < sint (pfd_revents p) \<and> (\<exists>c. channels s (pfd_fd p) = Some c \<and> ch_fd (chan s c) = pfd_fd p)"
  shows "FillActiveChannels mempool ps (length (ready ps)) s active =
    Inr (fold mark (ready ps) s,
      if mempool then rev (map (owner s) (ready ps)) @ active else active @ map (owner s) (ready ps))"
  using assms
proof (induction ps arbitrary: s active)
  case (Cons p ps)
  show ?case
  proof (cases "pfd_revents p = 0")
    case True
    then have "length (ready ps) = 0 \<Longrightarrow> ready ps = []" by simp
    with True Cons.IH [of s active] Cons.prems show ?thesis
      by (cases "ready ps = []") (auto simp: ready_def)
  next
    case False
    then obtain c where c: "channels s (pfd_fd p) = Some c" "ch_fd (chan s c) = pfd_fd p"
      "0 < sint (pfd_revents p)" using Cons.prems [of p] by auto
    have IH: "FillActiveChannels mempool ps (length (ready ps)) (mark p s) active' =
      Inr (fold mark (ready ps) (mark p s), if mempool then rev (map (owner s) (ready ps)) @ active'
        else active' @ map (owner s) (ready ps))" for active'
      using Cons.IH [of "mark p s" active'] Cons.prems by (simp split: if_splits)
    have own: "owner s p = c" using c(1) by (simp add: owner_def)
    have mark: "mark p s = upd_chan c (\<lambda>ch. ch\<lparr>revents := word_of_int (sint (pfd_revents p))\<rparr>) s"
      by (simp add: mark_def own)
    show ?thesis using False c own IH by (simp add: ready_def mark)
  qed
qed (simp add: ready_def)

lemma fold_mark_revents:
  assumes "distinct (map (owner s) ps)" and "p \<in> set ps"
  shows "revents (chan (fold mark ps s) (owner s p)) = word_of_int (sint (pfd_revents p))"
proof -
  have other: "revents (chan (fold mark qs s) d) = revents (chan s d)"
    if "d \<notin> owner s ` set qs" for qs d s
    using that by (induction qs arbitrary: s) (simp_all add: mark_def owner_def)
  show ?thesis using assms
  proof (induction ps arbitrary: s)
    case (Cons q qs)
    show ?case
    proof (cases "p = q")
      case True
      then have "owner s p \<notin> owner (mark q s) ` set qs" using Cons.prems(1) by simp
      moreover have "revents (chan (mark q s) (owner s q)) = word_of_int (sint (pfd_revents q))"
        by (simp add: mark_def)
      ultimately show ?thesis using other [of "owner s p" "mark q s" qs] True by simp
    next
      case False
      with Cons.IH [of "mark q s"] Cons.prems show ?thesis by simp
    qed
  qed simp
qed

text \<open>The channel of the entry \<open>i\<close>.\<close>

definition channel_at :: "poll_state \<Rightarrow> nat \<Rightarrow> nat" where
  "channel_at s i = the (channels s (real_fd (pfd_fd (pollfds s ! i))))"

lemma channel_at_inj:
  assumes "poller_ok s" and "i < length (pollfds s)" and "j < length (pollfds s)"
    and "channel_at s i = channel_at s j"
  shows "i = j"
  using poller_ok_nth [OF assms(1,2)] poller_ok_nth [OF assms(1,3)] assms(4)
  by (auto simp: channel_at_def)

lemma ready_indices:
  "length rs = length ps \<Longrightarrow> ready (set_revents rs ps) =
     map (\<lambda>i. (ps ! i)\<lparr>pfd_revents := rs ! i\<rparr>) (filter (\<lambda>i. rs ! i \<noteq> 0) [0..<length ps])"
proof (induction ps arbitrary: rs rule: rev_induct)
  case (snoc p ps)
  then obtain r rs' where rs: "rs = rs' @ [r]" "length rs' = length ps"
    by (metis length_append_singleton length_Suc_conv_rev)
  have eq: "filter (\<lambda>i. (rs' @ [r]) ! i \<noteq> 0) [0..<length ps] = filter (\<lambda>i. rs' ! i \<noteq> 0) [0..<length ps]"
    by (rule filter_cong) (simp_all add: nth_append rs(2))
  have "ready (set_revents rs' ps) = map (\<lambda>i. ((ps @ [p]) ! i)\<lparr>pfd_revents := (rs' @ [r]) ! i\<rparr>)
      (filter (\<lambda>i. rs' ! i \<noteq> 0) [0..<length ps])"
    using snoc.IH [OF rs(2)] rs(2) by (simp add: nth_append)
  moreover have "(rs' @ [r]) ! length ps = r" using rs(2) by (metis nth_append_length)
  ultimately show ?case using rs eq by (simp add: ready_def set_revents_def)
qed (simp add: ready_def set_revents_def)

lemma length_ready:
  assumes "length rs = length ps"
  shows "length (ready (set_revents rs ps)) = length (filter (\<lambda>r. r \<noteq> 0) rs)"
  using assms by (induction ps rs rule: list_induct2') (auto simp: ready_def set_revents_def)

text \<open>The state once the kernel has answered.\<close>

definition answered :: "16 word list \<Rightarrow> poll_state \<Rightarrow> poll_state" where
  "answered rs s = s\<lparr>pollfds := set_revents rs (pollfds s)\<rparr>"

lemma answered_nth:
  "length rs = length (pollfds s) \<Longrightarrow> i < length (pollfds s) \<Longrightarrow>
   pollfds (answered rs s) ! i = (pollfds s ! i)\<lparr>pfd_revents := rs ! i\<rparr>"
  by (simp add: answered_def set_revents_def)

lemma answered_length: "length rs = length (pollfds s) \<Longrightarrow> length (pollfds (answered rs s)) = length (pollfds s)"
  by (simp add: answered_def set_revents_def)

lemma answered_frame:
  assumes "poller_ok s" and len: "length rs = length (pollfds s)"
  shows "poller_ok (answered rs s)" and "interest (answered rs s) = interest s"
proof -
  show "poller_ok (answered rs s)"
    using assms(1) answered_nth [OF len] answered_length [OF len]
    by (simp add: poller_ok_def at_index_def) (simp add: answered_def)
  have "\<And>i. i < length (pollfds s) \<Longrightarrow>
      set_revents rs (pollfds s) ! i = (pollfds s ! i)\<lparr>pfd_revents := rs ! i\<rparr>"
    using answered_nth [OF len] by (simp add: answered_def)
  then show "interest (answered rs s) = interest s"
    using poller_okD [OF assms(1)]
    by (auto simp: interest_def fun_eq_iff answered_def at_index_def Let_def split: option.splits)
qed

text \<open>Every entry with events is one of a registered channel.\<close>

lemma answered_entries:
  assumes ok: "poller_ok s" and kernel: "poll_contract (pollfds s) numReady rs"
    and p: "p \<in> set (pollfds (answered rs s))" "pfd_revents p \<noteq> 0"
  shows "0 < sint (pfd_revents p)
    \<and> (\<exists>c. channels (answered rs s) (pfd_fd p) = Some c \<and> ch_fd (chan (answered rs s) c) = pfd_fd p)"
proof -
  have len: "length rs = length (pollfds s)" using kernel by (simp add: poll_contract_def)
  obtain i where i: "i < length (pollfds (answered rs s))" "p = pollfds (answered rs s) ! i"
    using p(1) by (metis in_set_conv_nth)
  then have pos: "0 \<le> pfd_fd p" "0 < sint (pfd_revents p)"
    using kernel p(2) answered_nth [OF len, of i] answered_length [OF len] by (auto simp: poll_contract_def)
  obtain c where "channels (answered rs s) (real_fd (pfd_fd p)) = Some c"
    using poller_ok_nth [OF answered_frame(1) [OF ok len] i(1)] i(2) by auto
  with pos poller_okD [OF answered_frame(1) [OF ok len] this] show ?thesis by (simp add: at_index_def)
qed

lemma answered_owner:
  assumes "poll_contract (pollfds s) numReady rs" and "i < length (pollfds s)" and "rs ! i \<noteq> 0"
  shows "owner (answered rs s) (pollfds (answered rs s) ! i) = channel_at s i"
proof -
  have "length rs = length (pollfds s)" "0 \<le> pfd_fd (pollfds s ! i)" using assms by (simp_all add: poll_contract_def)
  then show ?thesis using assms(2) answered_nth [of rs s i]
    by (simp add: owner_def channel_at_def) (simp add: answered_def)
qed

lemma Poll_eq:
  assumes "poller_ok s" and kernel: "poll_contract (pollfds s) numReady rs"
  shows "Poll mempool numReady rs s = Inr (fold mark (ready (pollfds (answered rs s))) (answered rs s),
    if mempool then rev (map (owner (answered rs s)) (ready (pollfds (answered rs s))))
    else map (owner (answered rs s)) (ready (pollfds (answered rs s))))"
proof -
  have n: "numReady = int (length (ready (pollfds (answered rs s))))"
    using kernel length_ready [of rs "pollfds s"] by (simp add: poll_contract_def answered_def)
  show ?thesis
  proof (cases "ready (pollfds (answered rs s)) = []")
    case True
    then show ?thesis using n by (simp add: Poll_def answered_def)
  next
    case False
    then show ?thesis
      using n FillActiveChannels_eq [of "pollfds (answered rs s)" "answered rs s" mempool "[]"]
        answered_entries [OF assms]
      by (simp add: Poll_def Let_def answered_def)
  qed
qed

lemma Poll_ready:
  assumes ok: "poller_ok s" and kernel: "poll_contract (pollfds s) numReady rs"
  shows "\<exists>s' active. Poll mempool numReady rs s = Inr (s', active)
    \<and> poller_ok s' \<and> interest s' = interest s \<and> distinct active
    \<and> (if mempool then rev active else active)
       = map (channel_at s) (filter (\<lambda>i. rs ! i \<noteq> 0) [0..<length (pollfds s)])
    \<and> (\<forall>i < length (pollfds s). rs ! i \<noteq> 0 \<longrightarrow>
         revents (chan s' (channel_at s i)) = word_of_int (sint (rs ! i)))"
proof -
  let ?is = "filter (\<lambda>i. rs ! i \<noteq> 0) [0..<length (pollfds s)]" and ?s = "answered rs s"
  define ps where "ps = ready (pollfds ?s)"
  have len: "length rs = length (pollfds s)" using kernel by (simp add: poll_contract_def)
  have ps: "ps = map (\<lambda>i. pollfds ?s ! i) ?is"
    using ready_indices [OF len] answered_nth [OF len] by (simp add: ps_def answered_def)
  have owners: "map (owner ?s) ps = map (channel_at s) ?is"
    unfolding ps using answered_owner [OF kernel] by simp
  have dist: "distinct (map (channel_at s) ?is)"
    using channel_at_inj [OF ok] by (auto simp: distinct_map inj_on_def)
  let ?active = "if mempool then rev (map (owner ?s) ps) else map (owner ?s) ps"
  have "Poll mempool numReady rs s = Inr (fold mark ps ?s, ?active)"
    unfolding ps_def by (rule Poll_eq [OF ok kernel])
  moreover have "poller_ok (fold mark ps ?s)" "interest (fold mark ps ?s) = interest s"
    using fold_mark_frame [of ps ?s] answered_frame [OF ok len] by auto
  moreover have "revents (chan (fold mark ps ?s) (channel_at s i)) = word_of_int (sint (rs ! i))"
    if "i < length (pollfds s)" "rs ! i \<noteq> 0" for i
  proof -
    have "pollfds ?s ! i \<in> set ps" using that unfolding ps by simp
    from fold_mark_revents [OF _ this, of ?s] dist answered_owner [OF kernel] owners answered_nth [OF len] that
    show ?thesis by simp
  qed
  moreover have "distinct ?active" using owners dist by simp
  moreover have "(if mempool then rev ?active else ?active) = map (channel_at s) ?is"
    using owners by simp
  ultimately show ?thesis by blast
qed

section \<open>Properties\<close>

text \<open>C14. The poller implements a map from descriptors to the events polled for: registering a
  channel adds its entry, updating a registered channel changes only its own entry, and removing
  a channel whose events were disabled deletes only its own entry; none of them fails, and the
  array, the map of channels and the indices held by the channels agree afterwards, also where
  the last entry is moved into the gap.\<close>

theorem poller_refines_map:
  assumes "poller_ok s" and "0 \<le> ch_fd (chan s c)"
  shows "(ch_index (chan s c) < 0 \<and> channels s (ch_fd (chan s c)) = None \<longrightarrow>
      (\<exists>s'. UpdateChannel True c s = Inr s' \<and> poller_ok s' \<and> registered s' c
       \<and> interest s' = (interest s)(ch_fd (chan s c) \<mapsto> (True, ucast (ch_events (chan s c))))))
    \<and> (registered s c \<longrightarrow>
      (\<exists>s'. UpdateChannel True c s = Inr s' \<and> poller_ok s' \<and> registered s' c
       \<and> interest s' = (interest s)(ch_fd (chan s c) \<mapsto>
           (fst (the (interest s (ch_fd (chan s c)))) \<and> \<not> IsNoneEvent (chan s c),
            ucast (ch_events (chan s c))))))
    \<and> (registered s c \<and> IsNoneEvent (chan s c) \<and> \<not> fst (the (interest s (ch_fd (chan s c)))) \<longrightarrow>
      (\<exists>s'. RemoveChannel True c s = Inr s' \<and> poller_ok s'
       \<and> interest s' = (interest s)(ch_fd (chan s c) := None)))"
  using UpdateChannel_new [OF assms(1) _ assms(2)] UpdateChannel_old [OF assms(1)]
    RemoveChannel_ok [OF assms(1)] by blast

definition empty_poller :: poll_state where
  "empty_poller = \<lparr>pollfds = [], channels = Map.empty, chan = (\<lambda>c. new_Channel (int c + 3))\<rparr>"

definition three_polled :: poll_state where
  "three_polled = \<lparr>pollfds = [\<lparr>pfd_fd = 3, pfd_events = 0x2003, pfd_revents = 0\<rparr>,
       \<lparr>pfd_fd = -5, pfd_events = 0, pfd_revents = 0\<rparr>, \<lparr>pfd_fd = 5, pfd_events = 4, pfd_revents = 0\<rparr>],
     channels = [3 \<mapsto> 0, 4 \<mapsto> 1, 5 \<mapsto> 2],
     chan = (\<lambda>c. (new_Channel (int c + 3))\<lparr>ch_index := int c,
        ch_events := (if c = 0 then kReadEvent else if c = 2 then kWriteEvent else 0)\<rparr>)\<rparr>"

lemma all_less_3: "(\<forall>i<3. P i) \<longleftrightarrow> P 0 \<and> P 1 \<and> P (2::nat)"
  by (simp add: numeral_eq_Suc All_less_Suc) blast

lemma three_polled_ok: "poller_ok three_polled"
  unfolding poller_ok_def
proof
  show "\<forall>fd c. channels three_polled fd = Some c \<longrightarrow> at_index three_polled fd c"
    by (simp add: three_polled_def at_index_def new_Channel_def real_fd_def)
  have "length (pollfds three_polled) = 3" by (simp add: three_polled_def)
  moreover have "\<forall>i<3. \<exists>c. channels three_polled (real_fd (pfd_fd (pollfds three_polled ! i))) = Some c
      \<and> ch_index (chan three_polled c) = int i"
    unfolding all_less_3 by (simp add: three_polled_def real_fd_def new_Channel_def)
  ultimately show "\<forall>i < length (pollfds three_polled). \<exists>c.
      channels three_polled (real_fd (pfd_fd (pollfds three_polled ! i))) = Some c
      \<and> ch_index (chan three_polled c) = int i" by simp
qed

theorem poller_refines_map_witness:
  "\<exists>s'. RemoveChannel True 1 three_polled = Inr s' \<and> poller_ok s'
     \<and> interest s' = (interest three_polled)(4 := None)"
  using poller_refines_map [OF three_polled_ok, of 1]
  by (simp add: three_polled_def new_Channel_def registered_def IsNoneEvent_def kNoneEvent_def interest_def)

text \<open>\<^verbatim>\<open>Poll\<close> reports exactly the ready channels: with an answer of the kernel as its
  manual promises, no assertion fails, the active list holds the channel of every entry with
  events and no other, once each, in the order of the array (reversed in a build with the memory
  pool), each channel has received its own events, and the poller is otherwise unchanged.\<close>

lemma Poll_reports_ready:
  assumes ok: "poller_ok s" and kernel: "poll_contract (pollfds s) numReady rs"
  shows "\<exists>s' active. Poll mempool numReady rs s = Inr (s', active)
    \<and> poller_ok s' \<and> interest s' = interest s \<and> distinct active
    \<and> (if mempool then rev active else active)
       = map (channel_at s) (filter (\<lambda>i. rs ! i \<noteq> 0) [0..<length (pollfds s)])
    \<and> (\<forall>i < length (pollfds s). rs ! i \<noteq> 0 \<longrightarrow>
         revents (chan s' (channel_at s i)) = word_of_int (sint (rs ! i)))"
  by (rule Poll_ready [OF assms])

lemma Poll_reports_ready_example:
  "\<exists>s'. Poll True 2 [1, 0, 4] three_polled = Inr (s', [2, 0]) \<and> poller_ok s'
     \<and> revents (chan s' 2) = POLLOUT"
proof -
  have k: "poll_contract (pollfds three_polled) 2 [1, 0, 4]"
  proof -
    have "length (pollfds three_polled) = 3" by (simp add: three_polled_def)
    moreover have "\<forall>i<3. [1, 0, 4 :: 16 word] ! i \<noteq> 0 \<longrightarrow>
        0 \<le> pfd_fd (pollfds three_polled ! i) \<and> 0 < sint ([1, 0, 4 :: 16 word] ! i)"
      unfolding all_less_3 by (simp add: three_polled_def)
    ultimately show ?thesis by (simp add: poll_contract_def)
  qed
  have u: "[0..<length (pollfds three_polled)] = [0, 1, 2]" by (simp add: three_polled_def upt_rec)
  have c: "channel_at three_polled 0 = 0" "channel_at three_polled 2 = 2"
    by (simp_all add: channel_at_def three_polled_def real_fd_def)
  from Poll_reports_ready [OF three_polled_ok k, of True] obtain s' active where
    r: "Poll True 2 [1, 0, 4] three_polled = Inr (s', active)" "poller_ok s'"
      "rev active = map (channel_at three_polled)
         (filter (\<lambda>i. [1, 0, 4 :: 16 word] ! i \<noteq> 0) [0..<length (pollfds three_polled)])"
      "\<forall>i < length (pollfds three_polled). [1, 0, 4 :: 16 word] ! i \<noteq> 0 \<longrightarrow>
         revents (chan s' (channel_at three_polled i)) = word_of_int (sint ([1, 0, 4 :: 16 word] ! i))"
    by auto
  from r(3) have "active = [2, 0]" unfolding u by (simp add: c rev_swap)
  moreover have "revents (chan s' 2) = POLLOUT"
    using r(4) [rule_format, of 2] c(2) by (simp add: POLLOUT_def) (simp add: three_polled_def)
  ultimately show ?thesis using r(1,2) by blast
qed

definition reenable :: "nat \<Rightarrow> poll_state \<Rightarrow> poll_state res" where
  "reenable c s = bindR (disableAllEvents True c s) (EnableReading True c)"

text \<open>A channel that was disabled is never polled again: after \<^verbatim>\<open>disableAllEvents\<close>, enabling
  reading or writing updates the events of its entry but leaves the entry ignored by the kernel,
  so no answer of \<^verbatim>\<open>poll(2)\<close> makes the channel active.\<close>

theorem disabled_channel_stays_ignored:
  assumes ok: "poller_ok s" and reg: "registered s c"
  shows "\<exists>s'. reenable c s = Inr s' \<and> poller_ok s' \<and> ch_events (chan s' c) = kReadEvent
    \<and> interest s' (ch_fd (chan s c)) = Some (False, 0x2003)"
proof -
  let ?off = "upd_chan c (\<lambda>ch. ch\<lparr>ch_events := kNoneEvent\<rparr>)"
  let ?on = "upd_chan c (\<lambda>ch. ch\<lparr>ch_events := ch_events ch OR kReadEvent\<rparr>)"
  have off: "poller_ok (?off s)" "registered (?off s) c" using ok reg by (simp_all add: upd_chan_frame)
  from UpdateChannel_old [OF off] obtain s1 where
    s1: "UpdateChannel True c (?off s) = Inr s1" "poller_ok s1" "registered s1 c"
      "interest s1 (ch_fd (chan s c)) = Some (False, 0)"
    by (auto simp: upd_chan_frame IsNoneEvent_def kNoneEvent_def)
  have ch1: "chan s1 = chan (?off s)" by (rule UpdateChannel_chan [OF off s1(1)])
  have on: "poller_ok (?on s1)" "registered (?on s1) c" using s1 by (simp_all add: upd_chan_frame)
  from UpdateChannel_old [OF on] s1(4) obtain s2 where
    s2: "UpdateChannel True c (?on s1) = Inr s2" "poller_ok s2"
      "interest s2 (ch_fd (chan s c)) = Some (False, ucast kReadEvent)"
    by (auto simp: upd_chan_frame ch1 kNoneEvent_def)
  have "chan s2 = chan (?on s1)" by (rule UpdateChannel_chan [OF on s2(1)])
  with s1(1) s2 show ?thesis
    by (simp add: reenable_def disableAllEvents_def EnableReading_def ch1 kNoneEvent_def)
      (simp add: poll_flags)
qed

theorem disabled_channel_stays_ignored_witness:
  "\<exists>s'. reenable 0 three_polled = Inr s' \<and> interest s' 3 = Some (False, 0x2003)"
  using disabled_channel_stays_ignored [OF three_polled_ok, of 0]
  by (auto simp: registered_def three_polled_def new_Channel_def)

end
