(* ===== verification/EventLoop.thy ===== *)
theory EventLoop
  imports Prelude
begin

text \<open>
  The class \<^verbatim>\<open>EventLoop\<close> of \<^verbatim>\<open>EventLoop.cpp\<close> and \<^verbatim>\<open>Bridge\<close> of \<^verbatim>\<open>Bridge.cpp\<close>: the queue of
  pending callbacks, the eventfd that wakes the loop, and the quit flag. The operations are
  functions on the state of the loop; the loop thread and the other threads are the step relation
  \<open>loop_step\<close>, whose steps are the critical section of the queue, the atomic stores and the system
  calls. A callback is a number. The lists \<open>submitted\<close> and \<open>executed\<close> are ghost state.
  Shown: callbacks run in the order of submission and none is lost, one round runs exactly what
  was queued at its start, a loop that is about to block has been woken if there is work, and
  what is queued before \<^verbatim>\<open>Loop\<close> starts, or a \<^verbatim>\<open>Quit\<close> before it, has no such guarantee.
\<close>

section \<open>State\<close>

text \<open>Where the thread of the loop stands: outside \<^verbatim>\<open>Loop\<close>, at the test of \<^verbatim>\<open>quit_\<close>, in
  \<^verbatim>\<open>poll(2)\<close>, in \<^verbatim>\<open>HandleActiveChannels\<close>, before the swap of the queues, or among the callbacks.\<close>

datatype loop_pc = Outside | AtCheck | AtPoll | AtActive | AtSwap | AtRun

record event_loop =
  pc :: loop_pc
  looping :: bool
  quit_flag :: bool
  pendingCbs :: "nat list"
  callingPendingCbs :: bool
  eventfd :: nat
  woken :: bool
  todo :: "nat list"
  wakes :: nat
  submitted :: "nat list"
  executed :: "nat list"

definition new_event_loop :: event_loop where
  "new_event_loop = \<lparr>pc = Outside, looping = False, quit_flag = False, pendingCbs = [],
     callingPendingCbs = False, eventfd = 0, woken = False, todo = [], wakes = 0,
     submitted = [], executed = []\<rparr>"

text \<open>At most one loop per thread.\<close>

definition new_EventLoop :: "'l option \<Rightarrow> event_loop res" where
  "new_EventLoop loop_inThisThread =
     (if loop_inThisThread \<noteq> None then Inl FatalLog else Inr new_event_loop)"

section \<open>Operations\<close>

text \<open>Writing 1 to an eventfd adds to its counter, unless that would overflow (the write is
  refused and logged); reading it resets it.\<close>

definition WakeUp :: "'a event_loop_scheme \<Rightarrow> 'a event_loop_scheme" where
  "WakeUp l = (if eventfd l < 2 ^ 64 - 2 then l\<lparr>eventfd := eventfd l + 1\<rparr> else l)"

definition HandleWakeUpFdRead :: "'a event_loop_scheme \<Rightarrow> 'a event_loop_scheme" where
  "HandleWakeUpFdRead l = l\<lparr>eventfd := 0\<rparr>"

definition Enqueue_push :: "nat \<Rightarrow> 'a event_loop_scheme \<Rightarrow> 'a event_loop_scheme" where
  "Enqueue_push cb l = l\<lparr>pendingCbs := pendingCbs l @ [cb], submitted := submitted l @ [cb]\<rparr>"

definition Enqueue_wake :: "bool \<Rightarrow> 'a event_loop_scheme \<Rightarrow> 'a event_loop_scheme" where
  "Enqueue_wake inl l = (if \<not> inl \<or> callingPendingCbs l then WakeUp l else l)"

definition EnqueueEventLoop :: "bool \<Rightarrow> nat \<Rightarrow> 'a event_loop_scheme \<Rightarrow> 'a event_loop_scheme" where
  "EnqueueEventLoop inl cb l = Enqueue_wake inl (Enqueue_push cb l)"

definition RunInEventLoop :: "bool \<Rightarrow> (nat \<Rightarrow> 'a event_loop_scheme \<Rightarrow> 'a event_loop_scheme res) \<Rightarrow> nat \<Rightarrow>
    'a event_loop_scheme \<Rightarrow> 'a event_loop_scheme res" where
  "RunInEventLoop inl eff cb l = (if inl then eff cb l else Inr (EnqueueEventLoop inl cb l))"

definition Quit_store :: "'a event_loop_scheme \<Rightarrow> 'a event_loop_scheme res" where
  "Quit_store l = ensure (\<not> quit_flag l) (Inr (l\<lparr>quit_flag := True\<rparr>))"

definition Quit :: "bool \<Rightarrow> 'a event_loop_scheme \<Rightarrow> 'a event_loop_scheme res" where
  "Quit inl l = mapR (\<lambda>l1. if \<not> inl then WakeUp l1 else l1) (Quit_store l)"

definition swap_pending :: "'a event_loop_scheme \<Rightarrow> 'a event_loop_scheme" where
  "swap_pending l = l\<lparr>todo := pendingCbs l, pendingCbs := []\<rparr>"

fun run_pending :: "(nat \<Rightarrow> 'a event_loop_scheme \<Rightarrow> 'a event_loop_scheme res) \<Rightarrow> nat list \<Rightarrow> 'a event_loop_scheme \<Rightarrow> 'a event_loop_scheme res" where
  "run_pending eff [] l = Inr l"
| "run_pending eff (cb # cbs) l =
     bindR (eff cb (l\<lparr>todo := cbs, executed := executed l @ [cb]\<rparr>)) (run_pending eff cbs)"

definition HandlePendingCallbacks ::
    "(nat \<Rightarrow> 'a event_loop_scheme \<Rightarrow> 'a event_loop_scheme res) \<Rightarrow> 'a event_loop_scheme \<Rightarrow> 'a event_loop_scheme res" where
  "HandlePendingCallbacks eff l =
     (let l1 = swap_pending (l\<lparr>callingPendingCbs := True\<rparr>)
      in mapR (\<lambda>l2. l2\<lparr>callingPendingCbs := False\<rparr>) (run_pending eff (todo l1) l1))"

section \<open>One round of callbacks\<close>

text \<open>A callback that enqueues callbacks of its own, from the thread of the loop.\<close>

definition spawning :: "(nat \<Rightarrow> nat list) \<Rightarrow> nat \<Rightarrow> 'a event_loop_scheme \<Rightarrow> 'a event_loop_scheme res" where
  "spawning spawn cb l = Inr (fold (EnqueueEventLoop True) (spawn cb) l)"

lemma WakeUp_simps [simp]:
  "pendingCbs (WakeUp l) = pendingCbs l" "submitted (WakeUp l) = submitted l"
  "executed (WakeUp l) = executed l" "todo (WakeUp l) = todo l" "pc (WakeUp l) = pc l"
  "callingPendingCbs (WakeUp l) = callingPendingCbs l" "quit_flag (WakeUp l) = quit_flag l"
  "wakes (WakeUp l) = wakes l" "woken (WakeUp l) = woken l" "looping (WakeUp l) = looping l"
  "0 < eventfd (WakeUp l)"
  by (simp_all add: WakeUp_def)

lemma EnqueueEventLoop_simps [simp]:
  "pendingCbs (EnqueueEventLoop inl cb l) = pendingCbs l @ [cb]"
  "submitted (EnqueueEventLoop inl cb l) = submitted l @ [cb]"
  "executed (EnqueueEventLoop inl cb l) = executed l" "todo (EnqueueEventLoop inl cb l) = todo l"
  "callingPendingCbs (EnqueueEventLoop inl cb l) = callingPendingCbs l"
  "quit_flag (EnqueueEventLoop inl cb l) = quit_flag l" "pc (EnqueueEventLoop inl cb l) = pc l"
  "wakes (EnqueueEventLoop inl cb l) = wakes l"
  "callingPendingCbs l \<Longrightarrow> 0 < eventfd (EnqueueEventLoop inl cb l)"
  "eventfd (EnqueueEventLoop True cb l) = (if callingPendingCbs l then eventfd (WakeUp l) else eventfd l)"
  by (simp_all add: EnqueueEventLoop_def Enqueue_wake_def Enqueue_push_def WakeUp_def)

lemma fold_Enqueue:
  "callingPendingCbs l \<Longrightarrow>
   (let l' = fold (EnqueueEventLoop True) cbs l
    in pendingCbs l' = pendingCbs l @ cbs \<and> executed l' = executed l \<and> callingPendingCbs l'
       \<and> (0 < eventfd l \<or> cbs \<noteq> [] \<longrightarrow> 0 < eventfd l'))"
proof (induction cbs arbitrary: l)
  case (Cons cb cbs)
  from Cons.IH [of "EnqueueEventLoop True cb l"] Cons.prems show ?case by (simp add: Let_def)
qed simp

lemma run_pending_spawning:
  "callingPendingCbs l \<Longrightarrow>
   \<exists>l'. run_pending (spawning spawn) cbs l = Inr l' \<and> callingPendingCbs l'
     \<and> pendingCbs l' = pendingCbs l @ concat (map spawn cbs) \<and> executed l' = executed l @ cbs
     \<and> (0 < eventfd l \<or> concat (map spawn cbs) \<noteq> [] \<longrightarrow> 0 < eventfd l')"
proof (induction cbs arbitrary: l)
  case (Cons cb cbs)
  let ?l = "l\<lparr>todo := cbs, executed := executed l @ [cb]\<rparr>"
  let ?l1 = "fold (EnqueueEventLoop True) (spawn cb) ?l"
  have f: "pendingCbs ?l1 = pendingCbs l @ spawn cb" "executed ?l1 = executed l @ [cb]"
    "callingPendingCbs ?l1" "0 < eventfd l \<or> spawn cb \<noteq> [] \<longrightarrow> 0 < eventfd ?l1"
    using fold_Enqueue [of ?l "spawn cb"] Cons.prems by (simp_all add: Let_def)
  from Cons.IH [OF f(3)] f show ?case by (auto simp: spawning_def)
qed simp

section \<open>The threads\<close>

text \<open>Whose step it is: the loop's thread inside \<^verbatim>\<open>Loop\<close> (or entering it), another thread, or
  the loop's own thread before it calls \<^verbatim>\<open>Loop\<close>.\<close>

datatype actor = ByLoop | ByOther | BeforeLoop

inductive loop_step :: "actor \<Rightarrow> event_loop \<Rightarrow> event_loop \<Rightarrow> bool" where
  start: "pc l = Outside \<Longrightarrow> \<not> looping l \<Longrightarrow>
    loop_step ByLoop l (l\<lparr>pc := AtCheck, looping := True, quit_flag := False\<rparr>)"
| check_quit: "pc l = AtCheck \<Longrightarrow> quit_flag l \<Longrightarrow>
    loop_step ByLoop l (l\<lparr>pc := Outside, looping := False\<rparr>)"
| check_go: "pc l = AtCheck \<Longrightarrow> \<not> quit_flag l \<Longrightarrow> loop_step ByLoop l (l\<lparr>pc := AtPoll\<rparr>)"
| poll: "pc l = AtPoll \<Longrightarrow> loop_step ByLoop l (l\<lparr>pc := AtActive, woken := (0 < eventfd l)\<rparr>)"
| wake_read: "pc l = AtActive \<Longrightarrow> woken l \<Longrightarrow>
    loop_step ByLoop l ((HandleWakeUpFdRead l)\<lparr>woken := False\<rparr>)"
| active_enqueue: "pc l = AtActive \<Longrightarrow> loop_step ByLoop l (EnqueueEventLoop True cb l)"
| active_quit: "pc l = AtActive \<Longrightarrow> Quit True l = Inr l' \<Longrightarrow> loop_step ByLoop l l'"
| pending: "pc l = AtActive \<Longrightarrow> \<not> woken l \<Longrightarrow>
    loop_step ByLoop l (l\<lparr>pc := AtSwap, callingPendingCbs := True\<rparr>)"
| swap: "pc l = AtSwap \<Longrightarrow> loop_step ByLoop l ((swap_pending l)\<lparr>pc := AtRun\<rparr>)"
| run: "pc l = AtRun \<Longrightarrow> todo l = cb # cbs \<Longrightarrow>
    loop_step ByLoop l (l\<lparr>todo := cbs, executed := executed l @ [cb]\<rparr>)"
| run_enqueue: "pc l = AtRun \<Longrightarrow> loop_step ByLoop l (EnqueueEventLoop True cb l)"
| run_quit: "pc l = AtRun \<Longrightarrow> Quit True l = Inr l' \<Longrightarrow> loop_step ByLoop l l'"
| finish: "pc l = AtRun \<Longrightarrow> todo l = [] \<Longrightarrow>
    loop_step ByLoop l (l\<lparr>pc := AtCheck, callingPendingCbs := False\<rparr>)"
| other_push: "loop_step ByOther l ((Enqueue_push cb l)\<lparr>wakes := wakes l + 1\<rparr>)"
| other_quit: "Quit_store l = Inr l' \<Longrightarrow> loop_step ByOther l (l'\<lparr>wakes := wakes l + 1\<rparr>)"
| other_wake: "0 < wakes l \<Longrightarrow> loop_step ByOther l ((Enqueue_wake False l)\<lparr>wakes := wakes l - 1\<rparr>)"
| early_enqueue: "pc l = Outside \<Longrightarrow> loop_step BeforeLoop l (EnqueueEventLoop True cb l)"

inductive_cases loop_stepE: "loop_step a l l'"

inductive loop_run :: "actor set \<Rightarrow> event_loop \<Rightarrow> bool" for A where
  init: "loop_run A new_event_loop"
| step: "loop_run A l \<Longrightarrow> a \<in> A \<Longrightarrow> loop_step a l l' \<Longrightarrow> loop_run A l'"

lemmas loop_ops = EnqueueEventLoop_def Enqueue_wake_def Enqueue_push_def Quit_def Quit_store_def
  swap_pending_def HandleWakeUpFdRead_def ensure_Inr_iff mapR_Inr_iff

text \<open>A wake-up is on its way to the loop.\<close>

definition signalled :: "event_loop \<Rightarrow> bool" where
  "signalled l \<longleftrightarrow> 0 < eventfd l \<or> 0 < wakes l"

definition wake_inv :: "event_loop \<Rightarrow> bool" where
  "wake_inv l \<longleftrightarrow> (callingPendingCbs l \<longleftrightarrow> pc l = AtSwap \<or> pc l = AtRun)
     \<and> (pc l \<noteq> AtActive \<and> pc l \<noteq> AtSwap \<and> pendingCbs l \<noteq> [] \<longrightarrow> signalled l)
     \<and> (pc l = AtPoll \<and> quit_flag l \<longrightarrow> signalled l)
     \<and> (pc l \<noteq> AtRun \<longrightarrow> todo l = [])"

lemma fifo_step:
  "loop_step a l l' \<Longrightarrow> (pc l \<noteq> AtRun \<longrightarrow> todo l = []) \<and> submitted l = executed l @ todo l @ pendingCbs l \<Longrightarrow>
   (pc l' \<noteq> AtRun \<longrightarrow> todo l' = []) \<and> submitted l' = executed l' @ todo l' @ pendingCbs l'"
  by (induction rule: loop_step.induct) (auto simp: loop_ops)

lemma fifo_inv:
  "loop_run A l \<Longrightarrow> (pc l \<noteq> AtRun \<longrightarrow> todo l = []) \<and> submitted l = executed l @ todo l @ pendingCbs l"
  by (induction rule: loop_run.induct) (simp add: new_event_loop_def, blast dest: fifo_step)

lemma signalled_WakeUp [simp]: "signalled (WakeUp l)" "signalled (l\<lparr>wakes := Suc n\<rparr>)"
  by (simp_all add: signalled_def)

lemma wake_inv_step:
  "loop_step a l l' \<Longrightarrow> a \<noteq> BeforeLoop \<Longrightarrow> wake_inv l \<Longrightarrow> wake_inv l'"
  by (induction rule: loop_step.induct) (auto simp: loop_ops wake_inv_def signalled_def)

lemma wake_inv_run: "loop_run A l \<Longrightarrow> BeforeLoop \<notin> A \<Longrightarrow> wake_inv l"
proof (induction rule: loop_run.induct)
  case init
  show ?case by (simp add: wake_inv_def new_event_loop_def)
next
  case (step l a l')
  then show ?case using wake_inv_step by blast
qed

section \<open>Properties\<close>

text \<open>C10. Callbacks are neither lost nor reordered: whatever the threads do, the callbacks
  submitted so far are those executed, then those of the round that is running, then those
  pending, in the order of submission.\<close>

theorem callbacks_fifo:
  assumes "loop_run A l"
  shows "submitted l = executed l @ todo l @ pendingCbs l"
  using fifo_inv [OF assms] by blast

text \<open>C11. The loop does not sleep on work: when the thread of the loop is about to block in
  \<^verbatim>\<open>poll(2)\<close> and there are pending callbacks or a request to quit, the eventfd is readable or the
  thread that made the request has its write to the eventfd still to do. This holds for every
  interleaving with other threads, as long as nothing is enqueued in the loop's own thread
  before \<^verbatim>\<open>Loop\<close>.\<close>

theorem no_sleep_on_work:
  assumes "loop_run {ByLoop, ByOther} l" and "pc l = AtPoll" and "pendingCbs l \<noteq> [] \<or> quit_flag l"
  shows "0 < eventfd l \<or> 0 < wakes l"
  using wake_inv_run [OF assms(1)] assms(2,3) by (auto simp: wake_inv_def signalled_def)

definition polling :: event_loop where
  "polling = new_event_loop\<lparr>pc := AtPoll, looping := True\<rparr>"

lemma polling_run:
  assumes "ByLoop \<in> A" shows "loop_run A polling"
proof -
  have 1: "loop_run A (new_event_loop\<lparr>pc := AtCheck, looping := True, quit_flag := False\<rparr>)"
    by (rule loop_run.step [OF loop_run.init assms start]) (simp_all add: new_event_loop_def)
  have "loop_run A (new_event_loop\<lparr>pc := AtCheck, looping := True, quit_flag := False, pc := AtPoll\<rparr>)"
    by (rule loop_run.step [OF 1 assms check_go]) (simp_all add: new_event_loop_def)
  then show ?thesis by (simp add: polling_def new_event_loop_def)
qed

lemma polling_pushed:
  "loop_run {ByLoop, ByOther} ((Enqueue_push 3 polling)\<lparr>wakes := wakes polling + 1\<rparr>)"
  by (rule loop_run.step [OF polling_run _ other_push]) auto

theorem callbacks_fifo_witness:
  "submitted ((Enqueue_push 3 polling)\<lparr>wakes := wakes polling + 1\<rparr>) = [3]"
  using callbacks_fifo [OF polling_pushed]
  by (simp add: Enqueue_push_def polling_def new_event_loop_def)

theorem no_sleep_on_work_witness:
  "0 < eventfd ((Enqueue_push 3 polling)\<lparr>wakes := wakes polling + 1\<rparr>) \<or> 0 < wakes polling + 1"
  using no_sleep_on_work [OF polling_pushed]
  by (simp add: Enqueue_push_def polling_def new_event_loop_def)

text \<open>One round of \<^verbatim>\<open>HandlePendingCallbacks\<close> runs exactly the callbacks that were pending
  at its start, in order; what they enqueue themselves waits for the next round, in order, and
  the loop has then been woken for it.\<close>

lemma HandlePendingCallbacks_round:
  "\<exists>l'. HandlePendingCallbacks (spawning spawn) l = Inr l'
    \<and> executed l' = executed l @ pendingCbs l
    \<and> pendingCbs l' = concat (map spawn (pendingCbs l))
    \<and> \<not> callingPendingCbs l' \<and> (pendingCbs l' = [] \<or> 0 < eventfd l')"
  using run_pending_spawning [of "swap_pending (l\<lparr>callingPendingCbs := True\<rparr>)" spawn "pendingCbs l"]
  by (fastforce simp: HandlePendingCallbacks_def swap_pending_def)

text \<open>Work enqueued in the loop's own thread before \<^verbatim>\<open>Loop\<close> starts does not wake it: the
  loop can block in \<^verbatim>\<open>poll(2)\<close>, until its timeout, with the callback pending, the eventfd at
  zero and no write to it on the way.\<close>

theorem early_work_not_signalled:
  "\<exists>l. loop_run UNIV l \<and> pc l = AtPoll \<and> pendingCbs l = [7] \<and> eventfd l = 0 \<and> wakes l = 0"
proof -
  let ?l0 = "EnqueueEventLoop True 7 new_event_loop"
  let ?l1 = "?l0\<lparr>pc := AtCheck, looping := True, quit_flag := False\<rparr>"
  have 0: "loop_run UNIV ?l0"
    by (rule loop_run.step [OF loop_run.init _ early_enqueue]) (simp_all add: new_event_loop_def)
  have 1: "loop_run UNIV ?l1"
    by (rule loop_run.step [OF 0 _ start]) (simp_all add: loop_ops new_event_loop_def)
  have 2: "loop_run UNIV (?l1\<lparr>pc := AtPoll\<rparr>)"
    by (rule loop_run.step [OF 1 _ check_go]) (simp_all add: loop_ops new_event_loop_def)
  then show ?thesis by (intro exI [of _ "?l1\<lparr>pc := AtPoll\<rparr>"]) (simp add: loop_ops new_event_loop_def)
qed

text \<open>A \<^verbatim>\<open>Quit\<close> that comes before \<^verbatim>\<open>Loop\<close> is forgotten: although another thread's \<^verbatim>\<open>Quit\<close> has
  returned, the loop starts, consumes the wake-up, and then blocks in \<^verbatim>\<open>poll(2)\<close> with
  \<^verbatim>\<open>quit_\<close> false and nothing to wake it.\<close>

theorem early_quit_forgotten:
  "\<exists>l1 l2. Quit False new_event_loop = Inr l1 \<and> quit_flag l1 \<and> (loop_step ByLoop)\<^sup>*\<^sup>* l1 l2
    \<and> pc l2 = AtPoll \<and> \<not> quit_flag l2 \<and> eventfd l2 = 0 \<and> wakes l2 = 0"
proof -
  let ?l1 = "new_event_loop\<lparr>quit_flag := True, eventfd := 1\<rparr>"
  have q: "Quit False new_event_loop = Inr ?l1"
    by (simp add: Quit_def Quit_store_def WakeUp_def new_event_loop_def)
  let ?s = "?l1\<lparr>pc := AtCheck, looping := True, quit_flag := False\<rparr>"
  let ?p = "?s\<lparr>pc := AtPoll\<rparr>"
  let ?a = "?p\<lparr>pc := AtActive, woken := (0 < eventfd ?p)\<rparr>"
  let ?r = "(HandleWakeUpFdRead ?a)\<lparr>woken := False\<rparr>"
  let ?w = "?r\<lparr>pc := AtSwap, callingPendingCbs := True\<rparr>"
  let ?u = "(swap_pending ?w)\<lparr>pc := AtRun\<rparr>"
  let ?c = "?u\<lparr>pc := AtCheck, callingPendingCbs := False\<rparr>"
  have "loop_step ByLoop ?l1 ?s" by (rule start) (simp_all add: new_event_loop_def)
  moreover have "loop_step ByLoop ?s ?p" by (rule check_go) (simp_all add: new_event_loop_def)
  moreover have "loop_step ByLoop ?p ?a" by (rule poll) (simp add: new_event_loop_def)
  moreover have "loop_step ByLoop ?a ?r" by (rule wake_read) (simp_all add: new_event_loop_def)
  moreover have "loop_step ByLoop ?r ?w" by (rule pending) (simp_all add: loop_ops)
  moreover have "loop_step ByLoop ?w ?u" by (rule swap) simp
  moreover have "loop_step ByLoop ?u ?c" by (rule finish) (simp_all add: loop_ops new_event_loop_def)
  moreover have "loop_step ByLoop ?c (?c\<lparr>pc := AtPoll\<rparr>)"
    by (rule check_go) (simp_all add: loop_ops new_event_loop_def)
  ultimately have "(loop_step ByLoop)\<^sup>*\<^sup>* ?l1 (?c\<lparr>pc := AtPoll\<rparr>)"
    by (meson converse_rtranclp_into_rtranclp rtranclp.rtrancl_refl)
  moreover have "\<not> quit_flag (?c\<lparr>pc := AtPoll\<rparr>)" "eventfd (?c\<lparr>pc := AtPoll\<rparr>) = 0"
    "wakes (?c\<lparr>pc := AtPoll\<rparr>) = 0" by (simp_all add: loop_ops new_event_loop_def)
  ultimately show ?thesis using q by fastforce
qed

end
