(* ===== verification/TcpConnection.thy ===== *)
theory TcpConnection
  imports Buffer PollPoller
begin

text \<open>
  The class \<^verbatim>\<open>TcpConnection\<close> of \<^verbatim>\<open>TcpConnection.cpp\<close>, on top of the model of its buffers
  and of the poller its channel is registered with. The kernel is an argument: what a
  \<^verbatim>\<open>write(2)\<close> or \<^verbatim>\<open>readv(2)\<close> did; \<open>wire\<close> is the bytes it has accepted, \<open>wr_shutdown\<close> that the
  write side of the socket was shut. The callbacks of the user are an argument (\<open>user\<close>), what
  is handed to the queue of the loop is in \<open>queued\<close>. Log lines, names and addresses are left out.
  Shown: bytes go out in order, none lost or repeated; the channel asks for \<^verbatim>\<open>POLLOUT\<close> exactly
  while output waits; the socket is shut only when the output is drained; the life cycle.
\<close>

section \<open>State\<close>

datatype conn_state = Connecting | Connected | Disconnecting | Disconnected

datatype conn_task = WriteCompleteTask | HighWaterTask nat | SendTask "byte list" | ShutdownTask | DestroyedTask

datatype conn_call = ConnectionCb | MessageCb int | CloseCb

record tcp_conn =
  state :: conn_state
  poll :: poll_state
  conn_chan :: nat
  conn_self :: nat
  inputBuffer :: buffer
  outputBuffer :: buffer
  highWaterMark :: nat
  has_writeComplete :: bool
  has_highWater :: bool
  wr_shutdown :: bool
  wire :: "byte list"
  queued :: "conn_task list"

datatype write_result = Wrote nat | WriteErr int

definition EWOULDBLOCK :: int where "EWOULDBLOCK = 11"
definition EPIPE :: int where "EPIPE = 32"
definition ECONNRESET :: int where "ECONNRESET = 104"

abbreviation conn_ch :: "tcp_conn \<Rightarrow> channel" where
  "conn_ch c \<equiv> chan (poll c) (conn_chan c)"

definition chan_IsWriting :: "tcp_conn \<Rightarrow> bool" where
  "chan_IsWriting c \<longleftrightarrow> IsWriting (conn_ch c)"

definition on_chan :: "(nat \<Rightarrow> poll_state \<Rightarrow> poll_state res) \<Rightarrow> tcp_conn \<Rightarrow> tcp_conn res" where
  "on_chan f c = mapR (\<lambda>p. c\<lparr>poll := p\<rparr>) (f (conn_chan c) (poll c))"

definition enqueue :: "conn_task \<Rightarrow> tcp_conn \<Rightarrow> tcp_conn" where
  "enqueue t c = c\<lparr>queued := queued c @ [t]\<rparr>"

section \<open>Life cycle\<close>

text \<open>The constructor makes the channel \<open>k\<close> over the descriptor and sets its four callbacks; the
  destructor.\<close>

definition new_TcpConnection :: "int \<Rightarrow> nat \<Rightarrow> nat \<Rightarrow> poll_state \<Rightarrow> tcp_conn" where
  "new_TcpConnection sockfd k self p = \<lparr>state = Connecting,
     poll = upd_chan k (\<lambda>ch. (new_Channel sockfd)\<lparr>readCb := Some 0, writeCb := Some 1, closeCb := Some 2,
       errorCb := Some 3\<rparr>) p,
     conn_chan = k, conn_self = self, inputBuffer = new_Buffer kInitialSize, outputBuffer = new_Buffer kInitialSize,
     highWaterMark = 0, has_writeComplete = False, has_highWater = False, wr_shutdown = False, wire = [], queued = []\<rparr>"

definition Destruct_TcpConnection :: "tcp_conn \<Rightarrow> unit res" where
  "Destruct_TcpConnection c = ensure (state c = Disconnected) (Inr ())"

definition StepIntoEstablished ::
    "bool \<Rightarrow> (conn_call \<Rightarrow> tcp_conn \<Rightarrow> tcp_conn res) \<Rightarrow> tcp_conn \<Rightarrow> tcp_conn res" where
  "StepIntoEstablished inl user c = loop_only inl (ensure (state c = Connecting)
     (let c1 = c\<lparr>state := Connected\<rparr>;
          c2 = c1\<lparr>poll := upd_chan (conn_chan c1) (Tie (conn_self c1)) (poll c1)\<rparr>
      in bindR (on_chan (EnableReading inl) c2) (user ConnectionCb)))"

definition StepIntoDestroyed ::
    "bool \<Rightarrow> (conn_call \<Rightarrow> tcp_conn \<Rightarrow> tcp_conn res) \<Rightarrow> tcp_conn \<Rightarrow> tcp_conn res" where
  "StepIntoDestroyed inl user c = loop_only inl
     (bindR (if state c = Connected then on_chan (disableAllEvents inl) (c\<lparr>state := Disconnected\<rparr>)
             else Inr c)
        (\<lambda>c1. bindR (user ConnectionCb c1) (on_chan (Channel_Remove inl))))"

definition HandleClose ::
    "bool \<Rightarrow> (conn_call \<Rightarrow> tcp_conn \<Rightarrow> tcp_conn res) \<Rightarrow> tcp_conn \<Rightarrow> tcp_conn res" where
  "HandleClose inl user c = loop_only inl (ensure (state c = Connected \<or> state c = Disconnecting)
     (bindR (on_chan (disableAllEvents inl) c)
        (\<lambda>c1. user CloseCb (c1\<lparr>state := Disconnected\<rparr>))))"

definition HandleError :: "bool \<Rightarrow> tcp_conn \<Rightarrow> tcp_conn res" where
  "HandleError inl c = loop_only inl (Inr c)"

definition HandleRead :: "bool \<Rightarrow> (conn_call \<Rightarrow> tcp_conn \<Rightarrow> tcp_conn res) \<Rightarrow> readv_result \<Rightarrow> int \<Rightarrow>
    tcp_conn \<Rightarrow> tcp_conn res" where
  "HandleRead inl user rr recv_timepoint c = loop_only inl
     (bindR (ReadFd rr (inputBuffer c)) (\<lambda>(ret, savedError, b).
        let c1 = c\<lparr>inputBuffer := b\<rparr>
        in if ret < 0 then HandleError inl c1
           else if ret = 0 then HandleClose inl user c1
           else user (MessageCb recv_timepoint) c1))"

section \<open>Sending\<close>

definition ShutdownInLoop :: "bool \<Rightarrow> tcp_conn \<Rightarrow> tcp_conn res" where
  "ShutdownInLoop inl c = loop_only inl
     (Inr (if \<not> chan_IsWriting c then c\<lparr>wr_shutdown := True\<rparr> else c))"

definition Shutdown :: "bool \<Rightarrow> tcp_conn \<Rightarrow> tcp_conn res" where
  "Shutdown inl c =
     (if state c = Connected
      then let c1 = c\<lparr>state := Disconnecting\<rparr>
           in if inl then ShutdownInLoop inl c1 else Inr (enqueue ShutdownTask c1)
      else Inr c)"

text \<open>The attempt to write at once: bytes written, bytes remaining, and whether the peer is
  gone.\<close>

definition direct_write :: "write_result \<Rightarrow> byte list \<Rightarrow> tcp_conn \<Rightarrow> nat \<times> nat \<times> bool \<times> tcp_conn" where
  "direct_write wres buf c =
     (if \<not> chan_IsWriting c \<and> ReadableBytes (outputBuffer c) = 0
      then (case wres of
          Wrote nwrote \<Rightarrow>
            (let remaining = length buf - nwrote;
                 c1 = c\<lparr>wire := wire c @ take nwrote buf\<rparr>
             in (nwrote, remaining, False,
                 if remaining = 0 \<and> has_writeComplete c1 then enqueue WriteCompleteTask c1 else c1))
        | WriteErr e \<Rightarrow>
            (0, length buf, e \<noteq> EWOULDBLOCK \<and> (e = EPIPE \<or> e = ECONNRESET), c))
      else (0, length buf, False, c))"

definition SendInLoop :: "bool \<Rightarrow> write_result \<Rightarrow> byte list \<Rightarrow> tcp_conn \<Rightarrow> tcp_conn res" where
  "SendInLoop inl wres buf c = loop_only inl
     (if state c = Disconnected then Inr c
      else case direct_write wres buf c of (nwrote, remaining, faultError, c1) \<Rightarrow>
        ensure (remaining \<le> length buf)
          (if \<not> faultError \<and> 0 < remaining
           then let oldLen = ReadableBytes (outputBuffer c1);
                    c2 = (if highWaterMark c1 \<le> oldLen + remaining \<and> oldLen < highWaterMark c1
                             \<and> has_highWater c1
                          then enqueue (HighWaterTask (oldLen + remaining)) c1 else c1)
                in bindR (Append (take remaining (drop nwrote buf)) (outputBuffer c2))
                     (\<lambda>b. let c3 = c2\<lparr>outputBuffer := b\<rparr>
                          in if \<not> chan_IsWriting c3 then on_chan (enableWriting inl) c3 else Inr c3)
           else Inr c1))"

definition Send :: "bool \<Rightarrow> write_result \<Rightarrow> byte list \<Rightarrow> tcp_conn \<Rightarrow> tcp_conn res" where
  "Send inl wres buf c =
     (if state c = Connected
      then if inl then SendInLoop inl wres buf c else Inr (enqueue (SendTask buf) c)
      else Inr c)"

definition HandleWrite :: "bool \<Rightarrow> write_result \<Rightarrow> tcp_conn \<Rightarrow> tcp_conn res" where
  "HandleWrite inl wres c = loop_only inl
     (if chan_IsWriting c
      then (case wres of
          Wrote n \<Rightarrow>
            bindR (Retrieve n (outputBuffer c)) (\<lambda>b.
            let c1 = c\<lparr>outputBuffer := b,
                       wire := wire c @ take n (take (ReadableBytes (outputBuffer c)) (Peek (outputBuffer c)))\<rparr>
            in if ReadableBytes b = 0
               then bindR (on_chan (disableWriting inl) c1) (\<lambda>c2.
                    let c3 = (if has_writeComplete c2 then enqueue WriteCompleteTask c2 else c2)
                    in if state c3 = Disconnecting then ShutdownInLoop inl c3 else Inr c3)
               else Inr c1)
        | WriteErr e \<Rightarrow> Inr c)
      else Inr c)"

text \<open>The loop runs the first queued task; the callbacks for a completed write and for the
  high-water mark are the user's, and so is the connection callback that \<^verbatim>\<open>StepIntoDestroyed\<close> calls.\<close>

definition run_conn_task :: "bool \<Rightarrow> (conn_task \<Rightarrow> tcp_conn \<Rightarrow> tcp_conn res) \<Rightarrow> write_result \<Rightarrow> conn_task \<Rightarrow>
    tcp_conn \<Rightarrow> tcp_conn res" where
  "run_conn_task inl user wres t c = (case t of
       SendTask buf \<Rightarrow> SendInLoop inl wres buf c
     | ShutdownTask \<Rightarrow> ShutdownInLoop inl c
     | DestroyedTask \<Rightarrow> StepIntoDestroyed inl (\<lambda>call. user t) c
     | _ \<Rightarrow> user t c)"

definition run_queued :: "bool \<Rightarrow> (conn_task \<Rightarrow> tcp_conn \<Rightarrow> tcp_conn res) \<Rightarrow> write_result \<Rightarrow>
    tcp_conn \<Rightarrow> tcp_conn res" where
  "run_queued inl user wres c = (case queued c of
       [] \<Rightarrow> Inr c
     | t # ts \<Rightarrow> run_conn_task inl user wres t (c\<lparr>queued := ts\<rparr>))"

section \<open>The invariant of a live connection\<close>

abbreviation outdata :: "tcp_conn \<Rightarrow> byte list" where
  "outdata c \<equiv> contents (outputBuffer c)"

definition wanted_events :: "byte list \<Rightarrow> events" where
  "wanted_events out = (if out = [] then kReadEvent else kReadEvent OR kWriteEvent)"

definition conn_live :: "tcp_conn \<Rightarrow> bool" where
  "conn_live c \<longleftrightarrow> state c = Connected \<or> state c = Disconnecting"

definition conn_ok :: "tcp_conn \<Rightarrow> bool" where
  "conn_ok c \<longleftrightarrow> conn_live c \<and> buf_ok (inputBuffer c) \<and> buf_ok (outputBuffer c)
     \<and> poller_ok (poll c) \<and> registered (poll c) (conn_chan c)
     \<and> ch_events (conn_ch c) = wanted_events (outdata c)
     \<and> interest (poll c) (ch_fd (conn_ch c)) = Some (True, ucast (wanted_events (outdata c)))
     \<and> (wr_shutdown c \<longrightarrow> state c = Disconnecting \<and> outdata c = [])"

text \<open>What the manual of \<^verbatim>\<open>write(2)\<close> promises: it takes at most what it is given, and on a
  socket whose write side was shut it fails with \<^verbatim>\<open>EPIPE\<close>.\<close>

definition write_contract :: "write_result \<Rightarrow> nat \<Rightarrow> tcp_conn \<Rightarrow> bool" where
  "write_contract wres len c \<longleftrightarrow> (case wres of
     Wrote n \<Rightarrow> n \<le> len \<and> \<not> wr_shutdown c | WriteErr e \<Rightarrow> wr_shutdown c \<longrightarrow> e = EPIPE)"

lemma IsWriting_wanted:
  "ch_events ch = wanted_events out \<Longrightarrow> IsWriting ch \<longleftrightarrow> out \<noteq> []"
  by (simp add: IsWriting_def wanted_events_def has_event_def poll_flags)

lemma wanted_flags:
  "kReadEvent OR kWriteEvent = 0x2007" "kReadEvent AND NOT kWriteEvent = kReadEvent"
  "(kReadEvent OR kWriteEvent) AND NOT kWriteEvent = kReadEvent" "kReadEvent = 0x2003"
  by (simp_all add: poll_flags)

lemma readable_output: "conn_ok c \<Longrightarrow> ReadableBytes (outputBuffer c) = length (outdata c)"
  by (simp add: conn_ok_def length_contents)

lemma conn_writing: "conn_ok c \<Longrightarrow> chan_IsWriting c \<longleftrightarrow> outdata c \<noteq> []"
  by (simp add: chan_IsWriting_def conn_ok_def IsWriting_wanted)

lemma on_chan_events:
  assumes "conn_ok c0" and same: "poll c = poll c0" "conn_chan c = conn_chan c0"
    and op: "\<And>k s. opn k s = UpdateChannel True k (upd_chan k f s)"
    and f: "\<And>ch. ch_fd (f ch) = ch_fd ch" "\<And>ch. ch_index (f ch) = ch_index ch"
  shows "\<exists>p. on_chan opn c = Inr (c\<lparr>poll := p\<rparr>) \<and> poller_ok p \<and> registered p (conn_chan c)
    \<and> chan p = (chan (poll c))(conn_chan c := f (conn_ch c))
    \<and> interest p = (interest (poll c))(ch_fd (conn_ch c) \<mapsto>
        (\<not> IsNoneEvent (f (conn_ch c)), ucast (ch_events (f (conn_ch c)))))"
proof -
  have "poller_ok (poll c)" "registered (poll c) (conn_chan c)"
    "fst (the (interest (poll c) (ch_fd (conn_ch c))))"
    using assms(1) by (auto simp: conn_ok_def same)
  from set_events_ok [OF this(1,2) f] this(3) show ?thesis by (auto simp: on_chan_def op)
qed

lemma on_enableWriting:
  assumes "conn_ok c0" and "poll c = poll c0" "conn_chan c = conn_chan c0" and "outdata c0 = []"
  shows "\<exists>p. on_chan (enableWriting True) c = Inr (c\<lparr>poll := p\<rparr>) \<and> poller_ok p \<and> registered p (conn_chan c)
    \<and> ch_fd (chan p (conn_chan c)) = ch_fd (conn_ch c)
    \<and> ch_events (chan p (conn_chan c)) = kReadEvent OR kWriteEvent
    \<and> interest p (ch_fd (conn_ch c)) = Some (True, ucast (kReadEvent OR kWriteEvent))"
proof -
  have "ch_events (conn_ch c) OR kWriteEvent = kReadEvent OR kWriteEvent"
    using assms by (simp add: conn_ok_def wanted_events_def)
  with on_chan_events [OF assms(1-3) enableWriting_def] show ?thesis
    by (auto simp: IsNoneEvent_def kNoneEvent_def wanted_flags(1))
qed

lemma on_disableWriting:
  assumes "conn_ok c0" and "poll c = poll c0" "conn_chan c = conn_chan c0"
  shows "\<exists>p. on_chan (disableWriting True) c = Inr (c\<lparr>poll := p\<rparr>) \<and> poller_ok p \<and> registered p (conn_chan c)
    \<and> ch_fd (chan p (conn_chan c)) = ch_fd (conn_ch c)
    \<and> ch_events (chan p (conn_chan c)) = kReadEvent
    \<and> interest p (ch_fd (conn_ch c)) = Some (True, ucast kReadEvent)"
proof -
  have "ch_events (conn_ch c) AND NOT kWriteEvent = kReadEvent"
    using assms by (simp add: conn_ok_def wanted_events_def wanted_flags(2,3))
  with on_chan_events [OF assms disableWriting_def] show ?thesis
    by (auto simp: IsNoneEvent_def kNoneEvent_def wanted_flags(4))
qed

lemma conn_ok_cong:
  assumes "conn_ok c" and "poll c' = poll c" "conn_chan c' = conn_chan c" "inputBuffer c' = inputBuffer c"
    "outputBuffer c' = outputBuffer c" "wr_shutdown c' = wr_shutdown c" "state c' = state c"
  shows "conn_ok c'"
  using assms by (simp add: conn_ok_def conn_live_def)

section \<open>Sending keeps the stream\<close>

text \<open>The message is given up: nothing waits, and the peer is gone.\<close>

definition dropped :: "write_result \<Rightarrow> tcp_conn \<Rightarrow> bool" where
  "dropped wres c \<longleftrightarrow> outdata c = [] \<and> (wres = WriteErr EPIPE \<or> wres = WriteErr ECONNRESET)"

lemma direct_write_spec:
  assumes ok: "conn_ok c" and kernel: "write_contract wres (length buf) c"
    and dw: "direct_write wres buf c = (nwrote, remaining, faultError, c1)"
  shows "conn_ok c1 \<and> faultError = dropped wres c \<and> nwrote + remaining = length buf
    \<and> wire c1 = wire c @ take nwrote buf \<and> outputBuffer c1 = outputBuffer c
    \<and> (nwrote = 0 \<or> outdata c = []) \<and> wr_shutdown c1 = wr_shutdown c \<and> state c1 = state c
    \<and> (wr_shutdown c \<longrightarrow> faultError \<and> nwrote = 0)"
proof -
  have err: "EPIPE \<noteq> EWOULDBLOCK" "ECONNRESET \<noteq> EWOULDBLOCK"
    by (simp_all add: EPIPE_def EWOULDBLOCK_def ECONNRESET_def)
  have shut: "wr_shutdown c \<Longrightarrow> outdata c = []" using ok by (simp add: conn_ok_def)
  have "conn_ok c1"
    by (rule conn_ok_cong [OF ok])
      (use dw in \<open>auto simp: direct_write_def enqueue_def Let_def split: if_splits write_result.splits\<close>)
  moreover have "wr_shutdown c1 = wr_shutdown c \<and> state c1 = state c \<and> outputBuffer c1 = outputBuffer c"
    using dw by (auto simp: direct_write_def enqueue_def Let_def split: if_splits write_result.splits)
  moreover have "faultError = dropped wres c \<and> nwrote + remaining = length buf
      \<and> wire c1 = wire c @ take nwrote buf \<and> (nwrote = 0 \<or> outdata c = [])
      \<and> (wr_shutdown c \<longrightarrow> faultError \<and> nwrote = 0)"
    using dw kernel err shut
    by (auto simp: direct_write_def conn_writing [OF ok] readable_output [OF ok] dropped_def
        write_contract_def enqueue_def Let_def split: if_splits write_result.splits)
  ultimately show ?thesis by blast
qed

text \<open>Queueing the rest of a message.\<close>

lemma queue_output_ok:
  assumes ok: "conn_ok c" and shut: "\<not> wr_shutdown c" and fits: "length d \<le> room (outputBuffer c)"
    and ne: "d \<noteq> []"
  shows "\<exists>c'. bindR (Append d (outputBuffer c)) (\<lambda>b. let c3 = c\<lparr>outputBuffer := b\<rparr>
      in if \<not> chan_IsWriting c3 then on_chan (enableWriting True) c3 else Inr c3) = Inr c'
    \<and> conn_ok c' \<and> outdata c' = outdata c @ d \<and> wire c' = wire c
    \<and> wr_shutdown c' = wr_shutdown c \<and> state c' = state c"
proof -
  have buf: "buf_ok (outputBuffer c)" using ok by (simp add: conn_ok_def)
  obtain b where b: "Append d (outputBuffer c) = Inr b"
    using buffer_queue.append_total [OF buf fits] by blast
  note app = buffer_queue.append_law [OF buf b]
  let ?c3 = "c\<lparr>outputBuffer := b\<rparr>"
  have w: "chan_IsWriting ?c3 \<longleftrightarrow> outdata c \<noteq> []"
    using conn_writing [OF ok] by (simp add: chan_IsWriting_def)
  show ?thesis
  proof (cases "outdata c = []")
    case True
    with on_enableWriting [OF ok, of ?c3] obtain p where
      p: "on_chan (enableWriting True) ?c3 = Inr (?c3\<lparr>poll := p\<rparr>)" "poller_ok p"
        "registered p (conn_chan c)" "ch_fd (chan p (conn_chan c)) = ch_fd (conn_ch c)"
        "ch_events (chan p (conn_chan c)) = kReadEvent OR kWriteEvent"
        "interest p (ch_fd (conn_ch c)) = Some (True, ucast (kReadEvent OR kWriteEvent))" by auto
    have "conn_ok (?c3\<lparr>poll := p\<rparr>)"
      using ok p(2-) app ne shut by (simp add: conn_ok_def conn_live_def wanted_events_def)
    with True p(1) app b w show ?thesis by simp
  next
    case False
    then have "conn_ok ?c3"
      using ok app shut by (simp add: conn_ok_def conn_live_def wanted_events_def)
    with False app b w show ?thesis by simp
  qed
qed

lemma SendInLoop_ok:
  assumes ok: "conn_ok c" and kernel: "write_contract wres (length buf) c"
    and fits: "length buf \<le> room (outputBuffer c)"
  shows "\<exists>c'. SendInLoop True wres buf c = Inr c' \<and> conn_ok c'
    \<and> wire c' @ outdata c' = wire c @ outdata c @ (if dropped wres c then [] else buf)
    \<and> wr_shutdown c' = wr_shutdown c \<and> state c' = state c"
proof -
  obtain nwrote remaining faultError c1 where
    dw: "direct_write wres buf c = (nwrote, remaining, faultError, c1)" by (metis prod_cases4)
  note d = direct_write_spec [OF ok kernel dw]
  have live: "state c \<noteq> Disconnected" using ok by (auto simp: conn_ok_def conn_live_def)
  have fault0: "nwrote = 0" if faultError
    using dw that by (auto simp: direct_write_def Let_def split: if_splits write_result.splits)
  show ?thesis
  proof (cases "faultError \<or> remaining = 0")
    case True
    then have "SendInLoop True wres buf c = Inr c1" using live dw d by (auto simp: SendInLoop_def)
    moreover have "wire c1 @ outdata c1 = wire c @ outdata c @ (if dropped wres c then [] else buf)"
      using True d fault0 by (cases faultError) auto
    ultimately show ?thesis using d by blast
  next
    case False
    define c2 where "c2 = (if highWaterMark c1 \<le> ReadableBytes (outputBuffer c1) + remaining
        \<and> ReadableBytes (outputBuffer c1) < highWaterMark c1 \<and> has_highWater c1
      then enqueue (HighWaterTask (ReadableBytes (outputBuffer c1) + remaining)) c1 else c1)"
    have same: "wire c2 = wire c1" "outputBuffer c2 = outputBuffer c1" "wr_shutdown c2 = wr_shutdown c1"
      "state c2 = state c1" "poll c2 = poll c1" "conn_chan c2 = conn_chan c1" "inputBuffer c2 = inputBuffer c1"
      by (simp_all add: c2_def enqueue_def)
    have ok2: "conn_ok c2" by (rule conn_ok_cong [of c1]) (use d same in auto)
    have rest: "take remaining (drop nwrote buf) = drop nwrote buf" using d by auto
    have prem: "\<not> wr_shutdown c2" "length (drop nwrote buf) \<le> room (outputBuffer c2)" "drop nwrote buf \<noteq> []"
      using d False fits same by auto
    from queue_output_ok [OF ok2 prem] obtain c' where
      c': "bindR (Append (drop nwrote buf) (outputBuffer c2)) (\<lambda>b. let c3 = c2\<lparr>outputBuffer := b\<rparr>
        in if \<not> chan_IsWriting c3 then on_chan (enableWriting True) c3 else Inr c3) = Inr c'"
        "conn_ok c'" "outdata c' = outdata c2 @ drop nwrote buf" "wire c' = wire c2"
        "wr_shutdown c' = wr_shutdown c2" "state c' = state c2" by blast
    have "remaining \<le> length buf" "\<not> faultError" "0 < remaining" using d False by auto
    then have "SendInLoop True wres buf c = bindR (Append (take remaining (drop nwrote buf)) (outputBuffer c2))
        (\<lambda>b. let c3 = c2\<lparr>outputBuffer := b\<rparr>
          in if \<not> chan_IsWriting c3 then on_chan (enableWriting True) c3 else Inr c3)"
      using live dw by (simp add: SendInLoop_def c2_def Let_def)
    then have "SendInLoop True wres buf c = Inr c'" unfolding rest c'(1) .
    moreover have "wire c' @ outdata c' = wire c @ outdata c @ (if dropped wres c then [] else buf)"
      using d False c'(2-) same by auto
    ultimately show ?thesis using c'(2-) d same by auto
  qed
qed

section \<open>Draining and shutting down\<close>

lemma ShutdownInLoop_ok:
  assumes "conn_ok c" and "state c = Disconnecting"
  shows "\<exists>c'. ShutdownInLoop True c = Inr c' \<and> conn_ok c' \<and> wire c' = wire c \<and> outdata c' = outdata c
    \<and> state c' = Disconnecting \<and> (wr_shutdown c' \<longleftrightarrow> wr_shutdown c \<or> outdata c = [])"
  using assms conn_writing [OF assms(1)] by (simp add: ShutdownInLoop_def conn_ok_def conn_live_def)

lemma HandleWrite_ok:
  assumes ok: "conn_ok c" and kernel: "write_contract wres (length (outdata c)) c"
  shows "\<exists>c'. HandleWrite True wres c = Inr c' \<and> conn_ok c' \<and> state c' = state c
    \<and> wire c' @ outdata c' = wire c @ outdata c
    \<and> outdata c' = (case wres of Wrote n \<Rightarrow> drop n (outdata c) | WriteErr e \<Rightarrow> outdata c)
    \<and> (wr_shutdown c' \<longleftrightarrow> wr_shutdown c \<or> (state c = Disconnecting \<and> outdata c \<noteq> [] \<and> outdata c' = []))"
proof (cases "outdata c = [] \<or> (\<exists>e. wres = WriteErr e)")
  case True
  then show ?thesis using ok conn_writing [OF ok]
    by (auto simp: HandleWrite_def split: write_result.splits)
next
  case False
  then obtain n where wres: "wres = Wrote n" and ne: "outdata c \<noteq> []" by (cases wres) auto
  have n: "n \<le> length (outdata c)" and noshut: "\<not> wr_shutdown c"
    using kernel wres by (auto simp: write_contract_def)
  have buf: "buf_ok (outputBuffer c)" using ok by (simp add: conn_ok_def)
  obtain b where b: "Retrieve n (outputBuffer c) = Inr b"
    using buffer_queue.retrieve_total [OF buf n] by blast
  note ret = buffer_queue.retrieve_law [OF buf b]
  define c1 where "c1 = c\<lparr>outputBuffer := b,
    wire := wire c @ take n (take (ReadableBytes (outputBuffer c)) (Peek (outputBuffer c)))\<rparr>"
  have out: "take (ReadableBytes (outputBuffer c)) (Peek (outputBuffer c)) = outdata c"
    using take_Peek [of "ReadableBytes (outputBuffer c)" "outputBuffer c"]
    by (simp add: readable_output [OF ok])
  have stream: "wire c1 @ contents b = wire c @ outdata c" using ret by (simp add: c1_def out)
  have rb: "ReadableBytes b = 0 \<longleftrightarrow> contents b = []" using ret length_contents [of b] by auto
  have same: "poll c1 = poll c" "conn_chan c1 = conn_chan c" "state c1 = state c" "outputBuffer c1 = b"
    "wr_shutdown c1 = wr_shutdown c" "inputBuffer c1 = inputBuffer c" by (simp_all add: c1_def)
  show ?thesis
  proof (cases "contents b = []")
    case False
    then have "HandleWrite True wres c = Inr c1"
      using ne b rb by (simp add: HandleWrite_def conn_writing [OF ok] wres c1_def Let_def)
    moreover have "conn_ok c1"
      using ok ret False same noshut ne by (simp add: conn_ok_def conn_live_def wanted_events_def)
    ultimately show ?thesis using stream ret same False noshut by (auto simp: wres)
  next
    case True
    from on_disableWriting [OF ok same(1,2)] obtain p where
      p: "on_chan (disableWriting True) c1 = Inr (c1\<lparr>poll := p\<rparr>)" "poller_ok p"
        "registered p (conn_chan c1)" "ch_fd (chan p (conn_chan c1)) = ch_fd (conn_ch c1)"
        "ch_events (chan p (conn_chan c1)) = kReadEvent"
        "interest p (ch_fd (conn_ch c1)) = Some (True, ucast kReadEvent)" by auto
    define c3 where "c3 = (if has_writeComplete (c1\<lparr>poll := p\<rparr>) then enqueue WriteCompleteTask (c1\<lparr>poll := p\<rparr>)
      else c1\<lparr>poll := p\<rparr>)"
    have c3: "wire c3 = wire c1" "outdata c3 = []" "state c3 = state c" "wr_shutdown c3 = wr_shutdown c"
      using True same by (simp_all add: c3_def enqueue_def)
    have "conn_ok (c1\<lparr>poll := p\<rparr>)"
      using ok p(2-) ret True same noshut by (simp add: conn_ok_def conn_live_def wanted_events_def)
    then have ok3: "conn_ok c3" by (rule conn_ok_cong) (simp_all add: c3_def enqueue_def)
    have h: "HandleWrite True wres c = (if state c3 = Disconnecting then ShutdownInLoop True c3 else Inr c3)"
      using ne b rb True p(1)
      by (simp add: HandleWrite_def conn_writing [OF ok] wres c1_def [symmetric] c3_def Let_def
          del: take_take)
    show ?thesis
    proof (cases "state c = Disconnecting")
      case True
      with ShutdownInLoop_ok [OF ok3] h c3 obtain c' where
        "HandleWrite True wres c = Inr c'" "conn_ok c'" "wire c' = wire c3" "outdata c' = []"
        "state c' = Disconnecting" "wr_shutdown c'" by auto
      then show ?thesis using True c3 stream ret \<open>contents b = []\<close> ne by (simp add: wres)
    next
      case False
      then show ?thesis using h ok3 c3 stream ret \<open>contents b = []\<close> by (simp add: wres)
    qed
  qed
qed

section \<open>Runs of a connection\<close>

datatype conn_op = OpSend write_result "byte list" | OpWritable write_result | OpShutdown

fun conn_step :: "conn_op \<Rightarrow> tcp_conn \<Rightarrow> tcp_conn res" where
  "conn_step (OpSend wres buf) c = SendInLoop True wres buf c"
| "conn_step (OpWritable wres) c = HandleWrite True wres c"
| "conn_step OpShutdown c = Shutdown True c"

fun conn_run :: "conn_op list \<Rightarrow> tcp_conn \<Rightarrow> tcp_conn res" where
  "conn_run [] c = Inr c"
| "conn_run (op # ops) c = bindR (conn_step op c) (conn_run ops)"

text \<open>The kernel keeps its promises, and a message fits into what a buffer can grow to.\<close>

definition op_contract :: "conn_op \<Rightarrow> tcp_conn \<Rightarrow> bool" where
  "op_contract op c \<longleftrightarrow> (case op of
     OpSend wres buf \<Rightarrow> write_contract wres (length buf) c \<and> length buf \<le> room (outputBuffer c)
   | OpWritable wres \<Rightarrow> write_contract wres (length (outdata c)) c
   | OpShutdown \<Rightarrow> True)"

fun run_contract :: "conn_op list \<Rightarrow> tcp_conn \<Rightarrow> bool" where
  "run_contract [] c \<longleftrightarrow> True"
| "run_contract (op # ops) c \<longleftrightarrow> op_contract op c
     \<and> (case conn_step op c of Inl e \<Rightarrow> True | Inr c' \<Rightarrow> run_contract ops c')"

text \<open>The bytes the connection took on, in the order of the sends.\<close>

fun taken_on :: "conn_op list \<Rightarrow> tcp_conn \<Rightarrow> byte list" where
  "taken_on [] c = []"
| "taken_on (op # ops) c =
     (case op of OpSend wres buf \<Rightarrow> if dropped wres c then [] else buf | _ \<Rightarrow> [])
     @ (case conn_step op c of Inl e \<Rightarrow> [] | Inr c' \<Rightarrow> taken_on ops c')"

lemma Shutdown_ok:
  assumes "conn_ok c"
  shows "\<exists>c'. Shutdown True c = Inr c' \<and> conn_ok c' \<and> wire c' = wire c \<and> outdata c' = outdata c"
proof (cases "state c = Connected")
  case True
  then have "conn_ok (c\<lparr>state := Disconnecting\<rparr>)" using assms by (simp add: conn_ok_def conn_live_def)
  from ShutdownInLoop_ok [OF this] True show ?thesis by (auto simp: Shutdown_def)
qed (use assms in \<open>simp add: Shutdown_def\<close>)

lemma conn_step_ok:
  assumes "conn_ok c" and "op_contract op c"
  shows "\<exists>c'. conn_step op c = Inr c' \<and> conn_ok c'
    \<and> wire c' @ outdata c' = wire c @ outdata c
        @ (case op of OpSend wres buf \<Rightarrow> if dropped wres c then [] else buf | _ \<Rightarrow> [])"
proof (cases op)
  case (OpSend wres buf)
  with SendInLoop_ok [OF assms(1), of wres buf] assms(2) show ?thesis by (auto simp: op_contract_def)
next
  case (OpWritable wres)
  with HandleWrite_ok [OF assms(1), of wres] assms(2) show ?thesis by (auto simp: op_contract_def)
next
  case OpShutdown
  with Shutdown_ok [OF assms(1)] show ?thesis by auto
qed

lemma conn_run_ok:
  "conn_ok c \<Longrightarrow> run_contract ops c \<Longrightarrow> \<exists>c'. conn_run ops c = Inr c' \<and> conn_ok c'
    \<and> wire c' @ outdata c' = wire c @ outdata c @ taken_on ops c"
proof (induction ops arbitrary: c)
  case (Cons op ops)
  from Cons.prems obtain c1 where c1: "conn_step op c = Inr c1" "conn_ok c1"
    "wire c1 @ outdata c1 = wire c @ outdata c
        @ (case op of OpSend wres buf \<Rightarrow> if dropped wres c then [] else buf | _ \<Rightarrow> [])"
    using conn_step_ok [OF Cons.prems(1), of op] by auto
  from Cons.IH [OF c1(2)] Cons.prems(2) c1(1) obtain c' where
    "conn_run ops c1 = Inr c'" "conn_ok c'" "wire c' @ outdata c' = wire c1 @ outdata c1 @ taken_on ops c1"
    by auto
  then show ?case using c1 append_assoc by (metis conn_run.simps(2) bindR_simps(2) sum.simps(6) taken_on.simps(2))
qed simp

text \<open>Repeated writability: the kernel takes \<open>k\<close> bytes, or all there are.\<close>

fun drain :: "nat list \<Rightarrow> tcp_conn \<Rightarrow> tcp_conn res" where
  "drain [] c = Inr c"
| "drain (k # ks) c =
     bindR (HandleWrite True (Wrote (min k (ReadableBytes (outputBuffer c)))) c) (drain ks)"

lemma drain_ok:
  "conn_ok c \<Longrightarrow> \<not> wr_shutdown c \<or> outdata c = [] \<Longrightarrow> \<forall>k \<in> set ks. 0 < k \<Longrightarrow>
   length (outdata c) \<le> length ks \<Longrightarrow>
   \<exists>c'. drain ks c = Inr c' \<and> conn_ok c' \<and> outdata c' = [] \<and> wire c' = wire c @ outdata c
     \<and> (wr_shutdown c' \<longleftrightarrow> wr_shutdown c \<or> state c = Disconnecting \<and> outdata c \<noteq> [])"
proof (induction ks arbitrary: c)
  case (Cons k ks)
  show ?case
  proof (cases "outdata c = []")
    case True
    then have "HandleWrite True w c = Inr c" for w
      using conn_writing [OF Cons.prems(1)] by (simp add: HandleWrite_def)
    with Cons.IH [of c] Cons.prems True show ?thesis by simp
  next
    case False
    let ?w = "Wrote (min k (ReadableBytes (outputBuffer c)))"
    have w: "write_contract ?w (length (outdata c)) c"
      using Cons.prems False by (auto simp: write_contract_def readable_output)
    from HandleWrite_ok [OF Cons.prems(1) w] obtain c1 where
      c1: "HandleWrite True ?w c = Inr c1" "conn_ok c1" "state c1 = state c"
        "wire c1 @ outdata c1 = wire c @ outdata c"
        "outdata c1 = drop (min k (ReadableBytes (outputBuffer c))) (outdata c)"
        "wr_shutdown c1 \<longleftrightarrow> wr_shutdown c \<or> (state c = Disconnecting \<and> outdata c \<noteq> [] \<and> outdata c1 = [])"
      unfolding write_result.case by blast
    have "length (outdata c1) \<le> length ks"
      using c1(5) Cons.prems(3,4) False by (cases k) (auto simp: readable_output [OF Cons.prems(1)])
    moreover have "\<not> wr_shutdown c1 \<or> outdata c1 = []" using c1(2) by (auto simp: conn_ok_def)
    ultimately obtain c' where "drain ks c1 = Inr c'" "conn_ok c'" "outdata c' = []"
      "wire c' = wire c1 @ outdata c1" "wr_shutdown c' \<longleftrightarrow> wr_shutdown c1 \<or> state c1 = Disconnecting \<and> outdata c1 \<noteq> []"
      using Cons.IH [OF c1(2)] Cons.prems(3) by auto
    then show ?thesis using c1 False by auto
  qed
qed simp

section \<open>Life cycle\<close>

definition quiet :: "conn_call \<Rightarrow> tcp_conn \<Rightarrow> tcp_conn res" where
  "quiet call c = Inr c"

lemma on_disableAll:
  assumes "conn_ok c0" and "poll c = poll c0" "conn_chan c = conn_chan c0"
  shows "\<exists>p. on_chan (disableAllEvents True) c = Inr (c\<lparr>poll := p\<rparr>) \<and> poller_ok p
    \<and> registered p (conn_chan c) \<and> IsNoneEvent (chan p (conn_chan c))
    \<and> ch_fd (chan p (conn_chan c)) = ch_fd (conn_ch c)
    \<and> interest p = (interest (poll c))(ch_fd (conn_ch c) \<mapsto> (False, 0))"
  using on_chan_events [OF assms disableAllEvents_def]
  by (auto simp: IsNoneEvent_def kNoneEvent_def)

lemma RemoveChannel_fd: "RemoveChannel True k s = Inr s' \<Longrightarrow> ch_fd (chan s' x) = ch_fd (chan s x)"
  by (auto simp: RemoveChannel_def ensure_Inr_iff upd_chan_def Let_def split: if_splits option.splits)

lemma on_Remove:
  assumes "poller_ok (poll c)" "registered (poll c) (conn_chan c)" "IsNoneEvent (conn_ch c)"
    and "interest (poll c) (ch_fd (conn_ch c)) = Some (False, e)"
  shows "\<exists>p. on_chan (Channel_Remove True) c = Inr (c\<lparr>poll := p\<rparr>) \<and> poller_ok p
    \<and> ch_fd (chan p (conn_chan c)) = ch_fd (conn_ch c)
    \<and> interest p = (interest (poll c))(ch_fd (conn_ch c) := None)"
proof -
  from RemoveChannel_ok [OF assms(1-3)] assms(4) obtain p where
    p: "RemoveChannel True (conn_chan c) (poll c) = Inr p" "poller_ok p"
      "interest p = (interest (poll c))(ch_fd (conn_ch c) := None)" by auto
  with RemoveChannel_fd [OF p(1)] assms(3) show ?thesis by (auto simp: on_chan_def Channel_Remove_def)
qed

lemma upd_map_del: "(m(k \<mapsto> v))(k := None) = m(k := None)"
  by simp

text \<open>A new connection, its channel unknown to the poller.\<close>

definition conn_fresh :: "tcp_conn \<Rightarrow> bool" where
  "conn_fresh c \<longleftrightarrow> state c = Connecting \<and> poller_ok (poll c) \<and> ch_index (conn_ch c) < 0 \<and> 0 \<le> ch_fd (conn_ch c)
     \<and> channels (poll c) (ch_fd (conn_ch c)) = None \<and> ch_events (conn_ch c) = kNoneEvent
     \<and> buf_ok (inputBuffer c) \<and> buf_ok (outputBuffer c) \<and> outdata c = [] \<and> \<not> wr_shutdown c"

lemma new_conn_fresh:
  assumes "poller_ok p" and "0 \<le> sockfd" and "channels p sockfd = None" and "\<And>fd. channels p fd \<noteq> Some k"
  shows "conn_fresh (new_TcpConnection sockfd k self p)"
proof -
  let ?p = "poll (new_TcpConnection sockfd k self p)"
  have same: "pollfds ?p = pollfds p" "channels ?p = channels p" "\<And>c. c \<noteq> k \<Longrightarrow> chan ?p c = chan p c"
    by (simp_all add: new_TcpConnection_def)
  have "c \<noteq> k" if "channels p fd = Some c" for fd c using that assms(4) by auto
  then have "channels ?p fd = Some c \<longrightarrow> chan ?p c = chan p c" for fd c using same(2,3) by metis
  then have "poller_ok ?p" using assms(1) unfolding poller_ok_def at_index_def same(1,2) by fastforce
  moreover have "buf_ok (new_Buffer kInitialSize)" "contents (new_Buffer kInitialSize) = []"
    by (rule buf_ok_new, simp add: kCheapPrepend_def kInitialSize_def max_size_def)
      (simp add: contents_new)
  ultimately show ?thesis using assms(2,3)
    by (simp add: conn_fresh_def new_TcpConnection_def new_Channel_def)
qed

text \<open>A connection that has been closed and still has its entry in the poller.\<close>

definition conn_closed :: "tcp_conn \<Rightarrow> bool" where
  "conn_closed c \<longleftrightarrow> state c = Disconnected \<and> poller_ok (poll c) \<and> registered (poll c) (conn_chan c)
     \<and> IsNoneEvent (conn_ch c) \<and> interest (poll c) (ch_fd (conn_ch c)) = Some (False, 0)"

lemma establish_ok:
  assumes a: "conn_fresh c"
  shows "\<exists>p'. StepIntoEstablished True quiet c = Inr (c\<lparr>state := Connected, poll := p'\<rparr>)
     \<and> conn_ok (c\<lparr>state := Connected, poll := p'\<rparr>) \<and> ch_fd (chan p' (conn_chan c)) = ch_fd (conn_ch c)
     \<and> interest p' = (interest (poll c))(ch_fd (conn_ch c) \<mapsto> (True, 0x2003))
     \<and> UpdateChannel True (conn_chan c) (upd_chan (conn_chan c) (\<lambda>ch. ch\<lparr>ch_events := ch_events ch OR kReadEvent\<rparr>)
         (upd_chan (conn_chan c) (Tie (conn_self c)) (poll c))) = Inr p'"
proof -
  let ?k = "conn_chan c"
  let ?p = "upd_chan ?k (\<lambda>ch. ch\<lparr>ch_events := ch_events ch OR kReadEvent\<rparr>)
    (upd_chan ?k (Tie (conn_self c)) (poll c))"
  have p: "poller_ok ?p" "interest ?p = interest (poll c)"
    using a by (simp_all add: upd_chan_frame Tie_def conn_fresh_def)
  have ev: "kNoneEvent OR kReadEvent = kReadEvent" by (simp add: kNoneEvent_def)
  have new: "ch_index (chan ?p ?k) < 0" "0 \<le> ch_fd (chan ?p ?k)"
    "channels ?p (ch_fd (chan ?p ?k)) = None" using a by (simp_all add: Tie_def conn_fresh_def)
  from UpdateChannel_new [OF p(1) new] obtain p' where
    p': "UpdateChannel True ?k ?p = Inr p'" "poller_ok p'" "registered p' ?k"
      "interest p' = (interest (poll c))(ch_fd (conn_ch c) \<mapsto> (True, ucast kReadEvent))"
    using a by (auto simp: p(2) Tie_def ev conn_fresh_def)
  have ch: "ch_fd (chan p' ?k) = ch_fd (conn_ch c)" "ch_events (chan p' ?k) = kReadEvent"
    using p'(1) new a by (auto simp: UpdateChannel_def Let_def Tie_def ev conn_fresh_def)
  let ?c' = "c\<lparr>state := Connected, poll := p'\<rparr>"
  have "StepIntoEstablished True quiet c = Inr ?c'"
    using a p'(1) by (simp add: StepIntoEstablished_def on_chan_def EnableReading_def quiet_def Let_def conn_fresh_def)
  moreover have "conn_ok ?c'"
    using a p' ch by (simp add: conn_ok_def conn_live_def wanted_events_def conn_fresh_def)
  moreover have "ucast kReadEvent = (0x2003 :: 16 word)" by (simp add: poll_flags)
  ultimately show ?thesis using p'(1,4) ch(1) by auto
qed

corollary established_ok:
  assumes "conn_fresh c"
  shows "\<exists>c'. StepIntoEstablished True quiet c = Inr c' \<and> conn_ok c' \<and> state c' = Connected
     \<and> ch_fd (conn_ch c') = ch_fd (conn_ch c)
     \<and> interest (poll c') = (interest (poll c))(ch_fd (conn_ch c) \<mapsto> (True, 0x2003))"
proof -
  from establish_ok [OF assms] obtain p' where
    "StepIntoEstablished True quiet c = Inr (c\<lparr>state := Connected, poll := p'\<rparr>)"
    "conn_ok (c\<lparr>state := Connected, poll := p'\<rparr>)" "ch_fd (chan p' (conn_chan c)) = ch_fd (conn_ch c)"
    "interest p' = (interest (poll c))(ch_fd (conn_ch c) \<mapsto> (True, 0x2003))" by blast
  then show ?thesis by simp
qed

lemma close_conn_ok:
  assumes ok: "conn_ok c"
  shows "\<exists>c'. HandleClose True quiet c = Inr c' \<and> conn_closed c' \<and> ch_fd (conn_ch c') = ch_fd (conn_ch c)
    \<and> interest (poll c') = (interest (poll c))(ch_fd (conn_ch c) \<mapsto> (False, 0))"
proof -
  from on_disableAll [OF ok, of c] obtain p where
    p: "on_chan (disableAllEvents True) c = Inr (c\<lparr>poll := p\<rparr>)" "poller_ok p" "registered p (conn_chan c)"
      "IsNoneEvent (chan p (conn_chan c))" "ch_fd (chan p (conn_chan c)) = ch_fd (conn_ch c)"
      "interest p = (interest (poll c))(ch_fd (conn_ch c) \<mapsto> (False, 0))" by auto
  have "HandleClose True quiet c = Inr (c\<lparr>poll := p, state := Disconnected\<rparr>)"
    using ok p(1) by (simp add: HandleClose_def conn_ok_def conn_live_def quiet_def)
  then show ?thesis using p by (simp add: conn_closed_def)
qed

lemma destroy_closed_ok:
  assumes c: "conn_closed c"
  shows "\<exists>c'. StepIntoDestroyed True quiet c = Inr c' \<and> state c' = Disconnected \<and> poller_ok (poll c')
    \<and> ch_fd (conn_ch c') = ch_fd (conn_ch c)
    \<and> interest (poll c') = (interest (poll c))(ch_fd (conn_ch c) := None)"
proof -
  from on_Remove [of c 0] c obtain p where
    "on_chan (Channel_Remove True) c = Inr (c\<lparr>poll := p\<rparr>)" "poller_ok p"
    "ch_fd (chan p (conn_chan c)) = ch_fd (conn_ch c)"
    "interest p = (interest (poll c))(ch_fd (conn_ch c) := None)"
    by (auto simp: conn_closed_def)
  with c show ?thesis by (auto simp: StepIntoDestroyed_def quiet_def conn_closed_def)
qed

lemma destroy_connected_ok:
  assumes ok: "conn_ok c" and st: "state c = Connected"
  shows "\<exists>c'. StepIntoDestroyed True quiet c = Inr c' \<and> state c' = Disconnected \<and> poller_ok (poll c')
    \<and> ch_fd (conn_ch c') = ch_fd (conn_ch c)
    \<and> interest (poll c') = (interest (poll c))(ch_fd (conn_ch c) := None)"
proof -
  let ?c0 = "c\<lparr>state := Disconnected\<rparr>"
  from on_disableAll [of c ?c0] ok obtain p where
    p: "on_chan (disableAllEvents True) ?c0 = Inr (?c0\<lparr>poll := p\<rparr>)" "poller_ok p" "registered p (conn_chan c)"
      "IsNoneEvent (chan p (conn_chan c))" "ch_fd (chan p (conn_chan c)) = ch_fd (conn_ch c)"
      "interest p = (interest (poll c))(ch_fd (conn_ch c) \<mapsto> (False, 0))" by auto
  let ?c1 = "?c0\<lparr>poll := p\<rparr>"
  have "conn_closed ?c1" using p by (simp add: conn_closed_def)
  from destroy_closed_ok [OF this] obtain c' where
    c': "StepIntoDestroyed True quiet ?c1 = Inr c'" "state c' = Disconnected" "poller_ok (poll c')"
      "ch_fd (conn_ch c') = ch_fd (conn_ch c)" "interest (poll c') = (interest (poll c))(ch_fd (conn_ch c) := None)"
    using p by auto
  have "StepIntoDestroyed True quiet c = StepIntoDestroyed True quiet ?c1"
    using p(1) st by (simp add: StepIntoDestroyed_def)
  with c' show ?thesis by auto
qed

lemma destroy_disconnecting_fails:
  assumes "conn_ok c" and "state c = Disconnecting"
  shows "StepIntoDestroyed True quiet c = Inl AssertFail"
proof -
  have "ch_events (conn_ch c) \<noteq> 0"
    using assms(1) by (simp add: conn_ok_def wanted_events_def) (simp add: poll_flags)
  with assms(2) show ?thesis
    by (simp add: StepIntoDestroyed_def quiet_def on_chan_def Channel_Remove_def IsNoneEvent_def kNoneEvent_def)
qed

section \<open>Properties\<close>

text \<open>A connection on descriptor 7 with given output waiting.\<close>

definition demo_buffer :: "byte list \<Rightarrow> buffer" where
  "demo_buffer out = \<lparr>buffer_vec = replicate 8 0 @ out @ replicate 8 0, readerIndex = 8,
     writerIndex = 8 + length out\<rparr>"

definition demo_poll :: "byte list \<Rightarrow> poll_state" where
  "demo_poll out = \<lparr>pollfds = [\<lparr>pfd_fd = 7, pfd_events = ucast (wanted_events out), pfd_revents = 0\<rparr>],
     channels = [7 \<mapsto> 0],
     chan = (\<lambda>k. (new_Channel 7)\<lparr>ch_index := 0, ch_events := wanted_events out\<rparr>)\<rparr>"

definition demo_conn :: "conn_state \<Rightarrow> byte list \<Rightarrow> tcp_conn" where
  "demo_conn st out = \<lparr>state = st, poll = demo_poll out, conn_chan = 0, conn_self = 1,
     inputBuffer = demo_buffer [], outputBuffer = demo_buffer out, highWaterMark = 4,
     has_writeComplete = True, has_highWater = True, wr_shutdown = False, wire = [], queued = []\<rparr>"

lemma demo_contents [simp]: "contents (demo_buffer out) = out"
  by (simp add: demo_buffer_def contents_def ReadableBytes_def seg_def)

lemma demo_buf_ok: "length out \<le> 100 \<Longrightarrow> buf_ok (demo_buffer out)"
  by (simp add: demo_buffer_def buf_ok_def kCheapPrepend_def max_size_def)

lemma demo_room: "length out \<le> 100 \<Longrightarrow> 100 \<le> room (demo_buffer out)"
  by (simp add: demo_buffer_def room_def max_size_def)

lemma demo_conn_ok:
  assumes "st = Connected \<or> st = Disconnecting" and "length out \<le> 100"
  shows "conn_ok (demo_conn st out)"
  using assms demo_buf_ok [of out] demo_buf_ok [of "[]"]
  by (simp add: conn_ok_def conn_live_def demo_conn_def)
    (simp add: poller_ok_def at_index_def registered_def interest_def demo_poll_def new_Channel_def)

lemma demo_conn_sel [simp]:
  "outdata (demo_conn st out) = out" "state (demo_conn st out) = st" "queued (demo_conn st out) = []"
  "wire (demo_conn st out) = []" "wr_shutdown (demo_conn st out) = False"
  by (simp_all add: demo_conn_def)

definition demo_ops :: "conn_op list" where
  "demo_ops = [OpSend (Wrote 3) [1, 2, 3], OpShutdown]"

lemma demo_run:
  "run_contract demo_ops (demo_conn Connected []) \<and> taken_on demo_ops (demo_conn Connected []) = [1, 2, 3]
   \<and> (\<exists>c'. conn_run demo_ops (demo_conn Connected []) = Inr c' \<and> wr_shutdown c')"
proof -
  let ?c = "demo_conn Connected []"
  let ?c1 = "?c\<lparr>wire := [1, 2, 3], queued := [WriteCompleteTask]\<rparr>"
  have ok: "conn_ok ?c" by (rule demo_conn_ok) simp_all
  have nw: "\<not> chan_IsWriting ?c" "ReadableBytes (outputBuffer ?c) = 0"
    using conn_writing [OF ok] readable_output [OF ok] by simp_all
  have 1: "SendInLoop True (Wrote 3) [1, 2, 3] ?c = Inr ?c1"
    using nw by (simp add: SendInLoop_def direct_write_def) (simp add: demo_conn_def enqueue_def)
  have 2: "Shutdown True ?c1 = Inr (?c1\<lparr>state := Disconnecting, wr_shutdown := True\<rparr>)"
    using nw by (simp add: Shutdown_def ShutdownInLoop_def chan_IsWriting_def)
  have r: "100 \<le> room (outputBuffer ?c)" using demo_room [of "[]"] by (simp add: demo_conn_def)
  show ?thesis
    using r by (simp add: demo_ops_def 1 2 op_contract_def write_contract_def dropped_def)
qed

text \<open>C1. Stream integrity: over any sequence of sends, writability events and a shutdown, with
  a kernel that keeps its promises (it may take part of the bytes, or refuse), every step succeeds
  and what the kernel has accepted followed by what waits in the output buffer is exactly what
  was there before followed by the messages taken on, in order; a message is given up only when
  nothing waits and the peer has reset the connection. The invariant is kept, so the channel is
  polled for \<^verbatim>\<open>POLLOUT\<close> precisely when output waits.\<close>

theorem stream_integrity:
  assumes "conn_ok c" and "run_contract ops c"
  shows "\<exists>c'. conn_run ops c = Inr c'
    \<and> wire c' @ outdata c' = wire c @ outdata c @ taken_on ops c
    \<and> conn_ok c' \<and> interest (poll c') (ch_fd (conn_ch c'))
        = Some (True, if outdata c' = [] then 0x2003 else 0x2007)"
proof -
  obtain c' where c': "conn_run ops c = Inr c'" "conn_ok c'"
    "wire c' @ outdata c' = wire c @ outdata c @ taken_on ops c"
    using conn_run_ok [OF assms] by blast
  have "interest (poll c') (ch_fd (conn_ch c')) = Some (True, if outdata c' = [] then 0x2003 else 0x2007)"
    using c'(2) by (simp add: conn_ok_def wanted_events_def) (simp add: poll_flags)
  with c' show ?thesis by blast
qed

theorem stream_integrity_witness:
  "\<exists>c'. conn_run demo_ops (demo_conn Connected []) = Inr c' \<and> wire c' @ outdata c' = [1, 2, 3]"
proof -
  have ok: "conn_ok (demo_conn Connected [])" by (rule demo_conn_ok) simp_all
  from stream_integrity [OF ok, of demo_ops] demo_run show ?thesis by auto
qed

text \<open>C25. Half-close only after the data: whatever happened before, once the write side of the
  socket has been shut nothing waits in the output buffer, and every byte taken on has been
  accepted by the kernel.\<close>

theorem shutdown_after_data:
  assumes "conn_ok c" and "run_contract ops c" and "conn_run ops c = Inr c'" and "wr_shutdown c'"
  shows "outdata c' = [] \<and> wire c' = wire c @ outdata c @ taken_on ops c \<and> state c' = Disconnecting"
  using conn_run_ok [OF assms(1,2)] assms(3,4) by (auto simp: conn_ok_def)

theorem shutdown_after_data_witness:
  "\<exists>c'. conn_run demo_ops (demo_conn Connected []) = Inr c' \<and> outdata c' = [] \<and> wire c' = [1, 2, 3]"
proof -
  have ok: "conn_ok (demo_conn Connected [])" by (rule demo_conn_ok) simp_all
  obtain c' where c': "conn_run demo_ops (demo_conn Connected []) = Inr c'" "wr_shutdown c'"
    using demo_run by (auto split: sum.splits)
  from shutdown_after_data [OF ok _ c'] demo_run c'(1) show ?thesis by auto
qed

text \<open>C30. Progress: if the socket becomes writable as often as there are bytes waiting, and the
  kernel takes at least one byte each time, the output buffer is drained, all bytes are on the
  wire in order, and a connection that is closing then shuts its write side.\<close>

theorem output_drains:
  assumes "conn_ok c" and "outdata c \<noteq> []" and "\<forall>k \<in> set ks. 0 < k" and "length (outdata c) \<le> length ks"
  shows "\<exists>c'. drain ks c = Inr c' \<and> outdata c' = [] \<and> wire c' = wire c @ outdata c
    \<and> (wr_shutdown c' \<longleftrightarrow> state c = Disconnecting)"
proof -
  have "\<not> wr_shutdown c" using assms(1,2) by (auto simp: conn_ok_def)
  with drain_ok [OF assms(1) _ assms(3,4)] assms(2) show ?thesis by auto
qed

theorem output_drains_witness:
  "\<exists>c'. drain [1, 5, 1] (demo_conn Disconnecting [4, 5, 6]) = Inr c' \<and> outdata c' = []
     \<and> wire c' = [4, 5, 6] \<and> wr_shutdown c'"
proof -
  have ok: "conn_ok (demo_conn Disconnecting [4, 5, 6])" by (rule demo_conn_ok) simp_all
  from output_drains [OF ok, of "[1, 5, 1]"] show ?thesis by auto
qed

text \<open>Life cycle: a new connection whose channel is not yet registered becomes a live one
  that is polled for reading when it is established; closing a live connection, then destroying
  it, takes its descriptor out of the poller and leaves every other entry as it was; destroying
  a connected one does the same.\<close>

lemma conn_life_cycle:
  "(conn_fresh c \<longrightarrow>
      (\<exists>c'. StepIntoEstablished True quiet c = Inr c' \<and> conn_ok c' \<and> state c' = Connected
         \<and> interest (poll c') = (interest (poll c))(ch_fd (conn_ch c) \<mapsto> (True, 0x2003))))
    \<and> (conn_ok c \<longrightarrow>
      (\<exists>c'. bindR (HandleClose True quiet c) (StepIntoDestroyed True quiet) = Inr c'
         \<and> state c' = Disconnected \<and> poller_ok (poll c')
         \<and> interest (poll c') = (interest (poll c))(ch_fd (conn_ch c) := None)))
    \<and> (conn_ok c \<and> state c = Connected \<longrightarrow>
      (\<exists>c'. StepIntoDestroyed True quiet c = Inr c' \<and> state c' = Disconnected \<and> poller_ok (poll c')
         \<and> interest (poll c') = (interest (poll c))(ch_fd (conn_ch c) := None)))"
proof (intro conjI impI)
  assume "conn_fresh c"
  from established_ok [OF this] show "\<exists>c'. StepIntoEstablished True quiet c = Inr c' \<and> conn_ok c' \<and> state c' = Connected
         \<and> interest (poll c') = (interest (poll c))(ch_fd (conn_ch c) \<mapsto> (True, 0x2003))" by blast
next
  assume "conn_ok c"
  from close_conn_ok [OF this] obtain c1 where
    c1: "HandleClose True quiet c = Inr c1" "conn_closed c1" "ch_fd (conn_ch c1) = ch_fd (conn_ch c)"
      "interest (poll c1) = (interest (poll c))(ch_fd (conn_ch c) \<mapsto> (False, 0))" by blast
  with destroy_closed_ok [OF c1(2)] show "\<exists>c'. bindR (HandleClose True quiet c) (StepIntoDestroyed True quiet) = Inr c'
         \<and> state c' = Disconnected \<and> poller_ok (poll c')
         \<and> interest (poll c') = (interest (poll c))(ch_fd (conn_ch c) := None)" by auto
next
  assume "conn_ok c \<and> state c = Connected"
  then show "\<exists>c'. StepIntoDestroyed True quiet c = Inr c' \<and> state c' = Disconnected
         \<and> poller_ok (poll c') \<and> interest (poll c') = (interest (poll c))(ch_fd (conn_ch c) := None)"
    using destroy_connected_ok by blast
qed

lemma conn_life_cycle_example:
  "\<exists>c'. bindR (HandleClose True quiet (demo_conn Disconnecting [9])) (StepIntoDestroyed True quiet) = Inr c'
     \<and> state c' = Disconnected"
proof -
  have ok: "conn_ok (demo_conn Disconnecting [9])" by (rule demo_conn_ok) simp_all
  then show ?thesis using conn_life_cycle [of "demo_conn Disconnecting [9]"] by blast
qed

text \<open>A connection that is closing cannot be destroyed: in a live connection whose
  \<^verbatim>\<open>Shutdown\<close> has been called, \<^verbatim>\<open>StepIntoDestroyed\<close> (which the destructor of the server runs for
  every connection) does not disable the events, and \<^verbatim>\<open>Channel::Remove\<close> fails its assertion.\<close>

theorem destroy_while_disconnecting:
  assumes "conn_ok c" and "state c = Disconnecting"
  shows "StepIntoDestroyed True quiet c = Inl AssertFail"
  using destroy_disconnecting_fails [OF assms] .

theorem destroy_while_disconnecting_witness:
  "StepIntoDestroyed True quiet (demo_conn Disconnecting [9]) = Inl AssertFail"
  by (rule destroy_while_disconnecting [OF demo_conn_ok]) simp_all

text \<open>A message sent from another thread can be lost to a later \<^verbatim>\<open>Shutdown\<close>: the send is
  queued while the connection is connected, \<^verbatim>\<open>Shutdown\<close> in the thread of the loop finds nothing
  to write and shuts the socket at once, and when the queued send runs, every answer the kernel may
  give makes it drop the message: no byte reaches the wire or the output buffer.\<close>

theorem queued_send_lost:
  assumes ok: "conn_ok c" and st: "state c = Connected" and idle: "outdata c = []" "queued c = []"
    and kernel: "\<And>c2. wr_shutdown c2 \<Longrightarrow> write_contract wres (length msg) c2"
  shows "\<exists>c'. bindR (Send False w0 msg c) (\<lambda>c1. bindR (Shutdown True c1)
      (run_queued True (\<lambda>t. Inr) wres)) = Inr c'
    \<and> wire c' = wire c \<and> outdata c' = [] \<and> queued c' = [] \<and> wr_shutdown c'"
proof -
  let ?c2 = "c\<lparr>queued := [SendTask msg], state := Disconnecting, wr_shutdown := True\<rparr>"
  have nw: "\<not> chan_IsWriting c" using conn_writing [OF ok] idle by simp
  have rb: "ReadableBytes (outputBuffer c) = 0" using readable_output [OF ok] idle by simp
  have 1: "Send False w0 msg c = Inr (c\<lparr>queued := [SendTask msg]\<rparr>)"
    using st idle by (simp add: Send_def enqueue_def)
  have 2: "Shutdown True (c\<lparr>queued := [SendTask msg]\<rparr>) = Inr ?c2"
    using st nw by (simp add: Shutdown_def ShutdownInLoop_def chan_IsWriting_def)
  have "wres = WriteErr EPIPE"
    using kernel [of ?c2] by (simp add: write_contract_def split: write_result.splits)
  then have "SendInLoop True wres msg (?c2\<lparr>queued := []\<rparr>) = Inr (?c2\<lparr>queued := []\<rparr>)"
    using nw rb by (simp add: SendInLoop_def direct_write_def chan_IsWriting_def EPIPE_def EWOULDBLOCK_def)
  then have 3: "run_queued True (\<lambda>t. Inr) wres ?c2 = Inr (?c2\<lparr>queued := []\<rparr>)"
    by (simp add: run_queued_def run_conn_task_def)
  show ?thesis using 1 2 3 idle by simp
qed

theorem queued_send_lost_witness:
  "\<exists>c'. bindR (Send False (Wrote 0) [1, 2] (demo_conn Connected [])) (\<lambda>c1. bindR (Shutdown True c1)
      (run_queued True (\<lambda>t. Inr) (WriteErr EPIPE))) = Inr c' \<and> wire c' = [] \<and> outdata c' = []"
proof -
  have ok: "conn_ok (demo_conn Connected [])" by (rule demo_conn_ok) simp_all
  from queued_send_lost [OF ok, of "WriteErr EPIPE" "[1, 2]" "Wrote 0"] show ?thesis
    by (auto simp: write_contract_def)
qed

end
