(* ===== verification/Connector.thy ===== *)
theory Connector
  imports Prelude
begin

text \<open>
  The class \<^verbatim>\<open>Connector\<close> of \<^verbatim>\<open>Connector.cpp\<close>: one outgoing connection attempt at a time,
  with retries after a growing delay. The kernel is an argument: the descriptor of the new
  socket and the \<^verbatim>\<open>errno\<close> of \<^verbatim>\<open>connect(2)\<close>, or the pending error of the socket. The channel is the
  descriptor it watches; the timers set and the tasks queued in the loop are part of the state, and
  so are the descriptors opened and not yet closed or handed over (\<open>open_fds\<close>, a ghost).
  Shown: the back-off, the states and the channel agree, which paths lose a descriptor, and that
  a second start while an attempt is under way ends a debug build.
\<close>

section \<open>State\<close>

datatype op_state = kDisconnected | kConnecting | kConnected

record connector =
  opState :: op_state
  connect_flag :: bool
  con_chan :: "int option"
  watching :: bool
  retryDelayMs :: int
  retry_timers :: "int list"
  chan_resets :: nat
  start_tasks :: nat
  open_fds :: "int list"
  handed_over :: "int list"

definition kInitRetryDelayMs :: int where "kInitRetryDelayMs = 500"
definition kMaxRetryDelayMs :: int where "kMaxRetryDelayMs = 30 * 1000"

definition new_Connector :: connector where
  "new_Connector = \<lparr>opState = kDisconnected, connect_flag = False, con_chan = None, watching = False,
     retryDelayMs = kInitRetryDelayMs, retry_timers = [], chan_resets = 0, start_tasks = 0,
     open_fds = [], handed_over = []\<rparr>"

definition EINTR :: int where "EINTR = 4"
definition EAGAIN :: int where "EAGAIN = 11"
definition EADDRINUSE :: int where "EADDRINUSE = 98"
definition EADDRNOTAVAIL :: int where "EADDRNOTAVAIL = 99"
definition ENETUNREACH :: int where "ENETUNREACH = 101"
definition EISCONN :: int where "EISCONN = 106"
definition ECONNREFUSED :: int where "ECONNREFUSED = 111"
definition EINPROGRESS :: int where "EINPROGRESS = 115"

lemmas connect_errnos = EINTR_def EAGAIN_def EADDRINUSE_def EADDRNOTAVAIL_def ENETUNREACH_def
  EISCONN_def ECONNREFUSED_def EINPROGRESS_def

section \<open>Operations\<close>

definition open_fd :: "int \<Rightarrow> connector \<Rightarrow> connector" where
  "open_fd fd c = c\<lparr>open_fds := open_fds c @ [fd]\<rparr>"

definition close_fd :: "int \<Rightarrow> connector \<Rightarrow> connector" where
  "close_fd fd c = c\<lparr>open_fds := remove1 fd (open_fds c)\<rparr>"

definition Retry :: "connector \<Rightarrow> connector" where
  "Retry c = (let c1 = c\<lparr>opState := kDisconnected\<rparr>
     in if connect_flag c1
        then c1\<lparr>retry_timers := retry_timers c1 @ [retryDelayMs c1],
                retryDelayMs := min (retryDelayMs c1 * 2) kMaxRetryDelayMs\<rparr>
        else c1)"

definition InitConnectOp :: "int \<Rightarrow> connector \<Rightarrow> connector res" where
  "InitConnectOp sockfd c = ensure (con_chan c = None)
     (Inr (c\<lparr>opState := kConnecting, con_chan := Some sockfd, watching := True\<rparr>))"

text \<open>The kernel's answer: the new descriptor and the error of \<^verbatim>\<open>connect(2)\<close>, 0 for none.\<close>

definition DoConnect :: "int \<times> int \<Rightarrow> connector \<Rightarrow> connector res" where
  "DoConnect k c = (case k of (sockfd, savedError) \<Rightarrow>
     if sockfd < 0 then Inl FatalLog
     else let c1 = open_fd sockfd c
       in if savedError \<in> {0, EINPROGRESS, EINTR, EISCONN} then InitConnectOp sockfd c1
          else if savedError \<in> {EAGAIN, EADDRINUSE, EADDRNOTAVAIL, ECONNREFUSED, ENETUNREACH}
          then Inr (Retry c1)
          else Inr (close_fd sockfd c1))"

definition StartInLoop :: "bool \<Rightarrow> int \<times> int \<Rightarrow> connector \<Rightarrow> connector res" where
  "StartInLoop inl k c = loop_only inl (ensure (opState c = kDisconnected)
     (if connect_flag c then DoConnect k c else Inr c))"

definition Start :: "bool \<Rightarrow> int \<times> int \<Rightarrow> connector \<Rightarrow> connector res" where
  "Start inl k c =
     (let c1 = c\<lparr>connect_flag := True\<rparr>
      in if inl then StartInLoop inl k c1 else Inr (c1\<lparr>start_tasks := start_tasks c1 + 1\<rparr>))"

definition Stop :: "connector \<Rightarrow> connector" where
  "Stop c = c\<lparr>connect_flag := False\<rparr>"

definition Restart :: "bool \<Rightarrow> int \<times> int \<Rightarrow> connector \<Rightarrow> connector res" where
  "Restart inl k c = loop_only inl
     (StartInLoop inl k
        (c\<lparr>retryDelayMs := kInitRetryDelayMs, opState := kDisconnected, connect_flag := True\<rparr>))"

text \<open>The channel is unregistered now and deleted by a task of the loop.\<close>

definition RemoveAndResetChannel :: "connector \<Rightarrow> (int \<times> connector) res" where
  "RemoveAndResetChannel c = (case con_chan c of
       None \<Rightarrow> Inl NullDeref
     | Some sockfd \<Rightarrow> Inr (sockfd, c\<lparr>watching := False, chan_resets := chan_resets c + 1\<rparr>))"

definition reset_chan :: "connector \<Rightarrow> connector" where
  "reset_chan c = c\<lparr>con_chan := None, chan_resets := chan_resets c - 1\<rparr>"

definition hand_over :: "int \<Rightarrow> connector \<Rightarrow> connector" where
  "hand_over fd c = (close_fd fd c)\<lparr>handed_over := handed_over c @ [fd]\<rparr>"

definition HandleWrite :: "bool \<Rightarrow> int \<Rightarrow> connector \<Rightarrow> connector res" where
  "HandleWrite inl err c = loop_only inl
     (if opState c = kConnecting
      then bindR (RemoveAndResetChannel c) (\<lambda>(sockfd, c1).
        if err \<noteq> 0 then Inr (Retry (close_fd sockfd c1))
        else if connect_flag c1 then Inr ((hand_over sockfd c1)\<lparr>opState := kConnected\<rparr>)
        else Inr ((close_fd sockfd c1)\<lparr>opState := kDisconnected\<rparr>))
      else Inr c)"

definition HandleAsyncError :: "bool \<Rightarrow> connector \<Rightarrow> connector res" where
  "HandleAsyncError inl c = loop_only inl
     (if opState c = kConnecting
      then bindR (RemoveAndResetChannel c) (\<lambda>(sockfd, c1). Inr (Retry (close_fd sockfd c1)))
      else Inr c)"

section \<open>Runs\<close>

text \<open>What can happen to a connector in the thread of its loop: calls of the client, the first
  retry timer, the events of its channel, and the task that deletes the channel.\<close>

datatype con_event = EvStart "int \<times> int" | EvStop | EvRestart "int \<times> int" | EvTimer "int \<times> int"
  | EvWritable int | EvError | EvReset

fun con_step :: "con_event \<Rightarrow> connector \<Rightarrow> connector res" where
  "con_step (EvStart k) c = Start True k c"
| "con_step EvStop c = Inr (Stop c)"
| "con_step (EvRestart k) c = Restart True k c"
| "con_step (EvTimer k) c = (case retry_timers c of [] \<Rightarrow> Inr c
     | t # ts \<Rightarrow> StartInLoop True k (c\<lparr>retry_timers := ts\<rparr>))"
| "con_step (EvWritable err) c = HandleWrite True err c"
| "con_step EvError c = HandleAsyncError True c"
| "con_step EvReset c = Inr (if 0 < chan_resets c then reset_chan c else c)"

fun con_run :: "con_event list \<Rightarrow> connector \<Rightarrow> connector res" where
  "con_run [] c = Inr c"
| "con_run (e # es) c = bindR (con_step e c) (con_run es)"

text \<open>The states agree: a channel is watched exactly while connecting, it is the one held, and
  one that is no longer watched is about to be deleted.\<close>

definition con_ok :: "connector \<Rightarrow> bool" where
  "con_ok c \<longleftrightarrow> (opState c = kConnecting \<longleftrightarrow> watching c)
     \<and> (watching c \<longrightarrow> con_chan c \<noteq> None \<and> the (con_chan c) \<in> set (open_fds c) \<and> chan_resets c = 0)
     \<and> (con_chan c \<noteq> None \<and> \<not> watching c \<longleftrightarrow> chan_resets c = 1) \<and> chan_resets c \<le> 1
     \<and> kInitRetryDelayMs \<le> retryDelayMs c \<and> retryDelayMs c \<le> kMaxRetryDelayMs"

text \<open>No descriptor is open but the one of the channel being watched.\<close>

definition no_leak :: "connector \<Rightarrow> bool" where
  "no_leak c \<longleftrightarrow> open_fds c = (if watching c then [the (con_chan c)] else [])"

lemmas con_ops = Retry_def InitConnectOp_def DoConnect_def StartInLoop_def Start_def Stop_def Restart_def
  RemoveAndResetChannel_def reset_chan_def hand_over_def HandleWrite_def HandleAsyncError_def
  open_fd_def close_fd_def Let_def

lemmas retry_bounds = kInitRetryDelayMs_def kMaxRetryDelayMs_def

lemma con_ok_new [simp]: "con_ok new_Connector" "no_leak new_Connector"
  by (simp_all add: con_ok_def no_leak_def new_Connector_def retry_bounds)

text \<open>A restart is legal only when no attempt is under way, as its caller ensures.\<close>

definition legal :: "con_event \<Rightarrow> connector \<Rightarrow> bool" where
  "legal e c \<longleftrightarrow> (case e of EvRestart k \<Rightarrow> opState c = kConnected | _ \<Rightarrow> True)"

section \<open>Every event keeps the invariant\<close>

lemma con_ok_Retry:
  "kInitRetryDelayMs \<le> retryDelayMs c \<Longrightarrow> retryDelayMs c \<le> kMaxRetryDelayMs \<Longrightarrow>
   kInitRetryDelayMs \<le> retryDelayMs (Retry c) \<and> retryDelayMs (Retry c) \<le> kMaxRetryDelayMs"
  by (simp add: Retry_def retry_bounds Let_def)

lemma Retry_simps [simp]:
  "opState (Retry c) = kDisconnected" "con_chan (Retry c) = con_chan c" "watching (Retry c) = watching c"
  "chan_resets (Retry c) = chan_resets c" "open_fds (Retry c) = open_fds c"
  "connect_flag (Retry c) = connect_flag c" "handed_over (Retry c) = handed_over c"
  by (simp_all add: Retry_def Let_def)

lemma con_ok_DoConnect:
  assumes "con_ok c" and "opState c = kDisconnected" and "DoConnect k c = Inr c'"
  shows "con_ok c'"
  using assms con_ok_Retry [of "open_fd (fst k) c"]
  by (cases k) (auto simp: DoConnect_def InitConnectOp_def con_ok_def open_fd_def close_fd_def
      ensure_Inr_iff Let_def split: if_splits)

lemma con_ok_StartInLoop:
  "con_ok c \<Longrightarrow> StartInLoop True k c = Inr c' \<Longrightarrow> con_ok c'"
  using con_ok_DoConnect [of c k c'] by (auto simp: StartInLoop_def ensure_Inr_iff split: if_splits)

lemma con_ok_cong:
  "con_ok c \<Longrightarrow> opState c' = opState c \<Longrightarrow> con_chan c' = con_chan c \<Longrightarrow> watching c' = watching c \<Longrightarrow>
   chan_resets c' = chan_resets c \<Longrightarrow> open_fds c' = open_fds c \<Longrightarrow> retryDelayMs c' = retryDelayMs c \<Longrightarrow> con_ok c'"
  by (simp add: con_ok_def)

lemma con_ok_HandleWrite:
  assumes "con_ok c" and "HandleWrite True err c = Inr c'"
  shows "con_ok c'"
proof (cases "opState c = kConnecting")
  case True
  then obtain fd where fd: "con_chan c = Some fd" using assms(1) by (auto simp: con_ok_def)
  let ?c1 = "c\<lparr>watching := False, chan_resets := chan_resets c + 1\<rparr>"
  show ?thesis using assms True fd con_ok_Retry [of "close_fd fd ?c1"]
    by (auto simp: HandleWrite_def RemoveAndResetChannel_def con_ok_def close_fd_def hand_over_def split: if_splits)
qed (use assms in \<open>simp add: HandleWrite_def\<close>)

lemma HandleAsyncError_eq:
  "con_ok c \<Longrightarrow> HandleAsyncError True c = HandleWrite True 1 c"
  by (simp add: HandleAsyncError_def HandleWrite_def)

abbreviation restarted :: "connector \<Rightarrow> connector" where
  "restarted c \<equiv> c\<lparr>retryDelayMs := kInitRetryDelayMs, opState := kDisconnected, connect_flag := True\<rparr>"

lemma con_ok_restarted:
  assumes "con_ok c" and "opState c = kConnected" shows "con_ok (restarted c)"
proof -
  have "\<not> watching c" using assms by (simp add: con_ok_def)
  with assms show ?thesis by (simp add: con_ok_def retry_bounds)
qed

lemma con_ok_Restart:
  assumes "con_ok c" and "opState c = kConnected" and "Restart True k c = Inr c'"
  shows "con_ok c'"
  using con_ok_StartInLoop [OF con_ok_restarted [OF assms(1,2)]] assms(3) by (simp add: Restart_def)

lemma con_step_ok:
  assumes "con_ok c" and "legal e c" and "con_step e c = Inr c'"
  shows "con_ok c'"
proof (cases e)
  case (EvStart k)
  moreover have "con_ok (c\<lparr>connect_flag := True\<rparr>)" by (rule con_ok_cong [OF assms(1)]) simp_all
  ultimately show ?thesis using assms(3) con_ok_StartInLoop by (auto simp: Start_def Let_def)
next
  case EvStop
  then show ?thesis using assms(1,3) by (auto simp: Stop_def intro: con_ok_cong)
next
  case (EvTimer k)
  then show ?thesis
  proof (cases "retry_timers c")
    case (Cons t ts)
    have "con_ok (c\<lparr>retry_timers := ts\<rparr>)" by (rule con_ok_cong [OF assms(1)]) simp_all
    with EvTimer Cons assms(3) con_ok_StartInLoop show ?thesis by auto
  qed (use EvTimer assms in auto)
next
  case EvReset
  then show ?thesis using assms(1,3) by (auto simp: con_ok_def reset_chan_def split: if_splits)
next
  case (EvRestart k)
  then show ?thesis using assms con_ok_Restart by (simp add: legal_def)
next
  case (EvWritable err)
  then show ?thesis using assms(1,3) con_ok_HandleWrite by simp
next
  case EvError
  then have "HandleWrite True 1 c = Inr c'" using assms(1,3) HandleAsyncError_eq by simp
  then show ?thesis by (rule con_ok_HandleWrite [OF assms(1)])
qed

text \<open>The answers of the kernel that make \<^verbatim>\<open>DoConnect\<close> retry at once.\<close>

definition retry_answer :: "int \<times> int \<Rightarrow> bool" where
  "retry_answer k \<longleftrightarrow> snd k \<in> {EAGAIN, EADDRINUSE, EADDRNOTAVAIL, ECONNREFUSED, ENETUNREACH}"

fun answer_of :: "con_event \<Rightarrow> (int \<times> int) option" where
  "answer_of (EvStart k) = Some k"
| "answer_of (EvRestart k) = Some k"
| "answer_of (EvTimer k) = Some k"
| "answer_of _ = None"

lemma no_leak_DoConnect:
  assumes "con_ok c" "no_leak c" and "opState c = kDisconnected" and "DoConnect k c = Inr c'"
    and "\<not> retry_answer k"
  shows "no_leak c'"
proof -
  have "open_fds c = []" "\<not> watching c" using assms(1-3) by (auto simp: con_ok_def no_leak_def)
  then show ?thesis using assms(4,5)
    by (cases k) (auto simp: DoConnect_def InitConnectOp_def no_leak_def open_fd_def close_fd_def
        retry_answer_def ensure_Inr_iff Let_def split: if_splits)
qed

lemma no_leak_StartInLoop:
  "con_ok c \<Longrightarrow> no_leak c \<Longrightarrow> \<not> retry_answer k \<Longrightarrow> StartInLoop True k c = Inr c' \<Longrightarrow> no_leak c'"
  using no_leak_DoConnect [of c k c'] by (auto simp: StartInLoop_def ensure_Inr_iff split: if_splits)

lemma no_leak_HandleWrite:
  assumes "con_ok c" and "no_leak c" and "HandleWrite True err c = Inr c'"
  shows "no_leak c'"
  using assms by (auto simp: HandleWrite_def RemoveAndResetChannel_def con_ok_def no_leak_def close_fd_def
      hand_over_def split: if_splits)

lemma no_leak_cong:
  "no_leak c \<Longrightarrow> con_chan c' = con_chan c \<Longrightarrow> watching c' = watching c \<Longrightarrow> open_fds c' = open_fds c \<Longrightarrow> no_leak c'"
  by (simp add: no_leak_def)

lemma con_step_no_leak:
  assumes ok: "con_ok c" and nl: "no_leak c" and "legal e c" and step: "con_step e c = Inr c'"
    and ans: "\<forall>k. answer_of e = Some k \<longrightarrow> \<not> retry_answer k"
  shows "no_leak c'"
proof (cases e)
  case (EvStart k)
  moreover have "con_ok (c\<lparr>connect_flag := True\<rparr>)" by (rule con_ok_cong [OF ok]) simp_all
  moreover have "no_leak (c\<lparr>connect_flag := True\<rparr>)" by (rule no_leak_cong [OF nl]) simp_all
  ultimately show ?thesis using step ans no_leak_StartInLoop by (auto simp: Start_def Let_def)
next
  case EvStop
  then show ?thesis using nl step by (auto simp: Stop_def intro: no_leak_cong)
next
  case (EvTimer k)
  then show ?thesis
  proof (cases "retry_timers c")
    case (Cons t ts)
    have "con_ok (c\<lparr>retry_timers := ts\<rparr>)" by (rule con_ok_cong [OF ok]) simp_all
    moreover have "no_leak (c\<lparr>retry_timers := ts\<rparr>)" by (rule no_leak_cong [OF nl]) simp_all
    ultimately show ?thesis using EvTimer Cons step ans no_leak_StartInLoop by auto
  qed (use EvTimer step nl in auto)
next
  case (EvRestart k)
  have "con_ok (restarted c)" using ok \<open>legal e c\<close> EvRestart by (intro con_ok_restarted) (simp_all add: legal_def)
  moreover have "no_leak (restarted c)" by (rule no_leak_cong [OF nl]) simp_all
  ultimately show ?thesis using EvRestart step ans no_leak_StartInLoop by (auto simp: Restart_def)
next
  case EvReset
  then show ?thesis using ok nl step by (auto simp: con_ok_def no_leak_def reset_chan_def split: if_splits)
next
  case (EvWritable err)
  then show ?thesis using no_leak_HandleWrite [OF ok nl] step by simp
next
  case EvError
  then show ?thesis using no_leak_HandleWrite [OF ok nl] step HandleAsyncError_eq [OF ok] by simp
qed

fun legal_run :: "con_event list \<Rightarrow> connector \<Rightarrow> bool" where
  "legal_run [] c \<longleftrightarrow> True"
| "legal_run (e # es) c \<longleftrightarrow> legal e c
     \<and> (case con_step e c of Inl f \<Rightarrow> True | Inr c' \<Rightarrow> legal_run es c')"

definition never_refused :: "con_event list \<Rightarrow> bool" where
  "never_refused es \<longleftrightarrow> (\<forall>e \<in> set es. \<forall>k. answer_of e = Some k \<longrightarrow> \<not> retry_answer k)"

lemma con_run_ok:
  "con_ok c \<Longrightarrow> legal_run es c \<Longrightarrow> con_run es c = Inr c' \<Longrightarrow>
   con_ok c' \<and> (no_leak c \<and> never_refused es \<longrightarrow> no_leak c')"
proof (induction es arbitrary: c)
  case (Cons e es)
  from Cons.prems(3) obtain c1 where c1: "con_step e c = Inr c1" "con_run es c1 = Inr c'"
    by (auto simp: res_iffs)
  have l: "legal e c" "legal_run es c1" using Cons.prems(2) c1(1) by auto
  have "con_ok c1" by (rule con_step_ok [OF Cons.prems(1) l(1) c1(1)])
  moreover have "no_leak c1" if "no_leak c" "never_refused (e # es)"
    using con_step_no_leak [OF Cons.prems(1) that(1) l(1) c1(1)] that(2) by (simp add: never_refused_def)
  ultimately show ?case using Cons.IH [OF _ l(2) c1(2)] by (simp add: never_refused_def)
qed simp

text \<open>A first attempt and a retry for every further descriptor, all refused.\<close>

definition refused :: "int \<Rightarrow> int list \<Rightarrow> con_event list" where
  "refused fd fds = EvStart (fd, ECONNREFUSED) # map (\<lambda>fd. EvTimer (fd, ECONNREFUSED)) fds"

lemma min_double: "min (min (500 * a) 30000 * 2) 30000 = min (500 * (a * 2)) (30000 :: int)"
  by (simp add: min_def)

lemma refused_timers:
  assumes "\<forall>fd \<in> set fds. 0 \<le> fd" and "connect_flag c" and "opState c = kDisconnected"
    and "con_chan c = None" and "retry_timers c = [d]" and "retryDelayMs c = min (500 * 2 ^ Suc n) 30000"
  shows "\<exists>c'. con_run (map (\<lambda>fd. EvTimer (fd, ECONNREFUSED)) fds) c = Inr c'
    \<and> retry_timers c' = (if fds = [] then [d] else [min (500 * 2 ^ (n + length fds)) 30000])
    \<and> open_fds c' = open_fds c @ fds \<and> con_chan c' = None \<and> watching c' = watching c
    \<and> opState c' = kDisconnected \<and> handed_over c' = handed_over c"
  using assms
proof (induction fds arbitrary: c d n)
  case (Cons fd fds)
  define c1 where "c1 = Retry (open_fd fd (c\<lparr>retry_timers := []\<rparr>))"
  have s: "con_step (EvTimer (fd, ECONNREFUSED)) c = Inr c1"
    using Cons.prems by (simp add: StartInLoop_def DoConnect_def c1_def connect_errnos)
  have "connect_flag c1" "opState c1 = kDisconnected" "con_chan c1 = None" "watching c1 = watching c"
    "handed_over c1 = handed_over c" "open_fds c1 = open_fds c @ [fd]"
    using Cons.prems by (simp_all add: c1_def open_fd_def)
  moreover have "retry_timers c1 = [min (500 * 2 ^ Suc n) 30000]"
    "retryDelayMs c1 = min (500 * 2 ^ Suc (Suc n)) 30000"
    using Cons.prems min_double [of "2 ^ Suc n"]
    by (simp_all add: c1_def open_fd_def Retry_def kMaxRetryDelayMs_def mult.commute)
  ultimately show ?case
    using Cons.IH [of c1 "min (500 * 2 ^ Suc n) 30000" "Suc n"] Cons.prems(1) s
    by (auto simp del: con_step.simps split: if_splits)
qed simp

lemma refused_run:
  assumes "0 \<le> fd" and "\<forall>fd \<in> set fds. 0 \<le> fd"
  shows "\<exists>c. con_run (refused fd fds) new_Connector = Inr c
    \<and> retry_timers c = [min (500 * 2 ^ length fds) 30000] \<and> open_fds c = fd # fds
    \<and> con_chan c = None \<and> \<not> watching c \<and> opState c = kDisconnected \<and> handed_over c = []"
proof -
  let ?c = "Retry (open_fd fd (new_Connector\<lparr>connect_flag := True\<rparr>))"
  have s: "con_step (EvStart (fd, ECONNREFUSED)) new_Connector = Inr ?c"
    using assms(1)
    by (simp add: Start_def StartInLoop_def DoConnect_def connect_errnos) (simp add: new_Connector_def)
  have "connect_flag ?c" "opState ?c = kDisconnected" "con_chan ?c = None" "retry_timers ?c = [500]"
    "retryDelayMs ?c = min (500 * 2 ^ Suc 0) 30000" "open_fds ?c = [fd]" "\<not> watching ?c" "handed_over ?c = []"
    by (simp_all add: open_fd_def new_Connector_def Retry_def retry_bounds)
  then show ?thesis using refused_timers [OF assms(2), of ?c 500 0] s
    by (auto simp: refused_def simp del: con_step.simps split: if_splits)
qed

section \<open>Properties\<close>

text \<open>C26. The state of a connector is consistent after every run of calls, timers and events in
  which it is restarted only when connected: it watches a channel exactly while connecting, the
  channel holds an open descriptor, a channel no longer watched is about to be deleted, and the
  delay stays between half a second and thirty seconds. If \<^verbatim>\<open>connect\<close> never fails with an error
  that is retried at once, no descriptor is open but the one being watched.\<close>

theorem connector_invariant:
  assumes "legal_run es new_Connector" and "con_run es new_Connector = Inr c"
  shows "con_ok c \<and> (never_refused es \<longrightarrow> no_leak c)"
  using con_run_ok [OF _ assms] by simp

theorem connector_invariant_witness:
  "\<exists>c. con_run [EvStart (5, EINPROGRESS), EvWritable 0, EvReset] new_Connector = Inr c \<and> no_leak c
     \<and> handed_over c = [5] \<and> opState c = kConnected"
proof -
  let ?es = "[EvStart (5, EINPROGRESS), EvWritable 0, EvReset]"
  have r: "con_run ?es new_Connector = Inr \<lparr>opState = kConnected, connect_flag = True, con_chan = None,
      watching = False, retryDelayMs = 500, retry_timers = [], chan_resets = 0, start_tasks = 0,
      open_fds = [], handed_over = [5]\<rparr>"
    by (simp add: con_ops connect_errnos new_Connector_def retry_bounds)
  have l: "legal_run ?es new_Connector"
    by (simp add: legal_def split: sum.splits)
  show ?thesis
    using connector_invariant [OF l r] r by (simp add: never_refused_def retry_answer_def connect_errnos)
qed

text \<open>Back-off: after a refused attempt and \<open>n\<close> refused retries exactly one retry is
  scheduled, in \<open>500 * 2^n\<close> milliseconds but never more than thirty seconds.\<close>

lemma retry_backoff:
  assumes "0 \<le> fd" and "\<forall>fd \<in> set fds. 0 \<le> fd"
  shows "\<exists>c. con_run (refused fd fds) new_Connector = Inr c
    \<and> retry_timers c = [min (500 * 2 ^ length fds) 30000]"
  using refused_run [OF assms] by blast

lemma retry_backoff_example:
  "\<exists>c. con_run (refused 5 [6, 7, 8, 9, 10, 11]) new_Connector = Inr c \<and> retry_timers c = [30000]"
  using retry_backoff [of 5 "[6, 7, 8, 9, 10, 11]"] by simp

text \<open>Every refused attempt loses its socket: the descriptors of all attempts are still open
  and no channel refers to any of them.\<close>

theorem refused_connect_leaks:
  assumes "0 \<le> fd" and "\<forall>fd \<in> set fds. 0 \<le> fd"
  shows "\<exists>c. con_run (refused fd fds) new_Connector = Inr c
    \<and> open_fds c = fd # fds \<and> con_chan c = None \<and> handed_over c = []"
  using refused_run [OF assms] by blast

theorem refused_connect_leaks_witness:
  "\<exists>c. con_run (refused 5 [6]) new_Connector = Inr c \<and> open_fds c = [5, 6]"
  using refused_connect_leaks [of 5 "[6]"] by auto

text \<open>A stale retry timer ends a debug build: an attempt is refused, the client stops and
  starts again before the retry is due, and when the timer of the first attempt fires while the
  second one is connecting, the assertion of \<^verbatim>\<open>StartInLoop\<close> fails. A second \<^verbatim>\<open>Start\<close> during an
  attempt does the same.\<close>

theorem stale_retry_timer:
  "con_run [EvStart (5, ECONNREFUSED), EvStop, EvStart (6, EINPROGRESS), EvTimer (7, 0)] new_Connector
     = Inl AssertFail
   \<and> con_run [EvStart (5, EINPROGRESS), EvStart (6, EINPROGRESS)] new_Connector = Inl AssertFail"
  by (simp add: con_ops connect_errnos new_Connector_def retry_bounds)

end
