(* ===== verification/MemPool.thy ===== *)
theory MemPool
  imports Prelude
begin

unbundle bit_operations_syntax

text \<open>
  The memory pool of an event loop, \<^verbatim>\<open>mem_pool\<close> of \<^verbatim>\<open>mem_pool.cpp\<close>: sixty-four free lists of
  blocks of 8, 16, ..., 512 bytes, threaded through the blocks themselves, and a region still to
  be cut up. Addresses are natural numbers, 0 is the null pointer, \<open>links\<close> is the word at the
  start of every block, of which only those of free blocks are read. What \<^verbatim>\<open>malloc\<close> answers is an
  argument. Shown: every byte the pool obtained belongs to exactly one of the region, the free
  blocks and the blocks in use, so blocks never overlap and none is lost; sizes and alignment; when
  an allocation fails; and which memory the destructor does not give back.
\<close>

section \<open>State\<close>

definition kALIGN :: nat where "kALIGN = 8"
definition kMax_Bytes :: nat where "kMax_Bytes = 512"
definition kFreeListsNum :: nat where "kFreeListsNum = kMax_Bytes div kALIGN"

record mem_pool =
  free_lists :: "nat \<Rightarrow> nat"
  begin_free :: nat
  end_free :: nat
  heap_size :: nat
  allocated_area :: "nat list"
  links :: "nat \<Rightarrow> nat"

definition new_mem_pool :: mem_pool where
  "new_mem_pool = \<lparr>free_lists = (\<lambda>k. 0), begin_free = 0, end_free = 0, heap_size = 0,
     allocated_area = [], links = (\<lambda>a. 0)\<rparr>"

definition ROUND_UP :: "nat \<Rightarrow> nat" where
  "ROUND_UP bytes = nat ((int bytes + int kALIGN - 1) AND NOT (int kALIGN - 1))"

text \<open>The index is unsigned: for 0 bytes it wraps around.\<close>

definition GET_FREELIST_INDEX :: "nat \<Rightarrow> nat" where
  "GET_FREELIST_INDEX bytes = nat ((int ((bytes + kALIGN - 1) div kALIGN) - 1) mod 2 ^ 64)"

section \<open>Operations\<close>

text \<open>\<^verbatim>\<open>oom_malloc\<close>: \<open>answers\<close> are the results of the attempts after each call of the
  handler; without a handler it throws.\<close>

fun oom_malloc :: "bool \<Rightarrow> nat list \<Rightarrow> nat option res" where
  "oom_malloc False answers = Inl BadAlloc"
| "oom_malloc True [] = Inr None"
| "oom_malloc True (p # ps) = (if p \<noteq> 0 then Inr (Some p) else oom_malloc True ps)"

text \<open>The first-level allocator: \<open>m\<close> is what \<^verbatim>\<open>malloc\<close> answers first; \<open>None\<close> is a call that goes on trying. It never
  answers a null pointer, so what it answers, or throws, is the argument \<open>big\<close> of the pool.\<close>

definition malloc_allocate :: "nat \<Rightarrow> bool \<Rightarrow> nat list \<Rightarrow> nat option res" where
  "malloc_allocate m handler answers = (if m \<noteq> 0 then Inr (Some m) else oom_malloc handler answers)"

lemma oom_malloc_answers: "oom_malloc handler answers = (if \<not> handler then Inl BadAlloc else Inr (List.find (\<lambda>p. p \<noteq> 0) answers))"
  by (induction handler answers rule: oom_malloc.induct) simp_all

lemma malloc_allocate_not_null: "malloc_allocate m handler answers = Inr (Some p) \<Longrightarrow> p \<noteq> 0"
  by (auto simp: malloc_allocate_def oom_malloc_answers find_Some_iff split: if_splits)

definition push_free :: "nat \<Rightarrow> nat \<Rightarrow> mem_pool \<Rightarrow> mem_pool" where
  "push_free k p s = s\<lparr>links := (links s)(p := free_lists s k), free_lists := (free_lists s)(k := p)\<rparr>"

definition pop_free :: "nat \<Rightarrow> mem_pool \<Rightarrow> mem_pool" where
  "pop_free k s = s\<lparr>free_lists := (free_lists s)(k := links s (free_lists s k))\<rparr>"

text \<open>The first free block of at least \<open>i\<close> bytes: the loop over the larger lists.\<close>

function find_free :: "nat \<Rightarrow> mem_pool \<Rightarrow> (nat \<times> nat) option" where
  "find_free i s =
     (if i \<le> kMax_Bytes
      then let ptr = free_lists s (GET_FREELIST_INDEX i)
           in if ptr \<noteq> 0 then Some (ptr, i) else find_free (i + kALIGN) s
      else None)"
  by pat_completeness auto
termination
  by (relation "measure (\<lambda>(i, s). Suc kMax_Bytes - i)") (auto simp: kALIGN_def)

declare find_free.simps [simp del]

lemma find_free_ge: "find_free i s = Some (p, j) \<Longrightarrow> i \<le> j"
proof (induction i s rule: find_free.induct)
  case (1 i s)
  then show ?case by (subst (asm) (2) find_free.simps) (auto simp: Let_def split: if_splits)
qed

text \<open>The remainder of the region is put on the free list of its size.\<close>

definition drop_region :: "mem_pool \<Rightarrow> mem_pool" where
  "drop_region s = (let left_size = end_free s - begin_free s
     in if 0 < left_size then push_free (GET_FREELIST_INDEX left_size) (begin_free s) s else s)"

text \<open>How much is asked of the system: twice what is needed, and more the more was needed before.\<close>

definition bytes_to_get :: "nat \<Rightarrow> nat \<Rightarrow> nat \<Rightarrow> nat" where
  "bytes_to_get sz n_objs heap = 2 * (sz * n_objs) + ROUND_UP (heap div 16)"

lemma total_ge_one: "\<not> sz * n \<le> (l :: nat) \<Longrightarrow> sz \<le> bytes_to_get sz n h"
  by (cases n) (auto simp: bytes_to_get_def)

lemma total_pos: "0 < n \<Longrightarrow> sz \<le> bytes_to_get sz n h"
  by (cases n) (auto simp: bytes_to_get_def)

text \<open>\<open>m\<close> is what \<^verbatim>\<open>malloc\<close> answers, \<open>big\<close> what \<^verbatim>\<open>master_alloc::allocate\<close> does after it
  has failed (\<open>None\<close>: it throws).\<close>

function chunk_alloc :: "nat \<Rightarrow> nat option \<Rightarrow> nat \<Rightarrow> nat \<Rightarrow> mem_pool \<Rightarrow> (nat \<times> nat \<times> mem_pool) res" where
  "chunk_alloc m big sz n_objs s =
     (let total_size = sz * n_objs; left_size = end_free s - begin_free s
      in if total_size \<le> left_size
         then Inr (begin_free s, n_objs, s\<lparr>begin_free := begin_free s + total_size\<rparr>)
         else if sz \<le> left_size
         then let n = left_size div sz
              in Inr (begin_free s, n, s\<lparr>begin_free := begin_free s + sz * n\<rparr>)
         else ensure (left_size mod kALIGN = 0)
           (let s1 = drop_region s; bytes = bytes_to_get sz n_objs (heap_size s1);
                s2 = s1\<lparr>allocated_area := allocated_area s1 @ [m], begin_free := m\<rparr>
            in if m \<noteq> 0
               then chunk_alloc m big sz n_objs
                      (s2\<lparr>heap_size := heap_size s2 + bytes, end_free := m + bytes\<rparr>)
               else case find_free sz s2 of
                   Some (ptr, i) \<Rightarrow>
                     chunk_alloc m big sz n_objs
                       ((pop_free (GET_FREELIST_INDEX i) s2)\<lparr>begin_free := ptr, end_free := ptr + i\<rparr>)
                 | None \<Rightarrow> (case big of None \<Rightarrow> Inl BadAlloc
                     | Some p \<Rightarrow> chunk_alloc m big sz n_objs
                         (s2\<lparr>begin_free := p, heap_size := heap_size s2 + bytes,
                             end_free := p + bytes\<rparr>))))"
  by pat_completeness auto
termination
proof (relation "measure (\<lambda>(m, big, sz, n_objs, s). if sz \<le> end_free s - begin_free s then 0 else 1)",
    goal_cases)
  case 1 show ?case by simp
next
  case 2 then show ?case by (auto intro: total_ge_one total_pos)
next
  case 3 then show ?case by (auto simp: pop_free_def dest: find_free_ge intro: total_ge_one total_pos)
next
  case 4 then show ?case by (auto simp: pop_free_def dest: find_free_ge intro: total_ge_one total_pos)
qed

declare chunk_alloc.simps [simp del]

text \<open>The loop of \<^verbatim>\<open>refill\<close>: \<open>rest\<close> blocks follow the block \<open>cur\<close>.\<close>

fun link_chunks :: "nat \<Rightarrow> nat \<Rightarrow> nat \<Rightarrow> mem_pool \<Rightarrow> mem_pool" where
  "link_chunks n cur 0 s = s\<lparr>links := (links s)(cur := 0)\<rparr>"
| "link_chunks n cur (Suc rest) s =
     link_chunks n (cur + n) rest (s\<lparr>links := (links s)(cur := cur + n)\<rparr>)"

definition refill :: "nat \<Rightarrow> nat option \<Rightarrow> nat \<Rightarrow> mem_pool \<Rightarrow> (nat \<times> mem_pool) res" where
  "refill m big n s = bindR (chunk_alloc m big n 20 s) (\<lambda>(chunk, n_objs, s1).
     if n_objs = 1 then Inr (chunk, s1)
     else let s2 = s1\<lparr>free_lists := (free_lists s1)(GET_FREELIST_INDEX n := chunk + n)\<rparr>
          in Inr (chunk, link_chunks n (chunk + n) (n_objs - 2) s2))"

definition allocate :: "bool \<Rightarrow> nat \<Rightarrow> nat option \<Rightarrow> nat \<Rightarrow> mem_pool \<Rightarrow> (nat \<times> mem_pool) res" where
  "allocate inl m big n s =
     (if kMax_Bytes < n then (case big of None \<Rightarrow> Inl BadAlloc | Some p \<Rightarrow> Inr (p, s))
      else loop_only inl
        (if kFreeListsNum \<le> GET_FREELIST_INDEX n then Inl OutOfBounds
         else let result = free_lists s (GET_FREELIST_INDEX n)
              in if result = 0 then refill m big (ROUND_UP n) s
                 else Inr (result, pop_free (GET_FREELIST_INDEX n) s)))"

definition deallocate :: "bool \<Rightarrow> nat \<Rightarrow> nat \<Rightarrow> mem_pool \<Rightarrow> mem_pool res" where
  "deallocate inl ptr n s =
     (if kMax_Bytes < n then Inr s
      else loop_only inl
        (if kFreeListsNum \<le> GET_FREELIST_INDEX n then Inl OutOfBounds
         else Inr (push_free (GET_FREELIST_INDEX n) ptr s)))"

text \<open>The containers ask through \<^verbatim>\<open>simple_allocator\<close>, objects of \<open>tsize\<close> bytes.\<close>

definition simple_allocate :: "bool \<Rightarrow> nat \<Rightarrow> nat option \<Rightarrow> nat \<Rightarrow> nat \<Rightarrow> mem_pool \<Rightarrow> (nat \<times> mem_pool) res" where
  "simple_allocate inl m big tsize n s =
     (if n = 0 then Inr (0, s) else allocate inl m big (n * tsize) s)"

definition simple_deallocate :: "bool \<Rightarrow> nat \<Rightarrow> nat \<Rightarrow> nat \<Rightarrow> mem_pool \<Rightarrow> mem_pool res" where
  "simple_deallocate inl tsize ptr n s =
     (if n \<noteq> 0 then deallocate inl ptr (n * tsize) s else Inr s)"

text \<open>The objects of a loop ask through \<^verbatim>\<open>Allocatable\<close>; deleting one asks for the pool of the
  current thread, which may have none.\<close>

definition Allocatable_new :: "bool \<Rightarrow> nat \<Rightarrow> nat option \<Rightarrow> nat \<Rightarrow> mem_pool \<Rightarrow> (nat \<times> mem_pool) res" where
  "Allocatable_new inl m big n s = allocate inl m big n s"

definition Allocatable_delete :: "nat \<Rightarrow> nat \<Rightarrow> mem_pool option \<Rightarrow> mem_pool res" where
  "Allocatable_delete ptr n current = (case current of None \<Rightarrow> Inl NullDeref | Some s \<Rightarrow> deallocate True ptr n s)"

text \<open>The destructor frees the areas it has recorded.\<close>

definition freed_areas :: "mem_pool \<Rightarrow> nat list" where
  "freed_areas s = filter (\<lambda>p. p \<noteq> 0) (allocated_area s)"

section \<open>Sizes\<close>

lemma and_not_7: "(x AND - 8 :: int) = x div 8 * 8"
proof -
  have "x AND NOT (mask 3) = push_bit 3 (drop_bit 3 x)"
    by (rule bit_eqI) (auto simp: bit_simps)
  moreover have "NOT (mask 3 :: int) = - 8" by (simp add: mask_eq_exp_minus_1)
  ultimately show ?thesis by (simp add: push_bit_eq_mult drop_bit_eq_div)
qed

lemma ROUND_UP_eq: "ROUND_UP n = (n + 7) div 8 * 8"
proof -
  have "int n + 7 = int (n + 7)" by simp
  then have "(int n + 7) div 8 * 8 = int ((n + 7) div 8 * 8)" by (simp only: zdiv_int of_nat_mult of_nat_numeral)
  moreover have "ROUND_UP n = nat ((int n + 7) AND - 8)" by (simp add: ROUND_UP_def kALIGN_def add.commute)
  ultimately show ?thesis unfolding and_not_7 by (simp only: nat_int)
qed

lemma GET_FREELIST_INDEX_eq:
  assumes "0 < n" and "n \<le> 2 ^ 63"
  shows "GET_FREELIST_INDEX n = (n + 7) div 8 - 1"
proof -
  have "1 \<le> (n + 7) div 8" using assms(1) by simp
  moreover have "(n + 7) div 8 < 2 ^ 64" using assms(2) by simp
  ultimately show ?thesis by (simp add: GET_FREELIST_INDEX_def kALIGN_def)
qed

lemma index_of_class: "k < 64 \<Longrightarrow> GET_FREELIST_INDEX (8 * (k + 1)) = k"
  by (subst GET_FREELIST_INDEX_eq) simp_all

lemma class_of_size:
  assumes "0 < n" and "n \<le> kMax_Bytes"
  shows "GET_FREELIST_INDEX n < 64" and "ROUND_UP n = 8 * (GET_FREELIST_INDEX n + 1)"
    and "n \<le> ROUND_UP n" and "ROUND_UP n < n + 8"
proof -
  have k: "GET_FREELIST_INDEX n = (n + 7) div 8 - 1"
    using assms by (intro GET_FREELIST_INDEX_eq) (simp_all add: kMax_Bytes_def)
  show "GET_FREELIST_INDEX n < 64" using assms k by (simp add: kMax_Bytes_def)
  have "1 \<le> (n + 7) div 8" using assms(1) by simp
  then show "ROUND_UP n = 8 * (GET_FREELIST_INDEX n + 1)" unfolding k ROUND_UP_eq by simp
  show "n \<le> ROUND_UP n" "ROUND_UP n < n + 8" unfolding ROUND_UP_eq by presburger+
qed

lemma ROUND_UP_dvd: "8 dvd ROUND_UP n"
  by (simp add: ROUND_UP_eq)

section \<open>Who owns a byte\<close>

text \<open>The bytes of a block; the bytes of the free blocks, as lists of addresses per size.\<close>

definition bytes_of :: "nat \<times> nat \<Rightarrow> nat multiset" where
  "bytes_of b = mset [fst b ..< fst b + snd b]"

definition class_bytes :: "nat \<Rightarrow> nat list \<Rightarrow> nat multiset" where
  "class_bytes k as = (\<Sum>a\<leftarrow>as. bytes_of (a, 8 * (k + 1)))"

definition free_bytes :: "(nat \<Rightarrow> nat list) \<Rightarrow> nat multiset" where
  "free_bytes fl = (\<Sum>k<64. class_bytes k (fl k))"

definition blocks_bytes :: "(nat \<times> nat) multiset \<Rightarrow> nat multiset" where
  "blocks_bytes B = (\<Sum>b\<in>#B. bytes_of b)"

text \<open>A free list in memory.\<close>

fun is_list :: "(nat \<Rightarrow> nat) \<Rightarrow> nat \<Rightarrow> nat list \<Rightarrow> bool" where
  "is_list l p [] \<longleftrightarrow> p = 0"
| "is_list l p (a # as) \<longleftrightarrow> p = a \<and> a \<noteq> 0 \<and> is_list l (l a) as"

lemma is_list_update: "p \<notin> set as \<Longrightarrow> is_list (l(p := q)) x as = is_list l x as"
  by (induction as arbitrary: x) auto

definition region :: "mem_pool \<Rightarrow> nat multiset" where
  "region s = bytes_of (begin_free s, end_free s - begin_free s)"

text \<open>The invariant: \<open>fl\<close> are the free lists, \<open>live\<close> the blocks in use with their rounded
  sizes, \<open>areas\<close> the areas obtained. Every byte obtained is owned exactly once.\<close>

definition pool_inv :: "mem_pool \<Rightarrow> (nat \<Rightarrow> nat list) \<Rightarrow> (nat \<times> nat) multiset \<Rightarrow> (nat \<times> nat) multiset \<Rightarrow> bool" where
  "pool_inv s fl live areas \<longleftrightarrow>
     (\<forall>k<64. is_list (links s) (free_lists s k) (fl k) \<and> (\<forall>a \<in> set (fl k). 8 dvd a))
   \<and> 8 dvd begin_free s \<and> 8 dvd end_free s - begin_free s
   \<and> (begin_free s < end_free s \<longrightarrow> 0 < begin_free s)
   \<and> (\<forall>b \<in># live. 0 < fst b \<and> 8 dvd fst b)
   \<and> region s + free_bytes fl + blocks_bytes live = blocks_bytes areas
   \<and> (\<forall>x. count (blocks_bytes areas) x \<le> 1)"

lemma bytes_of_split: "bytes_of (a, m + n) = bytes_of (a, m) + bytes_of (a + m, n)"
proof -
  have "[a..<a + (m + n)] = [a..<a + m] @ [a + m..<a + m + n]"
    by (metis add.assoc upt_add_eq_append le_add1)
  then show ?thesis by (simp add: bytes_of_def)
qed

lemma bytes_of_0 [simp]: "bytes_of (a, 0) = {#}"
  by (simp add: bytes_of_def)

lemma bytes_of_first: "0 < n \<Longrightarrow> a \<in># bytes_of (a, n)"
  by (simp add: bytes_of_def)

lemma blocks_bytes_add [simp]:
  "blocks_bytes (add_mset b B) = bytes_of b + blocks_bytes B"
  by (simp add: blocks_bytes_def)

lemma free_bytes_upd:
  assumes "k < 64"
  shows "free_bytes fl = class_bytes k (fl k) + (\<Sum>j\<in>{..<64} - {k}. class_bytes j (fl j))"
  using assms by (simp add: free_bytes_def sum.remove)

lemma free_bytes_Cons:
  assumes "k < 64"
  shows "free_bytes (fl(k := a # as)) = bytes_of (a, 8 * (k + 1)) + free_bytes (fl(k := as))"
proof -
  have "(\<Sum>j\<in>{..<64} - {k}. class_bytes j ((fl(k := xs)) j)) = (\<Sum>j\<in>{..<64} - {k}. class_bytes j (fl j))" for xs
    by (rule sum.cong) auto
  then show ?thesis
    by (simp only: free_bytes_upd [OF assms]) (simp add: class_bytes_def add.assoc)
qed

lemma free_bytes_mem:
  assumes "k < 64" and "a \<in> set (fl k)" shows "a \<in># free_bytes fl"
proof -
  have "a \<in># class_bytes k (fl k)"
    using assms(2) bytes_of_first [of "8 * (k + 1)" a] by (induction "fl k" rule: list.induct) (auto simp: class_bytes_def)
  then show ?thesis by (simp add: free_bytes_upd [OF assms(1)])
qed

section \<open>Moving bytes between owners\<close>

lemma pool_inv_cong:
  "pool_inv s fl live areas \<Longrightarrow> free_lists s' = free_lists s \<Longrightarrow> links s' = links s \<Longrightarrow>
   begin_free s' = begin_free s \<Longrightarrow> end_free s' = end_free s \<Longrightarrow> pool_inv s' fl live areas"
  by (simp add: pool_inv_def region_def)

lemma owned_once:
  assumes "pool_inv s fl (add_mset (p, n) live) areas" and "0 < n" and "k < 64"
  shows "p \<notin> set (fl k)"
proof
  assume "p \<in> set (fl k)"
  then have "1 \<le> count (free_bytes fl) p" using free_bytes_mem [OF assms(3)] by (simp add: Suc_le_eq)
  moreover have "1 \<le> count (bytes_of (p, n)) p" using bytes_of_first [OF assms(2)] by (simp add: Suc_le_eq)
  moreover have "count (blocks_bytes areas) p = count (region s) p + count (free_bytes fl) p
      + count (bytes_of (p, n)) p + count (blocks_bytes live) p"
    using assms(1) by (simp add: pool_inv_def flip: count_union) (metis union_assoc)
  moreover have "count (blocks_bytes areas) p \<le> 1" using assms(1) by (simp add: pool_inv_def)
  ultimately show False by linarith
qed

lemma pop_free_inv:
  assumes inv: "pool_inv s fl live areas" and k: "k < 64" and nz: "free_lists s k \<noteq> 0"
  shows "pool_inv (pop_free k s) (fl(k := tl (fl k))) (add_mset (free_lists s k, 8 * (k + 1)) live) areas"
    and "fl k \<noteq> []"
proof -
  have l: "is_list (links s) (free_lists s k) (fl k)" using inv k by (simp add: pool_inv_def)
  then obtain a as where fl: "fl k = a # as" and a: "a = free_lists s k" "0 < a"
    "is_list (links s) (links s a) as"
    using nz by (cases "fl k") auto
  then show "fl k \<noteq> []" by simp
  have "8 dvd a" using inv k fl by (simp add: pool_inv_def)
  moreover have "free_bytes fl = bytes_of (a, 8 * (k + 1)) + free_bytes (fl(k := as))"
    using free_bytes_Cons [OF k, of fl a as] fl by (metis fun_upd_triv)
  ultimately show "pool_inv (pop_free k s) (fl(k := tl (fl k))) (add_mset (free_lists s k, 8 * (k + 1)) live) areas"
    using inv a fl by (auto simp: pool_inv_def pop_free_def region_def ac_simps)
qed

lemma push_free_inv:
  assumes inv: "pool_inv s fl (add_mset (p, 8 * (k + 1)) live) areas" and k: "k < 64"
  shows "pool_inv (push_free k p s) (fl(k := p # fl k)) live areas"
proof -
  have p: "0 < p" "8 dvd p" using inv by (auto simp: pool_inv_def)
  have "p \<notin> set (fl j)" if "j < 64" for j using owned_once [OF inv _ that] by simp
  then show ?thesis
    using inv k p free_bytes_Cons [OF k, of fl p "fl k"]
    by (auto simp: pool_inv_def push_free_def region_def is_list_update ac_simps)
qed

text \<open>The front of the region comes into use, or all of it.\<close>

lemma carve_inv:
  assumes inv: "pool_inv s fl live areas" and t: "t \<le> end_free s - begin_free s" "8 dvd t" "0 < t"
  shows "pool_inv (s\<lparr>begin_free := begin_free s + t\<rparr>) fl (add_mset (begin_free s, t) live) areas"
proof -
  obtain r where r: "end_free s - begin_free s = t + r" using t(1) le_Suc_ex by blast
  have "region s = bytes_of (begin_free s, t) + bytes_of (begin_free s + t, r)"
    by (simp add: region_def r bytes_of_split)
  moreover have "end_free s - (begin_free s + t) = r" "begin_free s < end_free s" using r t by auto
  moreover have "8 dvd r" using inv r t(2) by (simp add: pool_inv_def dvd_add_right_iff)
  ultimately show ?thesis using inv t by (auto simp: pool_inv_def region_def ac_simps)
qed

text \<open>An empty region is replaced: by a block that was in use, or by a new area.\<close>

lemma region_of_block:
  assumes inv: "pool_inv s fl (add_mset (p, n) live) areas" and "end_free s \<le> begin_free s" and "8 dvd n"
  shows "pool_inv (s\<lparr>begin_free := p, end_free := p + n\<rparr>) fl live areas"
  using assms by (auto simp: pool_inv_def region_def ac_simps)

definition fresh :: "(nat \<times> nat) \<Rightarrow> (nat \<times> nat) multiset \<Rightarrow> bool" where
  "fresh b areas \<longleftrightarrow> 0 < fst b \<and> 8 dvd fst b \<and> (\<forall>x. x \<in># bytes_of b \<longrightarrow> x \<notin># blocks_bytes areas)"

lemma new_area_inv:
  assumes inv: "pool_inv s fl live areas" and "end_free s \<le> begin_free s" and "8 dvd n" and "fresh (m, n) areas"
  shows "pool_inv (s\<lparr>begin_free := m, end_free := m + n\<rparr>) fl live (add_mset (m, n) areas)"
proof -
  have c1: "count (bytes_of (m, n)) x \<le> 1" for x by (simp add: bytes_of_def count_mset_set')
  have "count (bytes_of (m, n)) x + count (blocks_bytes areas) x \<le> 1" for x
  proof (cases "x \<in># bytes_of (m, n)")
    case True
    then have "count (blocks_bytes areas) x = 0" using assms(4) by (auto simp: fresh_def not_in_iff)
    then show ?thesis using c1 [of x] by simp
  next
    case False
    then show ?thesis using inv by (simp add: pool_inv_def not_in_iff)
  qed
  with assms show ?thesis by (auto simp: pool_inv_def region_def fresh_def ac_simps)
qed

text \<open>Cutting a block in use in two.\<close>

lemma split_block:
  assumes "pool_inv s fl (add_mset (a, m + n) live) areas" and "8 dvd m"
  shows "pool_inv s fl (add_mset (a, m) (add_mset (a + m, n) live)) areas"
  using assms by (auto simp: pool_inv_def bytes_of_split ac_simps)

section \<open>Cutting chunks\<close>

lemma chunk_enough:
  assumes "sz \<le> end_free s - begin_free s" and "0 < sz" and "0 < n_objs"
  shows "\<exists>n'. 0 < n' \<and> n' \<le> n_objs \<and> sz * n' \<le> end_free s - begin_free s
    \<and> chunk_alloc m big sz n_objs s = Inr (begin_free s, n', s\<lparr>begin_free := begin_free s + sz * n'\<rparr>)"
proof (cases "sz * n_objs \<le> end_free s - begin_free s")
  case True
  with assms show ?thesis by (subst chunk_alloc.simps) (auto simp: Let_def)
next
  case False
  let ?n = "(end_free s - begin_free s) div sz"
  have "?n \<le> n_objs"
    using False assms(2) by (metis div_le_mono nat_le_linear nonzero_mult_div_cancel_left not_gr_zero)
  moreover have "0 < ?n" using assms(1,2) by (simp add: div_greater_zero_iff)
  moreover have "sz * ?n \<le> end_free s - begin_free s" by simp
  ultimately show ?thesis using False assms by (subst chunk_alloc.simps) (auto simp: Let_def)
qed

lemma chunk_of_region:
  assumes inv: "pool_inv s fl live areas" and sz: "sz = 8 * (k + 1)" and "0 < n_objs"
    and left: "sz \<le> end_free s - begin_free s"
  shows "\<exists>p n' s'. chunk_alloc m big sz n_objs s = Inr (p, n', s') \<and> 0 < n' \<and> n' \<le> n_objs
    \<and> pool_inv s' fl (add_mset (p, sz * n') live) areas"
proof -
  have "0 < sz" using sz by simp
  from chunk_enough [OF left this assms(3)] obtain n' where
    n': "0 < n'" "n' \<le> n_objs" "sz * n' \<le> end_free s - begin_free s"
      "chunk_alloc m big sz n_objs s = Inr (begin_free s, n', s\<lparr>begin_free := begin_free s + sz * n'\<rparr>)"
    by blast
  have "8 dvd sz * n'" "0 < sz * n'" using sz n'(1) by simp_all
  with carve_inv [OF inv n'(3)] n' show ?thesis by blast
qed

lemma empty_region_inv:
  "pool_inv s fl live areas \<Longrightarrow> end_free s \<le> begin_free s \<Longrightarrow>
   pool_inv (s\<lparr>begin_free := 0, end_free := 0\<rparr>) fl live areas"
  by (auto simp: pool_inv_def region_def)

lemma drop_region_inv:
  assumes inv: "pool_inv s fl live areas" and small: "end_free s - begin_free s < 8 * (k + 1)" and k: "k < 64"
  shows "\<exists>fl'. pool_inv ((drop_region s)\<lparr>begin_free := 0, end_free := 0\<rparr>) fl' live areas \<and> fl' k = fl k"
proof (cases "0 < end_free s - begin_free s")
  case False
  with empty_region_inv [OF inv] show ?thesis by (auto simp: drop_region_def)
next
  case True
  let ?n = "end_free s - begin_free s"
  have dvd: "8 dvd ?n" using inv by (simp add: pool_inv_def)
  then obtain q where q: "?n = 8 * q" by (elim dvdE)
  with True obtain j where j: "?n = 8 * (j + 1)" by (cases q) auto
  then have jk: "j < k" "j < 64" using small k by auto
  have idx: "GET_FREELIST_INDEX ?n = j" unfolding j by (rule index_of_class [OF jk(2)])
  have "pool_inv (s\<lparr>begin_free := begin_free s + ?n\<rparr>) fl (add_mset (begin_free s, 8 * (j + 1)) live) areas"
    using carve_inv [OF inv le_refl dvd True] unfolding j .
  from push_free_inv [OF this jk(2)]
  have "pool_inv ((push_free j (begin_free s) (s\<lparr>begin_free := begin_free s + ?n\<rparr>))\<lparr>begin_free := 0, end_free := 0\<rparr>)
      (fl(j := begin_free s # fl j)) live areas"
    by (rule empty_region_inv) (simp add: push_free_def)
  then have "pool_inv ((drop_region s)\<lparr>begin_free := 0, end_free := 0\<rparr>) (fl(j := begin_free s # fl j)) live areas"
    by (rule pool_inv_cong) (use True idx in \<open>simp_all add: drop_region_def push_free_def\<close>)
  moreover have "(fl(j := begin_free s # fl j)) k = fl k" using jk by simp
  ultimately show ?thesis by blast
qed

lemma find_free_Some:
  "find_free i s = Some (p, j) \<Longrightarrow> 8 dvd i \<Longrightarrow> 0 < i \<Longrightarrow>
   \<exists>k<64. j = 8 * (k + 1) \<and> free_lists s k = p \<and> p \<noteq> 0 \<and> GET_FREELIST_INDEX j = k"
proof (induction i s rule: find_free.induct)
  case (1 i s)
  note eq = find_free.simps [of i s]
  have le: "i \<le> kMax_Bytes" using "1.prems"(1) eq by (auto split: if_splits)
  obtain q where q: "i = 8 * q" using "1.prems"(2) by (elim dvdE)
  then obtain k where k: "i = 8 * (k + 1)" using "1.prems"(3) by (cases q) auto
  have k64: "k < 64" using k le by (simp add: kMax_Bytes_def)
  show ?case
  proof (cases "free_lists s (GET_FREELIST_INDEX i) = 0")
    case True
    then have "find_free (i + kALIGN) s = Some (p, j)" using "1.prems"(1) eq le by simp
    moreover have "8 dvd i + kALIGN" using "1.prems"(2) by (simp add: kALIGN_def)
    moreover have "0 < i + kALIGN" using "1.prems"(3) by simp
    moreover have "\<not> free_lists s (GET_FREELIST_INDEX i) \<noteq> 0" using True by simp
    ultimately show ?thesis by (intro "1.IH" [OF le refl])
  next
    case False
    then have "p = free_lists s (GET_FREELIST_INDEX i)" "j = i" using "1.prems"(1) eq le by auto
    then show ?thesis using k k64 False index_of_class [OF k64] by auto
  qed
qed

text \<open>What \<^verbatim>\<open>malloc\<close> and the first-level allocator may answer.\<close>

definition malloc_contract :: "nat \<Rightarrow> nat option \<Rightarrow> nat \<Rightarrow> (nat \<times> nat) multiset \<Rightarrow> bool" where
  "malloc_contract m big n areas \<longleftrightarrow> (m \<noteq> 0 \<longrightarrow> fresh (m, n) areas)
     \<and> (\<forall>p. m = 0 \<and> big = Some p \<longrightarrow> fresh (p, n) areas)"

lemma chunk_alloc_third:
  assumes "\<not> sz \<le> end_free s - begin_free s" and "0 < n_objs" and "8 dvd end_free s - begin_free s"
  shows "chunk_alloc m big sz n_objs s =
    (let s1 = drop_region s; bytes = bytes_to_get sz n_objs (heap_size s1);
         s2 = s1\<lparr>allocated_area := allocated_area s1 @ [m], begin_free := m\<rparr>
     in if m \<noteq> 0
        then chunk_alloc m big sz n_objs (s2\<lparr>heap_size := heap_size s2 + bytes, end_free := m + bytes\<rparr>)
        else case find_free sz s2 of
          Some (ptr, i) \<Rightarrow> chunk_alloc m big sz n_objs
            ((pop_free (GET_FREELIST_INDEX i) s2)\<lparr>begin_free := ptr, end_free := ptr + i\<rparr>)
        | None \<Rightarrow> (case big of None \<Rightarrow> Inl BadAlloc
            | Some p \<Rightarrow> chunk_alloc m big sz n_objs
                (s2\<lparr>begin_free := p, heap_size := heap_size s2 + bytes, end_free := p + bytes\<rparr>)))"
proof -
  have "sz \<le> sz * n_objs" using assms(2) by simp
  then have "\<not> sz * n_objs \<le> end_free s - begin_free s" using assms(1) by linarith
  moreover have "(end_free s - begin_free s) mod kALIGN = 0" using assms(3) by (simp add: kALIGN_def)
  ultimately have c: "\<not> sz * n_objs \<le> end_free s - begin_free s" "(end_free s - begin_free s) mod kALIGN = 0"
    by blast+
  show ?thesis
    by (rule trans [OF chunk_alloc.simps], subst Let_def, subst Let_def, subst if_not_P [OF c(1)],
        subst if_not_P [OF assms(1)], subst ensure_True [OF c(2)], rule refl)
qed

lemma drop_region_simps [simp]:
  "heap_size (drop_region s) = heap_size s" "allocated_area (drop_region s) = allocated_area s"
  "begin_free (drop_region s) = begin_free s" "end_free (drop_region s) = end_free s"
  by (simp_all add: drop_region_def push_free_def Let_def)

lemma bytes_to_get_props: "8 dvd sz \<Longrightarrow> 8 dvd bytes_to_get sz n h"
  by (simp add: bytes_to_get_def ROUND_UP_dvd)

lemma chunk_alloc_spec:
  assumes inv: "pool_inv s fl live areas" and sz: "sz = 8 * (k + 1)" and k: "k < 64" and n: "0 < n_objs"
    and os: "malloc_contract m big (bytes_to_get sz n_objs (heap_size s)) areas"
  shows "(\<exists>p n' s' fl' areas'. chunk_alloc m big sz n_objs s = Inr (p, n', s') \<and> 0 < n' \<and> n' \<le> n_objs
      \<and> pool_inv s' fl' (add_mset (p, sz * n') live) areas' \<and> areas \<subseteq># areas' \<and> (fl k = [] \<longrightarrow> fl' k = []))
    \<or> chunk_alloc m big sz n_objs s = Inl BadAlloc \<and> m = 0 \<and> big = None"
proof (cases "sz \<le> end_free s - begin_free s")
  case True
  from chunk_of_region [OF inv sz n True] show ?thesis by blast
next
  case False
  let ?b = "bytes_to_get sz n_objs (heap_size s)"
  have b: "8 dvd ?b" "sz \<le> ?b" using bytes_to_get_props total_pos [OF n] sz by simp_all
  have d: "8 dvd end_free s - begin_free s" using inv by (simp add: pool_inv_def)
  define s2 where "s2 = (drop_region s)\<lparr>allocated_area := allocated_area s @ [m], begin_free := m\<rparr>"
  note third = chunk_alloc_third [OF False n d, of m big, unfolded Let_def drop_region_simps, folded s2_def]
  obtain fl1 where inv1: "pool_inv ((drop_region s)\<lparr>begin_free := 0, end_free := 0\<rparr>) fl1 live areas"
    and fl1: "fl1 k = fl k" using drop_region_inv [OF inv _ k] False sz by auto
  have inv2: "pool_inv (s2\<lparr>begin_free := 0, end_free := 0\<rparr>) fl1 live areas"
    by (rule pool_inv_cong [OF inv1]) (simp_all add: s2_def)
  have area: "\<exists>p n' s'. chunk_alloc m big sz n_objs
        (s2\<lparr>begin_free := a, heap_size := heap_size s2 + ?b, end_free := a + ?b\<rparr>) = Inr (p, n', s')
      \<and> 0 < n' \<and> n' \<le> n_objs \<and> pool_inv s' fl1 (add_mset (p, sz * n') live) (add_mset (a, ?b) areas)"
    if "fresh (a, ?b) areas" for a
  proof -
    let ?s = "s2\<lparr>begin_free := a, heap_size := heap_size s2 + ?b, end_free := a + ?b\<rparr>"
    have "pool_inv ((s2\<lparr>begin_free := 0, end_free := 0\<rparr>)\<lparr>begin_free := a, end_free := a + ?b\<rparr>) fl1 live (add_mset (a, ?b) areas)"
      by (rule new_area_inv [OF inv2 _ b(1) that]) simp
    then have "pool_inv ?s fl1 live (add_mset (a, ?b) areas)" by (rule pool_inv_cong) simp_all
    from chunk_of_region [OF this sz n] b(2) show ?thesis by simp
  qed
  consider (m) "m \<noteq> 0" | (reuse) ptr i where "m = 0" "find_free sz s2 = Some (ptr, i)"
    | (big) p where "m = 0" "find_free sz s2 = None" "big = Some p"
    | (bad) "m = 0" "find_free sz s2 = None" "big = None"
    by (cases "find_free sz s2"; cases big) auto
  then show ?thesis
  proof cases
    case m
    then have "fresh (m, ?b) areas" using os by (simp add: malloc_contract_def)
    moreover have "chunk_alloc m big sz n_objs s = chunk_alloc m big sz n_objs
        (s2\<lparr>begin_free := m, heap_size := heap_size s2 + ?b, end_free := m + ?b\<rparr>)"
      using m third by (simp add: s2_def)
    ultimately show ?thesis using area [of m] fl1 by fastforce
  next
    case big
    then have "fresh (p, ?b) areas" using os by (simp add: malloc_contract_def)
    moreover have "chunk_alloc m big sz n_objs s = chunk_alloc m big sz n_objs
        (s2\<lparr>begin_free := p, heap_size := heap_size s2 + ?b, end_free := p + ?b\<rparr>)"
      using big third by simp
    ultimately show ?thesis using area [of p] fl1 by fastforce
  next
    case bad
    then show ?thesis using third by simp
  next
    case reuse
    have "8 dvd sz" "0 < sz" using sz by simp_all
    from find_free_Some [OF reuse(2) this] obtain j where
      j: "j < 64" "i = 8 * (j + 1)" "free_lists s2 j = ptr" "ptr \<noteq> 0" "GET_FREELIST_INDEX i = j" by blast
    let ?s0 = "s2\<lparr>begin_free := 0, end_free := 0\<rparr>"
    have "pool_inv (pop_free j ?s0) (fl1(j := tl (fl1 j))) (add_mset (ptr, i) live) areas"
      using pop_free_inv(1) [OF inv2 j(1)] j by simp
    then have "pool_inv ((pop_free j ?s0)\<lparr>begin_free := ptr, end_free := ptr + i\<rparr>) (fl1(j := tl (fl1 j))) live areas"
      by (rule region_of_block) (use j in \<open>simp_all add: pop_free_def\<close>)
    then have inv3: "pool_inv ((pop_free j s2)\<lparr>begin_free := ptr, end_free := ptr + i\<rparr>) (fl1(j := tl (fl1 j))) live areas"
      by (rule pool_inv_cong) (simp_all add: pop_free_def)
    have "sz \<le> i" by (rule find_free_ge [OF reuse(2)])
    with chunk_of_region [OF inv3 sz n, of m big] obtain p n' s' where
      r: "chunk_alloc m big sz n_objs ((pop_free j s2)\<lparr>begin_free := ptr, end_free := ptr + i\<rparr>) = Inr (p, n', s')"
        "0 < n'" "n' \<le> n_objs" "pool_inv s' (fl1(j := tl (fl1 j))) (add_mset (p, sz * n') live) areas" by auto
    have "chunk_alloc m big sz n_objs s = Inr (p, n', s')" using third reuse j r(1) by simp
    moreover have "fl k = [] \<longrightarrow> (fl1(j := tl (fl1 j))) k = []" using fl1 by (cases "k = j") auto
    ultimately show ?thesis using r(2-4) by blast
  qed
qed

section \<open>Refilling a free list\<close>

text \<open>Linking the blocks of a chunk from the front is pushing them from the back.\<close>

fun push_run :: "nat \<Rightarrow> nat \<Rightarrow> nat \<Rightarrow> nat \<Rightarrow> mem_pool \<Rightarrow> mem_pool" where
  "push_run n k c 0 s = push_free k c s"
| "push_run n k c (Suc rest) s = push_free k c (push_run n k (c + n) rest s)"

lemma link_chunks_links:
  "a < c \<Longrightarrow> link_chunks n c rest (s\<lparr>links := (links s)(a := v)\<rparr>)
     = (link_chunks n c rest s)\<lparr>links := (links (link_chunks n c rest s))(a := v)\<rparr>"
proof (induction n c rest s rule: link_chunks.induct)
  case (2 n c rest s)
  let ?s1 = "s\<lparr>links := (links s)(c := c + n)\<rparr>"
  have "(links s)(a := v, c := c + n) = (links ?s1)(a := v)" using "2.prems" by (simp add: fun_upd_twist)
  then have eq: "link_chunks n c (Suc rest) (s\<lparr>links := (links s)(a := v)\<rparr>)
      = link_chunks n (c + n) rest (?s1\<lparr>links := (links ?s1)(a := v)\<rparr>)" by simp
  show ?case unfolding eq unfolding link_chunks.simps(2) by (rule "2.IH") (use "2.prems" in simp)
qed (simp add: fun_upd_twist)

lemma link_chunks_free_lists [simp]: "free_lists (link_chunks n c rest s) = free_lists s"
  by (induction n c rest s rule: link_chunks.induct) simp_all

lemma link_chunks_head:
  "link_chunks n c rest (s\<lparr>free_lists := f\<rparr>) = (link_chunks n c rest s)\<lparr>free_lists := f\<rparr>"
proof (induction n c rest s rule: link_chunks.induct)
  case (2 n c rest s)
  let ?s1 = "s\<lparr>links := (links s)(c := c + n)\<rparr>"
  have "(s\<lparr>free_lists := f\<rparr>)\<lparr>links := (links (s\<lparr>free_lists := f\<rparr>))(c := c + n)\<rparr> = ?s1\<lparr>free_lists := f\<rparr>"
    by (cases s) simp
  then show ?case unfolding link_chunks.simps(2) using 2 by (simp only:)
next
  case (1 n c s)
  then show ?case by (cases s) simp
qed

lemma link_chunks_push:
  assumes "0 < n" and "free_lists s k = 0"
  shows "link_chunks n c rest (s\<lparr>free_lists := (free_lists s)(k := c)\<rparr>) = push_run n k c rest s"
proof (induction rest arbitrary: c)
  case 0
  then show ?case using assms(2) by (cases s) (simp add: push_free_def fun_upd_def)
next
  case (Suc rest)
  let ?f = "\<lambda>c. (free_lists s)(k := c)"
  have IH: "push_run n k (c + n) rest s = (link_chunks n (c + n) rest s)\<lparr>free_lists := ?f (c + n)\<rparr>"
    by (rule trans [OF Suc [symmetric] link_chunks_head])
  define L where "L = link_chunks n (c + n) rest s"
  have head: "link_chunks n c (Suc rest) (s\<lparr>free_lists := ?f c\<rparr>)
      = (link_chunks n c (Suc rest) s)\<lparr>free_lists := ?f c\<rparr>" by (rule link_chunks_head)
  have "link_chunks n c (Suc rest) s = L\<lparr>links := (links L)(c := c + n)\<rparr>"
    unfolding L_def link_chunks.simps(2) by (rule link_chunks_links) (use assms(1) in simp)
  moreover have "push_free k c (L\<lparr>free_lists := ?f (c + n)\<rparr>) = (L\<lparr>links := (links L)(c := c + n)\<rparr>)\<lparr>free_lists := ?f c\<rparr>"
    by (cases L) (simp add: push_free_def fun_upd_def fun_eq_iff)
  ultimately show ?case unfolding head push_run.simps IH L_def [symmetric] by (simp only:)
qed

lemma push_run_inv:
  assumes "pool_inv s fl (add_mset (c, 8 * (k + 1) * (rest + 1)) live) areas" and "k < 64"
  shows "\<exists>fl'. pool_inv (push_run (8 * (k + 1)) k c rest s) fl' live areas"
  using assms(1)
proof (induction rest arbitrary: c live)
  case 0
  then show ?case using push_free_inv [OF _ assms(2), of s fl c live areas] by auto
next
  case (Suc rest)
  let ?n = "8 * (k + 1)"
  have "pool_inv s fl (add_mset (c, ?n + ?n * (rest + 1)) live) areas"
    using Suc.prems by (simp add: algebra_simps)
  from split_block [OF this]
  have "pool_inv s fl (add_mset (c + ?n, ?n * (rest + 1)) (add_mset (c, ?n) live)) areas"
    by (simp add: add_mset_commute)
  from Suc.IH [OF this] obtain fl' where
    "pool_inv (push_run ?n k (c + ?n) rest s) fl' (add_mset (c, ?n) live) areas" by blast
  from push_free_inv [OF this assms(2)] show ?case by auto
qed

lemma empty_list: "pool_inv s fl live areas \<Longrightarrow> k < 64 \<Longrightarrow> free_lists s k = 0 \<longleftrightarrow> fl k = []"
  by (cases "fl k") (force simp: pool_inv_def)+

lemma refill_spec:
  assumes inv: "pool_inv s fl live areas" and k: "k < 64" and empty: "free_lists s k = 0"
    and sz: "sz = 8 * (k + 1)" and os: "malloc_contract m big (bytes_to_get sz 20 (heap_size s)) areas"
  shows "(\<exists>p s' fl' areas'. refill m big sz s = Inr (p, s')
      \<and> pool_inv s' fl' (add_mset (p, sz) live) areas' \<and> areas \<subseteq># areas')
    \<or> refill m big sz s = Inl BadAlloc \<and> m = 0 \<and> big = None"
proof -
  have fl: "fl k = []" using empty empty_list [OF inv k] by simp
  have idx: "GET_FREELIST_INDEX sz = k" unfolding sz by (rule index_of_class [OF k])
  have pos: "0 < sz" using sz by simp
  consider (bad) "chunk_alloc m big sz 20 s = Inl BadAlloc" "m = 0" "big = None"
    | (ok) p n' s1 fl1 areas1 where "chunk_alloc m big sz 20 s = Inr (p, n', s1)" "0 < n'"
      "pool_inv s1 fl1 (add_mset (p, sz * n') live) areas1" "areas \<subseteq># areas1" "fl1 k = []"
    using chunk_alloc_spec [OF inv sz k _ os] fl by auto
  then show ?thesis
  proof cases
    case bad
    then show ?thesis by (simp add: refill_def)
  next
    case ok
    show ?thesis
    proof (cases "n' = 1")
      case True
      then show ?thesis using ok by (auto simp: refill_def)
    next
      case False
      then obtain r where r: "n' = r + 2" using ok(2) by (metis add_2_eq_Suc' less_one not_less_eq less_imp_Suc_add One_nat_def Suc_lessI add.commute)
      have "pool_inv s1 fl1 (add_mset (p, sz + sz * (r + 1)) live) areas1"
        using ok(3) by (simp add: r algebra_simps)
      from split_block [OF this] have
        "pool_inv s1 fl1 (add_mset (p + sz, 8 * (k + 1) * (r + 1)) (add_mset (p, sz) live)) areas1"
        by (simp add: sz add_mset_commute)
      from push_run_inv [OF this k] obtain fl' where
        "pool_inv (push_run sz k (p + sz) r s1) fl' (add_mset (p, sz) live) areas1" by (auto simp: sz)
      moreover have "free_lists s1 k = 0" using ok(3,5) empty_list k by blast
      then have "refill m big sz s = Inr (p, push_run sz k (p + sz) r s1)"
        using ok(1) False link_chunks_push [of sz s1 k "p + sz" r] pos by (simp add: refill_def idx r Let_def)
      ultimately show ?thesis using ok(4) by blast
    qed
  qed
qed

lemma allocate_inv:
  assumes inv: "pool_inv s fl live areas" and n: "0 < n" "n \<le> kMax_Bytes"
    and os: "malloc_contract m big (bytes_to_get (ROUND_UP n) 20 (heap_size s)) areas"
  shows "(\<exists>p s' fl' areas'. allocate True m big n s = Inr (p, s')
      \<and> pool_inv s' fl' (add_mset (p, ROUND_UP n) live) areas' \<and> areas \<subseteq># areas')
    \<or> allocate True m big n s = Inl BadAlloc \<and> m = 0 \<and> big = None"
proof -
  let ?k = "GET_FREELIST_INDEX n"
  note cls = class_of_size [OF n]
  have lists: "kFreeListsNum = 64" by (simp add: kFreeListsNum_def kMax_Bytes_def kALIGN_def)
  show ?thesis
  proof (cases "free_lists s ?k = 0")
    case True
    then have "allocate True m big n s = refill m big (ROUND_UP n) s"
      using n cls(1) by (simp add: allocate_def lists)
    with refill_spec [OF inv cls(1) True cls(2) os] show ?thesis by simp
  next
    case False
    then have "allocate True m big n s = Inr (free_lists s ?k, pop_free ?k s)"
      using n cls(1) by (simp add: allocate_def lists)
    with pop_free_inv(1) [OF inv cls(1) False] cls(2) show ?thesis by auto
  qed
qed

lemma live_disjoint:
  assumes "pool_inv s fl (add_mset b live) areas" and "c \<in># live"
  shows "{fst b ..< fst b + snd b} \<inter> {fst c ..< fst c + snd c} = {}"
proof (rule ccontr)
  assume "\<not> ?thesis"
  then obtain x where "x \<in> {fst b ..< fst b + snd b} \<inter> {fst c ..< fst c + snd c}" by blast
  then have x: "x \<in># bytes_of b" "x \<in># bytes_of c" by (auto simp: bytes_of_def)
  obtain L where L: "live = add_mset c L" using assms(2) by (metis multi_member_split)
  have "count (blocks_bytes areas) x = count (region s + free_bytes fl + blocks_bytes (add_mset b live)) x"
    using assms(1) by (simp add: pool_inv_def)
  moreover have "0 < count (bytes_of b) x" "0 < count (bytes_of c) x" using x by simp_all
  moreover have "count (blocks_bytes areas) x \<le> 1" using assms(1) by (simp add: pool_inv_def)
  ultimately show False unfolding L blocks_bytes_add count_union by linarith
qed

section \<open>Properties\<close>

text \<open>C15. Allocation is safe: for a size the pool serves itself, and a system that hands out
  fresh aligned memory or none, an allocation fails only when the system has nothing, and
  otherwise returns a block that is not null, is aligned, is at least as large as asked and shares
  no byte with any block in use; every byte the pool holds still has exactly one owner.\<close>

theorem allocate_safe:
  assumes "pool_inv s fl live areas" and "0 < n" and "n \<le> kMax_Bytes"
    and "malloc_contract m big (bytes_to_get (ROUND_UP n) 20 (heap_size s)) areas"
  shows "case allocate True m big n s of
      Inl e \<Rightarrow> e = BadAlloc \<and> m = 0 \<and> big = None
    | Inr (p, s') \<Rightarrow> p \<noteq> 0 \<and> 8 dvd p \<and> n \<le> ROUND_UP n \<and> ROUND_UP n < n + 8
        \<and> (\<forall>c \<in># live. {p ..< p + ROUND_UP n} \<inter> {fst c ..< fst c + snd c} = {})
        \<and> (\<exists>fl' areas'. pool_inv s' fl' (add_mset (p, ROUND_UP n) live) areas' \<and> areas \<subseteq># areas')"
  using allocate_inv [OF assms] class_of_size(3,4) [OF assms(2,3)]
proof (elim disjE exE conjE)
  fix p s' fl' areas'
  assume a: "allocate True m big n s = Inr (p, s')"
    and inv: "pool_inv s' fl' (add_mset (p, ROUND_UP n) live) areas'" and sub: "areas \<subseteq># areas'"
  have "p \<noteq> 0" "8 dvd p" using inv by (auto simp: pool_inv_def)
  with a sub inv live_disjoint [OF inv] class_of_size(3,4) [OF assms(2,3)] show ?thesis by auto
qed simp

lemma pool_inv_new: "pool_inv new_mem_pool (\<lambda>k. []) {#} {#}"
  by (simp add: pool_inv_def new_mem_pool_def region_def free_bytes_def class_bytes_def blocks_bytes_def)

theorem allocate_safe_witness:
  "case allocate True 4096 None 24 new_mem_pool of
     Inl e \<Rightarrow> False | Inr (p, s') \<Rightarrow> p = 4096 \<and> (\<exists>fl' areas'. pool_inv s' fl' {#(p, 24)#} areas')"
proof -
  have c: "malloc_contract 4096 None (bytes_to_get (ROUND_UP 24) 20 (heap_size new_mem_pool)) {#}"
    by (simp add: malloc_contract_def fresh_def blocks_bytes_def)
  have r: "ROUND_UP 24 = 24" by (simp add: ROUND_UP_eq)
  have v: "\<exists>s'. allocate True 4096 None 24 new_mem_pool = Inr (4096, s')"
  proof -
    have i: "GET_FREELIST_INDEX 24 = 2" using index_of_class [of 2] by simp
    have third: "\<exists>s'. chunk_alloc 4096 None 24 20 new_mem_pool = Inr (4096, 20, s')"
      by (subst chunk_alloc_third)
        (simp_all add: new_mem_pool_def drop_region_def bytes_to_get_def ROUND_UP_eq chunk_alloc.simps)
    have "free_lists new_mem_pool 2 = 0" by (simp add: new_mem_pool_def)
    with third show ?thesis
      by (auto simp: allocate_def kMax_Bytes_def kFreeListsNum_def kALIGN_def i r refill_def)
  qed
  then show ?thesis
    using allocate_safe [OF pool_inv_new _ _ c] by (auto simp: kMax_Bytes_def r)
qed

text \<open>A block given back is whole again: returning a block in use succeeds and keeps the
  books, and the next allocation of any size of the same class returns that very block without
  asking the system.\<close>

lemma deallocate_reuse:
  assumes inv: "pool_inv s fl (add_mset (p, ROUND_UP n) live) areas"
    and n: "0 < n" "n \<le> kMax_Bytes" and n': "0 < n'" "n' \<le> kMax_Bytes" "ROUND_UP n' = ROUND_UP n"
  shows "\<exists>s'. deallocate True p n s = Inr s' \<and> (\<exists>fl'. pool_inv s' fl' live areas)
    \<and> (\<exists>s''. allocate True m big n' s' = Inr (p, s'') \<and> heap_size s'' = heap_size s)"
proof -
  let ?k = "GET_FREELIST_INDEX n"
  note cls = class_of_size [OF n]
  have lists: "kFreeListsNum = 64" by (simp add: kFreeListsNum_def kMax_Bytes_def kALIGN_def)
  have k': "GET_FREELIST_INDEX n' = ?k" using cls(2) class_of_size(2) [OF n'(1,2)] n'(3) by simp
  have "deallocate True p n s = Inr (push_free ?k p s)"
    using n cls(1) by (simp add: deallocate_def lists)
  moreover have "pool_inv (push_free ?k p s) (fl(?k := p # fl ?k)) live areas"
    using push_free_inv [of s fl p ?k live areas] inv cls(1,2) by simp
  moreover have "p \<noteq> 0" using inv by (auto simp: pool_inv_def)
  then have "allocate True m big n' (push_free ?k p s) = Inr (p, pop_free ?k (push_free ?k p s))"
    using n'(2) cls(1) by (simp add: allocate_def k' lists push_free_def)
  moreover have "heap_size (pop_free ?k (push_free ?k p s)) = heap_size s"
    by (simp add: pop_free_def push_free_def)
  ultimately show ?thesis by blast
qed

definition one_block :: mem_pool where
  "one_block = new_mem_pool\<lparr>begin_free := 72, end_free := 72\<rparr>"

lemma deallocate_reuse_example:
  "\<exists>s' s''. deallocate True 64 5 one_block = Inr s' \<and> allocate True 0 None 8 s' = Inr (64, s'')"
proof -
  have "pool_inv one_block (\<lambda>k. []) {#(64, 8)#} {#(64, 8)#}"
    by (simp add: pool_inv_def one_block_def new_mem_pool_def region_def free_bytes_def class_bytes_def
        blocks_bytes_def bytes_of_def count_mset_set')
  then have "pool_inv one_block (\<lambda>k. []) (add_mset (64, ROUND_UP 5) {#}) {#(64, 8)#}"
    by (simp add: ROUND_UP_eq)
  from deallocate_reuse [OF this, of 8 0 None] show ?thesis by (auto simp: kMax_Bytes_def ROUND_UP_eq)
qed

text \<open>Memory is lost and sizes go wrong at the edges: an area obtained from the first-level
  allocator after \<^verbatim>\<open>malloc\<close> has failed serves the request but is not recorded, so the
  destructor does not free it (it frees nothing here), and a request for zero bytes indexes the free
  lists out of bounds.\<close>

theorem pool_edges:
  "(case allocate True 0 (Some 4096) 8 new_mem_pool of
      Inl e \<Rightarrow> False | Inr (p, s') \<Rightarrow> p = 4096 \<and> 0 < heap_size s' \<and> freed_areas s' = [])
   \<and> allocate True 4096 None 0 new_mem_pool = Inl OutOfBounds"
proof
  have i: "GET_FREELIST_INDEX 8 = 0" "ROUND_UP 8 = 8" using index_of_class [of 0] by (simp_all add: ROUND_UP_eq)
  have none: "find_free i s = None" if "free_lists s = (\<lambda>k. 0)" for i s
    using that
  proof (induction i s rule: find_free.induct)
    case (1 i s)
    then show ?case by (subst find_free.simps) simp
  qed
  have "chunk_alloc 0 (Some 4096) 8 20 new_mem_pool = Inr (4096, 20, new_mem_pool
      \<lparr>begin_free := 4256, end_free := 4416, heap_size := 320, allocated_area := [0]\<rparr>)"
    by (subst chunk_alloc_third)
      (simp_all add: new_mem_pool_def drop_region_def bytes_to_get_def ROUND_UP_eq none chunk_alloc.simps)
  then have "refill 0 (Some 4096) 8 new_mem_pool = Inr (4096, link_chunks 8 4104 18
      (new_mem_pool\<lparr>begin_free := 4256, end_free := 4416, heap_size := 320, allocated_area := [0],
        free_lists := (free_lists new_mem_pool)(0 := 4104)\<rparr>))"
    by (simp add: refill_def i new_mem_pool_def)
  moreover have "heap_size (link_chunks n c r s) = heap_size s \<and> allocated_area (link_chunks n c r s) = allocated_area s"
    for n c r s by (induction n c r s rule: link_chunks.induct) simp_all
  moreover have "allocate True 0 (Some 4096) 8 new_mem_pool = refill 0 (Some 4096) 8 new_mem_pool"
    by (simp add: allocate_def i kMax_Bytes_def kFreeListsNum_def kALIGN_def new_mem_pool_def)
  ultimately show "case allocate True 0 (Some 4096) 8 new_mem_pool of
      Inl e \<Rightarrow> False | Inr (p, s') \<Rightarrow> p = 4096 \<and> 0 < heap_size s' \<and> freed_areas s' = []"
    by (simp add: freed_areas_def)
  show "allocate True 4096 None 0 new_mem_pool = Inl OutOfBounds"
    by (simp add: allocate_def GET_FREELIST_INDEX_def kMax_Bytes_def kFreeListsNum_def kALIGN_def)
qed

end
