(* ===== verification/EventLoopThread.thy ===== *)
theory EventLoopThread
  imports Prelude
begin

text \<open>
  A thread with an event loop, \<^verbatim>\<open>EventLoopThread.cpp\<close>: \<^verbatim>\<open>Run\<close> starts the thread and waits until its loop
  exists, \<^verbatim>\<open>ThreadFunc\<close> is the body of the thread, and the destructor tells the loop to quit and joins the thread.
  The steps of the owner (\<^verbatim>\<open>Run\<close>, then the destructor) and of the thread interleave in any order; one
  step is a critical section or one access to shared state. Of the loop only its lifetime and its flag \<^verbatim>\<open>quit_\<close> count
  (\<^verbatim>\<open>EventLoop::Loop\<close> and \<^verbatim>\<open>Quit\<close>). Shown: the hand-over of the loop loses no wake-up, the init callback runs
  once before it, and a thread destroyed while its loop runs ends joined; and the ways in which destroying one fails.
\<close>

section \<open>State and steps\<close>

text \<open>The owner: before \<^verbatim>\<open>Run\<close>, in it, about to test the condition or asleep on the condition variable, or
  returned from it; then in the destructor, before its test of \<^verbatim>\<open>loop_\<close>, before \<^verbatim>\<open>Quit\<close>, in \<^verbatim>\<open>join\<close>, and before
  the members are destroyed.\<close>

datatype owner_pc = NotRun | RunTest | RunAsleep | RunReturned "nat option"
  | DtorTest | DtorQuit | DtorJoin | DtorMembers | DtorDone

text \<open>The thread: the loop made, before the init callback; before its critical section; past it with the notification
  to come; before \<^verbatim>\<open>Loop\<close>, in it, past it, and ended, with the loop on its stack destroyed.\<close>

datatype thread_pc = BeforeInit | BeforePublish | BeforeNotify | BeforeLoop | InLoop | AfterLoop | ThreadEnded

record loop_thread =
  elt_loop :: "nat option"
  isExit :: bool
  IoThread :: bool
  joined :: bool
  elt_quit :: bool
  inits :: "nat list"
  owner :: owner_pc
  thread :: thread_pc

definition new_EventLoopThread :: loop_thread where
  "new_EventLoopThread = \<lparr>elt_loop = None, isExit = False, IoThread = False, joined = False, elt_quit = False,
     inits = [], owner = NotRun, thread = BeforeInit\<rparr>"

text \<open>One step of \<^verbatim>\<open>Run\<close>: starting the thread, then the test under the mutex, and sleep or return.
  \<open>spurious\<close> is a wake-up of the condition variable without a notification.\<close>

definition Run_step :: "bool \<Rightarrow> loop_thread \<Rightarrow> loop_thread res" where
  "Run_step spurious e = (case owner e of
       NotRun \<Rightarrow> ensure (\<not> IoThread e) (Inr (e\<lparr>IoThread := True, owner := RunTest\<rparr>))
     | RunTest \<Rightarrow> Inr (e\<lparr>owner := if elt_loop e = None \<and> \<not> isExit e then RunAsleep else RunReturned (elt_loop e)\<rparr>)
     | RunAsleep \<Rightarrow> Inr (if spurious then e\<lparr>owner := RunTest\<rparr> else e)
     | _ \<Rightarrow> Inr e)"

definition notify_one :: "loop_thread \<Rightarrow> loop_thread" where
  "notify_one e = (if owner e = RunAsleep then e\<lparr>owner := RunTest\<rparr> else e)"

text \<open>One step of \<^verbatim>\<open>ThreadFunc\<close>, for the loop \<open>l\<close>. \<^verbatim>\<open>Loop\<close> clears the quit flag when it is entered and returns when
  it finds it set.\<close>

definition ThreadFunc_step :: "bool \<Rightarrow> nat \<Rightarrow> loop_thread \<Rightarrow> loop_thread" where
  "ThreadFunc_step initCb l e = (if \<not> IoThread e then e else case thread e of
       BeforeInit \<Rightarrow> e\<lparr>inits := (if initCb then inits e @ [l] else inits e), thread := BeforePublish\<rparr>
     | BeforePublish \<Rightarrow>
         (if \<not> isExit e then e\<lparr>elt_loop := Some l, thread := BeforeNotify\<rparr>
          else (notify_one e)\<lparr>thread := ThreadEnded\<rparr>)
     | BeforeNotify \<Rightarrow> (notify_one e)\<lparr>thread := BeforeLoop\<rparr>
     | BeforeLoop \<Rightarrow> e\<lparr>elt_quit := False, thread := InLoop\<rparr>
     | InLoop \<Rightarrow> if elt_quit e then e\<lparr>thread := AfterLoop\<rparr> else e
     | AfterLoop \<Rightarrow> e\<lparr>elt_loop := None, thread := ThreadEnded\<rparr>
     | ThreadEnded \<Rightarrow> e)"

text \<open>One step of the destructor. \<^verbatim>\<open>Quit\<close> is called on the loop, which must still exist, and asserts that nobody
  has told it to quit; a thread that is neither joined nor detached ends the program when it is destroyed.\<close>

definition Destruct_EventLoopThread :: "loop_thread \<Rightarrow> loop_thread res" where
  "Destruct_EventLoopThread e = (case owner e of
       DtorTest \<Rightarrow> Inr (e\<lparr>owner := if elt_loop e \<noteq> None then DtorQuit else DtorMembers\<rparr>)
     | DtorQuit \<Rightarrow> if thread e = ThreadEnded then Inl UseAfterFree
         else ensure (\<not> elt_quit e) (Inr (e\<lparr>elt_quit := True, owner := DtorJoin\<rparr>))
     | DtorJoin \<Rightarrow> Inr (if thread e = ThreadEnded then e\<lparr>joined := True, owner := DtorMembers\<rparr> else e)
     | DtorMembers \<Rightarrow> if IoThread e \<and> \<not> joined e then Inl Terminated else Inr (e\<lparr>owner := DtorDone\<rparr>)
     | DtorDone \<Rightarrow> Inr e
     | RunTest \<Rightarrow> Inr e
     | RunAsleep \<Rightarrow> Inr e
     | _ \<Rightarrow> Inr (e\<lparr>isExit := True, owner := DtorTest\<rparr>))"

text \<open>\<open>LoopQuits\<close> is a callback of the loop that calls \<^verbatim>\<open>Quit\<close> on it.\<close>

datatype elt_event = OwnerStep bool | ThreadStep | DestructStep | LoopQuits

fun elt_step :: "bool \<Rightarrow> nat \<Rightarrow> elt_event \<Rightarrow> loop_thread \<Rightarrow> loop_thread res" where
  "elt_step initCb l (OwnerStep sp) e = Run_step sp e"
| "elt_step initCb l ThreadStep e = Inr (ThreadFunc_step initCb l e)"
| "elt_step initCb l DestructStep e = Destruct_EventLoopThread e"
| "elt_step initCb l LoopQuits e =
     (if thread e = InLoop then ensure (\<not> elt_quit e) (Inr (e\<lparr>elt_quit := True\<rparr>)) else Inr e)"

fun elt_run :: "bool \<Rightarrow> nat \<Rightarrow> elt_event list \<Rightarrow> loop_thread \<Rightarrow> loop_thread res" where
  "elt_run initCb l [] e = Inr e"
| "elt_run initCb l (x # xs) e = bindR (elt_step initCb l x e) (elt_run initCb l xs)"

section \<open>A thread that is destroyed while its loop runs\<close>

text \<open>The destructor is entered before \<^verbatim>\<open>Run\<close> or once the loop has been entered, and the loop is left to it.\<close>

fun orderly :: "bool \<Rightarrow> nat \<Rightarrow> elt_event list \<Rightarrow> loop_thread \<Rightarrow> bool" where
  "orderly initCb l [] e \<longleftrightarrow> True"
| "orderly initCb l (x # xs) e \<longleftrightarrow> x \<noteq> LoopQuits
     \<and> (x = DestructStep \<and> (\<exists>res. owner e = RunReturned res) \<longrightarrow> thread e = InLoop)
     \<and> (case elt_step initCb l x e of Inl f \<Rightarrow> True | Inr e' \<Rightarrow> orderly initCb l xs e')"

definition elt_ok :: "bool \<Rightarrow> nat \<Rightarrow> loop_thread \<Rightarrow> bool" where
  "elt_ok initCb l e \<longleftrightarrow>
     (thread e = BeforeInit \<longrightarrow> inits e = []) \<and> (thread e \<noteq> BeforeInit \<longrightarrow> inits e = (if initCb then [l] else []) \<and> IoThread e)
     \<and> (elt_loop e = (if thread e \<in> {BeforeInit, BeforePublish, ThreadEnded} then None else Some l))
     \<and> (joined e \<longrightarrow> thread e = ThreadEnded)
     \<and> (case owner e of
         NotRun \<Rightarrow> \<not> IoThread e \<and> \<not> isExit e \<and> \<not> elt_quit e
       | RunTest \<Rightarrow> IoThread e \<and> \<not> isExit e \<and> \<not> elt_quit e \<and> thread e \<notin> {AfterLoop, ThreadEnded}
       | RunAsleep \<Rightarrow> IoThread e \<and> \<not> isExit e \<and> \<not> elt_quit e \<and> thread e \<in> {BeforeInit, BeforePublish, BeforeNotify}
       | RunReturned res \<Rightarrow> res = Some l \<and> IoThread e \<and> \<not> isExit e \<and> \<not> elt_quit e \<and> thread e \<in> {BeforeNotify, BeforeLoop, InLoop}
       | DtorTest \<Rightarrow> \<not> elt_quit e \<and> (IoThread e \<longrightarrow> thread e = InLoop)
       | DtorQuit \<Rightarrow> \<not> elt_quit e \<and> IoThread e \<and> thread e = InLoop
       | DtorJoin \<Rightarrow> elt_quit e \<and> IoThread e \<and> thread e \<in> {InLoop, AfterLoop, ThreadEnded}
       | DtorMembers \<Rightarrow> IoThread e \<longrightarrow> joined e
       | DtorDone \<Rightarrow> IoThread e \<longrightarrow> joined e)"

lemma elt_ok_new: "elt_ok initCb l new_EventLoopThread"
  by (simp add: elt_ok_def new_EventLoopThread_def)

lemma elt_step_ok:
  assumes ok: "elt_ok initCb l e" and "x \<noteq> LoopQuits"
    and "x = DestructStep \<Longrightarrow> (\<exists>res. owner e = RunReturned res) \<Longrightarrow> thread e = InLoop"
  shows "\<exists>e'. elt_step initCb l x e = Inr e' \<and> elt_ok initCb l e'"
proof (cases x)
  case (OwnerStep sp)
  then show ?thesis using ok by (cases "owner e"; cases "thread e") (auto simp: Run_step_def elt_ok_def)
next
  case ThreadStep
  then show ?thesis using ok
    by (cases "owner e"; cases "thread e") (auto simp: ThreadFunc_step_def notify_one_def elt_ok_def)
next
  case DestructStep
  then show ?thesis using ok assms(3)
    by (cases "owner e"; cases "thread e") (auto simp: Destruct_EventLoopThread_def elt_ok_def)
qed (use assms(2) in simp)

lemma elt_run_ok:
  "elt_ok initCb l e \<Longrightarrow> orderly initCb l xs e \<Longrightarrow> \<exists>e'. elt_run initCb l xs e = Inr e' \<and> elt_ok initCb l e'"
proof (induction xs arbitrary: e)
  case (Cons x xs)
  from elt_step_ok [OF Cons.prems(1), of x] Cons.prems(2) obtain e1 where
    "elt_step initCb l x e = Inr e1" "elt_ok initCb l e1" by auto
  with Cons.IH [of e1] Cons.prems(2) show ?case by simp
qed simp

text \<open>From every such state \<^verbatim>\<open>Run\<close> can return, and a destructor that has been entered can.\<close>

lemma Run_returns:
  assumes ok: "elt_ok initCb l e" and pc: "owner e \<in> {RunTest, RunAsleep}"
  shows "\<exists>xs e'. length xs \<le> 4 \<and> orderly initCb l xs e \<and> elt_run initCb l xs e = Inr e' \<and> owner e' = RunReturned (Some l)"
proof -
  let ?T = ThreadStep and ?O = "OwnerStep False"
  have e: "IoThread e" "\<not> isExit e" "thread e \<in> {BeforeNotify, BeforeLoop, InLoop} \<longrightarrow> elt_loop e = Some l"
    "owner e = RunAsleep \<longrightarrow> thread e \<in> {BeforeInit, BeforePublish, BeforeNotify}"
    using ok pc by (auto simp: elt_ok_def)
  note simps = Run_step_def ThreadFunc_step_def notify_one_def
  consider "thread e = BeforeInit" | "thread e = BeforePublish" | "thread e = BeforeNotify" | "thread e \<in> {BeforeLoop, InLoop}"
    using ok pc by (cases "thread e") (auto simp: elt_ok_def)
  then show ?thesis
  proof cases
    case 1
    with e pc show ?thesis by (intro exI [of _ "[?T, ?T, ?T, ?O]"]) (auto simp: simps)
  next
    case 2
    with e pc show ?thesis by (intro exI [of _ "[?T, ?T, ?O]"]) (auto simp: simps)
  next
    case 3
    with e pc show ?thesis by (intro exI [of _ "[?T, ?O]"]) (auto simp: simps)
  next
    case 4
    with e pc show ?thesis by (intro exI [of _ "[?O]"]) (auto simp: simps)
  qed
qed

lemma destructor_returns:
  assumes ok: "elt_ok initCb l e" and pc: "owner e \<in> {DtorTest, DtorQuit, DtorJoin, DtorMembers}"
  shows "\<exists>xs e'. length xs \<le> 6 \<and> orderly initCb l xs e \<and> elt_run initCb l xs e = Inr e' \<and> owner e' = DtorDone"
proof -
  let ?T = ThreadStep and ?D = DestructStep
  note simps = Destruct_EventLoopThread_def ThreadFunc_step_def
  consider (test) "owner e = DtorTest" "IoThread e" "thread e = InLoop" "elt_loop e = Some l" "\<not> elt_quit e"
    | (unused) "owner e = DtorTest" "\<not> IoThread e" "elt_loop e = None"
    | (quit) "owner e = DtorQuit" "IoThread e" "thread e = InLoop" "\<not> elt_quit e"
    | (members) "owner e = DtorMembers" "IoThread e \<longrightarrow> joined e"
    | (join) "owner e = DtorJoin" "IoThread e" "elt_quit e" "thread e \<in> {InLoop, AfterLoop, ThreadEnded}"
    using ok pc by (auto simp: elt_ok_def)
  then show ?thesis
  proof cases
    case test
    then show ?thesis by (intro exI [of _ "[?D, ?D, ?T, ?T, ?D, ?D]"]) (simp add: simps)
  next
    case unused
    then show ?thesis by (intro exI [of _ "[?D, ?D]"]) (simp add: simps)
  next
    case quit
    then show ?thesis by (intro exI [of _ "[?D, ?T, ?T, ?D, ?D]"]) (simp add: simps)
  next
    case members
    then show ?thesis by (intro exI [of _ "[?D]"]) (auto simp: simps)
  next
    case join
    then consider "thread e = InLoop" | "thread e = AfterLoop" | "thread e = ThreadEnded" by blast
    then show ?thesis
    proof cases
      case 1
      with join show ?thesis by (intro exI [of _ "[?T, ?T, ?D, ?D]"]) (simp add: simps)
    next
      case 2
      with join show ?thesis by (intro exI [of _ "[?T, ?D, ?D]"]) (simp add: simps)
    next
      case 3
      with join show ?thesis by (intro exI [of _ "[?D, ?D]"]) (simp add: simps)
    qed
  qed
qed

section \<open>Properties\<close>

text \<open>C23. A thread with a loop, from \<^verbatim>\<open>Run\<close> to the end of its destructor, in every interleaving in which the
  destructor comes once the loop has been entered, and nobody else tells the loop to quit: nothing fails, \<^verbatim>\<open>Run\<close> returns the loop
  of the thread, for which the init callback has run exactly once; when the destructor is done the thread
  has ended and is joined; and from every state on the way \<^verbatim>\<open>Run\<close> and the destructor can return.\<close>

theorem thread_life:
  assumes "orderly initCb l xs new_EventLoopThread"
  shows "\<exists>e. elt_run initCb l xs new_EventLoopThread = Inr e
    \<and> (\<forall>res. owner e = RunReturned res \<longrightarrow> res = Some l \<and> inits e = (if initCb then [l] else []))
    \<and> (owner e = DtorDone \<and> IoThread e \<longrightarrow> joined e \<and> thread e = ThreadEnded)
    \<and> (owner e \<in> {RunTest, RunAsleep} \<longrightarrow> (\<exists>ys e'. length ys \<le> 4 \<and> elt_run initCb l ys e = Inr e' \<and> owner e' = RunReturned (Some l)))
    \<and> (owner e \<in> {DtorTest, DtorQuit, DtorJoin, DtorMembers} \<longrightarrow>
        (\<exists>ys e'. length ys \<le> 6 \<and> elt_run initCb l ys e = Inr e' \<and> owner e' = DtorDone))"
proof -
  from elt_run_ok [OF elt_ok_new assms] obtain e where
    e: "elt_run initCb l xs new_EventLoopThread = Inr e" and ok: "elt_ok initCb l e" by blast
  have "\<forall>res. owner e = RunReturned res \<longrightarrow> res = Some l \<and> inits e = (if initCb then [l] else [])"
    "owner e = DtorDone \<and> IoThread e \<longrightarrow> joined e \<and> thread e = ThreadEnded"
    using ok by (auto simp: elt_ok_def)
  with e Run_returns [OF ok] destructor_returns [OF ok] show ?thesis by blast
qed

definition whole_life :: "elt_event list" where
  "whole_life = [OwnerStep False, OwnerStep False, ThreadStep, ThreadStep, ThreadStep, OwnerStep False, ThreadStep,
     DestructStep, DestructStep, DestructStep, ThreadStep, ThreadStep, DestructStep, DestructStep]"

theorem thread_life_witness:
  "\<exists>e. elt_run True 3 whole_life new_EventLoopThread = Inr e \<and> owner e = DtorDone \<and> thread e = ThreadEnded \<and> joined e"
proof -
  note simps = whole_life_def new_EventLoopThread_def Run_step_def ThreadFunc_step_def Destruct_EventLoopThread_def notify_one_def
  have o: "orderly True 3 whole_life new_EventLoopThread" by (simp add: simps)
  have r: "\<exists>e. elt_run True 3 whole_life new_EventLoopThread = Inr e \<and> owner e = DtorDone \<and> IoThread e" by (simp add: simps)
  from thread_life [OF o] r show ?thesis by auto
qed

text \<open>A thread destroyed before its loop has been entered: the loop clears the flag when it is entered, so the destructor
  waits in \<^verbatim>\<open>join\<close> for a loop that has not been told to quit, and nothing either of them does changes that.\<close>

lemma destroyed_early_hangs:
  "\<exists>xs e. elt_run initCb l xs new_EventLoopThread = Inr e \<and> LoopQuits \<notin> set xs \<and> owner e = DtorJoin
    \<and> (\<forall>ys. LoopQuits \<notin> set ys \<longrightarrow> elt_run initCb l ys e = Inr e)"
proof -
  let ?xs = "[OwnerStep False, ThreadStep, ThreadStep, OwnerStep False, DestructStep, DestructStep, DestructStep, ThreadStep, ThreadStep]"
  note simps = new_EventLoopThread_def Run_step_def ThreadFunc_step_def Destruct_EventLoopThread_def notify_one_def
  have "\<exists>e. elt_run initCb l ?xs new_EventLoopThread = Inr e \<and> owner e = DtorJoin \<and> thread e = InLoop \<and> \<not> elt_quit e"
    by (simp add: simps)
  then obtain e where e: "elt_run initCb l ?xs new_EventLoopThread = Inr e" "owner e = DtorJoin" "thread e = InLoop" "\<not> elt_quit e"
    by blast
  have "elt_step initCb l y e = Inr e" if "y \<noteq> LoopQuits" for y
    using e(2-4) that by (cases y) (auto simp: Run_step_def ThreadFunc_step_def Destruct_EventLoopThread_def)
  then have "LoopQuits \<notin> set ys \<longrightarrow> elt_run initCb l ys e = Inr e" for ys by (induction ys) auto
  with e show ?thesis by (intro exI [of _ ?xs] exI [of _ e]) simp
qed

text \<open>A loop that a callback of its own tells to quit: depending on how far the thread has come, the destructor fails the
  assertion of \<^verbatim>\<open>Quit\<close>, calls it on a loop that is gone, or skips it and the join, and destroys a thread that was never joined.\<close>

lemma loop_quit_itself:
  "\<exists>xs. elt_run initCb l (xs @ [DestructStep, DestructStep, DestructStep]) new_EventLoopThread = Inl AssertFail
    \<and> elt_run initCb l (xs @ [DestructStep, DestructStep, ThreadStep, ThreadStep, DestructStep]) new_EventLoopThread = Inl UseAfterFree
    \<and> elt_run initCb l (xs @ [ThreadStep, ThreadStep, DestructStep, DestructStep, DestructStep]) new_EventLoopThread = Inl Terminated"
  by (intro exI [of _ "[OwnerStep False, ThreadStep, ThreadStep, OwnerStep False, ThreadStep, ThreadStep, LoopQuits]"])
    (simp add: new_EventLoopThread_def Run_step_def ThreadFunc_step_def Destruct_EventLoopThread_def notify_one_def)

end
