(* ===== verification/EventLoopThreadPool.thy ===== *)
theory EventLoopThreadPool
  imports EventLoopThread
begin

text \<open>
  The I/O threads of a server, \<^verbatim>\<open>EventLoopThreadPool.cpp\<close>, which starts threads with a loop each
  (\<^verbatim>\<open>EventLoopThread\<close>) and hands the loops out in turn. Loops are numbers, 0 is the
  base loop and \<open>Suc i\<close> the loop of the \<open>i\<close>-th thread of the pool. Shown: the init callback is called once for every
  loop, and the pool is a fair chooser of loops, the contract its clients rely on.
\<close>

section \<open>The pool\<close>

record loop_pool =
  poolSize :: nat
  nextLoopIdx :: nat
  started :: bool
  loops :: "nat list"
  initCb :: bool
  init_calls :: "nat list"

definition new_EventLoopThreadPool :: "nat \<Rightarrow> loop_pool" where
  "new_EventLoopThreadPool n = \<lparr>poolSize = n, nextLoopIdx = 0, started = False, loops = [],
     initCb = False, init_calls = []\<rparr>"

definition SetPoolSize :: "nat \<Rightarrow> loop_pool \<Rightarrow> loop_pool" where
  "SetPoolSize n p = p\<lparr>poolSize := n\<rparr>"

definition SetThreadInitCallback :: "bool \<Rightarrow> loop_pool \<Rightarrow> loop_pool" where
  "SetThreadInitCallback cb p = p\<lparr>initCb := cb\<rparr>"

text \<open>The threads are started one after the other; each \<^verbatim>\<open>Run\<close> gives its loop, for which the init callback, if there is
  one, has run (\<open>thread_life\<close>). The calls of the callback are noted in \<open>init_calls\<close>.\<close>

definition call_init :: "nat \<Rightarrow> loop_pool \<Rightarrow> loop_pool" where
  "call_init l p = (if initCb p then p\<lparr>init_calls := init_calls p @ [l]\<rparr> else p)"

fun start_threads :: "nat \<Rightarrow> loop_pool \<Rightarrow> loop_pool" where
  "start_threads 0 p = p"
| "start_threads (Suc n) p = start_threads n
     (let l = Suc (length (loops p)) in call_init l (p\<lparr>loops := loops p @ [l]\<rparr>))"

definition BuildAndRun :: "bool \<Rightarrow> loop_pool \<Rightarrow> loop_pool res" where
  "BuildAndRun inl p = ensure (\<not> started p) (loop_only inl
     (let p1 = start_threads (poolSize p) p
      in ensure (length (loops p1) = poolSize p1) (Inr (let p2 = p1\<lparr>started := True\<rparr>
         in if poolSize p2 = 0 then call_init 0 p2 else p2))))"

definition GetNextLoop :: "bool \<Rightarrow> loop_pool \<Rightarrow> (nat \<times> loop_pool) res" where
  "GetNextLoop inl p = loop_only inl (ensure (started p)
     (if loops p \<noteq> []
      then ensure (nextLoopIdx p < poolSize p)
        (if length (loops p) \<le> nextLoopIdx p then Inl OutOfBounds
         else let result = loops p ! nextLoopIdx p; i = nextLoopIdx p + 1
              in Inr (result, p\<lparr>nextLoopIdx := if length (loops p) \<le> i then 0 else i\<rparr>))
      else Inr (0, p)))"

definition pool_ready :: "loop_pool \<Rightarrow> bool" where
  "pool_ready p \<longleftrightarrow> started p \<and> length (loops p) = poolSize p \<and> (loops p \<noteq> [] \<longrightarrow> nextLoopIdx p < poolSize p)"

definition loop_choices :: "loop_pool \<Rightarrow> nat list" where
  "loop_choices p = (if loops p = [] then [0] else loops p)"

lemma call_init_simps [simp]: "poolSize (call_init l p) = poolSize p" "nextLoopIdx (call_init l p) = nextLoopIdx p"
  "started (call_init l p) = started p" "loops (call_init l p) = loops p" "initCb (call_init l p) = initCb p"
  "init_calls (call_init l p) = init_calls p @ (if initCb p then [l] else [])"
  by (simp_all add: call_init_def)

lemma start_threads_eq:
  "start_threads n p = (let ls = map Suc [length (loops p) ..< length (loops p) + n]
     in p\<lparr>loops := loops p @ ls, init_calls := init_calls p @ (if initCb p then ls else [])\<rparr>)"
  by (induction n p rule: start_threads.induct) (auto simp: upt_rec call_init_def Let_def)

lemma BuildAndRun_ready:
  assumes "\<not> started p" and "loops p = []" and "nextLoopIdx p = 0"
  shows "\<exists>p'. BuildAndRun True p = Inr p' \<and> pool_ready p' \<and> loops p' = map Suc [0 ..< poolSize p] \<and> poolSize p' = poolSize p
    \<and> nextLoopIdx p' = 0 \<and> init_calls p' = init_calls p @ (if initCb p then loop_choices p' else [])"
  using assms by (auto simp: BuildAndRun_def start_threads_eq pool_ready_def loop_choices_def Let_def)

section \<open>What a client of the pool relies on\<close>

text \<open>A chooser of loops: it always has an answer, the answer is one of its fixed choices, and
  the position of the next answer moves on by one, round the choices.\<close>

locale loop_chooser =
  fixes ok :: "'p \<Rightarrow> bool" and choices :: "'p \<Rightarrow> nat list" and position :: "'p \<Rightarrow> nat"
    and pick :: "'p \<Rightarrow> (nat \<times> 'p) res"
  assumes nonempty: "ok p \<Longrightarrow> choices p \<noteq> []"
    and in_range: "ok p \<Longrightarrow> position p < length (choices p)"
    and pick_law: "ok p \<Longrightarrow> \<exists>p'. pick p = Inr (choices p ! position p, p') \<and> ok p'
      \<and> choices p' = choices p \<and> position p' = Suc (position p) mod length (choices p)"
begin

fun pick_many :: "nat \<Rightarrow> 'p \<Rightarrow> (nat list \<times> 'p) res" where
  "pick_many 0 p = Inr ([], p)"
| "pick_many (Suc n) p = bindR (pick p) (\<lambda>(l, p1). mapR (\<lambda>(ls, p2). (l # ls, p2)) (pick_many n p1))"

lemma pick_Inr:
  assumes "ok p" and "pick p = Inr (l, p')"
  shows "l \<in> set (choices p)" "l = choices p ! position p" "ok p'" "choices p' = choices p"
    "position p' = Suc (position p) mod length (choices p)"
  using pick_law [OF assms(1)] in_range [OF assms(1)] assms(2) by auto

lemma pick_total:
  assumes "ok p" obtains l p' where "pick p = Inr (l, p')" "ok p'"
  using pick_law [OF assms] by blast

text \<open>The k-th answer is the k-th choice from the position, round and round.\<close>

lemma pick_many_round_robin:
  "ok p \<Longrightarrow> \<exists>p'. pick_many n p
     = Inr (map (\<lambda>k. choices p ! ((position p + k) mod length (choices p))) [0 ..< n], p') \<and> ok p'"
proof (induction n arbitrary: p)
  case (Suc n)
  from pick_law [OF Suc.prems] obtain p1 where
    p1: "pick p = Inr (choices p ! position p, p1)" "ok p1" "choices p1 = choices p"
      "position p1 = Suc (position p) mod length (choices p)" by blast
  from Suc.IH [OF p1(2)] obtain p' where
    p': "pick_many n p1
      = Inr (map (\<lambda>k. choices p1 ! ((position p1 + k) mod length (choices p1))) [0 ..< n], p')" "ok p'"
    by blast
  let ?f = "\<lambda>q k. choices q ! ((position q + k) mod length (choices q))"
  have "map (?f p) [0 ..< Suc n] = ?f p 0 # map (\<lambda>k. ?f p (Suc k)) [0 ..< n]"
    by (simp add: upt_conv_Cons map_Suc_upt [symmetric] comp_def del: upt_Suc)
  moreover have "?f p (Suc k) = ?f p1 k" for k
    using p1(3,4) by (simp add: mod_simps)
  moreover have "?f p 0 = choices p ! position p" using in_range [OF Suc.prems] by simp
  ultimately have "map (?f p) [0 ..< Suc n] = choices p ! position p # map (?f p1) [0 ..< n]" by simp
  with p1(1) p' show ?case by simp
qed simp

end

definition next_position :: "loop_pool \<Rightarrow> nat" where
  "next_position p = (if loops p = [] then 0 else nextLoopIdx p)"

interpretation pool_chooser: loop_chooser pool_ready loop_choices next_position "GetNextLoop True"
proof
  fix p assume "pool_ready p"
  then show "loop_choices p \<noteq> []" "next_position p < length (loop_choices p)"
    by (auto simp: pool_ready_def loop_choices_def next_position_def)
next
  fix p assume ok: "pool_ready p"
  show "\<exists>p'. GetNextLoop True p = Inr (loop_choices p ! next_position p, p') \<and> pool_ready p'
      \<and> loop_choices p' = loop_choices p \<and> next_position p' = Suc (next_position p) mod length (loop_choices p)"
  proof (cases "loops p = []")
    case False
    with ok have "nextLoopIdx p < poolSize p" "length (loops p) = poolSize p" by (auto simp: pool_ready_def)
    with ok False show ?thesis
      by (auto simp: GetNextLoop_def Let_def pool_ready_def loop_choices_def next_position_def mod_Suc)
  qed (use ok in \<open>auto simp: GetNextLoop_def pool_ready_def loop_choices_def next_position_def\<close>)
qed

lemma loop_choices_range: "pool_ready p \<Longrightarrow> loops p = map Suc [0 ..< poolSize p] \<Longrightarrow>
   l \<in> set (loop_choices p) \<Longrightarrow> l \<le> poolSize p"
  by (auto simp: loop_choices_def split: if_splits)

text \<open>The size must not be changed once the pool runs: a smaller one fails the assertion.\<close>

lemma SetPoolSize_after_start:
  "pool_ready p \<Longrightarrow> loops p \<noteq> [] \<Longrightarrow> n \<le> nextLoopIdx p \<Longrightarrow>
   GetNextLoop True (SetPoolSize n p) = Inl AssertFail"
  by (simp add: GetNextLoop_def SetPoolSize_def pool_ready_def)

end
