(* ===== verification/TcpServer.thy ===== *)
theory TcpServer
  imports TcpConnection EventLoopThreadPool
begin

text \<open>
  The class \<^verbatim>\<open>TcpServer\<close> of \<^verbatim>\<open>TcpServer.cpp\<close> over its parts: the acceptor
  (\<^verbatim>\<open>Acceptor.cpp\<close>), the pool of I/O loops and the life of its connections, which is the
  projection \<open>conn_life\<close> of the model of \<^verbatim>\<open>TcpConnection\<close>. Every loop has its queue of tasks, loop
  and thread \<open>0\<close> are the base ones, and a run is a list of events: a connection accepted, a loop
  running its next task, a peer closing, a user shutting down, a call of \<^verbatim>\<open>ListenAndServe\<close>. Shown:
  in every run no assertion fails and every connection goes once through its life, in step with the
  list of connections and the tasks under way; connections have distinct names and are dealt
  out round robin; destroying the server while a connection is closing uses it afterwards.
\<close>

section \<open>The life of a connection\<close>

text \<open>The state, whether the poller watches the channel, whether it has an entry of it.\<close>

record conn_life =
  lf_state :: conn_state
  lf_watch :: bool
  lf_added :: bool

definition life_of :: "tcp_conn \<Rightarrow> conn_life" where
  "life_of c = (let e = interest (poll c) (ch_fd (conn_ch c)) in
     \<lparr>lf_state = state c, lf_watch = (case e of None \<Rightarrow> False | Some (w, ev) \<Rightarrow> w),
       lf_added = (case e of None \<Rightarrow> False | Some x \<Rightarrow> True)\<rparr>)"

definition new_life :: conn_life where
  "new_life = \<lparr>lf_state = Connecting, lf_watch = False, lf_added = False\<rparr>"

definition life_establish :: "conn_life \<Rightarrow> conn_life res" where
  "life_establish f = ensure (lf_state f = Connecting)
     (Inr (f\<lparr>lf_state := Connected, lf_watch := True, lf_added := True\<rparr>))"

definition life_shutdown :: "conn_life \<Rightarrow> conn_life res" where
  "life_shutdown f = Inr (if lf_state f = Connected then f\<lparr>lf_state := Disconnecting\<rparr> else f)"

definition life_close :: "conn_life \<Rightarrow> conn_life res" where
  "life_close f = ensure (lf_state f = Connected \<or> lf_state f = Disconnecting)
     (Inr (f\<lparr>lf_state := Disconnected, lf_watch := False\<rparr>))"

definition life_destroy :: "conn_life \<Rightarrow> conn_life res" where
  "life_destroy f =
     (let f1 = (if lf_state f = Connected then f\<lparr>lf_state := Disconnected, lf_watch := False\<rparr> else f)
      in ensure (\<not> lf_watch f1 \<and> lf_added f1) (Inr (f1\<lparr>lf_added := False\<rparr>)))"

lemmas life_ops = life_establish_def life_shutdown_def life_close_def life_destroy_def

lemma life_of_fresh: "conn_fresh c \<Longrightarrow> life_of c = new_life"
  by (simp add: life_of_def new_life_def conn_fresh_def interest_def)

lemma life_of_ok: "conn_ok c \<Longrightarrow> life_of c = \<lparr>lf_state = state c, lf_watch = True, lf_added = True\<rparr>"
  by (simp add: life_of_def conn_ok_def)

lemma life_of_closed: "conn_closed c \<Longrightarrow> life_of c = \<lparr>lf_state = Disconnected, lf_watch = False, lf_added = True\<rparr>"
  by (simp add: life_of_def conn_closed_def)

lemma life_of_gone:
  "state c = Disconnected \<Longrightarrow> ch_fd (conn_ch c) = fd \<Longrightarrow> interest (poll c) = m(fd := None) \<Longrightarrow>
   life_of c = \<lparr>lf_state = Disconnected, lf_watch = False, lf_added = False\<rparr>"
  by (simp add: life_of_def)

text \<open>The model of the connection implements its life.\<close>

lemma establish_life:
  "conn_fresh c \<Longrightarrow> mapR life_of (StepIntoEstablished True quiet c) = life_establish (life_of c)"
  using established_ok [of c] life_of_ok by (auto simp: life_of_fresh life_establish_def new_life_def)

lemma shutdown_life: "conn_ok c \<Longrightarrow> mapR life_of (Shutdown True c) = life_shutdown (life_of c)"
  by (simp add: life_of_ok Shutdown_def ShutdownInLoop_def life_shutdown_def Let_def)
    (simp add: life_of_def conn_ok_def)

lemma close_life: "conn_ok c \<Longrightarrow> mapR life_of (HandleClose True quiet c) = life_close (life_of c)"
  using close_conn_ok [of c] life_of_closed by (auto simp: life_of_ok life_close_def conn_ok_def conn_live_def)

lemma destroy_life:
  assumes "conn_ok c \<or> conn_closed c"
  shows "mapR life_of (StepIntoDestroyed True quiet c) = life_destroy (life_of c)"
proof (cases "conn_closed c")
  case True
  then show ?thesis using destroy_closed_ok [OF True] life_of_gone
    by (auto simp: life_of_closed life_destroy_def)
next
  case False
  with assms have ok: "conn_ok c" by simp
  then have "state c = Connected \<or> state c = Disconnecting" by (simp add: conn_ok_def conn_live_def)
  then show ?thesis
  proof
    assume st: "state c = Connected"
    with destroy_connected_ok [OF ok] life_of_gone show ?thesis
      by (auto simp: life_of_ok [OF ok] life_destroy_def)
  next
    assume "state c = Disconnecting"
    with destroy_disconnecting_fails [OF ok] show ?thesis
      by (simp add: life_of_ok [OF ok] life_destroy_def)
  qed
qed

section \<open>The acceptor\<close>

text \<open>What \<^verbatim>\<open>accept(2)\<close> and \<^verbatim>\<open>open(2)\<close> answer is an argument: the descriptor or \<open>-1\<close>, and
  \<^verbatim>\<open>errno\<close>. \<open>acc_closed\<close> is the descriptors the acceptor has closed.\<close>

record acceptor =
  acc_listening :: bool
  acc_reading :: bool
  idleFd :: int
  has_newConn :: bool
  acc_closed :: "int list"

definition EMFILE :: int where "EMFILE = 24"

definition Listen :: "bool \<Rightarrow> acceptor \<Rightarrow> acceptor res" where
  "Listen inl a = loop_only inl
     (Inr (if \<not> acc_listening a then a\<lparr>acc_listening := True, acc_reading := True\<rparr> else a))"

definition acc_close :: "int \<Rightarrow> acceptor \<Rightarrow> acceptor" where
  "acc_close fd a = a\<lparr>acc_closed := acc_closed a @ [fd]\<rparr>"

text \<open>The descriptor to be handed to the callback, if there is one.\<close>

definition Acceptor_HandleNewConnection ::
    "bool \<Rightarrow> int \<times> int \<Rightarrow> int \<Rightarrow> int \<Rightarrow> acceptor \<Rightarrow> (int option \<times> acceptor) res" where
  "Acceptor_HandleNewConnection inl k second reopened a = loop_only inl
     (case k of (connfd, errno) \<Rightarrow>
        if 0 \<le> connfd
        then if has_newConn a then Inr (Some connfd, a) else Inr (None, acc_close connfd a)
        else if errno = EMFILE
        then let a1 = acc_close (idleFd a) a; a2 = acc_close second (a1\<lparr>idleFd := second\<rparr>)
             in Inr (None, a2\<lparr>idleFd := reopened\<rparr>)
        else Inr (None, a))"

definition Destruct_Acceptor :: "acceptor \<Rightarrow> acceptor" where
  "Destruct_Acceptor a = (if acc_listening a then a\<lparr>acc_reading := False\<rparr> else a)"

text \<open>Out of descriptors, the waiting connection is taken with the reserved one and closed, and
  the reserve is renewed: as many descriptors are open as before.\<close>

lemma accept_exhausted:
  "Acceptor_HandleNewConnection True (-1, EMFILE) second reopened a
     = Inr (None, a\<lparr>idleFd := reopened, acc_closed := acc_closed a @ [idleFd a, second]\<rparr>)"
  by (simp add: Acceptor_HandleNewConnection_def acc_close_def Let_def)

lemma accept_no_callback:
  "0 \<le> fd \<Longrightarrow> \<not> has_newConn a \<Longrightarrow>
   Acceptor_HandleNewConnection True (fd, e) second reopened a = Inr (None, acc_close fd a)"
  by (simp add: Acceptor_HandleNewConnection_def)

section \<open>The server\<close>

record srv_conn =
  sc_name :: string
  sc_loop :: nat
  sc_life :: conn_life
  sc_ups :: nat
  sc_downs :: nat

datatype srv_task = BuildTask | ListenTask | EstablishTask nat | RemoveTask nat | DestroyTask nat

text \<open>\<open>objs\<close> is the connections ever made, a connection is its position there; \<open>conns\<close> is the
  list of connections of the server, \<open>pending\<close> the task queues of the loops. \<open>alive\<close> ends
  with the destructor. \<open>sc_ups\<close> and \<open>sc_downs\<close> count the calls of the connection callback.\<close>

record server =
  srv_name :: string
  conns :: "string \<Rightarrow> nat option"
  serving :: bool
  nextConnID :: nat
  pool :: loop_pool
  acc :: acceptor
  objs :: "srv_conn list"
  pending :: "nat \<Rightarrow> srv_task list"
  alive :: bool

definition new_TcpServer :: "string \<Rightarrow> nat \<Rightarrow> int \<Rightarrow> server" where
  "new_TcpServer nm io_threads idle = \<lparr>srv_name = nm, conns = Map.empty, serving = False, nextConnID = 0,
     pool = new_EventLoopThreadPool io_threads,
     acc = \<lparr>acc_listening = False, acc_reading = False, idleFd = idle, has_newConn = True, acc_closed = []\<rparr>,
     objs = [], pending = (\<lambda>l. []), alive = True\<rparr>"

text \<open>\<^verbatim>\<open>RunInEventLoop\<close>: thread \<open>t\<close> gives a task to loop \<open>l\<close>, at once when it is its own.\<close>

definition run_in_loop :: "nat \<Rightarrow> nat \<Rightarrow> srv_task \<Rightarrow> (server \<Rightarrow> server res) \<Rightarrow> server \<Rightarrow> server res" where
  "run_in_loop t l task now s =
     (if t = l then now s else Inr (s\<lparr>pending := (pending s)(l := pending s l @ [task])\<rparr>))"

definition on_life :: "(conn_life \<Rightarrow> conn_life res) \<Rightarrow> nat \<Rightarrow> server \<Rightarrow> server res" where
  "on_life f c s = mapR (\<lambda>g. s\<lparr>objs := (objs s)[c := (objs s ! c)\<lparr>sc_life := g\<rparr>]\<rparr>) (f (sc_life (objs s ! c)))"

definition conn_up :: "nat \<Rightarrow> server \<Rightarrow> server" where
  "conn_up c s = s\<lparr>objs := (objs s)[c := (objs s ! c)\<lparr>sc_ups := sc_ups (objs s ! c) + 1\<rparr>]\<rparr>"

definition conn_down :: "nat \<Rightarrow> server \<Rightarrow> server" where
  "conn_down c s = s\<lparr>objs := (objs s)[c := (objs s ! c)\<lparr>sc_downs := sc_downs (objs s ! c) + 1\<rparr>]\<rparr>"

definition Establish :: "nat \<Rightarrow> nat \<Rightarrow> server \<Rightarrow> server res" where
  "Establish t c s = loop_only (t = sc_loop (objs s ! c))
     (mapR (conn_up c) (on_life life_establish c s))"

definition Destroy :: "nat \<Rightarrow> nat \<Rightarrow> server \<Rightarrow> server res" where
  "Destroy t c s = loop_only (t = sc_loop (objs s ! c))
     (mapR (conn_down c) (on_life life_destroy c s))"

definition conn_name :: "server \<Rightarrow> string \<Rightarrow> string" where
  "conn_name s ipport = srv_name s @ ipport @ ''@'' @ to_string (nextConnID s)"

definition HandleNewConnection :: "nat \<Rightarrow> string \<Rightarrow> server \<Rightarrow> server res" where
  "HandleNewConnection t ipport s = loop_only (t = 0)
     (let nm = conn_name s ipport; s1 = s\<lparr>nextConnID := (nextConnID s + 1) mod 2 ^ 64\<rparr>
      in bindR (GetNextLoop (t = 0) (pool s1)) (\<lambda>(l, p).
           let c = length (objs s1);
               s2 = s1\<lparr>pool := p, conns := (conns s1)(nm := Some c),
                 objs := objs s1 @ [\<lparr>sc_name = nm, sc_loop = l, sc_life = new_life, sc_ups = 0, sc_downs = 0\<rparr>]\<rparr>
           in run_in_loop t l (EstablishTask c) (Establish t c) s2))"

definition RemoveConnectionInLoop :: "nat \<Rightarrow> nat \<Rightarrow> server \<Rightarrow> server res" where
  "RemoveConnectionInLoop t c s =
     (if \<not> alive s then Inl UseAfterFree
      else loop_only (t = 0) (ensure (conns s (sc_name (objs s ! c)) \<noteq> None)
        (let s1 = s\<lparr>conns := (conns s)(sc_name (objs s ! c) := None)\<rparr>
         in run_in_loop t (sc_loop (objs s1 ! c)) (DestroyTask c) (Destroy t c) s1)))"

definition RemoveConnection :: "nat \<Rightarrow> nat \<Rightarrow> server \<Rightarrow> server res" where
  "RemoveConnection t c s =
     (if \<not> alive s then Inl UseAfterFree
      else run_in_loop t 0 (RemoveTask c) (RemoveConnectionInLoop t c) s)"

text \<open>\<^verbatim>\<open>TcpConnection::HandleClose\<close>, whose close callback is \<^verbatim>\<open>RemoveConnection\<close> of the server.\<close>

definition CloseConnection :: "nat \<Rightarrow> nat \<Rightarrow> server \<Rightarrow> server res" where
  "CloseConnection t c s = loop_only (t = sc_loop (objs s ! c))
     (bindR (on_life life_close c s) (RemoveConnection t c))"

definition run_Listen :: "nat \<Rightarrow> server \<Rightarrow> server res" where
  "run_Listen t s = mapR (\<lambda>a. s\<lparr>acc := a\<rparr>) (Listen (t = 0) (acc s))"

definition run_Build :: "nat \<Rightarrow> server \<Rightarrow> server res" where
  "run_Build t s = mapR (\<lambda>p. s\<lparr>pool := p\<rparr>) (BuildAndRun (t = 0) (pool s))"

definition ListenAndServe :: "nat \<Rightarrow> server \<Rightarrow> server res" where
  "ListenAndServe t s =
     (if serving s then Inr s
      else bindR (run_in_loop t 0 BuildTask (run_Build t) (s\<lparr>serving := True\<rparr>))
             (run_in_loop t 0 ListenTask (run_Listen t)))"

definition SetIoThreadNum :: "int \<Rightarrow> server \<Rightarrow> server res" where
  "SetIoThreadNum n s = ensure (0 \<le> n) (Inr (s\<lparr>pool := SetPoolSize (nat n) (pool s)\<rparr>))"

definition SetIothreadInitCallback :: "bool \<Rightarrow> server \<Rightarrow> server" where
  "SetIothreadInitCallback cb s = s\<lparr>pool := SetThreadInitCallback cb (pool s)\<rparr>"

fun run_srv_task :: "nat \<Rightarrow> srv_task \<Rightarrow> server \<Rightarrow> server res" where
  "run_srv_task t BuildTask s = run_Build t s"
| "run_srv_task t ListenTask s = run_Listen t s"
| "run_srv_task t (EstablishTask c) s = Establish t c s"
| "run_srv_task t (RemoveTask c) s = RemoveConnectionInLoop t c s"
| "run_srv_task t (DestroyTask c) s = Destroy t c s"

text \<open>Loop \<open>l\<close> runs the first task of its queue.\<close>

definition run_next :: "nat \<Rightarrow> server \<Rightarrow> server res" where
  "run_next l s = (case pending s l of
       [] \<Rightarrow> Inr s
     | task # ts \<Rightarrow> run_srv_task l task (s\<lparr>pending := (pending s)(l := ts)\<rparr>))"

text \<open>The body of the destructor; \<open>order\<close> is the order in which the list is walked.\<close>

fun destroy_conns :: "nat \<Rightarrow> nat list \<Rightarrow> server \<Rightarrow> server res" where
  "destroy_conns t [] s = Inr s"
| "destroy_conns t (c # cs) s =
     bindR (run_in_loop t (sc_loop (objs s ! c)) (DestroyTask c) (Destroy t c) s) (destroy_conns t cs)"

definition Destruct_TcpServer :: "nat \<Rightarrow> nat list \<Rightarrow> server \<Rightarrow> server res" where
  "Destruct_TcpServer t order s = loop_only (t = 0)
     (mapR (\<lambda>s1. s1\<lparr>alive := False, conns := Map.empty, acc := Destruct_Acceptor (acc s1)\<rparr>)
        (destroy_conns t order s))"

section \<open>Runs\<close>

datatype srv_event = Accepted "int \<times> int" int int string | RunTask nat | PeerClosed nat | UserShutdown nat | Serve nat

fun srv_step :: "srv_event \<Rightarrow> server \<Rightarrow> server res" where
  "srv_step (Accepted k second reopened ipport) s =
     (if acc_reading (acc s)
      then bindR (Acceptor_HandleNewConnection True k second reopened (acc s)) (\<lambda>(fd, a).
        case fd of None \<Rightarrow> Inr (s\<lparr>acc := a\<rparr>) | Some connfd \<Rightarrow> HandleNewConnection 0 ipport (s\<lparr>acc := a\<rparr>))
      else Inr s)"
| "srv_step (RunTask l) s = run_next l s"
| "srv_step (PeerClosed c) s =
     (if c < length (objs s) \<and> lf_watch (sc_life (objs s ! c))
      then CloseConnection (sc_loop (objs s ! c)) c s else Inr s)"
| "srv_step (UserShutdown c) s =
     (if c < length (objs s) then on_life life_shutdown c s else Inr s)"
| "srv_step (Serve t) s = ListenAndServe t s"

fun srv_run :: "srv_event list \<Rightarrow> server \<Rightarrow> server res" where
  "srv_run [] s = Inr s"
| "srv_run (e # es) s = bindR (srv_step e s) (srv_run es)"

section \<open>The invariant\<close>

fun conn_of :: "srv_task \<Rightarrow> nat option" where
  "conn_of (EstablishTask c) = Some c"
| "conn_of (RemoveTask c) = Some c"
| "conn_of (DestroyTask c) = Some c"
| "conn_of _ = None"

text \<open>The queued tasks about one connection, or about the server.\<close>

definition tasks_in :: "(nat \<Rightarrow> srv_task list) \<Rightarrow> nat option \<Rightarrow> nat \<Rightarrow> srv_task list" where
  "tasks_in q k l = filter (\<lambda>t. conn_of t = k) (q l)"

definition in_map :: "server \<Rightarrow> nat \<Rightarrow> bool" where
  "in_map s c \<longleftrightarrow> conns s (sc_name (objs s ! c)) = Some c"

text \<open>The one task a connection waits for, by its state.\<close>

definition expected :: "srv_conn \<Rightarrow> bool \<Rightarrow> nat \<Rightarrow> nat \<Rightarrow> srv_task list" where
  "expected x listed c l = (case lf_state (sc_life x) of
       Connecting \<Rightarrow> if l = sc_loop x then [EstablishTask c] else []
     | Disconnected \<Rightarrow>
         if listed then (if l = 0 then [RemoveTask c] else [])
         else if lf_added (sc_life x) \<and> l = sc_loop x then [DestroyTask c] else []
     | _ \<Rightarrow> [])"

definition conn_phase :: "srv_conn \<Rightarrow> bool \<Rightarrow> bool" where
  "conn_phase x listed \<longleftrightarrow> (case lf_state (sc_life x) of
       Connecting \<Rightarrow> listed \<and> \<not> lf_watch (sc_life x) \<and> \<not> lf_added (sc_life x)
         \<and> sc_ups x = 0 \<and> sc_downs x = 0
     | Disconnected \<Rightarrow> \<not> lf_watch (sc_life x) \<and> (listed \<longrightarrow> lf_added (sc_life x)) \<and> sc_ups x = 1
         \<and> sc_downs x = (if lf_added (sc_life x) then 0 else 1)
     | _ \<Rightarrow> listed \<and> lf_watch (sc_life x) \<and> lf_added (sc_life x) \<and> sc_ups x = 1 \<and> sc_downs x = 0)"

definition conn_inv :: "server \<Rightarrow> nat \<Rightarrow> bool" where
  "conn_inv s c \<longleftrightarrow> conn_phase (objs s ! c) (in_map s c)
     \<and> (\<forall>l. tasks_in (pending s) (Some c) l = expected (objs s ! c) (in_map s c) c l)"

text \<open>\<open>ListenAndServe\<close> builds the pool, then listens.\<close>

definition serve_inv :: "server \<Rightarrow> bool" where
  "serve_inv s \<longleftrightarrow> acc_reading (acc s) = acc_listening (acc s) \<and> has_newConn (acc s)
     \<and> (started (pool s) \<longrightarrow> serving s \<and> pool_ready (pool s)) \<and> (acc_listening (acc s) \<longrightarrow> started (pool s))
     \<and> (\<not> started (pool s) \<longrightarrow> loops (pool s) = [] \<and> nextLoopIdx (pool s) = 0 \<and> objs s = [])
     \<and> (\<forall>l. tasks_in (pending s) None l =
          (if l \<noteq> 0 \<or> \<not> serving s then [] else if \<not> started (pool s) then [BuildTask, ListenTask]
           else if \<not> acc_listening (acc s) then [ListenTask] else []))"

definition names_inv :: "server \<Rightarrow> bool" where
  "names_inv s \<longleftrightarrow> nextConnID s = length (objs s) mod 2 ^ 64
     \<and> (\<forall>c < length (objs s). \<exists>ipport. sc_name (objs s ! c) = srv_name s @ ipport @ ''@'' @ to_string c)
     \<and> (\<forall>nm c. conns s nm = Some c \<longrightarrow> c < length (objs s) \<and> sc_name (objs s ! c) = nm)"

definition robin_inv :: "server \<Rightarrow> bool" where
  "robin_inv s \<longleftrightarrow> (let ch = loop_choices (pool s) in
     (started (pool s) \<longrightarrow> next_position (pool s) = length (objs s) mod length ch)
     \<and> (\<forall>c < length (objs s). sc_loop (objs s ! c) = ch ! (c mod length ch)))"

definition srv_ok :: "server \<Rightarrow> bool" where
  "srv_ok s \<longleftrightarrow> alive s \<and> serve_inv s \<and> names_inv s \<and> robin_inv s
     \<and> (\<forall>c < length (objs s). conn_inv s c)
     \<and> (\<forall>d l. length (objs s) \<le> d \<longrightarrow> tasks_in (pending s) (Some d) l = [])"

lemma srv_ok_new [simp]: "srv_ok (new_TcpServer nm n idle)"
  by (simp add: srv_ok_def new_TcpServer_def serve_inv_def names_inv_def robin_inv_def tasks_in_def
      new_EventLoopThreadPool_def Let_def)

lemma tasks_in_enqueue [simp]:
  "tasks_in (q(l := q l @ [t])) k l' = tasks_in q k l' @ (if l' = l \<and> conn_of t = k then [t] else [])"
  by (simp add: tasks_in_def)

lemma tasks_in_next:
  "q l = t # ts \<Longrightarrow>
   tasks_in q k l' = (if l' = l \<and> conn_of t = k then [t] else []) @ tasks_in (q(l := ts)) k l'"
  by (simp add: tasks_in_def)

text \<open>Names are distinct: the last \<open>@\<close> is followed by the number.\<close>

lemma name_number:
  "pre @ ''@'' @ to_string i = pre' @ ''@'' @ to_string j \<Longrightarrow> i = j"
proof -
  assume eq: "pre @ ''@'' @ to_string i = pre' @ ''@'' @ to_string j"
  have no: "CHR ''@'' \<notin> set (rev (to_string k))" for k
  proof
    assume "CHR ''@'' \<in> set (rev (to_string k))"
    then have "(of_char (CHR ''@'') :: nat) \<in> {48 ..< 58}" by (auto dest: to_string_digits)
    then show False by simp
  qed
  have cut: "takeWhile (\<lambda>ch. ch \<noteq> CHR ''@'') (rev (p @ ''@'' @ to_string k)) = rev (to_string k)" for p k
  proof -
    have "takeWhile (\<lambda>ch. ch \<noteq> CHR ''@'') (rev (to_string k) @ CHR ''@'' # rev p) = rev (to_string k)"
      using no [of k] by (subst takeWhile_append2) auto
    then show ?thesis by simp
  qed
  have "rev (to_string i) = rev (to_string j)" using cut [of pre i] cut [of pre' j] eq by metis
  then show ?thesis by simp
qed

lemma names_distinct:
  assumes "names_inv s" and "c < length (objs s)" "d < length (objs s)"
    and "sc_name (objs s ! c) = sc_name (objs s ! d)"
  shows "c = d"
proof -
  obtain i j where "sc_name (objs s ! c) = srv_name s @ i @ ''@'' @ to_string c"
    "sc_name (objs s ! d) = srv_name s @ j @ ''@'' @ to_string d"
    using assms unfolding names_inv_def by blast
  then have "(srv_name s @ i) @ ''@'' @ to_string c = (srv_name s @ j) @ ''@'' @ to_string d"
    using assms(4) by simp
  then show ?thesis by (rule name_number)
qed

section \<open>Every event keeps the invariant\<close>

text \<open>An operation on one connection: what it may change of the server.\<close>

definition touches :: "nat \<Rightarrow> server \<Rightarrow> server \<Rightarrow> bool" where
  "touches c s s' \<longleftrightarrow> (\<exists>x. objs s' = (objs s)[c := x] \<and> sc_name x = sc_name (objs s ! c) \<and> sc_loop x = sc_loop (objs s ! c))
     \<and> (\<forall>k l. k \<noteq> Some c \<longrightarrow> tasks_in (pending s') k l = tasks_in (pending s) k l)
     \<and> (\<forall>nm. nm \<noteq> sc_name (objs s ! c) \<longrightarrow> conns s' nm = conns s nm)
     \<and> (conns s' (sc_name (objs s ! c)) \<in> {None, Some c})
     \<and> srv_name s' = srv_name s \<and> serving s' = serving s \<and> nextConnID s' = nextConnID s \<and> pool s' = pool s
     \<and> acc s' = acc s \<and> alive s' = alive s"

lemma touches_ok:
  assumes ok: "srv_ok s" and c: "c < length (objs s)" and t: "touches c s s'" and inv: "conn_inv s' c"
  shows "srv_ok s'"
proof -
  obtain x where x: "objs s' = (objs s)[c := x]" "sc_name x = sc_name (objs s ! c)" "sc_loop x = sc_loop (objs s ! c)"
    using t unfolding touches_def by blast
  have len: "length (objs s') = length (objs s)" using x by simp
  have nm: "sc_name (objs s' ! d) = sc_name (objs s ! d)" "sc_loop (objs s' ! d) = sc_loop (objs s ! d)" for d
    using x c by (cases "d = c"; simp)+
  have names: "names_inv s" using ok by (simp add: srv_ok_def)
  have others: "conn_inv s' d" if "d < length (objs s)" "d \<noteq> c" for d
  proof -
    have "sc_name (objs s ! d) \<noteq> sc_name (objs s ! c)" using names_distinct [OF names that(1) c] that(2) by blast
    then have "in_map s' d = in_map s d" using t by (simp add: in_map_def nm touches_def)
    moreover have "objs s' ! d = objs s ! d" using x that by simp
    moreover have "tasks_in (pending s') (Some d) l = tasks_in (pending s) (Some d) l" for l
      using t that by (simp add: touches_def)
    moreover have "conn_inv s d" using ok that by (simp add: srv_ok_def)
    ultimately show ?thesis by (simp add: conn_inv_def)
  qed
  have "names_inv s'"
  proof -
    have "d < length (objs s) \<and> sc_name (objs s ! d) = n" if "conns s' n = Some d" for n d
      using that t names c by (cases "n = sc_name (objs s ! c)") (auto simp: touches_def names_inv_def)
    moreover have "srv_name s' = srv_name s" "nextConnID s' = nextConnID s" using t by (simp_all add: touches_def)
    ultimately show ?thesis using names by (simp add: names_inv_def len nm)
  qed
  moreover have "serve_inv s'"
    using ok t x(1) by (simp add: srv_ok_def serve_inv_def touches_def)
  moreover have "robin_inv s'" using ok t by (simp add: srv_ok_def robin_inv_def touches_def len nm Let_def)
  moreover have "alive s'" using ok t by (simp add: srv_ok_def touches_def)
  moreover have "tasks_in (pending s') (Some d) l = []" if "length (objs s) \<le> d" for d l
    using ok t c that by (auto simp: srv_ok_def touches_def)
  ultimately show ?thesis using others inv len by (auto simp: srv_ok_def)
qed

lemma touches_trans:
  assumes "c < length (objs s)" and t1: "touches c s s1" and t2: "touches c s1 s2"
  shows "touches c s s2"
proof -
  obtain x y where x: "objs s1 = (objs s)[c := x]" "sc_name x = sc_name (objs s ! c)" "sc_loop x = sc_loop (objs s ! c)"
    and y: "objs s2 = (objs s1)[c := y]" "sc_name y = sc_name (objs s1 ! c)" "sc_loop y = sc_loop (objs s1 ! c)"
    using t1 t2 unfolding touches_def by blast
  have s1c: "sc_name (objs s1 ! c) = sc_name (objs s ! c)" "sc_loop (objs s1 ! c) = sc_loop (objs s ! c)"
    using x assms(1) by simp_all
  have "objs s2 = (objs s)[c := y] \<and> sc_name y = sc_name (objs s ! c) \<and> sc_loop y = sc_loop (objs s ! c)"
    using x(1) y s1c by simp
  then show ?thesis using t1 t2 unfolding touches_def s1c by simp blast
qed

lemma touches_obj:
  assumes "sc_name x = sc_name (objs s ! c)" and "sc_loop x = sc_loop (objs s ! c)"
    and "conns s (sc_name (objs s ! c)) \<in> {None, Some c}"
  shows "touches c s (s\<lparr>objs := (objs s)[c := x]\<rparr>)"
  using assms unfolding touches_def by auto

lemma touches_next:
  assumes "pending s l = t # ts" and "conn_of t = Some c" and "c < length (objs s)"
    and "conns s (sc_name (objs s ! c)) \<in> {None, Some c}"
  shows "touches c s (s\<lparr>pending := (pending s)(l := ts)\<rparr>)"
proof -
  have "tasks_in ((pending s)(l := ts)) k l' = tasks_in (pending s) k l'" if "k \<noteq> Some c" for k l'
    using tasks_in_next [of "pending s" l t ts k l', OF assms(1)] assms(2) that by simp
  moreover have "objs s = (objs s)[c := objs s ! c]" by simp
  ultimately show ?thesis using assms(4) unfolding touches_def by (intro conjI exI [of _ "objs s ! c"]) simp_all
qed

lemma touches_enqueue:
  assumes "conn_of t = Some c" and "c < length (objs s)" and "conns s (sc_name (objs s ! c)) \<in> {None, Some c}"
  shows "touches c s (s\<lparr>pending := (pending s)(l := pending s l @ [t])\<rparr>)"
proof -
  have "tasks_in ((pending s)(l := pending s l @ [t])) k l' = tasks_in (pending s) k l'" if "k \<noteq> Some c" for k l'
    using assms(1) that by simp
  moreover have "objs s = (objs s)[c := objs s ! c]" by simp
  ultimately show ?thesis using assms(3) unfolding touches_def by (intro conjI exI [of _ "objs s ! c"]) simp_all
qed

lemma touches_unlist:
  assumes "c < length (objs s)"
  shows "touches c s (s\<lparr>conns := (conns s)(sc_name (objs s ! c) := None)\<rparr>)"
proof -
  have "objs s = (objs s)[c := objs s ! c]" by simp
  then show ?thesis unfolding touches_def by (intro conjI exI [of _ "objs s ! c"]) simp_all
qed

lemma listed_cases: "srv_ok s \<Longrightarrow> c < length (objs s) \<Longrightarrow> conns s (sc_name (objs s ! c)) \<in> {None, Some c}"
proof (cases "conns s (sc_name (objs s ! c))")
  case (Some d)
  assume ok: "srv_ok s" and c: "c < length (objs s)"
  then have names: "names_inv s" by (simp add: srv_ok_def)
  with Some have "d < length (objs s)" "sc_name (objs s ! d) = sc_name (objs s ! c)"
    by (auto simp: names_inv_def)
  with names_distinct [OF names this(1) c] Some show ?thesis by simp
qed simp

lemma Establish_eq:
  "lf_state (sc_life (objs s ! c)) = Connecting \<Longrightarrow> c < length (objs s) \<Longrightarrow>
   Establish (sc_loop (objs s ! c)) c s = Inr (s\<lparr>objs := (objs s)[c := (objs s ! c)
     \<lparr>sc_life := \<lparr>lf_state = Connected, lf_watch = True, lf_added = True\<rparr>, sc_ups := sc_ups (objs s ! c) + 1\<rparr>]\<rparr>)"
  by (cases "sc_life (objs s ! c)") (simp add: Establish_def on_life_def life_establish_def conn_up_def)

lemma Destroy_eq:
  "lf_state (sc_life (objs s ! c)) = Disconnected \<Longrightarrow> \<not> lf_watch (sc_life (objs s ! c)) \<Longrightarrow>
   lf_added (sc_life (objs s ! c)) \<Longrightarrow> c < length (objs s) \<Longrightarrow>
   Destroy (sc_loop (objs s ! c)) c s = Inr (s\<lparr>objs := (objs s)[c := (objs s ! c)
     \<lparr>sc_life := \<lparr>lf_state = Disconnected, lf_watch = False, lf_added = False\<rparr>, sc_downs := sc_downs (objs s ! c) + 1\<rparr>]\<rparr>)"
  by (cases "sc_life (objs s ! c)") (simp add: Destroy_def on_life_def life_destroy_def conn_down_def)

text \<open>A connection that has been closed and for which no task is under way.\<close>

definition closed_idle :: "server \<Rightarrow> nat \<Rightarrow> bool \<Rightarrow> bool" where
  "closed_idle s c listed \<longleftrightarrow> alive s \<and> c < length (objs s) \<and> lf_state (sc_life (objs s ! c)) = Disconnected
     \<and> \<not> lf_watch (sc_life (objs s ! c)) \<and> lf_added (sc_life (objs s ! c)) \<and> sc_ups (objs s ! c) = 1
     \<and> sc_downs (objs s ! c) = 0 \<and> (\<forall>l. tasks_in (pending s) (Some c) l = [])
     \<and> conns s (sc_name (objs s ! c)) = (if listed then Some c else None)"

lemma Destroy_ok:
  assumes "closed_idle s c False"
  shows "\<exists>s'. Destroy (sc_loop (objs s ! c)) c s = Inr s' \<and> touches c s s' \<and> conn_inv s' c"
proof -
  let ?x = "(objs s ! c)\<lparr>sc_life := \<lparr>lf_state = Disconnected, lf_watch = False, lf_added = False\<rparr>,
    sc_downs := sc_downs (objs s ! c) + 1\<rparr>"
  have "Destroy (sc_loop (objs s ! c)) c s = Inr (s\<lparr>objs := (objs s)[c := ?x]\<rparr>)"
    using assms by (intro Destroy_eq) (simp_all add: closed_idle_def)
  moreover have "touches c s (s\<lparr>objs := (objs s)[c := ?x]\<rparr>)"
    using assms by (intro touches_obj) (simp_all add: closed_idle_def)
  moreover have "conn_inv (s\<lparr>objs := (objs s)[c := ?x]\<rparr>) c"
    using assms by (simp add: closed_idle_def conn_inv_def conn_phase_def expected_def in_map_def)
  ultimately show ?thesis by blast
qed

lemma RemoveConnectionInLoop_ok:
  assumes "closed_idle s c True"
  shows "\<exists>s'. RemoveConnectionInLoop 0 c s = Inr s' \<and> touches c s s' \<and> conn_inv s' c"
proof -
  let ?s1 = "s\<lparr>conns := (conns s)(sc_name (objs s ! c) := None)\<rparr>"
  have c: "c < length (objs s)" using assms by (simp add: closed_idle_def)
  have eq: "RemoveConnectionInLoop 0 c s = run_in_loop 0 (sc_loop (objs s ! c)) (DestroyTask c) (Destroy 0 c) ?s1"
    using assms by (simp add: RemoveConnectionInLoop_def closed_idle_def)
  have ci: "closed_idle ?s1 c False" using assms by (simp add: closed_idle_def)
  note t1 = touches_unlist [OF c]
  show ?thesis
  proof (cases "sc_loop (objs s ! c) = 0")
    case True
    with Destroy_ok [OF ci] obtain s' where "Destroy 0 c ?s1 = Inr s'" "touches c ?s1 s'" "conn_inv s' c" by auto
    with eq True touches_trans [OF c t1] show ?thesis by (auto simp: run_in_loop_def)
  next
    case False
    let ?l = "sc_loop (objs s ! c)"
    let ?s2 = "?s1\<lparr>pending := (pending ?s1)(?l := pending ?s1 ?l @ [DestroyTask c])\<rparr>"
    have "touches c ?s1 ?s2" using c by (intro touches_enqueue) simp_all
    moreover have "conn_inv ?s2 c"
      using ci by (auto simp: closed_idle_def conn_inv_def conn_phase_def expected_def in_map_def)
    ultimately show ?thesis using eq False touches_trans [OF c t1] by (auto simp: run_in_loop_def)
  qed
qed

lemma RemoveConnection_ok:
  assumes "closed_idle s c True"
  shows "\<exists>s'. RemoveConnection t c s = Inr s' \<and> touches c s s' \<and> conn_inv s' c"
proof (cases "t = 0")
  case True
  with RemoveConnectionInLoop_ok [OF assms] assms show ?thesis
    by (simp add: RemoveConnection_def run_in_loop_def closed_idle_def)
next
  case False
  let ?s2 = "s\<lparr>pending := (pending s)(0 := pending s 0 @ [RemoveTask c])\<rparr>"
  have "touches c s ?s2" using assms by (intro touches_enqueue) (simp_all add: closed_idle_def)
  moreover have "conn_inv ?s2 c"
    using assms by (auto simp: closed_idle_def conn_inv_def conn_phase_def expected_def in_map_def)
  ultimately show ?thesis using False assms by (simp add: RemoveConnection_def run_in_loop_def closed_idle_def)
qed

text \<open>Taking the first task of a queue that is about a connection.\<close>

lemma next_conn_task:
  assumes ok: "srv_ok s" and q: "pending s l = t # ts" and t: "conn_of t = Some c"
  defines "s1 \<equiv> s\<lparr>pending := (pending s)(l := ts)\<rparr>"
  shows "c < length (objs s)" "conn_inv s c" "touches c s s1"
    "expected (objs s ! c) (in_map s c) c l = t # tasks_in (pending s1) (Some c) l"
    "l' \<noteq> l \<Longrightarrow> expected (objs s ! c) (in_map s c) c l' = tasks_in (pending s1) (Some c) l'"
proof -
  have eq: "tasks_in (pending s) (Some c) l = t # tasks_in (pending s1) (Some c) l"
    "l' \<noteq> l \<Longrightarrow> tasks_in (pending s) (Some c) l' = tasks_in (pending s1) (Some c) l'"
    using tasks_in_next [of "pending s" l t ts "Some c", OF q] t by (simp_all add: s1_def)
  show c: "c < length (objs s)"
  proof (rule ccontr)
    assume "\<not> c < length (objs s)"
    with ok have "tasks_in (pending s) (Some c) l = []" by (simp add: srv_ok_def)
    with eq(1) show False by simp
  qed
  then show inv: "conn_inv s c" using ok by (simp add: srv_ok_def)
  then have "tasks_in (pending s) (Some c) k = expected (objs s ! c) (in_map s c) c k" for k
    by (simp add: conn_inv_def)
  with eq show "expected (objs s ! c) (in_map s c) c l = t # tasks_in (pending s1) (Some c) l"
    "l' \<noteq> l \<Longrightarrow> expected (objs s ! c) (in_map s c) c l' = tasks_in (pending s1) (Some c) l'" by simp_all
  show "touches c s s1" unfolding s1_def by (rule touches_next [OF q t c listed_cases [OF ok c]])
qed

lemma expected_head:
  "expected x listed c l = EstablishTask d # r \<Longrightarrow> lf_state (sc_life x) = Connecting \<and> l = sc_loop x \<and> r = []"
  "expected x listed c l = RemoveTask d # r \<Longrightarrow> lf_state (sc_life x) = Disconnected \<and> listed \<and> l = 0 \<and> r = []"
  "expected x listed c l = DestroyTask d # r \<Longrightarrow> lf_state (sc_life x) = Disconnected \<and> \<not> listed
     \<and> lf_added (sc_life x) \<and> l = sc_loop x \<and> r = []"
  by (auto simp: expected_def split: conn_state.splits if_splits)

lemma expected_elsewhere:
  "expected x listed c l = t # r \<Longrightarrow> l' \<noteq> l \<Longrightarrow> expected x listed c l' = []"
  by (auto simp: expected_def split: conn_state.splits if_splits)

lemma run_Establish_ok:
  assumes ok: "srv_ok s" and q: "pending s l = EstablishTask c # ts"
  shows "\<exists>s'. run_next l s = Inr s' \<and> srv_ok s'"
proof -
  let ?s1 = "s\<lparr>pending := (pending s)(l := ts)\<rparr>"
  note n = next_conn_task [OF ok q, of c, simplified]
  note h = expected_head(1) [OF n(4)]
  let ?x = "(objs s ! c)\<lparr>sc_life := \<lparr>lf_state = Connected, lf_watch = True, lf_added = True\<rparr>,
    sc_ups := sc_ups (objs s ! c) + 1\<rparr>"
  let ?s2 = "?s1\<lparr>objs := (objs s)[c := ?x]\<rparr>"
  have ph: "in_map s c" "sc_ups (objs s ! c) = 0" "sc_downs (objs s ! c) = 0"
    using n(2) h by (simp_all add: conn_inv_def conn_phase_def)
  have "run_next l s = Inr ?s2"
    using q h Establish_eq [of ?s1 c] n(1) by (simp add: run_next_def)
  moreover have "touches c ?s1 ?s2"
    using touches_obj [of ?x ?s1 c] listed_cases [OF ok n(1)] by simp
  moreover have "conn_inv ?s2 c"
  proof -
    have "tasks_in ((pending s)(l := ts)) (Some c) l' = []" for l'
    proof (cases "l' = l")
      case True
      with h show ?thesis by blast
    next
      case False
      with n(5) [of l'] expected_elsewhere [OF n(4), of l'] show ?thesis by simp
    qed
    then show ?thesis using n(1) ph by (simp add: conn_inv_def conn_phase_def expected_def in_map_def)
  qed
  ultimately show ?thesis
    using touches_ok [OF ok n(1) touches_trans [OF n(1) n(3)]] by blast
qed

lemma closed_idle_next:
  assumes ok: "srv_ok s" and q: "pending s l = t # ts" and t: "conn_of t = Some c"
    and d: "lf_state (sc_life (objs s ! c)) = Disconnected" "lf_added (sc_life (objs s ! c))"
    and r: "tasks_in ((pending s)(l := ts)) (Some c) l = []"
  shows "closed_idle (s\<lparr>pending := (pending s)(l := ts)\<rparr>) c (in_map s c)"
proof -
  note n = next_conn_task [OF ok q t]
  have "tasks_in ((pending s)(l := ts)) (Some c) l' = []" for l'
    using r n(5) [of l'] expected_elsewhere [OF n(4), of l'] by (cases "l' = l") simp_all
  moreover have "alive s" using ok by (simp add: srv_ok_def)
  moreover have "conns s (sc_name (objs s ! c)) = (if in_map s c then Some c else None)"
    using listed_cases [OF ok n(1)] by (auto simp: in_map_def)
  ultimately show ?thesis using n(1,2) d by (simp add: closed_idle_def conn_inv_def conn_phase_def)
qed

lemma run_Remove_ok:
  assumes ok: "srv_ok s" and q: "pending s l = RemoveTask c # ts"
  shows "\<exists>s'. run_next l s = Inr s' \<and> srv_ok s'"
proof -
  let ?s1 = "s\<lparr>pending := (pending s)(l := ts)\<rparr>"
  note n = next_conn_task [OF ok q, of c, simplified]
  note h = expected_head(2) [OF n(4)]
  have "lf_added (sc_life (objs s ! c))" using n(2) h by (simp add: conn_inv_def conn_phase_def)
  then have "closed_idle ?s1 c (in_map s c)"     by (intro closed_idle_next [OF ok q]) (use h in \<open>simp, blast, blast, blast\<close>)
  then have "closed_idle ?s1 c True" using h by simp
  from RemoveConnectionInLoop_ok [OF this] obtain s' where
    "RemoveConnectionInLoop 0 c ?s1 = Inr s'" "touches c ?s1 s'" "conn_inv s' c" by blast
  moreover have "run_next l s = RemoveConnectionInLoop 0 c ?s1" using q h by (simp add: run_next_def)
  ultimately show ?thesis using touches_ok [OF ok n(1) touches_trans [OF n(1) n(3)]] by auto
qed

lemma run_Destroy_ok:
  assumes ok: "srv_ok s" and q: "pending s l = DestroyTask c # ts"
  shows "\<exists>s'. run_next l s = Inr s' \<and> srv_ok s'"
proof -
  let ?s1 = "s\<lparr>pending := (pending s)(l := ts)\<rparr>"
  note n = next_conn_task [OF ok q, of c, simplified]
  note h = expected_head(3) [OF n(4)]
  have "closed_idle ?s1 c (in_map s c)"     by (intro closed_idle_next [OF ok q]) (use h in \<open>simp, blast, blast, blast\<close>)
  then have "closed_idle ?s1 c False" using h by simp
  from Destroy_ok [OF this] obtain s' where
    "Destroy l c ?s1 = Inr s'" "touches c ?s1 s'" "conn_inv s' c" using h by auto
  moreover have "run_next l s = Destroy l c ?s1" using q by (simp add: run_next_def)
  ultimately show ?thesis using touches_ok [OF ok n(1) touches_trans [OF n(1) n(3)]] by auto
qed

lemma close_ok:
  assumes ok: "srv_ok s" and c: "c < length (objs s)" and w: "lf_watch (sc_life (objs s ! c))"
  shows "\<exists>s'. CloseConnection (sc_loop (objs s ! c)) c s = Inr s' \<and> srv_ok s'"
proof -
  let ?t = "sc_loop (objs s ! c)"
  let ?x = "(objs s ! c)\<lparr>sc_life := (sc_life (objs s ! c))\<lparr>lf_state := Disconnected, lf_watch := False\<rparr>\<rparr>"
  let ?s1 = "s\<lparr>objs := (objs s)[c := ?x]\<rparr>"
  have inv: "conn_inv s c" using ok c by (simp add: srv_ok_def)
  then have ph: "lf_state (sc_life (objs s ! c)) \<in> {Connected, Disconnecting}" "in_map s c"
    "lf_added (sc_life (objs s ! c))" "sc_ups (objs s ! c) = 1" "sc_downs (objs s ! c) = 0"
    using w by (auto simp: conn_inv_def conn_phase_def split: conn_state.splits)
  then have "tasks_in (pending s) (Some c) l = []" for l
    using inv by (auto simp: conn_inv_def expected_def)
  then have "closed_idle ?s1 c True"
    using ok c ph by (simp add: closed_idle_def srv_ok_def in_map_def)
  from RemoveConnection_ok [OF this, of ?t] obtain s' where
    s': "RemoveConnection ?t c ?s1 = Inr s'" "touches c ?s1 s'" "conn_inv s' c" by blast
  have "on_life life_close c s = Inr ?s1" using ph by (auto simp: on_life_def life_close_def)
  then have "CloseConnection ?t c s = Inr s'" using s'(1) by (simp add: CloseConnection_def)
  moreover have "touches c s ?s1" using listed_cases [OF ok c] by (intro touches_obj) simp_all
  ultimately show ?thesis using touches_ok [OF ok c touches_trans [OF c]] s' by blast
qed

lemma shutdown_ok:
  assumes ok: "srv_ok s" and c: "c < length (objs s)"
  shows "\<exists>s'. on_life life_shutdown c s = Inr s' \<and> srv_ok s'"
proof -
  let ?f = "sc_life (objs s ! c)"
  let ?x = "(objs s ! c)\<lparr>sc_life := if lf_state ?f = Connected then ?f\<lparr>lf_state := Disconnecting\<rparr> else ?f\<rparr>"
  let ?s1 = "s\<lparr>objs := (objs s)[c := ?x]\<rparr>"
  have inv: "conn_inv s c" using ok c by (simp add: srv_ok_def)
  have "on_life life_shutdown c s = Inr ?s1" by (simp add: on_life_def life_shutdown_def)
  moreover have "touches c s ?s1" using listed_cases [OF ok c] by (intro touches_obj) simp_all
  moreover have "conn_inv ?s1 c"
  proof -
    have same: "(objs s ! c)\<lparr>sc_life := ?f\<rparr> = objs s ! c" by simp
    have "conn_phase ?x (in_map s c)"
      using inv by (cases "lf_state ?f = Connected") (simp_all add: same conn_inv_def, simp add: conn_phase_def)
    moreover have "expected ?x (in_map s c) c l = expected (objs s ! c) (in_map s c) c l" for l
      by (simp add: expected_def)
    ultimately show ?thesis using inv c by (simp add: conn_inv_def in_map_def)
  qed
  ultimately show ?thesis using touches_ok [OF ok c] by blast
qed

text \<open>The tasks of \<^verbatim>\<open>ListenAndServe\<close>.\<close>

definition same_conns :: "server \<Rightarrow> server \<Rightarrow> bool" where
  "same_conns s s' \<longleftrightarrow> objs s' = objs s \<and> conns s' = conns s \<and> srv_name s' = srv_name s
     \<and> nextConnID s' = nextConnID s \<and> alive s' = alive s
     \<and> (\<forall>c l. tasks_in (pending s') (Some c) l = tasks_in (pending s) (Some c) l)"

lemma same_conns_ok:
  assumes "srv_ok s" and "same_conns s s'" and "serve_inv s'" and "robin_inv s'"
  shows "srv_ok s'"
proof -
  have "conn_inv s' c = conn_inv s c" for c
    using assms(2) by (simp add: same_conns_def conn_inv_def in_map_def)
  moreover have "names_inv s'" using assms(1,2) by (simp add: srv_ok_def same_conns_def names_inv_def)
  ultimately show ?thesis using assms by (simp add: srv_ok_def same_conns_def)
qed

text \<open>The first task of the base queue when it is about the server.\<close>

lemma next_serve_task:
  assumes ok: "srv_ok s" and q: "pending s l = t # ts" and t: "conn_of t = None"
  defines "s1 \<equiv> s\<lparr>pending := (pending s)(l := ts)\<rparr>"
  shows "l = 0" "serving s" "same_conns s s1"
    "t # tasks_in (pending s1) None 0 = (if \<not> started (pool s) then [BuildTask, ListenTask]
       else if \<not> acc_listening (acc s) then [ListenTask] else [])"
    "l' \<noteq> 0 \<Longrightarrow> tasks_in (pending s1) None l' = []"
proof -
  have eq: "tasks_in (pending s) None l = t # tasks_in (pending s1) None l"
    "l' \<noteq> l \<Longrightarrow> tasks_in (pending s) None l' = tasks_in (pending s1) None l'"
    using tasks_in_next [of "pending s" l t ts None, OF q] t by (simp_all add: s1_def)
  have all: "tasks_in (pending s) None k =
          (if k \<noteq> 0 \<or> \<not> serving s then [] else if \<not> started (pool s) then [BuildTask, ListenTask]
           else if \<not> acc_listening (acc s) then [ListenTask] else [])" for k
    using ok by (simp add: srv_ok_def serve_inv_def)
  show l: "l = 0" and sv: "serving s" using eq(1) all [of l] by (auto split: if_splits)
  then show "t # tasks_in (pending s1) None 0 = (if \<not> started (pool s) then [BuildTask, ListenTask]
       else if \<not> acc_listening (acc s) then [ListenTask] else [])"
    using eq(1) all [of 0] by simp
  show "l' \<noteq> 0 \<Longrightarrow> tasks_in (pending s1) None l' = []" using eq(2) all [of l'] l by simp
  show "same_conns s s1"
    using tasks_in_next [of "pending s" l t ts, OF q] t by (simp add: same_conns_def s1_def)
qed

lemma build_ok:
  assumes "\<not> started p" and "loops p = []" and "nextLoopIdx p = 0"
  shows "\<exists>p'. BuildAndRun True p = Inr p' \<and> started p' \<and> pool_ready p' \<and> next_position p' = 0"
  using BuildAndRun_ready [OF assms] by (auto simp: next_position_def pool_ready_def)

lemma run_Build_ok:
  assumes ok: "srv_ok s" and q: "pending s l = BuildTask # ts"
  shows "\<exists>s'. run_next l s = Inr s' \<and> srv_ok s'"
proof -
  let ?s1 = "s\<lparr>pending := (pending s)(l := ts)\<rparr>"
  note n = next_serve_task [OF ok q, simplified]
  have st: "\<not> started (pool s)" and tk: "tasks_in (pending ?s1) None 0 = [ListenTask]"
    using n(4) by (auto split: if_splits)
  have si: "serve_inv s" "robin_inv s" using ok by (simp_all add: srv_ok_def)
  then have p0: "loops (pool s) = []" "nextLoopIdx (pool s) = 0" "objs s = []" "\<not> acc_listening (acc s)"
    using st by (simp_all add: serve_inv_def)
  from build_ok [OF st p0(1,2)] obtain p' where
    p': "BuildAndRun True (pool s) = Inr p'" "started p'" "pool_ready p'" "next_position p' = 0" by blast
  let ?s2 = "?s1\<lparr>pool := p'\<rparr>"
  have "run_next l s = Inr ?s2" using q n(1) p' by (simp add: run_next_def run_Build_def)
  moreover have "same_conns s ?s2" using n(3) by (simp add: same_conns_def)
  moreover have "serve_inv ?s2"
    using si(1) n(1,2,5) p' p0 tk by (simp add: serve_inv_def)
  moreover have "robin_inv ?s2" using p0 p' by (simp add: robin_inv_def)
  ultimately show ?thesis using same_conns_ok [OF ok] by blast
qed

lemma run_Listen_ok:
  assumes ok: "srv_ok s" and q: "pending s l = ListenTask # ts"
  shows "\<exists>s'. run_next l s = Inr s' \<and> srv_ok s'"
proof -
  let ?s1 = "s\<lparr>pending := (pending s)(l := ts)\<rparr>"
  note n = next_serve_task [OF ok q, simplified]
  have st: "started (pool s)" and li: "\<not> acc_listening (acc s)" and tk: "tasks_in (pending ?s1) None 0 = []"
    using n(4) by (auto split: if_splits)
  have si: "serve_inv s" "robin_inv s" using ok by (simp_all add: srv_ok_def)
  let ?s2 = "?s1\<lparr>acc := (acc s)\<lparr>acc_listening := True, acc_reading := True\<rparr>\<rparr>"
  have "run_next l s = Inr ?s2" using q n(1) li by (simp add: run_next_def run_Listen_def Listen_def)
  moreover have "same_conns s ?s2" using n(3) by (simp add: same_conns_def)
  moreover have "tasks_in (pending ?s1) None l' = []" for l' using n(5) [of l'] tk by (cases "l' = 0") simp_all
  then have "serve_inv ?s2" using si(1) n(2) st by (simp add: serve_inv_def)
  moreover have "robin_inv ?s2" using si(2) by (simp add: robin_inv_def)
  ultimately show ?thesis using same_conns_ok [OF ok] by blast
qed

lemma run_next_ok: "srv_ok s \<Longrightarrow> \<exists>s'. run_next l s = Inr s' \<and> srv_ok s'"
proof (cases "pending s l")
  case (Cons t ts)
  assume ok: "srv_ok s"
  with Cons show ?thesis
    using run_Build_ok [OF ok] run_Listen_ok [OF ok] run_Establish_ok [OF ok] run_Remove_ok [OF ok] run_Destroy_ok [OF ok]
    by (cases t) blast+
qed (simp add: run_next_def)

lemma serve_ok:
  assumes ok: "srv_ok s"
  shows "\<exists>s'. ListenAndServe t s = Inr s' \<and> srv_ok s'"
proof (cases "serving s")
  case False
  have si: "serve_inv s" "robin_inv s" using ok by (simp_all add: srv_ok_def)
  have p0: "\<not> started (pool s)" "\<not> acc_listening (acc s)" "loops (pool s) = []" "nextLoopIdx (pool s) = 0"
    "objs s = []" "\<And>l. tasks_in (pending s) None l = []"
    using si(1) False by (auto simp: serve_inv_def)
  show ?thesis
  proof (cases "t = 0")
    case True
    from build_ok [OF p0(1,3,4)] obtain p' where
      p': "BuildAndRun True (pool s) = Inr p'" "started p'" "pool_ready p'" "next_position p' = 0" by blast
    let ?s2 = "s\<lparr>serving := True, pool := p', acc := (acc s)\<lparr>acc_listening := True, acc_reading := True\<rparr>\<rparr>"
    have "ListenAndServe t s = Inr ?s2"
      using True False p' p0 by (simp add: ListenAndServe_def run_in_loop_def run_Build_def run_Listen_def Listen_def)
    moreover have "same_conns s ?s2" by (simp add: same_conns_def)
    moreover have "serve_inv ?s2" using si(1) p' p0 by (simp add: serve_inv_def)
    moreover have "robin_inv ?s2" using p0 p' by (simp add: robin_inv_def)
    ultimately show ?thesis using same_conns_ok [OF ok] by blast
  next
    case nt: False
    let ?q = "(pending s)(0 := pending s 0 @ [BuildTask])"
    let ?s2 = "s\<lparr>serving := True, pending := ?q(0 := ?q 0 @ [ListenTask])\<rparr>"
    have "ListenAndServe t s = Inr ?s2" using nt False by (simp add: ListenAndServe_def run_in_loop_def)
    moreover have "same_conns s ?s2" by (simp add: same_conns_def tasks_in_def)
    moreover have "serve_inv ?s2"
      using si(1) p0 by (simp add: serve_inv_def) (simp add: tasks_in_def)
    moreover have "robin_inv ?s2" using si(2) by (simp add: robin_inv_def)
    ultimately show ?thesis using same_conns_ok [OF ok] by blast
  qed
qed (use ok in \<open>simp add: ListenAndServe_def\<close>)

section \<open>A new connection\<close>

text \<open>A connection \<open>x\<close> joins the server, its loop the next one of the pool.\<close>

lemma add_conn_ok:
  assumes ok: "srv_ok s" and li: "started (pool s)" and few: "length (objs s) < 2 ^ 64"
    and x: "sc_name x = conn_name s ipport" "sc_loop x = loop_choices (pool s) ! next_position (pool s)"
      "conn_phase x True"
    and p': "pool_ready p'" "loop_choices p' = loop_choices (pool s)"
      "next_position p' = Suc (next_position (pool s)) mod length (loop_choices (pool s))"
    and q: "\<And>k l. k \<noteq> Some (length (objs s)) \<Longrightarrow> tasks_in q k l = tasks_in (pending s) k l"
      "\<And>l. tasks_in q (Some (length (objs s))) l = expected x True (length (objs s)) l"
  shows "srv_ok (s\<lparr>nextConnID := (nextConnID s + 1) mod 2 ^ 64, pool := p',
    conns := (conns s)(conn_name s ipport := Some (length (objs s))), objs := objs s @ [x], pending := q\<rparr>)"
    (is "srv_ok ?s3")
proof -
  let ?nm = "conn_name s ipport" and ?c = "length (objs s)"
  have si: "serve_inv s" "names_inv s" "robin_inv s" using ok by (simp_all add: srv_ok_def)
  have id: "nextConnID s = ?c" using si(2) few by (simp add: names_inv_def)
  have fresh_name: "sc_name (objs s ! d) \<noteq> ?nm" if d: "d < ?c" for d
  proof
    assume eq: "sc_name (objs s ! d) = ?nm"
    obtain j where "sc_name (objs s ! d) = srv_name s @ j @ ''@'' @ to_string d"
      using si(2) d unfolding names_inv_def by blast
    then have "(srv_name s @ j) @ ''@'' @ to_string d = (srv_name s @ ipport) @ ''@'' @ to_string ?c"
      using eq by (simp add: conn_name_def id)
    then have "d = ?c" by (rule name_number)
    with d show False by simp
  qed
  have "conn_inv ?s3 d" if d: "d < ?c" for d
  proof -
    have "objs ?s3 ! d = objs s ! d" "in_map ?s3 d = in_map s d"
      using d fresh_name [OF d] by (simp_all add: nth_append in_map_def)
    moreover have "tasks_in (pending ?s3) (Some d) l = tasks_in (pending s) (Some d) l" for l
      using d by (simp add: q(1))
    moreover have "conn_inv s d" using ok d by (simp add: srv_ok_def)
    ultimately show ?thesis unfolding conn_inv_def by (simp only: simp_thms)
  qed
  moreover have "conn_inv ?s3 ?c" using x q(2) by (simp add: conn_inv_def in_map_def)
  ultimately have all: "\<forall>d < Suc ?c. conn_inv ?s3 d" by (simp only: less_Suc_eq) blast
  have "names_inv ?s3"
  proof -
    have 1: "\<exists>ip. sc_name ((objs s @ [x]) ! d) = srv_name s @ ip @ ''@'' @ to_string d" if "d < Suc ?c" for d
    proof (cases "d = ?c")
      case True
      then show ?thesis using id x(1) by (simp add: conn_name_def)
    next
      case False
      with that si(2) show ?thesis by (simp add: names_inv_def nth_append)
    qed
    have 2: "d < Suc ?c \<and> sc_name ((objs s @ [x]) ! d) = n" if "((conns s)(?nm := Some ?c)) n = Some d" for n d
    proof (cases "n = ?nm")
      case False
      with that si(2) have "d < ?c \<and> sc_name (objs s ! d) = n" by (simp add: names_inv_def)
      then show ?thesis by (simp add: nth_append)
    qed (use that x(1) in auto)
    show ?thesis using 1 2 id by (simp add: names_inv_def del: fun_upd_apply)
  qed
  moreover have "robin_inv ?s3"
  proof -
    have np: "next_position (pool s) = ?c mod length (loop_choices (pool s))"
      using si(3) li by (simp add: robin_inv_def Let_def)
    then have "next_position p' = Suc ?c mod length (loop_choices (pool s))" using p'(3) by (simp add: mod_Suc_eq)
    moreover have "sc_loop ((objs s @ [x]) ! d) = loop_choices (pool s) ! (d mod length (loop_choices (pool s)))"
      if "d < Suc ?c" for d
      using that si(3) np x(2) by (auto simp: nth_append robin_inv_def Let_def less_Suc_eq)
    ultimately show ?thesis using p'(2) by (simp add: robin_inv_def Let_def)
  qed
  moreover have "serve_inv ?s3"
    using si(1) li p'(1) q(1) [of None] by (simp add: serve_inv_def) (simp add: pool_ready_def)
  moreover have "tasks_in (pending ?s3) (Some d) l = []" if "Suc ?c \<le> d" for d l
    using ok that q(1) [of "Some d"] by (simp add: srv_ok_def)
  ultimately show ?thesis using ok all unfolding srv_ok_def by simp
qed

lemma accepted_ok:
  assumes ok: "srv_ok s" and li: "acc_reading (acc s)" and few: "length (objs s) < 2 ^ 64"
  shows "\<exists>s'. HandleNewConnection 0 ipport s = Inr s' \<and> srv_ok s' \<and> length (objs s') = Suc (length (objs s))"
proof -
  let ?nm = "conn_name s ipport" and ?c = "length (objs s)"
  have pr: "pool_ready (pool s)" "started (pool s)" using ok li by (simp_all add: srv_ok_def serve_inv_def)
  from pool_chooser.pick_law [OF pr(1)] obtain p' where
    p': "GetNextLoop True (pool s) = Inr (loop_choices (pool s) ! next_position (pool s), p')"
      "pool_ready p'" "loop_choices p' = loop_choices (pool s)"
      "next_position p' = Suc (next_position (pool s)) mod length (loop_choices (pool s))" by blast
  let ?l = "loop_choices (pool s) ! next_position (pool s)"
  define x where "x = \<lparr>sc_name = ?nm, sc_loop = ?l, sc_life = new_life, sc_ups = 0, sc_downs = 0\<rparr>"
  define x1 where "x1 = x\<lparr>sc_life := \<lparr>lf_state = Connected, lf_watch = True, lf_added = True\<rparr>, sc_ups := 1\<rparr>"
  have new_tasks: "tasks_in (pending s) (Some ?c) l = []" for l using ok by (simp add: srv_ok_def)
  note add = add_conn_ok [OF ok pr(2) few _ _ _ p'(2-4)]
  show ?thesis
  proof (cases "?l = 0")
    case False
    let ?q = "(pending s)(?l := pending s ?l @ [EstablishTask ?c])"
    let ?s3 = "s\<lparr>nextConnID := (nextConnID s + 1) mod 2 ^ 64, pool := p', conns := (conns s)(?nm := Some ?c),
      objs := objs s @ [x], pending := ?q\<rparr>"
    have "srv_ok ?s3"
      using new_tasks by (intro add) (simp_all add: x_def conn_phase_def expected_def new_life_def)
    moreover have "HandleNewConnection 0 ipport s = Inr ?s3"
      using p'(1) False by (simp add: HandleNewConnection_def run_in_loop_def conn_name_def x_def Let_def)
    ultimately show ?thesis by auto
  next
    case True
    let ?s2 = "s\<lparr>nextConnID := (nextConnID s + 1) mod 2 ^ 64, pool := p', conns := (conns s)(?nm := Some ?c),
      objs := objs s @ [x]\<rparr>"
    let ?s3 = "s\<lparr>nextConnID := (nextConnID s + 1) mod 2 ^ 64, pool := p', conns := (conns s)(?nm := Some ?c),
      objs := objs s @ [x1], pending := pending s\<rparr>"
    have "srv_ok ?s3"
      using new_tasks by (intro add) (simp_all add: x1_def x_def conn_phase_def expected_def)
    moreover have "Establish (sc_loop (objs ?s2 ! ?c)) ?c ?s2 = Inr ?s3"
      by (subst Establish_eq) (simp_all add: x_def x1_def new_life_def)
    then have "HandleNewConnection 0 ipport s = Inr ?s3"
      using p'(1) True by (simp add: HandleNewConnection_def run_in_loop_def conn_name_def x_def Let_def)
    ultimately show ?thesis by auto
  qed
qed

section \<open>Runs keep the invariant\<close>

text \<open>Operations on a connection leave the pool and the number of connections alone.\<close>

definition keeps :: "server \<Rightarrow> server \<Rightarrow> bool" where
  "keeps s s' \<longleftrightarrow> length (objs s') = length (objs s) \<and> pool s' = pool s"

lemma on_life_keeps: "on_life f c s = Inr s' \<Longrightarrow> keeps s s'"
  by (auto simp: on_life_def mapR_Inr_iff keeps_def)

lemma on_conn_keeps:
  "Establish t c s = Inr s' \<Longrightarrow> keeps s s'"
  "Destroy t c s = Inr s' \<Longrightarrow> keeps s s'"
  by (cases "t = sc_loop (objs s ! c)"; auto simp: Establish_def Destroy_def conn_up_def conn_down_def mapR_Inr_iff
      keeps_def dest!: on_life_keeps)+

lemma run_in_loop_keeps:
  "run_in_loop t l task now s = Inr s' \<Longrightarrow> (\<And>s1. now s = Inr s1 \<Longrightarrow> keeps s s1) \<Longrightarrow> keeps s s'"
  by (auto simp: run_in_loop_def keeps_def split: if_splits)

lemma Remove_keeps:
  "RemoveConnectionInLoop t c s = Inr s' \<Longrightarrow> keeps s s'"
  "RemoveConnection t c s = Inr s' \<Longrightarrow> keeps s s'"
proof -
  show 1: "RemoveConnectionInLoop t c s = Inr s' \<Longrightarrow> keeps s s'" for s s'
    by (cases "t = 0") (auto simp: RemoveConnectionInLoop_def ensure_Inr_iff Let_def split: if_splits
        dest!: run_in_loop_keeps on_conn_keeps, auto simp: keeps_def)
  show "RemoveConnection t c s = Inr s' \<Longrightarrow> keeps s s'"
    by (auto simp: RemoveConnection_def split: if_splits dest!: run_in_loop_keeps 1)
qed

lemma Close_keeps: "CloseConnection t c s = Inr s' \<Longrightarrow> keeps s s'"
  by (cases "t = sc_loop (objs s ! c)")
    (auto simp: CloseConnection_def bindR_Inr_iff keeps_def dest!: on_life_keeps Remove_keeps)

text \<open>The size of the pool is fixed, and its loops are numbered from one.\<close>

definition pool_cfg :: "nat \<Rightarrow> loop_pool \<Rightarrow> bool" where
  "pool_cfg n p \<longleftrightarrow> poolSize p = n \<and> loops p = (if started p then map Suc [0 ..< n] else [])"

lemma pool_cfg_build: "pool_cfg n p \<Longrightarrow> BuildAndRun inl p = Inr p' \<Longrightarrow> pool_cfg n p'"
  by (cases inl) (auto simp: BuildAndRun_def pool_cfg_def start_threads_eq ensure_Inr_iff Let_def split: if_splits)

lemma pool_cfg_next: "pool_cfg n p \<Longrightarrow> GetNextLoop inl p = Inr (l, p') \<Longrightarrow> pool_cfg n p'"
  by (cases inl) (auto simp: GetNextLoop_def pool_cfg_def ensure_Inr_iff Let_def split: if_splits)

lemma run_next_keeps:
  "run_next l s = Inr s' \<Longrightarrow> length (objs s') = length (objs s) \<and> (pool_cfg n (pool s) \<longrightarrow> pool_cfg n (pool s'))"
proof (cases "pending s l")
  case (Cons t ts)
  assume "run_next l s = Inr s'"
  with Cons show ?thesis
    by (cases t) (auto simp: run_next_def run_Build_def run_Listen_def mapR_Inr_iff keeps_def
        dest!: on_conn_keeps Remove_keeps intro: pool_cfg_build)
qed (simp add: run_next_def)

lemma Serve_keeps:
  "ListenAndServe t s = Inr s' \<Longrightarrow> length (objs s') = length (objs s) \<and> (pool_cfg n (pool s) \<longrightarrow> pool_cfg n (pool s'))"
  by (auto simp: ListenAndServe_def run_in_loop_def run_Build_def run_Listen_def bindR_Inr_iff mapR_Inr_iff
      split: if_splits intro: pool_cfg_build)

lemma HandleNewConnection_cfg:
  assumes "HandleNewConnection 0 ipport s = Inr s'" and "pool_cfg n (pool s)"
  shows "pool_cfg n (pool s')"
proof -
  from assms(1) obtain l p s1 task now where
    g: "GetNextLoop True (pool s) = Inr (l, p)" and r: "run_in_loop 0 l task (Establish 0 (length (objs s))) s1 = Inr s'"
    and s1: "pool s1 = p"
    by (auto simp: HandleNewConnection_def bindR_Inr_iff Let_def)
  have "keeps s1 s'" using r on_conn_keeps(1) by (rule run_in_loop_keeps)
  with s1 pool_cfg_next [OF assms(2) g] show ?thesis by (simp add: keeps_def)
qed

lemma srv_step_cfg:
  assumes "srv_step e s = Inr s'" and "pool_cfg n (pool s)"
  shows "pool_cfg n (pool s')"
proof (cases e)
  case (Accepted k second reopened ipport)
  with assms show ?thesis
    by (auto simp: bindR_Inr_iff split: if_splits option.splits dest: HandleNewConnection_cfg)
qed (use assms in \<open>auto simp: keeps_def dest: run_next_keeps Close_keeps on_life_keeps Serve_keeps split: if_splits\<close>)

lemma srv_run_cfg: "srv_run es s = Inr s' \<Longrightarrow> pool_cfg n (pool s) \<Longrightarrow> pool_cfg n (pool s')"
  by (induction es arbitrary: s) (auto simp: bindR_Inr_iff dest: srv_step_cfg)

lemma srv_step_ok:
  assumes ok: "srv_ok s" and few: "length (objs s) < 2 ^ 64"
  shows "\<exists>s'. srv_step e s = Inr s' \<and> srv_ok s' \<and> length (objs s') \<le> Suc (length (objs s))"
proof (cases e)
  case (Accepted k second reopened ipport)
  have acc: "has_newConn (acc s)" using ok by (simp add: srv_ok_def serve_inv_def)
  have same: "s\<lparr>acc := acc s\<rparr> = s" by simp
  have keep: "srv_ok (s\<lparr>acc := a\<rparr>)"
    if "acc_reading a = acc_reading (acc s)" "acc_listening a = acc_listening (acc s)" "has_newConn a" for a
    using that ok
    by (intro same_conns_ok [OF ok]) (simp_all add: same_conns_def srv_ok_def serve_inv_def robin_inv_def)
  show ?thesis
  proof (cases "acc_reading (acc s)")
    case True
    obtain fd e where k: "k = (fd, e)" by (cases k)
    show ?thesis
    proof (cases "0 \<le> fd")
      case fd: True
      with True k acc Accepted accepted_ok [OF ok True few, of ipport] show ?thesis
        by (auto simp: Acceptor_HandleNewConnection_def same)
    next
      case False
      let ?a = "if e = EMFILE then (acc s)\<lparr>acc_closed := acc_closed (acc s) @ [idleFd (acc s), second], idleFd := reopened\<rparr>
        else acc s"
      have "srv_step e' s = Inr (s\<lparr>acc := ?a\<rparr>)" if "e' = Accepted k second reopened ipport" for e'
        using True False k that by (simp add: Acceptor_HandleNewConnection_def acc_close_def Let_def)
      moreover have "srv_ok (s\<lparr>acc := ?a\<rparr>)" using acc by (intro keep) simp_all
      ultimately show ?thesis using Accepted by auto
    qed
  qed (use Accepted ok in simp)
next
  case (RunTask l)
  with run_next_ok [OF ok, of l] run_next_keeps show ?thesis by fastforce
next
  case (PeerClosed c)
  with close_ok [OF ok, of c] Close_keeps ok show ?thesis by (fastforce simp: keeps_def)
next
  case (UserShutdown c)
  with shutdown_ok [OF ok, of c] on_life_keeps ok show ?thesis by (fastforce simp: keeps_def)
next
  case (Serve t)
  with serve_ok [OF ok, of t] Serve_keeps show ?thesis by fastforce
qed

lemma srv_run_ok:
  "srv_ok s \<Longrightarrow> length (objs s) + length es \<le> 2 ^ 64 \<Longrightarrow> \<exists>s'. srv_run es s = Inr s' \<and> srv_ok s'"
proof (induction es arbitrary: s)
  case (Cons e es)
  have "length (objs s) < 2 ^ 64" using Cons.prems(2) by simp
  from srv_step_ok [OF Cons.prems(1) this, of e] obtain s1 where
    s1: "srv_step e s = Inr s1" "srv_ok s1" "length (objs s1) \<le> Suc (length (objs s))" by blast
  have "length (objs s1) + length es \<le> 2 ^ 64" using s1(3) Cons.prems(2) by simp
  with Cons.IH [OF s1(2)] s1(1) show ?case by simp
qed simp

section \<open>A run for the witnesses\<close>

lemmas server_ops = ListenAndServe_def run_in_loop_def run_Build_def run_Listen_def Listen_def run_next_def
  HandleNewConnection_def Acceptor_HandleNewConnection_def Establish_def Destroy_def on_life_def conn_up_def
  conn_down_def CloseConnection_def RemoveConnection_def RemoveConnectionInLoop_def GetNextLoop_def BuildAndRun_def
  life_ops conn_name_def new_life_def new_EventLoopThreadPool_def

text \<open>A server with two I/O threads is started from another thread, accepts two connections,
  establishes the first, whose peer closes it again.\<close>

definition demo_events :: "srv_event list" where
  "demo_events = [Serve 3, RunTask 0, RunTask 0, Accepted (9, 0) 0 0 ''1'', Accepted (10, 0) 0 0 ''1'',
     RunTask 1, PeerClosed 0]"

lemma demo_server:
  "\<exists>s. srv_run demo_events (new_TcpServer ''s'' 2 4) = Inr s \<and> length (objs s) = 2
     \<and> map sc_loop (objs s) = [1, 2] \<and> map sc_ups (objs s) = [1, 0]
     \<and> pending s 0 = [RemoveTask 0] \<and> pending s 2 = [EstablishTask 1]"
  by (simp add: demo_events_def server_ops start_threads_eq new_TcpServer_def Let_def upt_rec)

section \<open>Properties\<close>

text \<open>The model of \<^verbatim>\<open>TcpConnection\<close> implements the life the server relies on: on a fresh,
  live or closed connection each of \<^verbatim>\<open>StepIntoEstablished\<close>, \<^verbatim>\<open>Shutdown\<close>, \<^verbatim>\<open>HandleClose\<close> and
  \<^verbatim>\<open>StepIntoDestroyed\<close> succeeds or fails exactly as the abstract operation does, and leaves the
  state, the watching and the poller entry it says.\<close>

lemma conn_refines_life:
  "(conn_fresh c \<longrightarrow> mapR life_of (StepIntoEstablished True quiet c) = life_establish (life_of c))
   \<and> (conn_ok c \<longrightarrow> mapR life_of (Shutdown True c) = life_shutdown (life_of c)
        \<and> mapR life_of (HandleClose True quiet c) = life_close (life_of c))
   \<and> (conn_ok c \<or> conn_closed c \<longrightarrow> mapR life_of (StepIntoDestroyed True quiet c) = life_destroy (life_of c))"
  using establish_life shutdown_life close_life destroy_life by blast

lemma conn_refines_life_example:
  "mapR life_of (StepIntoDestroyed True quiet (demo_conn Connected [])) =
     Inr \<lparr>lf_state = Disconnected, lf_watch = False, lf_added = False\<rparr>"
proof -
  have ok: "conn_ok (demo_conn Connected [])" by (rule demo_conn_ok) simp_all
  have "state (demo_conn Connected []) = Connected" by (simp add: demo_conn_def)
  with conn_refines_life [of "demo_conn Connected []"] ok show ?thesis
    by (simp add: life_of_ok [OF ok] life_destroy_def)
qed

text \<open>C9. The server is sound under every interleaving: whatever sequence of accepted
  connections, calls of \<^verbatim>\<open>ListenAndServe\<close> from any thread, closing peers, user shutdowns and
  turns of the loops happens, no assertion fails and nothing is used after its end; every
  connection has been told up and down as often as its state says, is in the list of the server
  exactly until its removal has run, and waits for exactly the one task its state calls for, in
  the queue of the right loop.\<close>

theorem server_sound:
  assumes "length es \<le> 2 ^ 64"
  shows "\<exists>s. srv_run es (new_TcpServer nm n idle) = Inr s \<and> alive s \<and> serve_inv s
    \<and> (\<forall>c < length (objs s). conn_phase (objs s ! c) (in_map s c)
        \<and> (\<forall>l. tasks_in (pending s) (Some c) l = expected (objs s ! c) (in_map s c) c l))"
proof -
  have "length (objs (new_TcpServer nm n idle)) + length es \<le> 2 ^ 64" using assms by (simp add: new_TcpServer_def)
  from srv_run_ok [OF srv_ok_new this] show ?thesis by (auto simp: srv_ok_def conn_inv_def)
qed

theorem server_sound_witness:
  "\<exists>s. srv_run demo_events (new_TcpServer ''s'' 2 4) = Inr s \<and> alive s \<and> map sc_ups (objs s) = [1, 0]
     \<and> pending s 0 = [RemoveTask 0] \<and> pending s 2 = [EstablishTask 1]"
proof -
  have "length demo_events \<le> 2 ^ 64" by (simp add: demo_events_def)
  from server_sound [OF this, of "''s''" 2 4] demo_server show ?thesis by auto
qed

text \<open>Connections are dealt out round robin and never share a name: with \<open>n\<close> I/O threads
  the \<open>c\<close>-th connection belongs to the loop of thread \<open>c mod n\<close>, or to the base loop when
  there are none, and distinct connections have distinct names, so none replaces another in the
  list.\<close>

lemma connections_dealt_out:
  assumes "length es \<le> 2 ^ 64" and "srv_run es (new_TcpServer nm n idle) = Inr s"
    and c: "c < length (objs s)" and d: "d < length (objs s)"
  shows "sc_loop (objs s ! c) = (if n = 0 then 0 else Suc (c mod n))
    \<and> (sc_name (objs s ! c) = sc_name (objs s ! d) \<longrightarrow> c = d)"
proof -
  have "length (objs (new_TcpServer nm n idle)) + length es \<le> 2 ^ 64" using assms by (simp add: new_TcpServer_def)
  from srv_run_ok [OF srv_ok_new this] assms(2) have ok: "srv_ok s" by simp
  have "pool_cfg n (pool (new_TcpServer nm n idle))"
    by (simp add: pool_cfg_def new_TcpServer_def new_EventLoopThreadPool_def)
  from srv_run_cfg [OF assms(2) this] have cfg: "pool_cfg n (pool s)" .
  have "started (pool s)" using ok c by (auto simp: srv_ok_def serve_inv_def)
  with cfg have ch: "loop_choices (pool s) = (if n = 0 then [0] else map Suc [0 ..< n])"
    by (simp add: loop_choices_def pool_cfg_def)
  have "sc_loop (objs s ! c) = loop_choices (pool s) ! (c mod length (loop_choices (pool s)))"
    using ok c by (simp add: srv_ok_def robin_inv_def Let_def)
  with ch have "sc_loop (objs s ! c) = (if n = 0 then 0 else Suc (c mod n))" by simp
  moreover have "names_inv s" using ok by (simp add: srv_ok_def)
  ultimately show ?thesis using names_distinct [OF _ c d] by blast
qed

lemma connections_dealt_out_example:
  "\<exists>s. srv_run demo_events (new_TcpServer ''s'' 2 4) = Inr s
     \<and> sc_loop (objs s ! 1) = 2 \<and> sc_name (objs s ! 0) \<noteq> sc_name (objs s ! 1)"
proof -
  obtain s where s: "srv_run demo_events (new_TcpServer ''s'' 2 4) = Inr s" "length (objs s) = 2"
    using demo_server by blast
  have "length demo_events \<le> 2 ^ 64" by (simp add: demo_events_def)
  from connections_dealt_out [OF this s(1), of 1 1] connections_dealt_out [OF this s(1), of 0 1] s show ?thesis by simp
qed

text \<open>The destructor leaves the queue of the base loop as it is.\<close>

lemma destroy_conns_base: "destroy_conns 0 order s = Inr s' \<Longrightarrow> pending s' 0 = pending s 0"
proof (induction order arbitrary: s)
  case (Cons c cs)
  from Cons.prems obtain s1 where
    s1: "run_in_loop 0 (sc_loop (objs s ! c)) (DestroyTask c) (Destroy 0 c) s = Inr s1" "destroy_conns 0 cs s1 = Inr s'"
    by (auto simp: bindR_Inr_iff)
  have "pending s1 0 = pending s 0"
  proof (cases "sc_loop (objs s ! c) = 0")
    case True
    with s1(1) show ?thesis by (auto simp: run_in_loop_def Destroy_def on_life_def conn_down_def mapR_Inr_iff)
  qed (use s1(1) in \<open>auto simp: run_in_loop_def\<close>)
  with Cons.IH [OF s1(2)] show ?case by simp
qed simp

text \<open>C36. The destructor does not wait for removals under way: when the server is destroyed in
  its loop while the removal of a closed connection is queued there, the next turn of the loop
  runs \<^verbatim>\<open>RemoveConnectionInLoop\<close> on the destroyed server.\<close>

theorem removal_outlives_server:
  assumes "pending s 0 = RemoveTask c # ts" and "Destruct_TcpServer 0 order s = Inr s'"
  shows "run_next 0 s' = Inl UseAfterFree"
proof -
  from assms(2) obtain s1 where "destroy_conns 0 order s = Inr s1"
    and s': "s' = s1\<lparr>alive := False, conns := Map.empty, acc := Destruct_Acceptor (acc s1)\<rparr>"
    by (auto simp: Destruct_TcpServer_def mapR_Inr_iff)
  with destroy_conns_base assms(1) have "pending s' 0 = RemoveTask c # ts" by simp
  with s' show ?thesis by (simp add: run_next_def RemoveConnectionInLoop_def)
qed

theorem removal_outlives_server_witness:
  "\<exists>s s'. srv_run demo_events (new_TcpServer ''s'' 2 4) = Inr s \<and> Destruct_TcpServer 0 [0, 1] s = Inr s'
     \<and> run_next 0 s' = Inl UseAfterFree"
proof -
  from demo_server obtain s where "srv_run demo_events (new_TcpServer ''s'' 2 4) = Inr s
      \<and> length (objs s) = 2 \<and> map sc_loop (objs s) = [1, 2] \<and> map sc_ups (objs s) = [1, 0]
      \<and> pending s 0 = [RemoveTask 0] \<and> pending s 2 = [EstablishTask 1]" ..
  then have s: "srv_run demo_events (new_TcpServer ''s'' 2 4) = Inr s" "map sc_loop (objs s) = [1, 2]"
    "pending s 0 = [RemoveTask 0]" by simp_all
  from s(2) obtain x y where xy: "objs s = [x, y]" "sc_loop x = 1" "sc_loop y = 2" by (auto simp: map_eq_Cons_conv)
  have "\<exists>s'. Destruct_TcpServer 0 [0, 1] s = Inr s'"
    unfolding Destruct_TcpServer_def using xy by (simp add: run_in_loop_def)
  then obtain s' where s': "Destruct_TcpServer 0 [0, 1] s = Inr s'" ..
  from s(3) have "pending s 0 = RemoveTask 0 # []" .
  then have "run_next 0 s' = Inl UseAfterFree" using s' by (rule removal_outlives_server)
  then show ?thesis using s(1) s' by (intro exI [of _ s] exI [of _ s'] conjI)
qed

end
