(* ===== verification/TimerLoop.thy ===== *)
theory TimerLoop
  imports TimerQueue
begin

text \<open>
  The timers of a loop over time: \<^verbatim>\<open>TimerQueue\<close> with the timerfd it arms, the \<^verbatim>\<open>Watcher\<close> of
  \<^verbatim>\<open>Timer.cpp\<close> that the poller calls when the timerfd is readable, and the tasks other threads hand in.
  The steps are those of the relation \<open>tl_step\<close>: time passes, a thread adds or cancels a
  timer, a queued task runs, the poller sees the timerfd, the watcher handles it, a callback of an
  expired timer runs. Callbacks may add and cancel timers between the steps of the others. The
  fields \<open>tl_ran\<close>, \<open>tl_asked\<close> and \<open>tl_dropped\<close> are ghost state. The parameter of the relation says whether users are
  careful; the code takes every request. Shown for careful users: no timer runs early, none is lost or
  runs twice, no assertion fails, and a timer that is due is served; and with careless ones it can fail.
\<close>

section \<open>State and steps\<close>

record timed_loop =
  tl_q :: timer_queue
  tl_now :: int
  tl_ready :: bool
  tl_running :: "timer list"
  tl_ran :: "(timer \<times> int) list"
  tl_asked :: "timer multiset"
  tl_dropped :: "timer multiset"

definition new_timed_loop :: "int \<Rightarrow> timed_loop" where
  "new_timed_loop now = \<lparr>tl_q = new_TimerQueue, tl_now = now, tl_ready = False, tl_running = [],
     tl_ran = [], tl_asked = {#}, tl_dropped = {#}\<rparr>"

text \<open>A timerfd set with \<^verbatim>\<open>TFD_TIMER_ABSTIME\<close> is readable from its time on; zero disarms it.\<close>

definition timerfd_readable :: "int \<Rightarrow> int \<times> int \<Rightarrow> bool" where
  "timerfd_readable now fd \<longleftrightarrow> fd \<noteq> (0, 0) \<and> fst fd * 1000000000 + snd fd \<le> now"

text \<open>\<^verbatim>\<open>Watcher::HandleExpiredTimers\<close> up to the callbacks: the thread is checked, the timerfd is
  read, the expired timers are taken out of the queue. \<open>None\<close> is a call that does not return.\<close>

definition Watcher_HandleExpiredTimers :: "bool \<Rightarrow> (nat \<Rightarrow> int) \<Rightarrow> timed_loop \<Rightarrow> timed_loop res option" where
  "Watcher_HandleExpiredTimers inl clk l =
     (if inl then map_option (mapR (\<lambda>(fired, q). l\<lparr>tl_q := q, tl_ready := False, tl_running := fired\<rparr>))
          (GetExpiredTimers clk (tl_q l))
      else Some (Inl FatalLog))"

text \<open>The code takes every request. What it does with them is right for users who are \<open>Careful\<close>: the timers they ask for lie after the
  epoch and in the range of the clock, ids do not come round, repeating timers are not due again while expiry
  goes on, and a cancel that is carried out is harmless: it leaves the heap a heap (\<open>safe_cancel\<close>, by \<open>Heap_Del_spec\<close> exactly
  the cancels that do), and its timer is not the one an event of the timerfd has just announced.
  \<open>AnyUser\<close> is under no such condition.\<close>

datatype user_kind = Careful | AnyUser

lemma careful_guard: "(Careful = Careful \<longrightarrow> P) = P"
  by simp

definition may_cancel :: "timer_id \<Rightarrow> timed_loop \<Rightarrow> bool" where
  "may_cancel tid l \<longleftrightarrow> safe_cancel tid (tq_heap (tl_q l)) \<and> (tl_ready l \<longrightarrow> positions (tq_heap (tl_q l)) tid \<noteq> Some 0)"

definition with_id :: "timer_id \<Rightarrow> timed_loop \<Rightarrow> timer multiset" where
  "with_id tid l = {#t \<in># queued_timers (tl_q l). timer_id t = tid#}"

text \<open>The timers whose tasks are still queued.\<close>

definition pending_adds :: "timer_queue \<Rightarrow> timer list" where
  "pending_adds q = List.map_filter (\<lambda>task. case task of TaskAdd t \<Rightarrow> Some t | TaskCancel tid \<Rightarrow> None) (tq_pending q)"

definition fresh_id :: "timer_queue \<Rightarrow> bool" where
  "fresh_id q \<longleftrightarrow> nextTimerId q \<notin> timer_id ` set_mset (queued_timers q) \<and> nextTimerId q \<notin> timer_id ` set (pending_adds q)"

text \<open>No re-armed timer leaves the range of the clock.\<close>

definition repeats_fit :: "int \<Rightarrow> timer multiset \<Rightarrow> bool" where
  "repeats_fit T M \<longleftrightarrow> (\<forall>t \<in># M. Repeat t \<longrightarrow> T + ms_to_ns (interval t) < TimePoint_max)"

inductive tl_step :: "user_kind \<Rightarrow> timed_loop \<Rightarrow> timed_loop res option \<Rightarrow> bool" for u where
  tick: "tl_now l \<le> now \<Longrightarrow> tl_step u l (Some (Inr (l\<lparr>tl_now := now\<rparr>)))"
| add: "(u = Careful \<longrightarrow> 0 < when) \<Longrightarrow> (u = Careful \<longrightarrow> when < TimePoint_max) \<Longrightarrow> (u = Careful \<longrightarrow> 0 \<le> itv) \<Longrightarrow>
    (u = Careful \<longrightarrow> fresh_id (tl_q l)) \<Longrightarrow>
    t = \<lparr>timer_cb = cb, expiration = when, interval = itv, timer_id = nextTimerId (tl_q l)\<rparr> \<Longrightarrow>
    tl_step u l (Some (mapR (\<lambda>(tid, q). l\<lparr>tl_q := q, tl_asked := add_mset t (tl_asked l)\<rparr>) (AddTimer inl when itv cb (tl_q l))))"
| cancel_there: "tl_step u l (Some (mapR (\<lambda>q. l\<lparr>tl_q := q\<rparr>) (CancelTimer False tid (tl_q l))))"
| cancel_here: "(u = Careful \<longrightarrow> may_cancel tid l) \<Longrightarrow>
    tl_step u l (Some (mapR (\<lambda>q. l\<lparr>tl_q := q, tl_dropped := tl_dropped l + with_id tid l\<rparr>)
    (CancelTimer True tid (tl_q l))))"
| task_add: "tq_pending (tl_q l) = TaskAdd t # ts \<Longrightarrow>
    tl_step u l (Some (mapR (\<lambda>q. l\<lparr>tl_q := q\<rparr>) (run_task True (TaskAdd t) ((tl_q l)\<lparr>tq_pending := ts\<rparr>))))"
| task_cancel: "tq_pending (tl_q l) = TaskCancel tid # ts \<Longrightarrow> (u = Careful \<longrightarrow> may_cancel tid l) \<Longrightarrow>
    tl_step u l (Some (mapR (\<lambda>q. l\<lparr>tl_q := q, tl_dropped := tl_dropped l + with_id tid l\<rparr>)
      (run_task True (TaskCancel tid) ((tl_q l)\<lparr>tq_pending := ts\<rparr>))))"
| poll: "timerfd_readable (tl_now l) (timerfd (tl_q l)) \<Longrightarrow> tl_running l = [] \<Longrightarrow> tl_step u l (Some (Inr (l\<lparr>tl_ready := True\<rparr>)))"
| handle: "tl_ready l \<Longrightarrow> tl_running l = [] \<Longrightarrow> phase_clock clk T \<Longrightarrow> tl_now l \<le> clk 0 \<Longrightarrow>
    (u = Careful \<longrightarrow> slow_repeats clk T (queued_timers (tl_q l))) \<Longrightarrow>
    (u = Careful \<longrightarrow> repeats_fit T (queued_timers (tl_q l))) \<Longrightarrow>
    tl_step u l (Watcher_HandleExpiredTimers True clk (l\<lparr>tl_now := T\<rparr>))"
| run: "tl_running l = t # ts \<Longrightarrow> tl_step u l (Some (Inr (l\<lparr>tl_running := ts, tl_ran := tl_ran l @ [(t, tl_now l)]\<rparr>)))"

lemmas tl_add = tl_step.add [where u = Careful, unfolded careful_guard]
lemmas tl_cancel_here = tl_step.cancel_here [where u = Careful, unfolded careful_guard]
lemmas tl_task_cancel = tl_step.task_cancel [where u = Careful, unfolded careful_guard]
lemmas tl_handle = tl_step.handle [where u = Careful, unfolded careful_guard]

inductive_cases tl_careful_elim: "tl_step Careful l r"

lemmas tl_careful_cases [consumes 1, case_names tick add cancel_there cancel_here task_add task_cancel poll handle run] =
  tl_careful_elim [unfolded careful_guard]

inductive tl_reach :: "user_kind \<Rightarrow> timed_loop \<Rightarrow> timed_loop \<Rightarrow> bool" for u l0 where
  here: "tl_reach u l0 l0"
| there: "tl_reach u l0 l \<Longrightarrow> tl_step u l (Some (Inr l')) \<Longrightarrow> tl_reach u l0 l'"

section \<open>The invariant\<close>

text \<open>Every one-shot timer asked for is in exactly one place; a repeating one is queued, or has
  been cancelled, up to its expiration.\<close>

definition once_of :: "timer multiset \<Rightarrow> timer multiset" where
  "once_of M = {#t \<in># M. \<not> Repeat t#}"

definition repeats_of :: "timer multiset \<Rightarrow> timer multiset" where
  "repeats_of M = image_mset (\<lambda>t. t\<lparr>expiration := 0\<rparr>) {#t \<in># M. Repeat t#}"

definition waiting :: "timed_loop \<Rightarrow> timer multiset" where
  "waiting l = mset (pending_adds (tl_q l)) + queued_timers (tl_q l)"

definition in_range :: "timer \<Rightarrow> bool" where
  "in_range t \<longleftrightarrow> 0 < expiration t \<and> expiration t < TimePoint_max \<and> 0 \<le> interval t"

definition tl_ok :: "timed_loop \<Rightarrow> bool" where
  "tl_ok l \<longleftrightarrow> tq_ok (tl_q l) \<and> 0 \<le> tl_now l
     \<and> distinct (map timer_id (pending_adds (tl_q l)))
     \<and> timer_id ` set (pending_adds (tl_q l)) \<inter> timer_id ` set_mset (queued_timers (tl_q l)) = {}
     \<and> (\<forall>t \<in># waiting l. in_range t)
     \<and> (tl_ready l \<longrightarrow> queued_timers (tl_q l) \<noteq> {#} \<and> latestTime (tl_q l) \<le> tl_now l)
     \<and> (\<forall>t \<in> set (tl_running l). expiration t \<le> tl_now l)
     \<and> (\<forall>(t, at) \<in> set (tl_ran l). expiration t \<le> at)
     \<and> once_of (tl_asked l) = once_of (waiting l + mset (tl_running l) + mset (map fst (tl_ran l)) + tl_dropped l)
     \<and> repeats_of (tl_asked l) = repeats_of (waiting l + tl_dropped l)"

lemma once_of_simps [simp]: "once_of (A + B) = once_of A + once_of B" "once_of {#} = {#}"
  "once_of (add_mset t A) = (if Repeat t then once_of A else add_mset t (once_of A))"
  by (simp_all add: once_of_def)

lemma repeats_of_simps [simp]: "repeats_of (A + B) = repeats_of A + repeats_of B" "repeats_of {#} = {#}"
  "repeats_of (add_mset t A) = (if Repeat t then add_mset (t\<lparr>expiration := 0\<rparr>) (repeats_of A) else repeats_of A)"
  by (simp_all add: repeats_of_def)

lemma pending_adds_simps [simp]: "tq_pending q = [] \<Longrightarrow> pending_adds q = []"
  "pending_adds (q\<lparr>tq_pending := TaskAdd t # ts\<rparr>) = t # pending_adds (q\<lparr>tq_pending := ts\<rparr>)"
  "pending_adds (q\<lparr>tq_pending := TaskCancel tid # ts\<rparr>) = pending_adds (q\<lparr>tq_pending := ts\<rparr>)"
  "pending_adds (q\<lparr>tq_pending := ts @ [TaskAdd t]\<rparr>) = pending_adds (q\<lparr>tq_pending := ts\<rparr>) @ [t]"
  "pending_adds (q\<lparr>tq_pending := ts @ [TaskCancel tid]\<rparr>) = pending_adds (q\<lparr>tq_pending := ts\<rparr>)"
  by (simp_all add: pending_adds_def List.map_filter_def)

lemma pending_adds_cong: "tq_pending q = tq_pending q' \<Longrightarrow> pending_adds q = pending_adds q'"
  by (simp add: pending_adds_def)

section \<open>The operations\<close>

lemma tq_ok_update [simp]: "tq_ok (q\<lparr>nextTimerId := n\<rparr>) = tq_ok q" "tq_ok (q\<lparr>tq_pending := ts\<rparr>) = tq_ok q"
  by (simp_all add: tq_ok_def)

lemma AddTimerInLoop_pending: "AddTimerInLoop True t q = Inr q' \<Longrightarrow> tq_pending q' = tq_pending q"
  by (auto simp: AddTimerInLoop_eq ResetTimerfd_eq Let_def split: if_splits)

lemma CancelTimerInLoop_pending: "CancelTimerInLoop True tid q = Inr q' \<Longrightarrow> tq_pending q' = tq_pending q"
  by (auto simp: CancelTimerInLoop_def ResetTimerfd_eq Let_def split: if_splits prod.splits)

lemma latestTime_top:
  assumes "tq_ok q" and "queued_timers q \<noteq> {#}"
  shows "\<exists>t \<in># queued_timers q. latestTime q = expiration t"
proof -
  have "heap_ok (tq_heap q)" using assms(1) by (simp add: tq_ok_def)
  with assms heap_store.top_mem heap_store.empty_iff show ?thesis
    by (intro bexI [of _ "Heap_Top (tq_heap q)"]) (auto simp: tq_ok_def earliest_def)
qed

lemma AddTimerInLoop_latest:
  assumes "tq_ok q" and "tq_ok q'" and "queued_timers q' = add_mset t (queued_timers q)" and "queued_timers q \<noteq> {#}"
  shows "latestTime q' \<le> latestTime q"
  using latestTime_top [OF assms(1,4)] tq_ok_earliest [OF assms(2)] assms(3) by fastforce

lemma CancelTimerInLoop_latest:
  assumes "tq_ok q" and "positions (tq_heap q) tid \<noteq> Some 0" and "CancelTimerInLoop True tid q = Inr q'"
  shows "latestTime q' = latestTime q"
proof (cases "positions (tq_heap q) tid")
  case None
  with assms(3) show ?thesis by (auto simp: CancelTimerInLoop_def Heap_Del_absent)
next
  case (Some i)
  have "heap_ok (tq_heap q)" using assms(1) by (simp add: tq_ok_def)
  moreover from this Some have "i < length (timerList (tq_heap q))" "timer_id (timerList (tq_heap q) ! i) = tid"
    using heap_indexedD [of "tq_heap q" tid i] by (auto simp: heap_ok_def)
  ultimately show ?thesis using CancelTimerInLoop_at [of q i tid] Some assms(2,3) by auto
qed

text \<open>What expiry does to the two kinds of timers.\<close>

lemma once_of_diff [simp]: "once_of (A - B) = once_of A - once_of B"
  by (simp add: once_of_def)

lemma once_of_empty: "(\<And>t. t \<in># M \<Longrightarrow> Repeat t) \<Longrightarrow> once_of M = {#}"
  by (induction M) auto

lemma again_repeats:
  "list_all2 (\<lambda>t r. \<exists>i. r = rearmed (clk i) t) (filter Repeat fired) again \<Longrightarrow>
   (\<forall>r \<in> set again. Repeat r) \<and> repeats_of (mset again) = repeats_of (mset fired)
   \<and> timer_id ` set again \<subseteq> timer_id ` set fired"
proof (induction fired arbitrary: again)
  case (Cons t fired)
  show ?case
  proof (cases "Repeat t")
    case True
    with Cons.prems have "list_all2 (\<lambda>t r. \<exists>i. r = rearmed (clk i) t) (t # filter Repeat fired) again" by simp
    then obtain i rs where r: "again = rearmed (clk i) t # rs"
      "list_all2 (\<lambda>t r. \<exists>i. r = rearmed (clk i) t) (filter Repeat fired) rs"
      unfolding list_all2_Cons1 by blast
    have same: "(rearmed (clk i) t)\<lparr>expiration := 0\<rparr> = t\<lparr>expiration := 0\<rparr>" by (simp add: rearmed_def)
    note ih = Cons.IH [OF r(2)]
    have "timer_id ` set again \<subseteq> timer_id ` set (t # fired)" using ih by (auto simp: r(1))
    with ih True same show ?thesis by (simp add: r(1))
  next
    case False
    with Cons.prems have "list_all2 (\<lambda>t r. \<exists>i. r = rearmed (clk i) t) (filter Repeat fired) again" by simp
    note ih = Cons.IH [OF this]
    have "timer_id ` set again \<subseteq> timer_id ` set (t # fired)" using ih by auto
    with ih False show ?thesis by simp
  qed
qed simp

lemma expiry_parts:
  assumes "expiry_spec clk now T M fired M'"
  shows "once_of M = once_of M' + once_of (mset fired)" and "repeats_of M' = repeats_of M"
    and "timer_id ` set_mset M' \<subseteq> timer_id ` set_mset M"
proof -
  obtain again where a: "M' = M - mset fired + mset again"
    "list_all2 (\<lambda>t r. \<exists>i. r = rearmed (clk i) t) (filter Repeat fired) again"
    using assms unfolding expiry_spec_def by blast
  have sub: "mset fired \<subseteq># M" using assms by (simp add: expiry_spec_def)
  then obtain R where R: "M = mset fired + R" by (auto simp: mset_subset_eq_exists_conv)
  note r = again_repeats [OF a(2)]
  have "once_of (mset again) = {#}" using r by (intro once_of_empty) simp
  then show "once_of M = once_of M' + once_of (mset fired)" using a(1) R by simp
  show "repeats_of M' = repeats_of M" using a(1) R r by simp
  show "timer_id ` set_mset M' \<subseteq> timer_id ` set_mset M" using a(1) R r by auto
qed

section \<open>Every step succeeds and keeps the invariant\<close>

lemma tl_okD:
  assumes "tl_ok l"
  shows "tq_ok (tl_q l)" "0 \<le> tl_now l" "distinct (map timer_id (pending_adds (tl_q l)))"
    "timer_id ` set (pending_adds (tl_q l)) \<inter> timer_id ` set_mset (queued_timers (tl_q l)) = {}"
    "\<forall>t \<in># waiting l. in_range t"
    "tl_ready l \<Longrightarrow> queued_timers (tl_q l) \<noteq> {#} \<and> latestTime (tl_q l) \<le> tl_now l"
    "\<forall>t \<in> set (tl_running l). expiration t \<le> tl_now l" "\<forall>(t, at) \<in> set (tl_ran l). expiration t \<le> at"
    "once_of (tl_asked l) = once_of (waiting l + mset (tl_running l) + mset (map fst (tl_ran l)) + tl_dropped l)"
    "repeats_of (tl_asked l) = repeats_of (waiting l + tl_dropped l)"
  using assms unfolding tl_ok_def by blast+

lemma insert_ok:
  assumes ok: "tq_ok q" and new: "timer_id t \<notin> timer_id ` set_mset (queued_timers q)"
  shows "\<exists>q'. AddTimerInLoop True t q = Inr q' \<and> tq_ok q' \<and> queued_timers q' = add_mset t (queued_timers q)
    \<and> pending_adds q' = pending_adds q \<and> (queued_timers q \<noteq> {#} \<longrightarrow> latestTime q' \<le> latestTime q)"
proof -
  from AddTimerInLoop_ok [OF assms] obtain q' where
    q': "AddTimerInLoop True t q = Inr q'" "tq_ok q'" "queued_timers q' = add_mset t (queued_timers q)" by blast
  with AddTimerInLoop_latest [OF ok q'(2,3)] AddTimerInLoop_pending [OF q'(1)] pending_adds_cong show ?thesis by blast
qed

lemma remove_ok:
  assumes ok: "tq_ok q" and safe: "safe_cancel tid (tq_heap q)" and range: "\<forall>t \<in># queued_timers q. in_range t"
  shows "\<exists>q'. CancelTimerInLoop True tid q = Inr q' \<and> tq_ok q'
    \<and> queued_timers q = queued_timers q' + {#t \<in># queued_timers q. timer_id t = tid#} \<and> pending_adds q' = pending_adds q
    \<and> (positions (tq_heap q) tid \<noteq> Some 0 \<and> queued_timers q \<noteq> {#} \<longrightarrow> latestTime q' = latestTime q \<and> queued_timers q' \<noteq> {#})"
proof -
  from CancelTimerInLoop_ok [OF ok safe] obtain q' where
    q': "CancelTimerInLoop True tid q = Inr q'" "tq_ok q'" "queued_timers q' = {#t \<in># queued_timers q. timer_id t \<noteq> tid#}" by blast
  have "queued_timers q = queued_timers q' + {#t \<in># queued_timers q. timer_id t = tid#}"
    using multiset_partition [of "queued_timers q" "\<lambda>t. timer_id t = tid"] by (simp add: q'(3) add.commute)
  moreover have "queued_timers q' \<noteq> {#}" if *: "positions (tq_heap q) tid \<noteq> Some 0" "queued_timers q \<noteq> {#}"
  proof
    assume "queued_timers q' = {#}"
    moreover have "heap_ok (tq_heap q')" using q'(2) by (simp add: tq_ok_def)
    ultimately have "latestTime q' = TimePoint_max" using q'(2) heap_store.empty_iff by (simp add: tq_ok_def earliest_def)
    then have "latestTime q = TimePoint_max" using CancelTimerInLoop_latest [OF ok *(1) q'(1)] by simp
    with latestTime_top [OF ok *(2)] range show False by (auto simp: in_range_def)
  qed
  ultimately show ?thesis
    using q'(1,2) CancelTimerInLoop_latest [OF ok _ q'(1)] pending_adds_cong [OF CancelTimerInLoop_pending [OF q'(1)]] by blast
qed

text \<open>A new timer that is in the queue, or waits to be put there.\<close>

lemma step_add:
  assumes ok: "tl_ok l" and "0 < when" "when < TimePoint_max" "0 \<le> itv" and fresh: "fresh_id (tl_q l)"
    and t: "t = \<lparr>timer_cb = cb, expiration = when, interval = itv, timer_id = nextTimerId (tl_q l)\<rparr>"
  shows "\<exists>tid q. AddTimer inl when itv cb (tl_q l) = Inr (tid, q) \<and> tl_ok (l\<lparr>tl_q := q, tl_asked := add_mset t (tl_asked l)\<rparr>)
    \<and> queued_timers (tl_q l) \<subseteq># queued_timers q"
proof -
  note o = tl_okD [OF ok]
  let ?q0 = "(tl_q l)\<lparr>nextTimerId := nextTimerId (tl_q l) + 1\<rparr>"
  have t': "in_range t" "timer_id t \<notin> timer_id ` set_mset (queued_timers (tl_q l))" "timer_id t \<notin> timer_id ` set (pending_adds (tl_q l))"
    using assms(2-4) fresh by (simp_all add: t in_range_def fresh_id_def)
  have p0: "pending_adds ?q0 = pending_adds (tl_q l)" by (rule pending_adds_cong) simp
  have add: "AddTimer inl when itv cb (tl_q l) = mapR (Pair (nextTimerId (tl_q l))) (submit inl (TaskAdd t) ?q0)"
    using assms(3) by (simp add: AddTimer_def t Let_def)
  show ?thesis
  proof (cases inl)
    case True
    from insert_ok [of ?q0 t] o(1) t'(2) obtain q' where
      q': "AddTimerInLoop True t ?q0 = Inr q'" "tq_ok q'" "queued_timers q' = add_mset t (queued_timers (tl_q l))"
        "pending_adds q' = pending_adds (tl_q l)"
        "queued_timers (tl_q l) \<noteq> {#} \<longrightarrow> latestTime q' \<le> latestTime (tl_q l)" unfolding p0 by auto
    have "tl_ok (l\<lparr>tl_q := q', tl_asked := add_mset t (tl_asked l)\<rparr>)"
      unfolding tl_ok_def using o q' t' by (auto simp: waiting_def)
    with True q'(1,3) add show ?thesis by (simp add: submit_def)
  next
    case False
    let ?q' = "?q0\<lparr>tq_pending := tq_pending (tl_q l) @ [TaskAdd t]\<rparr>"
    have p': "pending_adds ?q' = pending_adds (tl_q l) @ [t]" by (simp add: pending_adds_def List.map_filter_def)
    have "tl_ok (l\<lparr>tl_q := ?q', tl_asked := add_mset t (tl_asked l)\<rparr>)"
      unfolding tl_ok_def using o p' t' by (auto simp: waiting_def)
    with False add show ?thesis by (simp add: submit_def)
  qed
qed

lemma step_cancel_here:
  assumes ok: "tl_ok l" and may: "may_cancel tid l"
  shows "\<exists>q. CancelTimerInLoop True tid (tl_q l) = Inr q \<and> tl_ok (l\<lparr>tl_q := q, tl_dropped := tl_dropped l + with_id tid l\<rparr>)
    \<and> queued_timers (tl_q l) = queued_timers q + with_id tid l"
proof -
  note o = tl_okD [OF ok]
  have range: "\<forall>t \<in># queued_timers (tl_q l). in_range t" using o(5) by (simp add: waiting_def)
  from remove_ok [OF o(1) _ range] may obtain q where
    q: "CancelTimerInLoop True tid (tl_q l) = Inr q" "tq_ok q" "queued_timers (tl_q l) = queued_timers q + with_id tid l"
      "pending_adds q = pending_adds (tl_q l)"
      "positions (tq_heap (tl_q l)) tid \<noteq> Some 0 \<and> queued_timers (tl_q l) \<noteq> {#}
        \<longrightarrow> latestTime q = latestTime (tl_q l) \<and> queued_timers q \<noteq> {#}"
    unfolding may_cancel_def with_id_def by blast
  have "tl_ready l \<longrightarrow> queued_timers q \<noteq> {#} \<and> latestTime q \<le> tl_now l"
    using o(6) q(5) may by (auto simp: may_cancel_def)
  moreover have "once_of (tl_asked l) = once_of (mset (pending_adds q) + queued_timers q + mset (tl_running l)
      + mset (map fst (tl_ran l)) + (tl_dropped l + with_id tid l))"
    "repeats_of (tl_asked l) = repeats_of (mset (pending_adds q) + queued_timers q + (tl_dropped l + with_id tid l))"
    using o(9,10) by (simp_all add: waiting_def q(3,4))
  moreover have "\<forall>t \<in># mset (pending_adds q) + queued_timers q. in_range t"
    "timer_id ` set (pending_adds q) \<inter> timer_id ` set_mset (queued_timers q) = {}"
    using o(4,5) by (auto simp: waiting_def q(3,4))
  ultimately show ?thesis
    using o(1-3,7,8) q(1-4) by (intro exI [of _ q]) (simp add: tl_ok_def waiting_def)
qed

lemma rearmed_in_range:
  assumes "expiry_spec clk now T M fired M'" and "\<forall>t \<in># M. in_range t" and "phase_clock clk T" and "0 \<le> clk 0"
    and "repeats_fit T M"
  shows "\<forall>t \<in># M'. in_range t"
proof
  fix t assume t: "t \<in># M'"
  obtain again where a: "M' = M - mset fired + mset again"
    "list_all2 (\<lambda>t r. \<exists>i. r = rearmed (clk i) t) (filter Repeat fired) again"
    using assms(1) unfolding expiry_spec_def by blast
  show "in_range t"
  proof (cases "t \<in> set again")
    case True
    then obtain k where "k < length again" "t = again ! k" by (auto simp: in_set_conv_nth)
    with a(2) obtain i where i: "t = rearmed (clk i) (filter Repeat fired ! k)" and k: "k < length (filter Repeat fired)"
      by (auto simp: list_all2_conv_all_nth)
    let ?s = "filter Repeat fired ! k"
    have "?s \<in> set (filter Repeat fired)" using k by (rule nth_mem)
    then have s: "Repeat ?s" "?s \<in># M" using assms(1) by (auto simp: expiry_spec_def dest: mset_subset_eqD)
    have "0 \<le> clk i" "clk i \<le> T" using assms(3,4) unfolding phase_clock_def by (meson le0 order_trans)+
    moreover have "0 < interval ?s" "T + ms_to_ns (interval ?s) < TimePoint_max"
      using assms(2,5) s by (auto simp: in_range_def Repeat_def repeats_fit_def less_le)
    ultimately show ?thesis by (simp add: i in_range_def ms_to_ns_def)
  next
    case False
    then have "t \<in># M" using t a(1) by (auto dest: in_diffD)
    then show ?thesis using assms(2) by blast
  qed
qed

lemma step_handle:
  assumes ok: "tl_ok l" and ready: "tl_ready l" and idle: "tl_running l = []" and clk: "phase_clock clk T"
    and now: "tl_now l \<le> clk 0" and slow: "slow_repeats clk T (queued_timers (tl_q l))"
    and fit: "repeats_fit T (queued_timers (tl_q l))"
  shows "\<exists>fired q. Watcher_HandleExpiredTimers True clk (l\<lparr>tl_now := T\<rparr>)
      = Some (Inr (l\<lparr>tl_now := T, tl_q := q, tl_ready := False, tl_running := fired\<rparr>))
    \<and> tl_ok (l\<lparr>tl_now := T, tl_q := q, tl_ready := False, tl_running := fired\<rparr>)
    \<and> {#t \<in># queued_timers (tl_q l). expiration t \<le> clk 0#} \<subseteq># mset fired
    \<and> tq_pending q = tq_pending (tl_q l)"
proof -
  note o = tl_okD [OF ok]
  have "latestTime (tl_q l) \<le> clk 0" using o(6) ready now by simp
  with GetExpiredTimers_ok [OF o(1) clk slow] obtain fired q where
    q: "GetExpiredTimers clk (tl_q l) = Some (Inr (fired, q))" "tq_ok q" "tq_pending q = tq_pending (tl_q l)"
      "expiry_spec clk (clk 0) T (queued_timers (tl_q l)) fired (queued_timers q)"
      "{#t \<in># queued_timers (tl_q l). expiration t \<le> clk 0#} \<subseteq># mset fired" by blast
  let ?l = "l\<lparr>tl_now := T, tl_q := q, tl_ready := False, tl_running := fired\<rparr>"
  have p: "pending_adds q = pending_adds (tl_q l)" by (rule pending_adds_cong) (rule q(3))
  note parts = expiry_parts [OF q(4)]
  have "0 \<le> T" using o(2) now clk unfolding phase_clock_def by (meson order_trans)
  moreover have "\<forall>t \<in># waiting ?l. in_range t"
    using rearmed_in_range [OF q(4) _ clk _ fit] o(2,5) now p by (auto simp: waiting_def)
  moreover have "\<forall>t \<in> set fired. expiration t \<le> T" using q(4) by (simp add: expiry_spec_def)
  moreover have "timer_id ` set (pending_adds q) \<inter> timer_id ` set_mset (queued_timers q) = {}"
    using o(4) parts(3) unfolding p by fast
  ultimately have "tl_ok ?l" using o(3,8-10) q(2) parts(1,2) idle p by (simp add: tl_ok_def waiting_def add_ac)
  moreover have "Watcher_HandleExpiredTimers True clk (l\<lparr>tl_now := T\<rparr>) = Some (Inr ?l)"
    using q(1) by (simp add: Watcher_HandleExpiredTimers_def)
  ultimately show ?thesis using q(3,5) by blast
qed

text \<open>A queued task of a consistent loop is a task of a consistent loop without it.\<close>

lemma pending_Cons:
  assumes "tq_pending q = task # ts"
  shows "pending_adds q = (case task of TaskAdd t \<Rightarrow> [t] | TaskCancel tid \<Rightarrow> []) @ pending_adds (q\<lparr>tq_pending := ts\<rparr>)"
  using assms by (simp add: pending_adds_def List.map_filter_simps split: tq_task.splits)

lemma step_task_add:
  assumes ok: "tl_ok l" and task: "tq_pending (tl_q l) = TaskAdd t # ts"
  shows "\<exists>q. AddTimerInLoop True t ((tl_q l)\<lparr>tq_pending := ts\<rparr>) = Inr q \<and> tl_ok (l\<lparr>tl_q := q\<rparr>)
    \<and> queued_timers q = add_mset t (queued_timers (tl_q l))"
proof -
  note o = tl_okD [OF ok]
  let ?q = "(tl_q l)\<lparr>tq_pending := ts\<rparr>"
  have p: "pending_adds (tl_q l) = t # pending_adds ?q" using pending_Cons [OF task] by simp
  have "timer_id t \<notin> timer_id ` set_mset (queued_timers ?q)" using o(4) unfolding p by auto
  with insert_ok [of ?q t] o(1) obtain q' where
    q': "AddTimerInLoop True t ?q = Inr q'" "tq_ok q'" "queued_timers q' = add_mset t (queued_timers (tl_q l))"
      "pending_adds q' = pending_adds ?q"
      "queued_timers (tl_q l) \<noteq> {#} \<longrightarrow> latestTime q' \<le> latestTime (tl_q l)" by auto
  have w: "waiting (l\<lparr>tl_q := q'\<rparr>) = waiting l" by (simp add: waiting_def p q'(3,4))
  have "timer_id t \<notin> timer_id ` set (pending_adds ?q)" "distinct (map timer_id (pending_adds ?q))"
    using o(3) unfolding p by auto
  moreover have "timer_id ` set (pending_adds ?q) \<inter> timer_id ` set_mset (queued_timers (tl_q l)) = {}"
    using o(4) unfolding p by auto
  ultimately have "timer_id ` set (pending_adds q') \<inter> timer_id ` set_mset (queued_timers q') = {}"
    "distinct (map timer_id (pending_adds q'))" unfolding q'(3,4) by auto
  then have "tl_ok (l\<lparr>tl_q := q'\<rparr>)" unfolding tl_ok_def w using o q'(2,3,5) by auto
  with q'(1,3) show ?thesis by blast
qed

lemma tl_ok_drop_cancel:
  assumes "tl_ok l" and task: "tq_pending (tl_q l) = TaskCancel tid # ts"
  shows "tl_ok (l\<lparr>tl_q := (tl_q l)\<lparr>tq_pending := ts\<rparr>\<rparr>)"
proof -
  have "pending_adds (tl_q l) = pending_adds ((tl_q l)\<lparr>tq_pending := ts\<rparr>)" using pending_Cons [OF task] by simp
  with assms(1) show ?thesis by (simp add: tl_ok_def waiting_def)
qed

lemma armed_readable:
  assumes ok: "tl_ok l" and readable: "timerfd_readable (tl_now l) (timerfd (tl_q l))"
  shows "queued_timers (tl_q l) \<noteq> {#} \<and> latestTime (tl_q l) \<le> tl_now l"
proof -
  note o = tl_okD [OF ok]
  have ne: "queued_timers (tl_q l) \<noteq> {#}"
  proof
    assume "queued_timers (tl_q l) = {#}"
    moreover have "heap_ok (tq_heap (tl_q l))" using o(1) by (simp add: tq_ok_def)
    ultimately have "timerfd (tl_q l) = (0, 0)"
      using o(1) heap_store.empty_iff by (simp add: tq_ok_def earliest_def armed_at_def)
    with readable show False by (simp add: timerfd_readable_def)
  qed
  from latestTime_top [OF o(1) this] o(5) have "0 < latestTime (tl_q l)" "latestTime (tl_q l) < TimePoint_max"
    by (auto simp: waiting_def in_range_def)
  then have "timerfd (tl_q l) = (latestTime (tl_q l) div 1000000000, latestTime (tl_q l) mod 1000000000)"
    using o(1) by (simp add: tq_ok_def armed_at_def to_itimerspec_pos)
  with readable ne show ?thesis by (simp add: timerfd_readable_def)
qed

lemma tl_step_ok:
  assumes "tl_step Careful l r" and ok: "tl_ok l"
  shows "\<exists>l'. r = Some (Inr l') \<and> tl_ok l'"
  using assms(1)
proof (cases rule: tl_careful_cases)
  case (tick now)
  then show ?thesis using ok by (fastforce simp: tl_ok_def waiting_def)
next
  case (add "when" itv cb inl)
  let ?t = "\<lparr>timer_cb = cb, expiration = when, interval = itv, timer_id = nextTimerId (tl_q l)\<rparr>"
  from step_add [OF ok add(2-5) refl, of inl cb] obtain tid q where
    "AddTimer inl when itv cb (tl_q l) = Inr (tid, q)" "tl_ok (l\<lparr>tl_q := q, tl_asked := add_mset ?t (tl_asked l)\<rparr>)" by blast
  then show ?thesis by (simp add: add(1))
next
  case (cancel_there tid)
  have "pending_adds ((tl_q l)\<lparr>tq_pending := tq_pending (tl_q l) @ [TaskCancel tid]\<rparr>) = pending_adds (tl_q l)"
    by (simp add: pending_adds_def List.map_filter_def)
  then show ?thesis using ok by (simp add: cancel_there CancelTimer_def submit_def tl_ok_def waiting_def)
next
  case (cancel_here tid)
  from step_cancel_here [OF ok cancel_here(2)] show ?thesis
    by (auto simp: cancel_here(1) CancelTimer_def submit_def)
next
  case (task_add t ts)
  from step_task_add [OF ok task_add(2)] show ?thesis by (auto simp: task_add(1))
next
  case (task_cancel tid ts)
  let ?l = "l\<lparr>tl_q := (tl_q l)\<lparr>tq_pending := ts\<rparr>\<rparr>"
  have "may_cancel tid ?l" "with_id tid ?l = with_id tid l" using task_cancel(3) by (simp_all add: may_cancel_def with_id_def)
  from step_cancel_here [OF tl_ok_drop_cancel [OF ok task_cancel(2)] this(1)] this(2) show ?thesis
    by (auto simp: task_cancel(1))
next
  case poll
  from armed_readable [OF ok poll(2)] ok show ?thesis by (simp add: poll(1) tl_ok_def waiting_def)
next
  case (handle clk T)
  from step_handle [OF ok handle(2-7)] show ?thesis by (auto simp: handle(1))
next
  case (run t ts)
  then show ?thesis using ok by (simp add: tl_ok_def waiting_def add_ac) 
qed

lemma new_timed_loop_ok: "0 \<le> now \<Longrightarrow> tl_ok (new_timed_loop now)"
proof -
  have "queued_timers new_TimerQueue = {#}" "pending_adds new_TimerQueue = []"
    by (simp_all add: new_TimerQueue_def new_TimerMinHeap_def heap_timers_def pending_adds_def)
  then show "0 \<le> now \<Longrightarrow> tl_ok (new_timed_loop now)" by (simp add: tl_ok_def new_timed_loop_def waiting_def)
qed

lemma tl_reach_ok: "tl_reach Careful l0 l \<Longrightarrow> tl_ok l0 \<Longrightarrow> tl_ok l"
  by (induction rule: tl_reach.induct) (use tl_step_ok in \<open>fastforce+\<close>)

lemma tl_reach_trans: "tl_reach Careful b c \<Longrightarrow> tl_reach Careful a b \<Longrightarrow> tl_reach Careful a c"
  by (induction rule: tl_reach.induct) (auto intro: tl_reach.intros)

section \<open>A timer that is due is served\<close>

text \<open>Between two states a timer has been run, or has been cancelled.\<close>

definition settled :: "timer \<Rightarrow> timed_loop \<Rightarrow> timed_loop \<Rightarrow> bool" where
  "settled t l l' \<longleftrightarrow> (\<exists>at. (t, at) \<in> set (drop (length (tl_ran l)) (tl_ran l'))) \<or> count (tl_dropped l) t < count (tl_dropped l') t"

lemma tl_step_grows:
  assumes "tl_step Careful l (Some (Inr l'))"
  shows "tl_now l \<le> tl_now l' \<and> tl_dropped l \<subseteq># tl_dropped l' \<and> (\<exists>d. tl_ran l' = tl_ran l @ d)"
  using assms
proof (cases rule: tl_careful_cases)
  case (handle clk T)
  from handle(1) have "Watcher_HandleExpiredTimers True clk (l\<lparr>tl_now := T\<rparr>) = Some (Inr l')" by simp
  then have "tl_now l' = T" "tl_dropped l' = tl_dropped l" "tl_ran l' = tl_ran l"
    by (auto simp: Watcher_HandleExpiredTimers_def res_iffs)
  moreover have "tl_now l \<le> T" using handle(4,5) unfolding phase_clock_def by (meson order_trans)
  ultimately show ?thesis by simp
qed (auto simp: Inr_mapR_iff)

lemma tl_step_fate:
  assumes step: "tl_step Careful l (Some (Inr l'))" and ok: "tl_ok l" and t: "t \<in># queued_timers (tl_q l)" "expiration t \<le> tl_now l"
  shows "t \<in># queued_timers (tl_q l') \<and> (tl_ready l \<longrightarrow> tl_ready l') \<or> t \<in> set (tl_running l') \<or> settled t l l'"
  using step
proof (cases rule: tl_careful_cases)
  case (add "when" itv cb inl)
  from step_add [OF ok add(2-5) refl, of inl cb] obtain tid q where
    "AddTimer inl when itv cb (tl_q l) = Inr (tid, q)" "queued_timers (tl_q l) \<subseteq># queued_timers q" by blast
  with add(1) t(1) show ?thesis by (auto dest: mset_subset_eqD)
next
  case (cancel_there tid)
  then show ?thesis using t(1) by (simp add: CancelTimer_def submit_def)
next
  case (cancel_here tid)
  from step_cancel_here [OF ok cancel_here(2)] obtain q where
    "CancelTimerInLoop True tid (tl_q l) = Inr q" "queued_timers (tl_q l) = queued_timers q + with_id tid l" by blast
  with cancel_here(1) t(1) show ?thesis by (auto simp: CancelTimer_def submit_def settled_def)
next
  case (task_add u ts)
  from step_task_add [OF ok task_add(2)] task_add(1) t(1) show ?thesis by auto
next
  case (task_cancel tid ts)
  let ?l = "l\<lparr>tl_q := (tl_q l)\<lparr>tq_pending := ts\<rparr>\<rparr>"
  have "may_cancel tid ?l" "with_id tid ?l = with_id tid l" using task_cancel(3) by (simp_all add: may_cancel_def with_id_def)
  from step_cancel_here [OF tl_ok_drop_cancel [OF ok task_cancel(2)] this(1)] this(2) obtain q where
    "CancelTimerInLoop True tid (tl_q ?l) = Inr q" "queued_timers (tl_q l) = queued_timers q + with_id tid l" by auto
  with task_cancel(1) t(1) show ?thesis by (auto simp: settled_def)
next
  case (handle clk T)
  from step_handle [OF ok handle(2-7)] handle(1) obtain fired q where
    h: "l' = l\<lparr>tl_now := T, tl_q := q, tl_ready := False, tl_running := fired\<rparr>"
      "{#t \<in># queued_timers (tl_q l). expiration t \<le> clk 0#} \<subseteq># mset fired" by auto
  have "t \<in># {#t \<in># queued_timers (tl_q l). expiration t \<le> clk 0#}" using t handle(5) by simp
  with h(2) have "t \<in> set fired" by (metis mset_subset_eqD set_mset_mset)
  then show ?thesis by (simp add: h(1))
qed (use t(1) in auto)

lemma tl_step_running:
  assumes "tl_step Careful l (Some (Inr l'))" and "t \<in> set (tl_running l)"
  shows "t \<in> set (tl_running l') \<or> settled t l l'"
  using assms(1)
proof (cases rule: tl_careful_cases)
  case (run u us)
  then show ?thesis using assms(2) by (auto simp: settled_def)
qed (use assms(2) in \<open>auto simp: Inr_mapR_iff\<close>)

lemma run_all:
  "\<exists>l'. tl_reach Careful l l' \<and> tl_running l' = [] \<and> tl_ran l' = tl_ran l @ map (\<lambda>t. (t, tl_now l)) (tl_running l)
    \<and> tl_now l' = tl_now l"
proof (induction "tl_running l" arbitrary: l)
  case Nil
  then show ?case by (intro exI [of _ l]) (simp add: tl_reach.here)
next
  case (Cons t ts)
  let ?l = "l\<lparr>tl_running := ts, tl_ran := tl_ran l @ [(t, tl_now l)]\<rparr>"
  have step: "tl_reach Careful l ?l" by (rule tl_reach.there [OF tl_reach.here]) (rule tl_step.run [OF Cons.hyps(2) [symmetric]])
  have ts: "ts = tl_running ?l" by simp
  from Cons.hyps(1) [OF ts] obtain l' where
    "tl_reach Careful ?l l'" "tl_running l' = []" "tl_ran l' = tl_ran l @ [(t, tl_now l)] @ map (\<lambda>t. (t, tl_now l)) ts"
    "tl_now l' = tl_now l" by auto
  with tl_reach_trans [OF _ step] Cons.hyps(2) [symmetric] show ?case by (intro exI [of _ l']) simp
qed

lemma due_readable:
  assumes ok: "tl_ok l" and t: "t \<in># queued_timers (tl_q l)" "expiration t \<le> tl_now l"
  shows "timerfd_readable (tl_now l) (timerfd (tl_q l))"
proof -
  note o = tl_okD [OF ok]
  have "latestTime (tl_q l) \<le> tl_now l" using tq_ok_earliest [OF o(1) t(1)] t(2) by simp
  moreover have "queued_timers (tl_q l) \<noteq> {#}" using t(1) by auto
  with latestTime_top [OF o(1) this] o(5) have "0 < latestTime (tl_q l)" "latestTime (tl_q l) < TimePoint_max"
    by (auto simp: waiting_def in_range_def)
  moreover from this have "timerfd (tl_q l) = (latestTime (tl_q l) div 1000000000, latestTime (tl_q l) mod 1000000000)"
    using o(1) by (simp add: tq_ok_def armed_at_def to_itimerspec_pos)
  moreover have "(a div 1000000000, a mod 1000000000) \<noteq> (0, 0)" if "0 < a" for a :: int
    using that by (metis Pair_inject div_mult_mod_eq add_0 mult_zero_left less_irrefl)
  ultimately show ?thesis by (simp add: timerfd_readable_def)
qed

text \<open>A clock that stands still lets no timer repeat at once.\<close>

lemma still_slow: "tl_ok l \<Longrightarrow> slow_repeats (\<lambda>k. now) now (queued_timers (tl_q l))"
  using tl_okD(5) by (force simp: slow_repeats_def waiting_def in_range_def Repeat_def ms_to_ns_def)

lemma due_timer_served:
  assumes ok: "tl_ok l" and idle: "tl_running l = []" and t: "t \<in># queued_timers (tl_q l)" "expiration t \<le> tl_now l"
    and fit: "repeats_fit (tl_now l) (queued_timers (tl_q l))"
  shows "timerfd_readable (tl_now l) (timerfd (tl_q l))
    \<and> (\<exists>l'. tl_reach Careful l l' \<and> (t, tl_now l) \<in> set (tl_ran l') \<and> tl_now l' = tl_now l \<and> tl_running l' = [])"
proof
  note o = tl_okD [OF ok]
  show readable: "timerfd_readable (tl_now l) (timerfd (tl_q l))" by (rule due_readable [OF ok t])
  let ?l1 = "l\<lparr>tl_ready := True\<rparr>" and ?clk = "\<lambda>k :: nat. tl_now l"
  have poll: "tl_step Careful l (Some (Inr ?l1))" by (rule tl_step.poll [OF readable idle])
  then have ok1: "tl_ok ?l1" using tl_step_ok ok by blast
  have clk: "phase_clock ?clk (tl_now l)" by (simp add: phase_clock_def)
  have slow: "slow_repeats ?clk (tl_now l) (queued_timers (tl_q ?l1))" using still_slow [OF ok] by simp
  from step_handle [OF ok1 _ _ clk _ slow] idle fit obtain fired q where
    h: "Watcher_HandleExpiredTimers True ?clk (?l1\<lparr>tl_now := tl_now l\<rparr>)
        = Some (Inr (?l1\<lparr>tl_now := tl_now l, tl_q := q, tl_ready := False, tl_running := fired\<rparr>))"
      "{#t \<in># queued_timers (tl_q l). expiration t \<le> tl_now l#} \<subseteq># mset fired" by auto
  let ?l2 = "?l1\<lparr>tl_now := tl_now l, tl_q := q, tl_ready := False, tl_running := fired\<rparr>"
  have "tl_step Careful ?l1 (Watcher_HandleExpiredTimers True ?clk (?l1\<lparr>tl_now := tl_now l\<rparr>))"
    by (rule tl_handle [OF _ _ clk _ slow]) (use idle fit in simp_all)
  then have "tl_step Careful ?l1 (Some (Inr ?l2))" by (simp only: h(1))
  from tl_reach.there [OF tl_reach.there [OF tl_reach.here poll] this] have r2: "tl_reach Careful l ?l2" .
  from run_all [of ?l2] obtain l' where
    l': "tl_reach Careful ?l2 l'" "tl_running l' = []" "tl_ran l' = tl_ran l @ map (\<lambda>t. (t, tl_now l)) fired" "tl_now l' = tl_now l" by auto
  have "t \<in># {#t \<in># queued_timers (tl_q l). expiration t \<le> tl_now l#}" using t by simp
  with h(2) have "t \<in> set fired" by (metis mset_subset_eqD set_mset_mset)
  then have "(t, tl_now l) \<in> set (tl_ran l')" unfolding l'(3) by auto
  with l'(2,4) tl_reach_trans [OF l'(1) r2]
  show "\<exists>l'. tl_reach Careful l l' \<and> (t, tl_now l) \<in> set (tl_ran l') \<and> tl_now l' = tl_now l \<and> tl_running l' = []" by blast
qed

section \<open>Properties\<close>

text \<open>C8. In every run of a loop with timers whose users are careful (timers after the epoch and in the range of the clock, cancels
  that leave the heap a heap and do not take away the timer an event has just announced), no step
  fails an assertion or does not return; no
  timer runs before its time; every one-shot timer asked for is in exactly one place: waiting, taken out to
  be run, run once, or cancelled; and every repeating timer still waits unless it has been cancelled. With careless users the
  loop can fail (\<open>careless_cancel_fails\<close>).\<close>

theorem timers_run_right:
  assumes "0 \<le> now" and "tl_reach Careful (new_timed_loop now) l"
  shows "(\<forall>r. tl_step Careful l r \<longrightarrow> (\<exists>l'. r = Some (Inr l')))
    \<and> (\<forall>(t, at) \<in> set (tl_ran l). expiration t \<le> at)
    \<and> once_of (tl_asked l) = once_of (waiting l + mset (tl_running l) + mset (map fst (tl_ran l)) + tl_dropped l)
    \<and> repeats_of (tl_asked l) = repeats_of (waiting l + tl_dropped l)"
proof -
  have ok: "tl_ok l" by (rule tl_reach_ok [OF assms(2) new_timed_loop_ok [OF assms(1)]])
  have "\<forall>r. tl_step Careful l r \<longrightarrow> (\<exists>l'. r = Some (Inr l'))" using tl_step_ok ok by blast
  with tl_okD(8-10) [OF ok] show ?thesis by blast
qed

text \<open>A timer that is due is served: whatever the loop has done before, when no callback
  is being run and a queued timer has expired, the timerfd is readable, and polling it, handling it and running the
  callbacks runs that timer, without time passing.\<close>

lemma timers_served:
  assumes "0 \<le> now" and "tl_reach Careful (new_timed_loop now) l" and "tl_running l = []"
    and "t \<in># queued_timers (tl_q l)" and "expiration t \<le> tl_now l" and "repeats_fit (tl_now l) (queued_timers (tl_q l))"
  shows "timerfd_readable (tl_now l) (timerfd (tl_q l))
    \<and> (\<exists>l'. tl_reach Careful l l' \<and> (t, tl_now l) \<in> set (tl_ran l') \<and> tl_now l' = tl_now l \<and> tl_running l' = [])"
  using due_timer_served [OF tl_reach_ok [OF assms(2) new_timed_loop_ok [OF assms(1)]] assms(3-6)] .

text \<open>Another thread asks for a timer at 5; its task runs, and the clock reaches 7.\<close>

definition timer5 :: timer where
  "timer5 = \<lparr>timer_cb = 9, expiration = 5, interval = 0, timer_id = 0\<rparr>"

definition timed5 :: timed_loop where
  "timed5 = (new_timed_loop 1)\<lparr>tl_now := 7, tl_asked := {#timer5#},
     tl_q := \<lparr>tq_heap = \<lparr>timerList = [timer5], positions = [0 \<mapsto> 0]\<rparr>, nextTimerId = 1, latestTime = 5,
       timerfd = (0, 5), tq_pending = []\<rparr>\<rparr>"

lemma timed5_reach: "tl_reach Careful (new_timed_loop 1) timed5"
proof -
  let ?l0 = "new_timed_loop 1"
  let ?l1 = "?l0\<lparr>tl_q := new_TimerQueue\<lparr>nextTimerId := 1, tq_pending := [TaskAdd timer5]\<rparr>, tl_asked := {#timer5#}\<rparr>"
  let ?l2 = "timed5\<lparr>tl_now := 1\<rparr>"
  have fresh: "fresh_id (tl_q ?l0)"
    by (simp add: fresh_id_def new_timed_loop_def new_TimerQueue_def new_TimerMinHeap_def heap_timers_def pending_adds_def)
  have a: "tl_step Careful ?l0 (Some (mapR (\<lambda>(tid, q). ?l0\<lparr>tl_q := q, tl_asked := add_mset timer5 (tl_asked ?l0)\<rparr>)
      (AddTimer False 5 0 9 (tl_q ?l0))))"
    by (rule tl_add [OF _ _ _ fresh]) (simp_all add: timer5_def TimePoint_max_def new_timed_loop_def new_TimerQueue_def)
  have "mapR (\<lambda>(tid, q). ?l0\<lparr>tl_q := q, tl_asked := add_mset timer5 (tl_asked ?l0)\<rparr>) (AddTimer False 5 0 9 (tl_q ?l0)) = Inr ?l1"
    by (simp add: AddTimer_def submit_def new_timed_loop_def new_TimerQueue_def timer5_def TimePoint_max_def)
  with a have 1: "tl_step Careful ?l0 (Some (Inr ?l1))" by (simp only:)
  have t: "tl_step Careful ?l1 (Some (mapR (\<lambda>q. ?l1\<lparr>tl_q := q\<rparr>) (run_task True (TaskAdd timer5) ((tl_q ?l1)\<lparr>tq_pending := []\<rparr>))))"
    by (rule tl_step.task_add) simp
  have "mapR (\<lambda>q. ?l1\<lparr>tl_q := q\<rparr>) (run_task True (TaskAdd timer5) ((tl_q ?l1)\<lparr>tq_pending := []\<rparr>)) = Inr ?l2"
    by (simp add: timed5_def AddTimerInLoop_eq new_timed_loop_def new_TimerQueue_def new_TimerMinHeap_def timer5_def
        Heap_Add_def place_def ResetTimerfd_def to_itimerspec_pos TimePoint_max_def)
  with t have 2: "tl_step Careful ?l1 (Some (Inr ?l2))" by (simp only:)
  have 3: "tl_step Careful ?l2 (Some (Inr timed5))"
    using tl_step.tick [of ?l2 7] by (simp add: timed5_def new_timed_loop_def)
  show ?thesis using 1 2 3 by (meson tl_reach.intros)
qed

lemma timed5_due: "tl_running timed5 = []" "timer5 \<in># queued_timers (tl_q timed5)" "expiration timer5 \<le> tl_now timed5"
  "repeats_fit (tl_now timed5) (queued_timers (tl_q timed5))" "tl_now timed5 = 7"
  by (simp_all add: timed5_def new_timed_loop_def heap_timers_def timer5_def repeats_fit_def Repeat_def)

theorem timers_run_right_witness:
  "\<exists>l. tl_reach Careful (new_timed_loop 1) l \<and> (timer5, 7) \<in> set (tl_ran l)
    \<and> once_of (tl_asked l) = once_of (waiting l + mset (tl_running l) + mset (map fst (tl_ran l)) + tl_dropped l)"
proof -
  have "tl_ok timed5" by (rule tl_reach_ok [OF timed5_reach new_timed_loop_ok]) simp
  from due_timer_served [OF this timed5_due(1-4)] obtain l where
    "tl_reach Careful timed5 l" "(timer5, 7) \<in> set (tl_ran l)" by (auto simp: timed5_due(5))
  with tl_reach_trans [OF _ timed5_reach] timers_run_right [of 1 l] show ?thesis by fastforce
qed

lemma timers_served_example:
  "\<exists>l. tl_reach Careful timed5 l \<and> (timer5, 7) \<in> set (tl_ran l) \<and> tl_now l = 7"
  using timers_served [OF _ timed5_reach timed5_due(1-4)] by (auto simp: timed5_due(5))

text \<open>Careless users make the loop fail. A timer is due and the poller has seen the timerfd; before the watcher handles the event, a
  callback cancels that timer while a later one waits, and the assertion of \<^verbatim>\<open>GetExpiredTimers\<close> fails.\<close>

lemma tl_careful_any: "tl_step Careful l r \<Longrightarrow> tl_step AnyUser l r"
  by (induction rule: tl_step.induct) (blast intro: tl_step.intros)+

lemma tl_reach_any: "tl_reach Careful l0 l \<Longrightarrow> tl_reach AnyUser l0 l"
  by (induction rule: tl_reach.induct) (blast intro: tl_reach.intros tl_careful_any)+

definition cancelled_late :: "timer_queue \<Rightarrow> bool" where
  "cancelled_late q = (case AddTimer True 9 0 8 q of Inl e \<Rightarrow> False | Inr (tid, q1) \<Rightarrow>
     (case CancelTimer True 0 q1 of Inl e \<Rightarrow> False | Inr q2 \<Rightarrow>
        (case GetExpiredTimers (\<lambda>k. 7) q2 of Some (Inl AssertFail) \<Rightarrow> True | _ \<Rightarrow> False)))"

lemma careless_cancel_fails:
  "\<exists>l. tl_reach AnyUser (new_timed_loop 1) l \<and> tl_step AnyUser l (Some (Inl AssertFail))"
proof -
  let ?l1 = "timed5\<lparr>tl_ready := True\<rparr>"
  have c: "cancelled_late (tl_q timed5)" by code_simp
  obtain tid q1 where 1: "AddTimer True 9 0 8 (tl_q timed5) = Inr (tid, q1)"
    using c by (cases "AddTimer True 9 0 8 (tl_q timed5)") (auto simp: cancelled_late_def)
  obtain q2 where 2: "CancelTimer True 0 q1 = Inr q2"
    using c by (cases "CancelTimer True 0 q1") (simp_all add: cancelled_late_def 1)
  have q: "GetExpiredTimers (\<lambda>k. 7) q2 = Some (Inl AssertFail)"
    using c by (simp add: cancelled_late_def 1 2 split: option.split_asm sum.split_asm fault.split_asm)
  let ?t = "\<lparr>timer_cb = 8, expiration = 9, interval = 0, timer_id = nextTimerId (tl_q timed5)\<rparr>"
  let ?l2 = "?l1\<lparr>tl_q := q1, tl_asked := add_mset ?t (tl_asked ?l1)\<rparr>"
  let ?l3 = "?l2\<lparr>tl_q := q2, tl_dropped := tl_dropped ?l2 + with_id 0 ?l2\<rparr>"
  have "timerfd_readable (tl_now timed5) (timerfd (tl_q timed5))" by (simp add: timerfd_readable_def timed5_def)
  then have s1: "tl_step AnyUser timed5 (Some (Inr ?l1))" by (rule tl_step.poll) (rule timed5_due(1))
  have s2: "tl_step AnyUser ?l1 (Some (Inr ?l2))"
    using tl_step.add [of AnyUser 9 0 ?l1 ?t 8 True] 1 by simp
  have s3: "tl_step AnyUser ?l2 (Some (Inr ?l3))" using tl_step.cancel_here [of AnyUser 0 ?l2] 2 by simp
  have "tl_step AnyUser ?l3 (Watcher_HandleExpiredTimers True (\<lambda>k. 7) (?l3\<lparr>tl_now := 7\<rparr>))"
    by (rule tl_step.handle) (simp_all add: timed5_due(1,5) phase_clock_def)
  then have "tl_step AnyUser ?l3 (Some (Inl AssertFail))" by (simp add: Watcher_HandleExpiredTimers_def q)
  moreover have "tl_reach AnyUser (new_timed_loop 1) ?l3"
    using tl_reach_any [OF timed5_reach] s1 s2 s3 by (meson tl_reach.there)
  ultimately show ?thesis by blast
qed

end
