(* ===== verification/Reactor.thy ===== *)
theory Reactor
  imports PollPoller EventLoop
begin

unbundle bit_operations_syntax

text \<open>
  The body of \<^verbatim>\<open>EventLoop::Loop\<close> over the models of its parts: \<^verbatim>\<open>PollPoller\<close>, the channels and
  the queue of pending callbacks. The state extends \<open>event_loop\<close>. A callback of a channel is
  what it does to the loop, a list of operations: enqueue a task, change the interest of its own channel, ask the loop to quit;
  every call is recorded in \<open>r_trace\<close>, which is ghost state. Shown: one round of the loop runs exactly the
  callbacks owed to the channels the kernel reported, in order, then every task that was
  pending or has been enqueued by them, and keeps all invariants of the parts.
\<close>

section \<open>State and operations\<close>

record reactor = event_loop +
  r_poll :: poll_state
  r_eventHandling :: bool
  r_active :: "nat list"
  r_trace :: "(nat \<times> cb_call) list"

datatype loop_op = OpEnqueue nat | OpEnableReading | OpEnableWriting | OpDisableWriting | OpDisableAll | OpQuit

text \<open>\<^verbatim>\<open>EventLoop::UpdateChannel\<close> and \<^verbatim>\<open>RemoveChannel\<close> hand on to the poller.\<close>

definition on_poller :: "(poll_state \<Rightarrow> poll_state res) \<Rightarrow> reactor \<Rightarrow> reactor res" where
  "on_poller f s = mapR (\<lambda>p. s\<lparr>r_poll := p\<rparr>) (f (r_poll s))"

fun do_op :: "nat \<Rightarrow> loop_op \<Rightarrow> reactor \<Rightarrow> reactor res" where
  "do_op c (OpEnqueue cb) s = Inr (EnqueueEventLoop True cb s)"
| "do_op c OpEnableReading s = on_poller (EnableReading True c) s"
| "do_op c OpEnableWriting s = on_poller (enableWriting True c) s"
| "do_op c OpDisableWriting s = on_poller (disableWriting True c) s"
| "do_op c OpDisableAll s = on_poller (disableAllEvents True c) s"
| "do_op c OpQuit s = Quit True s"

fun do_ops :: "nat \<Rightarrow> loop_op list \<Rightarrow> reactor \<Rightarrow> reactor res" where
  "do_ops c [] s = Inr s"
| "do_ops c (x # xs) s = bindR (do_op c x s) (do_ops c xs)"

text \<open>The callbacks as the model of the channel calls them: the channel is taken out of the store
  and put back.\<close>

definition on_channel :: "(nat \<Rightarrow> cb_call \<Rightarrow> loop_op list) \<Rightarrow> nat \<Rightarrow> cb_call \<Rightarrow>
    channel \<times> reactor \<Rightarrow> (channel \<times> reactor) res" where
  "on_channel act c k s = bindR
     (do_ops c (act c k) ((snd s)\<lparr>r_poll := upd_chan c (\<lambda>ch. fst s) (r_poll (snd s)),
        r_trace := r_trace (snd s) @ [(c, k)]\<rparr>))
     (\<lambda>s'. Inr (chan (r_poll s') c, s'))"

definition handle_channel :: "(nat \<Rightarrow> bool) \<Rightarrow> (nat \<Rightarrow> cb_call \<Rightarrow> loop_op list) \<Rightarrow> int \<Rightarrow> nat \<Rightarrow> reactor \<Rightarrow> reactor res" where
  "handle_channel alive act t c s =
     mapR (\<lambda>(ch, s'). s'\<lparr>r_poll := upd_chan c (\<lambda>x. ch) (r_poll s')\<rparr>)
       (HandleEvents alive (on_channel act c) t (chan (r_poll s) c, s))"

fun handle_all :: "(nat \<Rightarrow> bool) \<Rightarrow> (nat \<Rightarrow> cb_call \<Rightarrow> loop_op list) \<Rightarrow> int \<Rightarrow> nat list \<Rightarrow> reactor \<Rightarrow> reactor res" where
  "handle_all alive act t [] s = Inr s"
| "handle_all alive act t (c # cs) s = bindR (handle_channel alive act t c s) (handle_all alive act t cs)"

definition HandleActiveChannels :: "(nat \<Rightarrow> bool) \<Rightarrow> (nat \<Rightarrow> cb_call \<Rightarrow> loop_op list) \<Rightarrow> int \<Rightarrow> reactor \<Rightarrow> reactor res" where
  "HandleActiveChannels alive act t s = ensure (\<not> r_eventHandling s)
     (mapR (\<lambda>s'. s'\<lparr>r_eventHandling := False\<rparr>)
        (handle_all alive act t (r_active s) (s\<lparr>r_eventHandling := True\<rparr>)))"

text \<open>One round; \<open>k\<close> is the answer of \<^verbatim>\<open>poll(2)\<close>, \<open>t\<close> the time it returned.\<close>

definition loop_round :: "bool \<Rightarrow> (nat \<Rightarrow> bool) \<Rightarrow> (nat \<Rightarrow> cb_call \<Rightarrow> loop_op list) \<Rightarrow> (nat \<Rightarrow> nat list) \<Rightarrow>
    int \<times> int \<times> 16 word list \<Rightarrow> reactor \<Rightarrow> reactor res" where
  "loop_round mempool alive act spawn k s = (case k of (t, numReady, rs) \<Rightarrow>
     bindR (Poll mempool numReady rs (r_poll s)) (\<lambda>(p, active).
     bindR (HandleActiveChannels alive act t (s\<lparr>r_poll := p, r_active := active\<rparr>))
       (HandlePendingCallbacks (spawning spawn))))"

text \<open>The loop, for as many rounds as there are answers, or until it is told to quit.\<close>

fun loop_rounds :: "bool \<Rightarrow> (nat \<Rightarrow> bool) \<Rightarrow> (nat \<Rightarrow> cb_call \<Rightarrow> loop_op list) \<Rightarrow> (nat \<Rightarrow> nat list) \<Rightarrow>
    (int \<times> int \<times> 16 word list) list \<Rightarrow> reactor \<Rightarrow> reactor res" where
  "loop_rounds mempool alive act spawn [] s = Inr (if quit_flag s then s\<lparr>looping := False\<rparr> else s)"
| "loop_rounds mempool alive act spawn (k # ks) s =
     (if quit_flag s then Inr (s\<lparr>looping := False\<rparr>)
      else bindR (loop_round mempool alive act spawn k s) (loop_rounds mempool alive act spawn ks))"

definition Loop :: "bool \<Rightarrow> bool \<Rightarrow> (nat \<Rightarrow> bool) \<Rightarrow> (nat \<Rightarrow> cb_call \<Rightarrow> loop_op list) \<Rightarrow> (nat \<Rightarrow> nat list) \<Rightarrow>
    (int \<times> int \<times> 16 word list) list \<Rightarrow> reactor \<Rightarrow> reactor res" where
  "Loop inl mempool alive act spawn ks s = loop_only inl (ensure (\<not> looping s) (ensure (\<not> r_eventHandling s)
     (ensure (\<not> callingPendingCbs s)
       (loop_rounds mempool alive act spawn ks (s\<lparr>looping := True, quit_flag := False\<rparr>)))))"

section \<open>What a callback does\<close>

fun enqueued :: "loop_op list \<Rightarrow> nat list" where
  "enqueued [] = []"
| "enqueued (OpEnqueue cb # xs) = cb # enqueued xs"
| "enqueued (x # xs) = enqueued xs"

text \<open>How often a list of operations asks the loop to quit. A second \<^verbatim>\<open>Quit\<close> fails the assertion of
  \<^verbatim>\<open>EventLoop::Quit\<close>, so the requests, with the flag, are counted.\<close>

definition quits :: "loop_op list \<Rightarrow> nat" where
  "quits xs = length (filter (\<lambda>x. x = OpQuit) xs)"

definition asked :: "reactor \<Rightarrow> nat" where
  "asked s = (if quit_flag s then 1 else 0)"

lemma quits_simps [simp]: "quits [] = 0" "quits (x # xs) = (if x = OpQuit then 1 else 0) + quits xs"
  by (simp_all add: quits_def)

lemma quits_pos: "0 < quits xs \<longleftrightarrow> OpQuit \<in> set xs"
  by (induction xs) auto

text \<open>Channels that differ at most in their interest and in the flag \<^verbatim>\<open>eventHandling_\<close>.\<close>

definition same_but_events :: "channel \<Rightarrow> channel \<Rightarrow> bool" where
  "same_but_events a b \<longleftrightarrow> a\<lparr>ch_events := 0, eventHandling := False\<rparr> = b\<lparr>ch_events := 0, eventHandling := False\<rparr>"

lemma same_but_events_simps:
  assumes "same_but_events a b"
  shows "ch_fd b = ch_fd a" "ch_index b = ch_index a" "revents b = revents a" "tie b = tie a"
    "readCb b = readCb a" "writeCb b = writeCb a" "closeCb b = closeCb a"
    "errorCb b = errorCb a"
proof -
  have e: "a\<lparr>ch_events := 0, eventHandling := False\<rparr> = b\<lparr>ch_events := 0, eventHandling := False\<rparr>" using assms by (simp add: same_but_events_def)
  show "ch_fd b = ch_fd a" "ch_index b = ch_index a" "revents b = revents a" "tie b = tie a"
    "readCb b = readCb a" "writeCb b = writeCb a" "closeCb b = closeCb a"
    "errorCb b = errorCb a"
    using arg_cong [OF e, of ch_fd] arg_cong [OF e, of ch_index] arg_cong [OF e, of revents] arg_cong [OF e, of tie]
      arg_cong [OF e, of readCb] arg_cong [OF e, of writeCb]
      arg_cong [OF e, of closeCb] arg_cong [OF e, of errorCb] by simp_all
qed

lemma same_but_events_refl [simp]: "same_but_events a a" "same_but_events a (a\<lparr>ch_events := e\<rparr>)"
  "same_but_events a (a\<lparr>eventHandling := h\<rparr>)"
  by (simp_all add: same_but_events_def)

lemma same_but_events_trans: "same_but_events a b \<Longrightarrow> same_but_events b c \<Longrightarrow> same_but_events a c"
  by (simp add: same_but_events_def)

text \<open>A callback of channel \<open>c\<close> changes the interest of that channel only, and keeps the poller
  consistent; an operation also keeps the flag of the channel.\<close>

definition call_frame :: "nat \<Rightarrow> reactor \<Rightarrow> reactor \<Rightarrow> bool" where
  "call_frame c s s' \<longleftrightarrow> poller_ok (r_poll s') \<and> channels (r_poll s') = channels (r_poll s)
     \<and> (\<forall>d. d \<noteq> c \<longrightarrow> chan (r_poll s') d = chan (r_poll s) d)
     \<and> same_but_events (chan (r_poll s) c) (chan (r_poll s') c)
     \<and> executed s' = executed s \<and> callingPendingCbs s' = callingPendingCbs s
     \<and> r_eventHandling s' = r_eventHandling s \<and> r_active s' = r_active s \<and> looping s' = looping s"

definition op_frame :: "nat \<Rightarrow> reactor \<Rightarrow> reactor \<Rightarrow> bool" where
  "op_frame c s s' \<longleftrightarrow> call_frame c s s' \<and> eventHandling (chan (r_poll s') c) = eventHandling (chan (r_poll s) c)"

lemma call_frame_registered: "call_frame c s s' \<Longrightarrow> registered (r_poll s') d \<longleftrightarrow> registered (r_poll s) d"
  by (cases "d = c") (auto simp: call_frame_def registered_def same_but_events_simps(1))

lemma call_frame_trans: "call_frame c s s1 \<Longrightarrow> call_frame c s1 s2 \<Longrightarrow> call_frame c s s2"
  unfolding call_frame_def by (simp add: same_but_events_trans [of "chan (r_poll s) c" "chan (r_poll s1) c"])

lemma op_frame_trans: "op_frame c s s1 \<Longrightarrow> op_frame c s1 s2 \<Longrightarrow> op_frame c s s2"
  unfolding op_frame_def using call_frame_trans by metis

lemma Enqueue_reactor [simp]:
  "r_poll (EnqueueEventLoop inl cb s) = r_poll s" "r_eventHandling (EnqueueEventLoop inl cb s) = r_eventHandling s"
  "r_active (EnqueueEventLoop inl cb s) = r_active s" "r_trace (EnqueueEventLoop inl cb s) = r_trace s"
  "looping (EnqueueEventLoop inl cb s) = looping s" "quit_flag (EnqueueEventLoop inl cb s) = quit_flag s"
  by (simp_all add: EnqueueEventLoop_def Enqueue_wake_def Enqueue_push_def WakeUp_def)

lemma set_events_frame:
  assumes ok: "poller_ok (r_poll s)" and reg: "registered (r_poll s) c"
  shows "\<exists>s'. on_poller (\<lambda>p. UpdateChannel True c (upd_chan c (\<lambda>ch. ch\<lparr>ch_events := g (ch_events ch)\<rparr>) p)) s = Inr s'
    \<and> op_frame c s s' \<and> r_trace s' = r_trace s \<and> pendingCbs s' = pendingCbs s \<and> asked s' = asked s"
proof -
  let ?f = "\<lambda>ch. ch\<lparr>ch_events := g (ch_events ch)\<rparr>"
  from set_events_ok [OF ok reg, of ?f] obtain p where
    p: "UpdateChannel True c (upd_chan c ?f (r_poll s)) = Inr p" "poller_ok p"
      "chan p = (chan (r_poll s))(c := ?f (chan (r_poll s) c))" by auto
  have 1: "poller_ok (upd_chan c ?f (r_poll s))" "registered (upd_chan c ?f (r_poll s)) c"
    using ok reg upd_chan_frame [of ?f] by simp_all
  have "channels p = channels (r_poll s)" using UpdateChannel_channels [OF 1 p(1)] by simp
  with p show ?thesis by (simp add: on_poller_def op_frame_def call_frame_def asked_def)
qed

lemma do_op_ok:
  assumes "poller_ok (r_poll s)" and "registered (r_poll s) c" and "asked s + quits [x] \<le> 1"
  shows "\<exists>s'. do_op c x s = Inr s' \<and> op_frame c s s' \<and> r_trace s' = r_trace s
    \<and> pendingCbs s' = pendingCbs s @ enqueued [x] \<and> asked s' = asked s + quits [x]"
proof (cases x)
  case (OpEnqueue cb)
  with assms(1) show ?thesis by (simp add: op_frame_def call_frame_def asked_def)
next
  case OpQuit
  with assms(3) have "\<not> quit_flag s" by (simp add: asked_def split: if_splits)
  with OpQuit assms(1) show ?thesis by (simp add: Quit_def Quit_store_def op_frame_def call_frame_def asked_def)
next
  case OpEnableReading
  then show ?thesis using set_events_frame [OF assms(1,2), of "\<lambda>e. e OR kReadEvent"]
    by (simp add: on_poller_def EnableReading_def)
next
  case OpEnableWriting
  then show ?thesis using set_events_frame [OF assms(1,2), of "\<lambda>e. e OR kWriteEvent"]
    by (simp add: on_poller_def enableWriting_def)
next
  case OpDisableWriting
  then show ?thesis using set_events_frame [OF assms(1,2), of "\<lambda>e. e AND NOT kWriteEvent"]
    by (simp add: on_poller_def disableWriting_def)
next
  case OpDisableAll
  then show ?thesis using set_events_frame [OF assms(1,2), of "\<lambda>e. kNoneEvent"]
    by (simp add: on_poller_def disableAllEvents_def)
qed

lemma enqueued_Cons: "enqueued (x # xs) = enqueued [x] @ enqueued xs"
  by (cases x) simp_all

lemma do_ops_ok:
  "poller_ok (r_poll s) \<Longrightarrow> registered (r_poll s) c \<Longrightarrow> asked s + quits xs \<le> 1 \<Longrightarrow>
   \<exists>s'. do_ops c xs s = Inr s' \<and> op_frame c s s' \<and> r_trace s' = r_trace s \<and> pendingCbs s' = pendingCbs s @ enqueued xs
     \<and> asked s' = asked s + quits xs"
proof (induction xs arbitrary: s)
  case Nil
  then show ?case by (simp add: op_frame_def call_frame_def)
next
  case (Cons x xs)
  from Cons.prems(3) have n: "asked s + quits [x] \<le> 1" "asked s + quits [x] + quits xs \<le> 1" by simp_all
  from do_op_ok [OF Cons.prems(1,2) n(1)] obtain s1 where
    s1: "do_op c x s = Inr s1" "op_frame c s s1" "r_trace s1 = r_trace s" "pendingCbs s1 = pendingCbs s @ enqueued [x]"
      "asked s1 = asked s + quits [x]" by blast
  have "poller_ok (r_poll s1)" "registered (r_poll s1) c"
    using s1(2) call_frame_registered [of c s s1] Cons.prems(2) by (simp_all add: op_frame_def call_frame_def)
  from Cons.IH [OF this] n(2) s1(5) obtain s2 where
    "do_ops c xs s1 = Inr s2" "op_frame c s1 s2" "r_trace s2 = r_trace s1" "pendingCbs s2 = pendingCbs s1 @ enqueued xs"
    "asked s2 = asked s1 + quits xs" by auto
  with s1 op_frame_trans [OF s1(2)] enqueued_Cons [of x xs] show ?case by auto
qed

section \<open>One channel\<close>

lemma UpdateChannel_dispatch: "UpdateChannel True c p = Inr p' \<Longrightarrow> same_dispatch (chan p c) (chan p' c)"
  by (auto simp: UpdateChannel_def Let_def ensure_def same_dispatch_def split: if_splits)

lemma set_events_dispatch:
  assumes "UpdateChannel True c (upd_chan c f p) = Inr p'" and "same_dispatch (chan p c) (f (chan p c))"
  shows "same_dispatch (chan p c) (chan p' c)"
  using UpdateChannel_dispatch [OF assms(1)] assms(2) by (simp add: same_dispatch_def)

lemma do_op_dispatch: "do_op c x s = Inr s' \<Longrightarrow> same_dispatch (chan (r_poll s) c) (chan (r_poll s') c)"
  by (cases x) (auto simp: on_poller_def EnableReading_def enableWriting_def disableWriting_def disableAllEvents_def
      Quit_def Quit_store_def res_iffs same_dispatch_def dest!: set_events_dispatch)

lemma do_ops_dispatch: "do_ops c xs s = Inr s' \<Longrightarrow> same_dispatch (chan (r_poll s) c) (chan (r_poll s') c)"
proof (induction xs arbitrary: s)
  case (Cons x xs)
  then obtain s1 where "do_op c x s = Inr s1" "do_ops c xs s1 = Inr s'" by (auto simp: res_iffs)
  with Cons.IH do_op_dispatch show ?case by (fastforce simp: same_dispatch_def)
qed (simp add: same_dispatch_def)

lemma on_channel_keeps: "keeps_dispatch (on_channel act c)"
  unfolding keeps_dispatch_def on_channel_def
  by (auto simp: res_iffs dest!: do_ops_dispatch)

definition quits_of :: "(nat \<Rightarrow> cb_call \<Rightarrow> loop_op list) \<Rightarrow> (nat \<times> cb_call) list \<Rightarrow> nat" where
  "quits_of act cks = sum_list (map (\<lambda>ck. quits (act (fst ck) (snd ck))) cks)"

lemma quits_of_simps [simp]: "quits_of act [] = 0"
  "quits_of act (ck # cks) = quits (act (fst ck) (snd ck)) + quits_of act cks"
  "quits_of act (cks @ cks') = quits_of act cks + quits_of act cks'"
  by (simp_all add: quits_of_def)

lemma quits_of_pos: "0 < quits_of act cks \<longleftrightarrow> (\<exists>(c, k) \<in> set cks. OpQuit \<in> set (act c k))"
proof (induction cks)
  case (Cons ck cks)
  then show ?case using quits_pos [of "act (fst ck) (snd ck)"] by (cases ck) simp
qed simp

lemma flag_frame:
  assumes "poller_ok (r_poll s)"
  shows "call_frame c s (s\<lparr>r_poll := upd_chan c (\<lambda>x. x\<lparr>eventHandling := h\<rparr>) (r_poll s), r_trace := tr\<rparr>)"
  using assms by (simp add: call_frame_def upd_chan_frame)

lemma put_back: "upd_chan c (\<lambda>x. (chan p c)\<lparr>eventHandling := h\<rparr>) p = upd_chan c (\<lambda>x. x\<lparr>eventHandling := h\<rparr>) p"
  by (simp add: upd_chan_def)

lemma run_calls_ok:
  "poller_ok (r_poll s) \<Longrightarrow> registered (r_poll s) c \<Longrightarrow> asked s + quits_of act (map (Pair c) ks) \<le> 1 \<Longrightarrow>
    \<exists>s'. run_calls (on_channel act c) ks ((chan (r_poll s) c)\<lparr>eventHandling := True\<rparr>, s)
        = Inr ((chan (r_poll s') c)\<lparr>eventHandling := True\<rparr>, s') \<and> call_frame c s s'
      \<and> r_trace s' = r_trace s @ map (Pair c) ks
      \<and> pendingCbs s' = pendingCbs s @ concat (map (\<lambda>k. enqueued (act c k)) ks)
      \<and> asked s' = asked s + quits_of act (map (Pair c) ks)"
proof (induction ks arbitrary: s)
  case Nil
  then show ?case by (simp add: call_frame_def)
next
  case (Cons k ks)
  let ?s0 = "s\<lparr>r_poll := upd_chan c (\<lambda>x. x\<lparr>eventHandling := True\<rparr>) (r_poll s), r_trace := r_trace s @ [(c, k)]\<rparr>"
  have f0: "call_frame c s ?s0" by (rule flag_frame [OF Cons.prems(1)])
  have 0: "poller_ok (r_poll ?s0)" "registered (r_poll ?s0) c"
    using f0 call_frame_registered [OF f0] Cons.prems(2) by (simp_all add: call_frame_def)
  have n: "asked ?s0 + quits (act c k) \<le> 1" "asked s + quits (act c k) + quits_of act (map (Pair c) ks) \<le> 1"
    using Cons.prems(3) by (simp_all add: asked_def)
  from do_ops_ok [OF 0 n(1)] obtain s1 where
    s1: "do_ops c (act c k) ?s0 = Inr s1" "op_frame c ?s0 s1" "r_trace s1 = r_trace ?s0"
      "pendingCbs s1 = pendingCbs ?s0 @ enqueued (act c k)" "asked s1 = asked ?s0 + quits (act c k)" by blast
  have q1: "asked s1 = asked s + quits (act c k)" using s1(5) by (simp add: asked_def)
  have f1: "call_frame c s s1" using call_frame_trans [OF f0] s1(2) by (simp add: op_frame_def)
  have 1: "poller_ok (r_poll s1)" "registered (r_poll s1) c"
    using f1 call_frame_registered [OF f1] Cons.prems(2) by (simp_all add: call_frame_def)
  have "eventHandling (chan (r_poll s1) c)" using s1(2) by (simp add: op_frame_def)
  then have "(chan (r_poll s1) c)\<lparr>eventHandling := True\<rparr> = chan (r_poll s1) c" by simp
  then have "on_channel act c k ((chan (r_poll s) c)\<lparr>eventHandling := True\<rparr>, s)
      = Inr ((chan (r_poll s1) c)\<lparr>eventHandling := True\<rparr>, s1)"
    using s1(1) by (simp add: on_channel_def put_back)
  with Cons.IH [OF 1] n(2) q1 s1(3,4) f1 call_frame_trans [OF f1] show ?case by fastforce
qed

text \<open>The callbacks a channel is owed, the object it is tied to being alive or not.\<close>

definition owed :: "(nat \<Rightarrow> bool) \<Rightarrow> int \<Rightarrow> channel \<Rightarrow> cb_call list" where
  "owed alive t ch = (case tie ch of Some obj \<Rightarrow> if alive obj then due_calls t ch else []
     | None \<Rightarrow> due_calls t ch)"

definition tasks_of :: "(nat \<Rightarrow> cb_call \<Rightarrow> loop_op list) \<Rightarrow> nat \<times> cb_call \<Rightarrow> nat list" where
  "tasks_of act ck = enqueued (act (fst ck) (snd ck))"

lemma handle_channel_ok:
  assumes ok: "poller_ok (r_poll s)" "registered (r_poll s) c" and idle: "\<not> eventHandling (chan (r_poll s) c)"
    and q: "asked s + quits_of act (map (Pair c) (owed alive t (chan (r_poll s) c))) \<le> 1"
  shows "\<exists>s'. handle_channel alive act t c s = Inr s' \<and> call_frame c s s' \<and> \<not> eventHandling (chan (r_poll s') c)
    \<and> r_trace s' = r_trace s @ map (Pair c) (owed alive t (chan (r_poll s) c))
    \<and> pendingCbs s' = pendingCbs s
       @ concat (map (tasks_of act) (map (Pair c) (owed alive t (chan (r_poll s) c))))
    \<and> asked s' = asked s + quits_of act (map (Pair c) (owed alive t (chan (r_poll s) c)))"
proof -
  let ?ch = "chan (r_poll s) c"
  note d = dispatch_eq [OF on_channel_keeps idle, of alive act c t s]
  show ?thesis
  proof (cases "\<exists>obj. tie ?ch = Some obj \<and> \<not> alive obj")
    case True
    then have "HandleEvents alive (on_channel act c) t (?ch, s) = Inr (?ch, s)" using d by (simp only: if_True)
    moreover have "upd_chan c (\<lambda>x. ?ch) (r_poll s) = r_poll s" by (simp add: upd_chan_def)
    ultimately have "handle_channel alive act t c s = Inr s" by (simp add: handle_channel_def)
    with True ok(1) idle show ?thesis by (auto simp: owed_def call_frame_def)
  next
    case False
    have o: "owed alive t ?ch = due_calls t ?ch" using False by (auto simp: owed_def split: option.splits)
    from run_calls_ok [OF ok q [unfolded o]] obtain s1 where
      s1: "run_calls (on_channel act c) (due_calls t ?ch) (?ch\<lparr>eventHandling := True\<rparr>, s)
          = Inr ((chan (r_poll s1) c)\<lparr>eventHandling := True\<rparr>, s1)" "call_frame c s s1"
        "r_trace s1 = r_trace s @ map (Pair c) (due_calls t ?ch)"
        "pendingCbs s1 = pendingCbs s @ concat (map (\<lambda>k. enqueued (act c k)) (due_calls t ?ch))"
        "asked s1 = asked s + quits_of act (map (Pair c) (due_calls t ?ch))" by blast
    let ?s' = "s1\<lparr>r_poll := upd_chan c (\<lambda>x. x\<lparr>eventHandling := False\<rparr>) (r_poll s1)\<rparr>"
    have "handle_channel alive act t c s = Inr ?s'"
      using d False s1(1) by (simp add: handle_channel_def put_back)
    moreover have "call_frame c s ?s'"
      using call_frame_trans [OF s1(2) flag_frame [of s1 c "r_trace s1" False]] s1(2) by (simp add: call_frame_def)
    moreover have "asked ?s' = asked s1" by (simp add: asked_def)
    ultimately show ?thesis using s1(3-5) by (simp add: o tasks_of_def comp_def)
  qed
qed

section \<open>All active channels\<close>

text \<open>The callbacks owed to a list of channels, with their channels.\<close>

definition calls_of :: "(nat \<Rightarrow> bool) \<Rightarrow> int \<Rightarrow> (nat \<Rightarrow> channel) \<Rightarrow> nat list \<Rightarrow> (nat \<times> cb_call) list" where
  "calls_of alive t chs cs = concat (map (\<lambda>c. map (Pair c) (owed alive t (chs c))) cs)"

lemma calls_of_Cons: "calls_of alive t chs (c # cs) = map (Pair c) (owed alive t (chs c)) @ calls_of alive t chs cs"
  by (simp add: calls_of_def)

lemma calls_of_cong: "(\<And>c. c \<in> set cs \<Longrightarrow> chs c = chs' c) \<Longrightarrow> calls_of alive t chs cs = calls_of alive t chs' cs"
  unfolding calls_of_def by (metis (mono_tags, lifting) map_cong)

lemma handle_all_ok:
  "distinct cs \<Longrightarrow> poller_ok (r_poll s) \<Longrightarrow> \<forall>c \<in> set cs. registered (r_poll s) c \<Longrightarrow>
    \<forall>c. \<not> eventHandling (chan (r_poll s) c) \<Longrightarrow>
    asked s + quits_of act (calls_of alive t (chan (r_poll s)) cs) \<le> 1 \<Longrightarrow>
    \<exists>s'. handle_all alive act t cs s = Inr s' \<and> poller_ok (r_poll s') \<and> (\<forall>c. \<not> eventHandling (chan (r_poll s') c))
      \<and> executed s' = executed s \<and> callingPendingCbs s' = callingPendingCbs s \<and> looping s' = looping s
      \<and> channels (r_poll s') = channels (r_poll s) \<and> (\<forall>c. same_but_events (chan (r_poll s) c) (chan (r_poll s') c))
      \<and> asked s' = asked s + quits_of act (calls_of alive t (chan (r_poll s)) cs)
      \<and> r_trace s' = r_trace s @ calls_of alive t (chan (r_poll s)) cs
      \<and> pendingCbs s' = pendingCbs s @ concat (map (tasks_of act) (calls_of alive t (chan (r_poll s)) cs))"
proof (induction cs arbitrary: s)
  case Nil
  then show ?case by (simp add: calls_of_def)
next
  case (Cons c cs)
  let ?k = "map (Pair c) (owed alive t (chan (r_poll s) c))"
  have n: "asked s + quits_of act ?k \<le> 1"
    "asked s + quits_of act ?k + quits_of act (calls_of alive t (chan (r_poll s)) cs) \<le> 1"
    using Cons.prems(5) by (simp_all add: calls_of_Cons)
  from handle_channel_ok [OF Cons.prems(2) _ _ n(1)] Cons.prems(3,4) obtain s1 where
    s1: "handle_channel alive act t c s = Inr s1" "call_frame c s s1" "\<not> eventHandling (chan (r_poll s1) c)"
      "r_trace s1 = r_trace s @ ?k" "pendingCbs s1 = pendingCbs s @ concat (map (tasks_of act) ?k)"
      "asked s1 = asked s + quits_of act ?k" by auto
  have other: "chan (r_poll s1) d = chan (r_poll s) d" if "d \<noteq> c" for d using s1(2) that by (simp add: call_frame_def)
  have same: "calls_of alive t (chan (r_poll s1)) cs = calls_of alive t (chan (r_poll s)) cs"
    by (rule calls_of_cong) (use Cons.prems(1) other in \<open>metis distinct.simps(2)\<close>)
  have step: "same_but_events (chan (r_poll s) d) (chan (r_poll s1) d)" for d
    using s1(2) other by (cases "d = c") (simp_all add: call_frame_def)
  have "distinct cs" using Cons.prems(1) by simp
  moreover have "poller_ok (r_poll s1)" using s1(2) by (simp add: call_frame_def)
  moreover have "\<forall>d \<in> set cs. registered (r_poll s1) d"
    using Cons.prems(3) call_frame_registered [OF s1(2)] by simp
  moreover have "\<forall>d. \<not> eventHandling (chan (r_poll s1) d)" using s1(3) other Cons.prems(4) by metis
  moreover have "asked s1 + quits_of act (calls_of alive t (chan (r_poll s1)) cs) \<le> 1"
    using n(2) by (simp only: same s1(6))
  ultimately obtain s' where
    s': "handle_all alive act t cs s1 = Inr s'" "poller_ok (r_poll s')" "\<forall>c. \<not> eventHandling (chan (r_poll s') c)"
      "executed s' = executed s1" "callingPendingCbs s' = callingPendingCbs s1" "looping s' = looping s1"
      "channels (r_poll s') = channels (r_poll s1)" "\<forall>c. same_but_events (chan (r_poll s1) c) (chan (r_poll s') c)"
      "asked s' = asked s1 + quits_of act (calls_of alive t (chan (r_poll s1)) cs)"
      "r_trace s' = r_trace s1 @ calls_of alive t (chan (r_poll s1)) cs"
      "pendingCbs s' = pendingCbs s1 @ concat (map (tasks_of act) (calls_of alive t (chan (r_poll s1)) cs))"
    using Cons.IH [of s1] by blast
  have "executed s1 = executed s" "callingPendingCbs s1 = callingPendingCbs s" "looping s1 = looping s"
    "channels (r_poll s1) = channels (r_poll s)" using s1(2) by (simp_all add: call_frame_def)
  moreover have "\<forall>d. same_but_events (chan (r_poll s) d) (chan (r_poll s') d)"
    using step s'(8) same_but_events_trans by blast
  ultimately show ?case using s1(1,4-6) s' by (simp add: same calls_of_Cons)
qed

section \<open>One round\<close>

lemma HandlePendingCallbacks_reactor:
  "\<exists>s'. HandlePendingCallbacks (spawning spawn) (s :: reactor) = Inr s'
    \<and> executed s' = executed s @ pendingCbs s \<and> pendingCbs s' = concat (map spawn (pendingCbs s))
    \<and> \<not> callingPendingCbs s' \<and> (pendingCbs s' = [] \<or> 0 < eventfd s')
    \<and> r_poll s' = r_poll s \<and> r_trace s' = r_trace s \<and> r_eventHandling s' = r_eventHandling s \<and> quit_flag s' = quit_flag s
    \<and> looping s' = looping s"
proof -
  have fold: "r_poll (fold (EnqueueEventLoop True) cbs l) = r_poll l \<and> r_trace (fold (EnqueueEventLoop True) cbs l) = r_trace l
      \<and> r_eventHandling (fold (EnqueueEventLoop True) cbs l) = r_eventHandling l
      \<and> quit_flag (fold (EnqueueEventLoop True) cbs l) = quit_flag l \<and> looping (fold (EnqueueEventLoop True) cbs l) = looping l" for cbs and l :: reactor
    by (induction cbs arbitrary: l) simp_all
  have keep: "run_pending (spawning spawn) cbs l = Inr l' \<Longrightarrow> r_poll l' = r_poll l \<and> r_trace l' = r_trace l
      \<and> r_eventHandling l' = r_eventHandling l \<and> quit_flag l' = quit_flag l \<and> looping l' = looping l" for cbs and l l' :: reactor
    by (induction cbs arbitrary: l) (auto simp: spawning_def fold)
  let ?s1 = "swap_pending (s\<lparr>callingPendingCbs := True\<rparr>)"
  from run_pending_spawning [of ?s1 spawn "pendingCbs s"] obtain l' where
    l': "run_pending (spawning spawn) (pendingCbs s) ?s1 = Inr l'" "pendingCbs l' = concat (map spawn (pendingCbs s))"
      "executed l' = executed s @ pendingCbs s" "concat (map spawn (pendingCbs s)) \<noteq> [] \<longrightarrow> 0 < eventfd l'"
    by (auto simp: swap_pending_def)
  show ?thesis using l' keep [OF l'(1)] by (auto simp: HandlePendingCallbacks_def swap_pending_def)
qed

text \<open>A loop between two rounds.\<close>

definition reactor_ok :: "reactor \<Rightarrow> bool" where
  "reactor_ok s \<longleftrightarrow> poller_ok (r_poll s) \<and> \<not> r_eventHandling s \<and> \<not> callingPendingCbs s
     \<and> (\<forall>c. \<not> eventHandling (chan (r_poll s) c))"

text \<open>The channels the kernel has reported, in the order they are handled, and as they are then.\<close>

definition reported :: "bool \<Rightarrow> poll_state \<Rightarrow> 16 word list \<Rightarrow> nat list" where
  "reported mempool p rs = (let cs = map (channel_at p) (filter (\<lambda>i. rs ! i \<noteq> 0) [0..<length (pollfds p)])
     in if mempool then rev cs else cs)"

lemma Poll_chan:
  "Poll mempool n rs p = Inr (p', active) \<Longrightarrow> chan p' c = (chan p c)\<lparr>revents := revents (chan p' c)\<rparr>"
proof -
  have fill: "FillActiveChannels mempool ps k s act = Inr (s', act') \<Longrightarrow>
      chan s' c = (chan s c)\<lparr>revents := revents (chan s' c)\<rparr>" for ps k s act s' act'
  proof (induction ps arbitrary: k s act)
    case (Cons q ps)
    then show ?case by (auto simp: res_iffs upd_chan_def split: if_splits option.splits) (fastforce split: if_splits)+
  qed simp
  show "Poll mempool n rs p = Inr (p', active) \<Longrightarrow> ?thesis"
    using fill by (fastforce simp: Poll_def Let_def split: if_splits)
qed

lemma Poll_channels: "Poll mempool n rs p = Inr (p', active) \<Longrightarrow> channels p' = channels p"
proof -
  have fill: "FillActiveChannels mempool ps k s act = Inr (s', act') \<Longrightarrow> channels s' = channels s" for ps k s act s' act'
    by (induction ps arbitrary: k s act) (auto simp: res_iffs split: if_splits option.splits)
  show "Poll mempool n rs p = Inr (p', active) \<Longrightarrow> ?thesis"
    using fill by (fastforce simp: Poll_def Let_def split: if_splits)
qed

definition as_reported :: "poll_state \<Rightarrow> 16 word list \<Rightarrow> nat \<Rightarrow> channel" where
  "as_reported p rs c = (chan p c)\<lparr>revents := word_of_int (sint (rs ! nat (ch_index (chan p c))))\<rparr>"

lemma channel_at_registered:
  assumes "poller_ok p" and "i < length (pollfds p)"
  shows "registered p (channel_at p i)" and "ch_index (chan p (channel_at p i)) = int i"
proof -
  from poller_ok_nth [OF assms] obtain c where
    c: "channels p (real_fd (pfd_fd (pollfds p ! i))) = Some c" "ch_index (chan p c) = int i" by auto
  have "at_index p (real_fd (pfd_fd (pollfds p ! i))) c" by (rule poller_okD [OF assms(1) c(1)])
  with c show "registered p (channel_at p i)" "ch_index (chan p (channel_at p i)) = int i"
    by (simp_all add: registered_def channel_at_def at_index_def)
qed

text \<open>What \<^verbatim>\<open>Poll\<close> leaves to the handling of the channels.\<close>

lemma Poll_handover:
  assumes ok: "poller_ok p" and kernel: "poll_contract (pollfds p) n rs"
  shows "\<exists>p'. Poll mempool n rs p = Inr (p', reported mempool p rs) \<and> poller_ok p'
    \<and> distinct (reported mempool p rs) \<and> (\<forall>c \<in> set (reported mempool p rs). registered p' c)
    \<and> (\<forall>c. eventHandling (chan p' c) = eventHandling (chan p c))
    \<and> calls_of alive t (chan p') (reported mempool p rs) = calls_of alive t (as_reported p rs) (reported mempool p rs)"
proof -
  let ?cs = "reported mempool p rs"
  from Poll_ready [OF assms, of mempool] obtain p' active where
    r: "Poll mempool n rs p = Inr (p', active)" "poller_ok p'" "distinct active"
      "(if mempool then rev active else active) = map (channel_at p) (filter (\<lambda>i. rs ! i \<noteq> 0) [0..<length (pollfds p)])"
    and ev: "\<forall>i < length (pollfds p). rs ! i \<noteq> 0 \<longrightarrow> revents (chan p' (channel_at p i)) = word_of_int (sint (rs ! i))" by blast
  have act: "active = ?cs" unfolding reported_def Let_def r(4) [symmetric] by simp
  have at: "\<exists>i < length (pollfds p). rs ! i \<noteq> 0 \<and> c = channel_at p i" if "c \<in> set ?cs" for c
    using that by (auto simp: reported_def Let_def split: if_splits)
  have same: "chan p' c = (chan p c)\<lparr>revents := revents (chan p' c)\<rparr>" for c by (rule Poll_chan [OF r(1)])
  have fields: "ch_fd (chan p' c) = ch_fd (chan p c)" "eventHandling (chan p' c) = eventHandling (chan p c)" for c
    by (subst same, simp)+
  have "registered p' c" if "c \<in> set ?cs" for c
    using at [OF that] channel_at_registered(1) [OF ok] Poll_channels [OF r(1)] fields(1)
    by (auto simp: registered_def)
  moreover have "calls_of alive t (chan p') ?cs = calls_of alive t (as_reported p rs) ?cs"
  proof (rule calls_of_cong)
    fix c assume "c \<in> set ?cs"
    from at [OF this] obtain i where i: "i < length (pollfds p)" "rs ! i \<noteq> 0" "c = channel_at p i" by blast
    have "revents (chan p' c) = word_of_int (sint (rs ! i))" using ev i by blast
    then show "chan p' c = as_reported p rs c"
      using same [of c] channel_at_registered(2) [OF ok i(1)] i(3) by (simp add: as_reported_def)
  qed
  ultimately show ?thesis using r(1-3) fields(2) unfolding act by blast
qed

text \<open>What no round changes in a channel: all but its interest, the events it received and its flag.\<close>

definition same_wiring :: "channel \<Rightarrow> channel \<Rightarrow> bool" where
  "same_wiring a b \<longleftrightarrow> same_but_events (a\<lparr>revents := 0\<rparr>) (b\<lparr>revents := 0\<rparr>)"

lemma same_wiring_refl [simp]: "same_wiring a a" "same_wiring a (a\<lparr>revents := r\<rparr>)"
  by (simp_all add: same_wiring_def)

lemma same_wiring_trans: "same_wiring a b \<Longrightarrow> same_wiring b c \<Longrightarrow> same_wiring a c"
  unfolding same_wiring_def by (rule same_but_events_trans)

lemma same_wiring_fields:
  assumes "same_wiring a b"
  shows "ch_fd b = ch_fd a" "ch_index b = ch_index a" "tie b = tie a" "readCb b = readCb a" "writeCb b = writeCb a"
    "closeCb b = closeCb a" "errorCb b = errorCb a"
  using same_but_events_simps [OF assms [unfolded same_wiring_def]] by simp_all

lemma same_but_events_wiring: "same_but_events a b \<Longrightarrow> same_wiring a b"
  using arg_cong [of "a\<lparr>ch_events := 0, eventHandling := False\<rparr>" "b\<lparr>ch_events := 0, eventHandling := False\<rparr>" "revents_update (\<lambda>r. 0)"]
  unfolding same_wiring_def same_but_events_def by (cases a, cases b) simp

text \<open>One round; the two last parts say that the set of channels and their wiring stay.\<close>

lemma round_ok:
  assumes ok: "reactor_ok s" and kernel: "poll_contract (pollfds (r_poll s)) n rs"
    and calls: "calls = calls_of alive t (as_reported (r_poll s) rs) (reported mempool (r_poll s) rs)"
    and once: "asked s + quits_of act calls \<le> 1"
    and tasks: "tasks = pendingCbs s @ concat (map (tasks_of act) calls)"
  shows "\<exists>s'. loop_round mempool alive act spawn (t, n, rs) s = Inr s' \<and> reactor_ok s'
    \<and> asked s' = asked s + quits_of act calls \<and> looping s' = looping s
    \<and> r_trace s' = r_trace s @ calls \<and> executed s' = executed s @ tasks
    \<and> pendingCbs s' = concat (map spawn tasks) \<and> (pendingCbs s' = [] \<or> 0 < eventfd s')
    \<and> channels (r_poll s') = channels (r_poll s) \<and> (\<forall>c. same_wiring (chan (r_poll s) c) (chan (r_poll s') c))"
proof -
  let ?cs = "reported mempool (r_poll s) rs"
  have p_ok: "poller_ok (r_poll s)" "\<not> r_eventHandling s" "\<not> callingPendingCbs s"
    "\<And>c. \<not> eventHandling (chan (r_poll s) c)" using ok by (simp_all add: reactor_ok_def)
  from Poll_handover [OF p_ok(1) kernel, of mempool alive t] obtain p' where
    p': "Poll mempool n rs (r_poll s) = Inr (p', ?cs)" "poller_ok p'" "distinct ?cs" "\<forall>c \<in> set ?cs. registered p' c"
      "\<forall>c. eventHandling (chan p' c) = eventHandling (chan (r_poll s) c)" "calls_of alive t (chan p') ?cs = calls"
    unfolding calls by blast
  let ?s1 = "s\<lparr>r_poll := p', r_active := ?cs, r_eventHandling := True\<rparr>"
  have idle: "\<forall>c. \<not> eventHandling (chan (r_poll ?s1) c)" using p'(5) p_ok(4) by simp
  have once1: "asked ?s1 + quits_of act (calls_of alive t (chan (r_poll ?s1)) ?cs) \<le> 1"
    using once by (simp add: p'(6) asked_def)
  from handle_all_ok [OF p'(3) _ _ idle once1] p'(2,4) obtain s2 where
    s2: "handle_all alive act t ?cs ?s1 = Inr s2" "poller_ok (r_poll s2)" "\<forall>c. \<not> eventHandling (chan (r_poll s2) c)"
      "executed s2 = executed s" "looping s2 = looping s" "channels (r_poll s2) = channels p'"
      "\<forall>c. same_but_events (chan p' c) (chan (r_poll s2) c)" "asked s2 = asked s + quits_of act calls"
      "r_trace s2 = r_trace s @ calls" "pendingCbs s2 = tasks" unfolding tasks by (auto simp: p'(6) asked_def)
  let ?s3 = "s2\<lparr>r_eventHandling := False\<rparr>"
  have h: "HandleActiveChannels alive act t (s\<lparr>r_poll := p', r_active := ?cs\<rparr>) = Inr ?s3"
    using s2(1) p_ok(2) by (simp add: HandleActiveChannels_def)
  from HandlePendingCallbacks_reactor [of spawn ?s3] obtain s' where
    s': "HandlePendingCallbacks (spawning spawn) ?s3 = Inr s'" "executed s' = executed s2 @ tasks"
      "pendingCbs s' = concat (map spawn tasks)" "\<not> callingPendingCbs s'" "pendingCbs s' = [] \<or> 0 < eventfd s'"
      "r_poll s' = r_poll s2" "r_trace s' = r_trace s2" "\<not> r_eventHandling s'" "quit_flag s' = quit_flag s2"
      "looping s' = looping s2"
    using s2(10) by auto
  have r: "loop_round mempool alive act spawn (t, n, rs) s = Inr s'"
    using p'(1) h s'(1) by (simp add: loop_round_def)
  have ok': "reactor_ok s'" using s' s2 by (simp add: reactor_ok_def)
  have wired: "same_wiring (chan (r_poll s) c) (chan (r_poll s') c)" for c
    using Poll_chan [OF p'(1), of c] same_but_events_wiring [OF spec [OF s2(7), of c]] same_wiring_trans
    by (metis same_wiring_refl(2) s'(6))
  have "asked s' = asked s + quits_of act calls" using s2(8) s'(9) by (simp add: asked_def)
  then show ?thesis using r ok' wired s' s2 Poll_channels [OF p'(1)] by auto
qed

section \<open>Properties\<close>

text \<open>C12. One round of the loop: with an answer of the kernel as its manual promises and at most
  one request to quit, it
  fails no assertion; it runs exactly the callbacks owed to the channels that were reported, by
  their tie and their reported events, channel after channel; then it runs every task that was pending
  or has been enqueued by these callbacks, once each and in order; what the tasks enqueue waits for the next
  round, for which the loop is then awake; the loop is ready for that round, and told to quit exactly
  when it was before or a callback has asked for it.\<close>

theorem loop_round_spec:
  assumes ok: "reactor_ok s" and kernel: "poll_contract (pollfds (r_poll s)) n rs"
    and calls: "calls = calls_of alive t (as_reported (r_poll s) rs) (reported mempool (r_poll s) rs)"
    and once: "asked s + quits_of act calls \<le> 1"
    and tasks: "tasks = pendingCbs s @ concat (map (tasks_of act) calls)"
  shows "\<exists>s'. loop_round mempool alive act spawn (t, n, rs) s = Inr s' \<and> reactor_ok s'
    \<and> (quit_flag s' \<longleftrightarrow> quit_flag s \<or> (\<exists>(c, k) \<in> set calls. OpQuit \<in> set (act c k)))
    \<and> r_trace s' = r_trace s @ calls \<and> executed s' = executed s @ tasks
    \<and> pendingCbs s' = concat (map spawn tasks) \<and> (pendingCbs s' = [] \<or> 0 < eventfd s')"
proof -
  from round_ok [OF assms] obtain s' where
    s': "loop_round mempool alive act spawn (t, n, rs) s = Inr s'" "reactor_ok s'"
      "asked s' = asked s + quits_of act calls" "r_trace s' = r_trace s @ calls" "executed s' = executed s @ tasks"
      "pendingCbs s' = concat (map spawn tasks)" "pendingCbs s' = [] \<or> 0 < eventfd s'" by blast
  have "quit_flag s' \<longleftrightarrow> quit_flag s \<or> 0 < quits_of act calls"
    using s'(3) by (simp add: asked_def split: if_splits)
  then have "quit_flag s' \<longleftrightarrow> quit_flag s \<or> (\<exists>(c, k) \<in> set calls. OpQuit \<in> set (act c k))"
    by (simp only: quits_of_pos)
  with s' show ?thesis by (intro exI [of _ s'] conjI)
qed

definition demo_polled :: poll_state where
  "demo_polled = upd_chan 0 (\<lambda>ch. ch\<lparr>readCb := Some 7\<rparr>) (upd_chan 2 (\<lambda>ch. ch\<lparr>writeCb := Some 8\<rparr>) three_polled)"

definition demo_reactor :: reactor where
  "demo_reactor = \<lparr>pc = AtPoll, looping = True, quit_flag = False, pendingCbs = [40], callingPendingCbs = False,
     eventfd = 0, woken = False, todo = [], wakes = 0, submitted = [40], executed = [],
     r_poll = demo_polled, r_eventHandling = False, r_active = [], r_trace = []\<rparr>"

definition demo_act :: "nat \<Rightarrow> cb_call \<Rightarrow> loop_op list" where
  "demo_act c k = (if c = 2 then [OpDisableWriting, OpEnqueue 51] else [OpEnqueue 50, OpQuit])"

lemma demo_reactor_ok: "reactor_ok demo_reactor"
proof -
  have "poller_ok demo_polled" unfolding demo_polled_def by (simp add: upd_chan_frame three_polled_ok)
  moreover have "\<not> eventHandling (chan demo_polled c)" for c
    by (simp add: demo_polled_def) (simp add: three_polled_def new_Channel_def)
  ultimately show ?thesis by (simp add: reactor_ok_def demo_reactor_def)
qed

theorem loop_round_spec_witness:
  "\<exists>s'. loop_round True (\<lambda>obj. True) demo_act (\<lambda>cb. if cb = 50 then [60] else []) (77, 2, [1, 0, 4]) demo_reactor = Inr s'
     \<and> r_trace s' = [(2, OnWrite 8), (0, OnRead 7 77)] \<and> executed s' = [40, 51, 50] \<and> pendingCbs s' = [60] \<and> quit_flag s'"
proof -
  let ?p = demo_polled and ?rs = "[1, 0, 4] :: 16 word list"
  have len: "length (pollfds ?p) = 3" by (simp add: demo_polled_def three_polled_def)
  have fds: "\<forall>i<3. ?rs ! i \<noteq> 0 \<longrightarrow> 0 \<le> pfd_fd (pollfds ?p ! i) \<and> 0 < sint (?rs ! i)"
    unfolding all_less_3 by (simp add: demo_polled_def three_polled_def)
  have kernel: "poll_contract (pollfds (r_poll demo_reactor)) 2 ?rs"
    using len fds by (simp add: poll_contract_def demo_reactor_def)
  have "channel_at ?p 0 = 0" "channel_at ?p 2 = 2"
    by (simp_all add: channel_at_def demo_polled_def) (simp_all add: three_polled_def real_fd_def)
  moreover have "[0..<length (pollfds ?p)] = [0, 1, 2]" unfolding len by (simp add: upt_rec)
  ultimately have rep: "reported True ?p ?rs = [2, 0]" by (simp add: reported_def Let_def)
  have owed: "owed (\<lambda>obj. True) 77 (as_reported ?p ?rs 2) = [OnWrite 8]"
    "owed (\<lambda>obj. True) 77 (as_reported ?p ?rs 0) = [OnRead 7 77]"
    by (simp_all add: owed_def as_reported_def demo_polled_def)
      (simp_all add: three_polled_def new_Channel_def due_calls_def has_event_def poll_flags)
  have calls: "calls_of (\<lambda>obj. True) 77 (as_reported ?p ?rs) (reported True ?p ?rs) = [(2, OnWrite 8), (0, OnRead 7 77)]"
    by (simp add: calls_of_def rep owed)
  have "asked demo_reactor + quits_of demo_act [(2, OnWrite 8), (0, OnRead 7 77)] \<le> 1"
    by (simp add: asked_def demo_reactor_def demo_act_def)
  from loop_round_spec [OF demo_reactor_ok kernel _ this refl, where mempool = True
      and alive = "\<lambda>obj. True" and t = 77 and spawn = "\<lambda>cb. if cb = 50 then [60] else []"]
  show ?thesis
    by (auto simp: demo_reactor_def calls tasks_of_def demo_act_def)
qed

end
