(* ===== verification/ConnEvents.thy ===== *)
theory ConnEvents
  imports TcpConnection Reactor
begin

text \<open>
  A connection as its channel drives it: \<^verbatim>\<open>Channel::HandleEvents\<close> with the four callbacks the
  constructor of \<^verbatim>\<open>TcpConnection\<close> has set. What \<^verbatim>\<open>readv(2)\<close> and \<^verbatim>\<open>write(2)\<close> answer is a function of
  the state, the user's callbacks are an argument. Shown: for every set of events the kernel of Linux reports
  for a socket, no assertion fails, the connection is up or down afterwards, no output is
  lost, and no other channel of the poller is touched.
\<close>

section \<open>The callbacks of a connection\<close>

definition conn_cb :: "(conn_call \<Rightarrow> tcp_conn \<Rightarrow> tcp_conn res) \<Rightarrow> (tcp_conn \<Rightarrow> readv_result) \<Rightarrow> (tcp_conn \<Rightarrow> write_result) \<Rightarrow>
    cb_call \<Rightarrow> tcp_conn \<Rightarrow> tcp_conn res" where
  "conn_cb user kr kw k c = (case k of
       OnClose cb \<Rightarrow> HandleClose True user c
     | OnError cb \<Rightarrow> HandleError True c
     | OnRead cb t \<Rightarrow> HandleRead True user (kr c) t c
     | OnWrite cb \<Rightarrow> HandleWrite True (kw c) c)"

definition with_chan :: "channel \<Rightarrow> tcp_conn \<Rightarrow> tcp_conn" where
  "with_chan ch c = c\<lparr>poll := upd_chan (conn_chan c) (\<lambda>x. ch) (poll c)\<rparr>"

definition on_conn :: "(cb_call \<Rightarrow> tcp_conn \<Rightarrow> tcp_conn res) \<Rightarrow> cb_call \<Rightarrow> channel \<times> tcp_conn \<Rightarrow> (channel \<times> tcp_conn) res" where
  "on_conn f k s = mapR (\<lambda>c'. (conn_ch c', c')) (f k (with_chan (fst s) (snd s)))"

definition conn_HandleEvents :: "(nat \<Rightarrow> bool) \<Rightarrow> (cb_call \<Rightarrow> tcp_conn \<Rightarrow> tcp_conn res) \<Rightarrow> int \<Rightarrow> tcp_conn \<Rightarrow> tcp_conn res" where
  "conn_HandleEvents alive f t c = mapR (\<lambda>(ch, c'). with_chan ch c') (HandleEvents alive (on_conn f) t (conn_ch c, c))"

section \<open>Handling the events is running the callbacks that are due\<close>

definition keeps_conn :: "tcp_conn \<Rightarrow> tcp_conn \<Rightarrow> bool" where
  "keeps_conn c c' \<longleftrightarrow> conn_chan c' = conn_chan c \<and> same_dispatch (conn_ch c) (conn_ch c')"

definition keeps_conn_cb :: "('k \<Rightarrow> tcp_conn \<Rightarrow> tcp_conn res) \<Rightarrow> bool" where
  "keeps_conn_cb f \<longleftrightarrow> (\<forall>k c c'. f k c = Inr c' \<longrightarrow> keeps_conn c c')"

lemma keeps_conn_refl [simp]: "keeps_conn c c"
  by (simp add: keeps_conn_def same_dispatch_def)

lemma keeps_conn_trans: "keeps_conn a b \<Longrightarrow> keeps_conn b c \<Longrightarrow> keeps_conn a c"
  unfolding keeps_conn_def same_dispatch_def by (elim conjE) simp

lemma with_chan_simps [simp]: "conn_chan (with_chan ch c) = conn_chan c" "chan (poll (with_chan ch c)) (conn_chan c) = ch"
  "with_chan (conn_ch c) c = c" "with_chan ch (with_chan ch' c) = with_chan ch c"
  by (simp_all add: with_chan_def upd_chan_def)

lemma on_conn_dispatch: "keeps_conn_cb f \<Longrightarrow> keeps_dispatch (on_conn f)"
proof -
  assume f: "keeps_conn_cb f"
  have "same_dispatch ch (conn_ch c')" if "f k (with_chan ch c) = Inr c'" for k ch c c'
    using f that unfolding keeps_conn_cb_def keeps_conn_def by fastforce
  then show ?thesis by (auto simp: keeps_dispatch_def on_conn_def res_iffs)
qed

lemma run_on_conn: "run_calls (on_conn f) ks (ch, c) =
    (if ks = [] then Inr (ch, c) else mapR (\<lambda>c'. (conn_ch c', c')) (run_calls f ks (with_chan ch c)))"
proof (induction ks arbitrary: ch c)
  case (Cons k ks)
  show ?case
  proof (cases "f k (with_chan ch c)")
    case (Inr c1)
    then show ?thesis using Cons.IH [of "conn_ch c1" c1] by (simp add: on_conn_def)
  qed (simp add: on_conn_def)
qed simp

definition flagged :: "bool \<Rightarrow> tcp_conn \<Rightarrow> tcp_conn" where
  "flagged h c = with_chan ((conn_ch c)\<lparr>eventHandling := h\<rparr>) c"

lemma conn_HandleEvents_eq:
  assumes "keeps_conn_cb f" and "\<not> eventHandling (conn_ch c)" and "\<forall>obj. tie (conn_ch c) = Some obj \<longrightarrow> alive obj"
  shows "conn_HandleEvents alive f t c = mapR (flagged False) (run_calls f (due_calls t (conn_ch c)) (flagged True c))"
proof -
  have *: "\<not> (\<exists>obj. tie (conn_ch c) = Some obj \<and> \<not> alive obj)" using assms(3) by blast
  have "HandleEvents alive (on_conn f) t (conn_ch c, c) = mapR (\<lambda>(c', w'). (c'\<lparr>eventHandling := False\<rparr>, w'))
        (run_calls (on_conn f) (due_calls t (conn_ch c)) ((conn_ch c)\<lparr>eventHandling := True\<rparr>, c))"
    unfolding dispatch_eq [OF on_conn_dispatch [OF assms(1)] assms(2)] if_not_P [OF *] ..
  then show ?thesis
    by (cases "run_calls f (due_calls t (conn_ch c)) (flagged True c)")
      (auto simp: conn_HandleEvents_def run_on_conn flagged_def)
qed

section \<open>What an operation on one channel leaves alone\<close>

definition others_kept :: "nat \<Rightarrow> poll_state \<Rightarrow> poll_state \<Rightarrow> bool" where
  "others_kept k p p' \<longleftrightarrow> (\<forall>d. d \<noteq> k \<longrightarrow> (chan p' d)\<lparr>ch_index := 0\<rparr> = (chan p d)\<lparr>ch_index := 0\<rparr>)
     \<and> (\<forall>fd. fd \<noteq> ch_fd (chan p k) \<longrightarrow> channels p' fd = channels p fd \<and> interest p' fd = interest p fd)
     \<and> (channels p' (ch_fd (chan p k)) = channels p (ch_fd (chan p k)) \<or> channels p' (ch_fd (chan p k)) = None)
     \<and> ch_fd (chan p' k) = ch_fd (chan p k) \<and> tie (chan p' k) = tie (chan p k)
     \<and> eventHandling (chan p' k) = eventHandling (chan p k)"

definition conn_kept :: "tcp_conn \<Rightarrow> tcp_conn \<Rightarrow> bool" where
  "conn_kept c c' \<longleftrightarrow> conn_chan c' = conn_chan c \<and> conn_self c' = conn_self c
     \<and> others_kept (conn_chan c) (poll c) (poll c')"

lemma others_kept_refl [simp]: "others_kept k p p"
  by (simp add: others_kept_def)

lemma others_kept_trans:
  assumes "others_kept k p q" and "others_kept k q r"
  shows "others_kept k p r"
proof -
  have "ch_fd (chan q k) = ch_fd (chan p k)" using assms(1) by (simp add: others_kept_def)
  with assms show ?thesis unfolding others_kept_def by (elim conjE, intro conjI) (simp_all, argo)
qed

lemma conn_kept_refl [simp]: "conn_kept c c"
  by (simp add: conn_kept_def)

lemma conn_kept_trans: "conn_kept a b \<Longrightarrow> conn_kept b c \<Longrightarrow> conn_kept a c"
  using others_kept_trans by (fastforce simp: conn_kept_def)

text \<open>Changing the events of a registered channel.\<close>

lemma set_events_kept:
  assumes ok: "poller_ok p" and reg: "registered p k"
    and upd: "UpdateChannel True k (upd_chan k (\<lambda>ch. ch\<lparr>ch_events := g (ch_events ch)\<rparr>) p) = Inr p'"
  shows "others_kept k p p'"
proof -
  let ?f = "\<lambda>ch. ch\<lparr>ch_events := g (ch_events ch)\<rparr>"
  from set_events_ok [OF ok reg, of ?f] upd have
    p': "poller_ok p'" "chan p' = (chan p)(k := ?f (chan p k))"
      "\<forall>fd. fd \<noteq> ch_fd (chan p k) \<longrightarrow> interest p' fd = interest p fd" by auto
  have "poller_ok (upd_chan k ?f p)" "registered (upd_chan k ?f p) k"
    using ok reg upd_chan_frame [of ?f] by simp_all
  from UpdateChannel_channels [OF this upd] p' show ?thesis by (simp add: others_kept_def)
qed

text \<open>Operations that change the events of the own channel once, at most.\<close>

definition one_update :: "tcp_conn \<Rightarrow> tcp_conn \<Rightarrow> bool" where
  "one_update c c' \<longleftrightarrow> conn_chan c' = conn_chan c \<and> conn_self c' = conn_self c \<and> (poll c' = poll c
     \<or> (\<exists>g. UpdateChannel True (conn_chan c)
            (upd_chan (conn_chan c) (\<lambda>ch. ch\<lparr>ch_events := g (ch_events ch)\<rparr>) (poll c)) = Inr (poll c')))"

lemma one_update_kept: "one_update c c' \<Longrightarrow> conn_ok c \<Longrightarrow> conn_kept c c'"
  using set_events_kept by (auto simp: one_update_def conn_kept_def conn_ok_def)

lemma one_update_keeps: "one_update c c' \<Longrightarrow> keeps_conn c c'"
proof -
  assume u: "one_update c c'"
  have "same_dispatch (conn_ch c) (chan (poll c') (conn_chan c))"
  proof (cases "poll c' = poll c")
    case False
    with u obtain g where "UpdateChannel True (conn_chan c)
        (upd_chan (conn_chan c) (\<lambda>ch. ch\<lparr>ch_events := g (ch_events ch)\<rparr>) (poll c)) = Inr (poll c')"
      by (auto simp: one_update_def)
    then show ?thesis by (rule set_events_dispatch) (simp add: same_dispatch_def)
  qed (simp add: same_dispatch_def)
  with u show ?thesis by (simp add: one_update_def keeps_conn_def)
qed

lemma one_update_same [simp]:
  "poll c' = poll c \<Longrightarrow> conn_chan c' = conn_chan c \<Longrightarrow> conn_self c' = conn_self c \<Longrightarrow> one_update c c'"
  by (simp add: one_update_def)

lemma one_update_chan:
  assumes "on_chan opn c1 = Inr c2" and "poll c1 = poll c" "conn_chan c1 = conn_chan c" "conn_self c1 = conn_self c"
    and "poll c' = poll c2" "conn_chan c' = conn_chan c2" "conn_self c' = conn_self c2"
    and "opn = (\<lambda>k s. UpdateChannel True k (upd_chan k (\<lambda>ch. ch\<lparr>ch_events := g (ch_events ch)\<rparr>) s))"
  shows "one_update c c'"
  using assms by (auto simp: one_update_def on_chan_def res_iffs)

lemmas chan_ops = EnableReading_def [abs_def] enableWriting_def [abs_def] disableWriting_def [abs_def]
  disableAllEvents_def [abs_def]

text \<open>No output is lost, no queued task either; a connection that has been told to shut down stays
  so, and its task to do so is queued only then.\<close>

definition more_tasks :: "tcp_conn \<Rightarrow> tcp_conn \<Rightarrow> bool" where
  "more_tasks c c' \<longleftrightarrow> (\<exists>ts. queued c' = queued c @ ts \<and> (ShutdownTask \<in> set ts \<longrightarrow> state c' \<noteq> Connected)
        \<and> DestroyedTask \<notin> set ts)
     \<and> (state c \<noteq> Connected \<longrightarrow> state c' \<noteq> Connected)"

definition extends :: "tcp_conn \<Rightarrow> tcp_conn \<Rightarrow> bool" where
  "extends c c' \<longleftrightarrow> (\<exists>d. wire c' @ outdata c' = wire c @ outdata c @ d) \<and> more_tasks c c'"

lemma more_tasks_same: "queued c' = queued c \<Longrightarrow> (state c \<noteq> Connected \<longrightarrow> state c' \<noteq> Connected) \<Longrightarrow> more_tasks c c'"
  by (simp add: more_tasks_def)

lemma more_tasks_refl [simp]: "more_tasks c c"
  by (simp add: more_tasks_def)

lemma more_tasks_trans: "more_tasks a b \<Longrightarrow> more_tasks b c \<Longrightarrow> more_tasks a c"
  unfolding more_tasks_def by auto

lemma extends_refl [simp]: "extends c c"
  by (simp add: extends_def)

lemma extends_trans: "extends a b \<Longrightarrow> extends b c \<Longrightarrow> extends a c"
  unfolding extends_def using more_tasks_trans by (metis append_assoc)

lemma HandleWrite_tasks:
  assumes w: "HandleWrite True wres c = Inr c'"
  shows "more_tasks c c'"
proof -
  have shut: "more_tasks a b" if "ShutdownInLoop True a = Inr b" for a b
    using that by (auto simp: ShutdownInLoop_def more_tasks_def split: if_splits)
  have enq: "more_tasks a (enqueue WriteCompleteTask a)" for a by (simp add: more_tasks_def enqueue_def)
  have chan: "queued b = queued a \<and> state b = state a" if "on_chan f a = Inr b" for f a b
    using that by (auto simp: on_chan_def res_iffs)
  show ?thesis
  proof (cases "chan_IsWriting c \<and> (\<exists>n b. wres = Wrote n \<and> Retrieve n (outputBuffer c) = Inr b)")
    case False
    with w have "c' = c" by (auto simp: HandleWrite_def res_iffs split: if_splits write_result.splits)
    then show ?thesis by simp
  next
    case True
    then obtain n b where b: "chan_IsWriting c" "wres = Wrote n" "Retrieve n (outputBuffer c) = Inr b" by blast
    define c1 where "c1 = c\<lparr>outputBuffer := b,
      wire := wire c @ take n (take (ReadableBytes (outputBuffer c)) (Peek (outputBuffer c)))\<rparr>"
    have c1: "more_tasks c c1" by (simp add: more_tasks_def c1_def)
    show ?thesis
    proof (cases "ReadableBytes b = 0")
      case False
      with w b c1 show ?thesis by (simp add: HandleWrite_def c1_def Let_def)
    next
      case True
      with w b obtain c2 where c2: "on_chan (disableWriting True) c1 = Inr c2"
        "(let c3 = (if has_writeComplete c2 then enqueue WriteCompleteTask c2 else c2)
          in if state c3 = Disconnecting then ShutdownInLoop True c3 else Inr c3) = Inr c'"
        by (auto simp: HandleWrite_def c1_def Let_def res_iffs)
      define c3 where "c3 = (if has_writeComplete c2 then enqueue WriteCompleteTask c2 else c2)"
      have "more_tasks c1 c2" using chan [OF c2(1)] by (simp add: more_tasks_def)
      moreover have "more_tasks c2 c3" using enq by (simp add: c3_def)
      moreover have "more_tasks c3 c'" using c2(2) shut by (auto simp: c3_def [symmetric] Let_def split: if_splits)
      ultimately show ?thesis using c1 more_tasks_trans by blast
    qed
  qed
qed

lemma SendInLoop_tasks:
  assumes w: "SendInLoop True wres buf c = Inr c'"
  shows "more_tasks c c' \<and> state c' = state c"
proof (cases "state c = Disconnected")
  case True
  with w show ?thesis by (simp add: SendInLoop_def)
next
  case False
  obtain nwrote remaining faultError c1 where
    dw: "direct_write wres buf c = (nwrote, remaining, faultError, c1)" by (metis prod_cases4)
  then have c1: "more_tasks c c1 \<and> state c1 = state c"
    by (auto simp: direct_write_def enqueue_def more_tasks_def Let_def split: if_splits write_result.splits)
  define c2 where "c2 = (if highWaterMark c1 \<le> ReadableBytes (outputBuffer c1) + remaining
      \<and> ReadableBytes (outputBuffer c1) < highWaterMark c1 \<and> has_highWater c1
    then enqueue (HighWaterTask (ReadableBytes (outputBuffer c1) + remaining)) c1 else c1)"
  have c2: "more_tasks c1 c2 \<and> state c2 = state c1" by (simp add: more_tasks_def enqueue_def c2_def)
  have "SendInLoop True wres buf c = ensure (remaining \<le> length buf) (if \<not> faultError \<and> 0 < remaining
      then bindR (Append (take remaining (drop nwrote buf)) (outputBuffer c2)) (\<lambda>b. let c3 = c2\<lparr>outputBuffer := b\<rparr>
        in if \<not> chan_IsWriting c3 then on_chan (enableWriting True) c3 else Inr c3) else Inr c1)"
    using dw False by (simp add: SendInLoop_def c2_def Let_def)
  with w have "c' = c1 \<or> queued c' = queued c2 \<and> state c' = state c2"
    by (auto simp: res_iffs Let_def on_chan_def split: if_splits)
  then have "c' = c1 \<or> more_tasks c2 c' \<and> state c' = state c2" by (auto intro: more_tasks_same)
  with c1 c2 more_tasks_trans show ?thesis by metis
qed

lemma HandleWrite_update:
  assumes w: "HandleWrite True wres c = Inr c'"
  shows "one_update c c'"
proof (cases "chan_IsWriting c \<and> (\<exists>n b. wres = Wrote n \<and> Retrieve n (outputBuffer c) = Inr b)")
  case True
  then obtain n b where b: "chan_IsWriting c" "wres = Wrote n" "Retrieve n (outputBuffer c) = Inr b" by blast
  define c1 where "c1 = c\<lparr>outputBuffer := b,
    wire := wire c @ take n (take (ReadableBytes (outputBuffer c)) (Peek (outputBuffer c)))\<rparr>"
  have c1: "poll c1 = poll c" "conn_chan c1 = conn_chan c" "conn_self c1 = conn_self c" by (simp_all add: c1_def)
  show ?thesis
  proof (cases "ReadableBytes b = 0")
    case False
    with w b have "c' = c1" by (simp add: HandleWrite_def c1_def Let_def)
    with c1 show ?thesis by simp
  next
    case True
    with w b obtain c2 where c2: "on_chan (disableWriting True) c1 = Inr c2"
      "(let c3 = (if has_writeComplete c2 then enqueue WriteCompleteTask c2 else c2)
        in if state c3 = Disconnecting then ShutdownInLoop True c3 else Inr c3) = Inr c'"
      by (auto simp: HandleWrite_def c1_def Let_def res_iffs)
    then have "poll c' = poll c2" "conn_chan c' = conn_chan c2" "conn_self c' = conn_self c2"
      by (auto simp: ShutdownInLoop_def enqueue_def Let_def split: if_splits)
    from one_update_chan [OF c2(1) c1 this] show ?thesis by (auto simp: chan_ops)
  qed
next
  case False
  with w have "c' = c" by (auto simp: HandleWrite_def res_iffs split: if_splits write_result.splits)
  then show ?thesis by simp
qed

lemma SendInLoop_update:
  assumes w: "SendInLoop True wres buf c = Inr c'"
  shows "one_update c c'"
proof (cases "state c = Disconnected")
  case True
  with w show ?thesis by (simp add: SendInLoop_def)
next
  case False
  obtain nwrote remaining faultError c1 where
    dw: "direct_write wres buf c = (nwrote, remaining, faultError, c1)" by (metis prod_cases4)
  then have c1: "poll c1 = poll c" "conn_chan c1 = conn_chan c" "conn_self c1 = conn_self c"
    by (auto simp: direct_write_def enqueue_def Let_def split: if_splits write_result.splits)
  show ?thesis
  proof (cases "\<not> faultError \<and> 0 < remaining")
    case False
    with w dw \<open>state c \<noteq> Disconnected\<close> have "c' = c1" by (auto simp: SendInLoop_def res_iffs)
    with c1 show ?thesis by simp
  next
    case True
    define c2 where "c2 = (if highWaterMark c1 \<le> ReadableBytes (outputBuffer c1) + remaining
        \<and> ReadableBytes (outputBuffer c1) < highWaterMark c1 \<and> has_highWater c1
      then enqueue (HighWaterTask (ReadableBytes (outputBuffer c1) + remaining)) c1 else c1)"
    have c2: "poll c2 = poll c" "conn_chan c2 = conn_chan c" "conn_self c2 = conn_self c"
      using c1 by (simp_all add: c2_def enqueue_def)
    have "SendInLoop True wres buf c = ensure (remaining \<le> length buf)
        (bindR (Append (take remaining (drop nwrote buf)) (outputBuffer c2)) (\<lambda>b. let c3 = c2\<lparr>outputBuffer := b\<rparr>
          in if \<not> chan_IsWriting c3 then on_chan (enableWriting True) c3 else Inr c3))"
      using dw True \<open>state c \<noteq> Disconnected\<close> by (simp add: SendInLoop_def c2_def Let_def)
    with w obtain b where
      b: "(if \<not> chan_IsWriting (c2\<lparr>outputBuffer := b\<rparr>) then on_chan (enableWriting True) (c2\<lparr>outputBuffer := b\<rparr>)
           else Inr (c2\<lparr>outputBuffer := b\<rparr>)) = Inr c'"
      by (auto simp: Let_def res_iffs)
    show ?thesis
    proof (cases "chan_IsWriting (c2\<lparr>outputBuffer := b\<rparr>)")
      case True
      with b c2 show ?thesis by auto
    next
      case False
      with b have e: "on_chan (enableWriting True) (c2\<lparr>outputBuffer := b\<rparr>) = Inr c'" by simp
      from one_update_chan [OF e, of c c'] c2 show ?thesis by (auto simp: chan_ops)
    qed
  qed
qed

section \<open>Up, down, and the callbacks\<close>

text \<open>A connection that is over: its channel asks for nothing and is not polled.\<close>

definition conn_down :: "tcp_conn \<Rightarrow> bool" where
  "conn_down c \<longleftrightarrow> state c = Disconnected \<and> poller_ok (poll c) \<and> ch_events (conn_ch c) = kNoneEvent
     \<and> (registered (poll c) (conn_chan c) \<longrightarrow> (\<exists>e. interest (poll c) (ch_fd (conn_ch c)) = Some (False, e)))"

text \<open>What is asked of the user's callbacks: they keep a connection that is up in order (they may send,
  shut it down, take input), the close callback may take a closed one out of the poller; neither
  changes which callbacks the channel has, or other channels.\<close>

definition good_user :: "(conn_call \<Rightarrow> tcp_conn \<Rightarrow> tcp_conn res) \<Rightarrow> bool" where
  "good_user user \<longleftrightarrow> keeps_conn_cb user
     \<and> (\<forall>t c. conn_ok c \<longrightarrow> (\<exists>c'. user (MessageCb t) c = Inr c' \<and> conn_ok c' \<and> conn_kept c c' \<and> extends c c'))
     \<and> (\<forall>c. conn_closed c \<longrightarrow> (\<exists>c'. user CloseCb c = Inr c' \<and> conn_down c' \<and> conn_kept c c' \<and> extends c c'))"

text \<open>What the manuals promise of \<^verbatim>\<open>readv(2)\<close> and \<^verbatim>\<open>write(2)\<close>; no buffer outgrows its vector.\<close>

definition good_kernel :: "(tcp_conn \<Rightarrow> readv_result) \<Rightarrow> (tcp_conn \<Rightarrow> write_result) \<Rightarrow> bool" where
  "good_kernel kr kw \<longleftrightarrow> (\<forall>c. conn_ok c \<longrightarrow> write_contract (kw c) (length (outdata c)) c)
     \<and> (\<forall>c d. conn_ok c \<and> kr c = ReadvData d \<longrightarrow> length d \<le> iov_capacity (inputBuffer c) \<and> length d \<le> room (inputBuffer c))"

definition outcome :: "tcp_conn \<Rightarrow> tcp_conn \<Rightarrow> bool" where
  "outcome c c' \<longleftrightarrow> (conn_ok c' \<or> conn_down c') \<and> conn_kept c c' \<and> extends c c'"

lemma outcome_trans: "outcome a b \<Longrightarrow> outcome b c \<Longrightarrow> outcome a c"
  unfolding outcome_def using conn_kept_trans extends_trans by blast

lemma HandleClose_outcome:
  assumes user: "good_user user" and ok: "conn_ok c"
  shows "\<exists>c'. HandleClose True user c = Inr c' \<and> conn_down c' \<and> conn_kept c c' \<and> extends c c'"
proof -
  from on_disableAll [OF ok, of c] obtain p where
    p: "on_chan (disableAllEvents True) c = Inr (c\<lparr>poll := p\<rparr>)" "poller_ok p" "registered p (conn_chan c)"
      "IsNoneEvent (chan p (conn_chan c))" "ch_fd (chan p (conn_chan c)) = ch_fd (conn_ch c)"
      "interest p = (interest (poll c))(ch_fd (conn_ch c) \<mapsto> (False, 0))" by auto
  let ?c1 = "c\<lparr>poll := p, state := Disconnected\<rparr>"
  have "one_update c (c\<lparr>poll := p\<rparr>)" using one_update_chan [OF p(1)] by (auto simp: chan_ops)
  then have k: "conn_kept c (c\<lparr>poll := p\<rparr>)" using ok by (rule one_update_kept)
  then have k1: "conn_kept c ?c1" "extends c ?c1" by (simp_all add: conn_kept_def extends_def more_tasks_def)
  have "conn_closed ?c1" using p by (simp add: conn_closed_def)
  then obtain c' where "user CloseCb ?c1 = Inr c'" "conn_down c'" "conn_kept ?c1 c'" "extends ?c1 c'"
    using user unfolding good_user_def by blast
  moreover have "HandleClose True user c = user CloseCb ?c1"
    using ok p(1) by (simp add: HandleClose_def conn_ok_def conn_live_def)
  ultimately show ?thesis using k1 conn_kept_trans extends_trans by metis
qed

lemma HandleRead_outcome:
  assumes user: "good_user user" and kernel: "good_kernel kr kw" and ok: "conn_ok c"
  shows "\<exists>c'. HandleRead True user (kr c) t c = Inr c' \<and> outcome c c'"
proof (cases "kr c")
  case (ReadvError e)
  have "c\<lparr>inputBuffer := inputBuffer c\<rparr> = c" by simp
  with ReadvError ok show ?thesis by (simp add: HandleRead_def HandleError_def outcome_def)
next
  case (ReadvData d)
  with kernel ok have d: "length d \<le> iov_capacity (inputBuffer c)" "length d \<le> room (inputBuffer c)"
    by (auto simp: good_kernel_def)
  have buf: "buf_ok (inputBuffer c)" using ok by (simp add: conn_ok_def)
  from ReadFd_ok [OF buf d] obtain b where
    b: "ReadFd (ReadvData d) (inputBuffer c) = Inr (int (length d), None, b)" "buf_ok b" by blast
  let ?c1 = "c\<lparr>inputBuffer := b\<rparr>"
  have ok1: "conn_ok ?c1" using ok b(2) by (simp add: conn_ok_def conn_live_def)
  have k1: "conn_kept c ?c1" "extends c ?c1" by (simp_all add: conn_kept_def extends_def more_tasks_def)
  have eq: "HandleRead True user (kr c) t c = (if d = [] then HandleClose True user ?c1 else user (MessageCb t) ?c1)"
    using ReadvData b(1) by (simp add: HandleRead_def del: ReadFd.simps)
  from HandleClose_outcome [OF user ok1] user ok1 obtain c2 c3 where
    "HandleClose True user ?c1 = Inr c2" "conn_down c2" "conn_kept ?c1 c2" "extends ?c1 c2"
    "user (MessageCb t) ?c1 = Inr c3" "conn_ok c3" "conn_kept ?c1 c3" "extends ?c1 c3"
    unfolding good_user_def by blast
  with k1 conn_kept_trans extends_trans eq show ?thesis by (metis outcome_def)
qed

lemma HandleWrite_outcome:
  assumes kernel: "good_kernel kr kw" and "conn_ok c \<or> conn_down c"
  shows "\<exists>c'. HandleWrite True (kw c) c = Inr c' \<and> (if conn_ok c then conn_ok c' else c' = c) \<and> conn_kept c c' \<and> extends c c'"
proof (cases "conn_ok c")
  case True
  with kernel have "write_contract (kw c) (length (outdata c)) c" by (simp add: good_kernel_def)
  from HandleWrite_ok [OF True this] obtain c' where
    "HandleWrite True (kw c) c = Inr c'" "conn_ok c'" "wire c' @ outdata c' = wire c @ outdata c" by blast
  with one_update_kept [OF HandleWrite_update True] HandleWrite_tasks True show ?thesis by (auto simp: extends_def)
next
  case False
  with assms(2) have "\<not> chan_IsWriting c"
    by (simp add: conn_down_def chan_IsWriting_def IsWriting_def has_event_def kNoneEvent_def)
  with False show ?thesis by (simp add: HandleWrite_def)
qed

text \<open>A list of callbacks of which at most one can end the connection.\<close>

definition may_close :: "cb_call \<Rightarrow> bool" where
  "may_close k \<longleftrightarrow> (case k of OnClose cb \<Rightarrow> True | OnRead cb t \<Rightarrow> True | _ \<Rightarrow> False)"

lemma may_close_simps [simp]: "may_close (OnClose cb)" "may_close (OnRead cb t)" "\<not> may_close (OnError cb)"
  "\<not> may_close (OnWrite cb)"
  by (simp_all add: may_close_def)

lemma run_conn_calls:
  assumes user: "good_user user" and kernel: "good_kernel kr kw"
  shows "conn_ok c \<and> length (filter may_close ks) \<le> 1 \<or> conn_down c \<and> filter may_close ks = [] \<Longrightarrow>
    \<exists>c'. run_calls (conn_cb user kr kw) ks c = Inr c' \<and> outcome c c'"
proof (induction ks arbitrary: c)
  case Nil
  then show ?case by (auto simp: outcome_def)
next
  case (Cons k ks)
  have "\<exists>c1. conn_cb user kr kw k c = Inr c1 \<and> outcome c c1
      \<and> (conn_ok c1 \<and> length (filter may_close ks) \<le> 1 \<or> conn_down c1 \<and> filter may_close ks = [])"
  proof (cases k)
    case (OnClose cb)
    with Cons.prems have "conn_ok c" "filter may_close ks = []" by auto
    with HandleClose_outcome [OF user this(1)] OnClose show ?thesis by (auto simp: conn_cb_def outcome_def)
  next
    case (OnError cb)
    with Cons.prems show ?thesis by (auto simp: conn_cb_def HandleError_def outcome_def)
  next
    case (OnRead cb t)
    with Cons.prems have "conn_ok c" "filter may_close ks = []" by auto
    with HandleRead_outcome [OF user kernel this(1), of t] OnRead show ?thesis by (auto simp: conn_cb_def outcome_def)
  next
    case (OnWrite cb)
    with Cons.prems HandleWrite_outcome [OF kernel, of c] show ?thesis
      by (fastforce simp: conn_cb_def outcome_def split: if_splits)
  qed
  then obtain c1 where c1: "conn_cb user kr kw k c = Inr c1" "outcome c c1"
    "conn_ok c1 \<and> length (filter may_close ks) \<le> 1 \<or> conn_down c1 \<and> filter may_close ks = []" by blast
  from Cons.IH [OF c1(3)] c1(1,2) outcome_trans show ?case by fastforce
qed

section \<open>All callbacks for one set of events\<close>

text \<open>Linux reports the end of the peer's stream together with \<^verbatim>\<open>POLLIN\<close>, so a hang-up without \<^verbatim>\<open>POLLIN\<close>
  comes without the other read events.\<close>

definition linux_events :: "events \<Rightarrow> bool" where
  "linux_events r \<longleftrightarrow> \<not> (has_event r POLLHUP \<and> \<not> has_event r POLLIN \<and> (has_event r POLLPRI \<or> has_event r POLLRDHUP))"

lemma due_calls_close_once: "linux_events (revents ch) \<Longrightarrow> length (filter may_close (due_calls t ch)) \<le> 1"
proof -
  assume ev: "linux_events (revents ch)"
  have one: "length (filter may_close (stage b kind cb)) \<le> 1" for b kind cb
    by (rule order_trans [OF length_filter_le]) (cases cb, auto simp: stage_def)
  have none: "filter may_close (stage b OnError cb) = []" "filter may_close (stage b OnWrite cb) = []" for b cb
    by (cases b; cases cb; simp only: stage_def if_True if_False option.case filter.simps may_close_simps)+
  let ?b = "has_event (revents ch) POLLHUP \<and> \<not> has_event (revents ch) POLLIN"
    and ?r = "has_event (revents ch) (POLLIN OR POLLRDHUP OR POLLPRI)"
  have "\<not> (?b \<and> ?r)" using ev by (auto simp: linux_events_def has_event_or)
  then consider "?b = False" | "?r = False" by argo
  moreover have eq: "filter may_close (due_calls t ch)
      = filter may_close (stage ?b OnClose (closeCb ch)) @ filter may_close (stage ?r (\<lambda>f. OnRead f t) (readCb ch))"
    by (simp only: due_calls_eq filter_append none append_Nil append_Nil2)
  moreover have "stage False kind cb = []" for kind cb by (simp only: stage_def if_False)
  ultimately show ?thesis using one by cases (simp_all only: filter.simps append_Nil append_Nil2)
qed

lemma flagged_ok [simp]: "conn_ok (flagged h c) = conn_ok c" "conn_down (flagged h c) = conn_down c"
proof -
  have p: "poll (flagged h c) = upd_chan (conn_chan c) (\<lambda>x. x\<lparr>eventHandling := h\<rparr>) (poll c)"
    by (simp add: flagged_def with_chan_def put_back)
  have i: "interest (poll (flagged h c)) = interest (poll c)" by (simp add: p upd_chan_frame)
  have "poller_ok (poll (flagged h c)) = poller_ok (poll c)"
    "registered (poll (flagged h c)) (conn_chan c) = registered (poll c) (conn_chan c)"
    by (simp_all add: p upd_chan_frame)
  moreover have "conn_chan (flagged h c) = conn_chan c" "state (flagged h c) = state c" "inputBuffer (flagged h c) = inputBuffer c"
    "outputBuffer (flagged h c) = outputBuffer c" "wr_shutdown (flagged h c) = wr_shutdown c"
    by (simp_all add: flagged_def with_chan_def)
  moreover have "ch_fd (chan (poll (flagged h c)) (conn_chan c)) = ch_fd (conn_ch c)"
    "ch_events (chan (poll (flagged h c)) (conn_chan c)) = ch_events (conn_ch c)" by (simp_all add: p)
  ultimately show "conn_ok (flagged h c) = conn_ok c" "conn_down (flagged h c) = conn_down c"
    by (simp_all add: conn_ok_def conn_live_def conn_down_def i)
qed

lemma flagged_extends: "extends (flagged h c) c' = extends c c'" "extends c (flagged h c') = extends c c'"
  by (simp_all add: extends_def more_tasks_def flagged_def with_chan_def)

text \<open>Between the two settings of the flag.\<close>

lemma kept_between_flags:
  assumes idle: "\<not> eventHandling (conn_ch c)" and k: "conn_kept (flagged True c) c'"
  shows "conn_kept c (flagged False c')"
proof -
  let ?k = "conn_chan c"
  have p: "poll (flagged True c) = upd_chan ?k (\<lambda>x. x\<lparr>eventHandling := True\<rparr>) (poll c)"
    by (simp add: flagged_def with_chan_def put_back)
  have ck: "conn_chan c' = ?k" "conn_self c' = conn_self c"
    using k by (simp_all add: conn_kept_def flagged_def with_chan_def)
  have p': "poll (flagged False c') = upd_chan ?k (\<lambda>x. x\<lparr>eventHandling := False\<rparr>) (poll c')"
    using ck by (simp add: flagged_def with_chan_def put_back)
  have o: "others_kept ?k (poll (flagged True c)) (poll c')"
    using k by (simp add: conn_kept_def flagged_def with_chan_def)
  have "others_kept ?k (poll c) (poll (flagged False c'))"
    using o idle unfolding others_kept_def p p' by (auto simp: upd_chan_frame)
  with ck show ?thesis by (simp add: conn_kept_def flagged_def with_chan_def)
qed

text \<open>No callback of a connection changes which callbacks its channel has.\<close>

lemma HandleClose_keeps: "keeps_conn_cb user \<Longrightarrow> HandleClose True user c = Inr c' \<Longrightarrow> keeps_conn c c'"
proof -
  assume user: "keeps_conn_cb user" and h: "HandleClose True user c = Inr c'"
  from h obtain c1 where c1: "on_chan (disableAllEvents True) c = Inr c1" "user CloseCb (c1\<lparr>state := Disconnected\<rparr>) = Inr c'"
    by (auto simp: HandleClose_def res_iffs)
  have "keeps_conn c (c1\<lparr>state := Disconnected\<rparr>)"
    by (rule one_update_keeps, rule one_update_chan [OF c1(1)]) (auto simp: chan_ops)
  moreover have "keeps_conn (c1\<lparr>state := Disconnected\<rparr>) c'" using user c1(2) unfolding keeps_conn_cb_def by blast
  ultimately show ?thesis by (rule keeps_conn_trans)
qed

lemma conn_cb_keeps:
  assumes "keeps_conn_cb user"
  shows "keeps_conn_cb (conn_cb user kr kw)"
  unfolding keeps_conn_cb_def
proof (intro allI impI)
  fix k c c' assume h: "conn_cb user kr kw k c = Inr c'"
  have read: "keeps_conn c c'" if r: "HandleRead True user rr t c = Inr c'" for rr t
  proof -
    from r obtain ret e b where "(let c1 = c\<lparr>inputBuffer := b\<rparr> in if (ret :: int) < 0 then HandleError True c1
        else if ret = 0 then HandleClose True user c1 else user (MessageCb t) c1) = Inr c'"
      by (auto simp: HandleRead_def res_iffs)
    then have "c' = c\<lparr>inputBuffer := b\<rparr> \<or> HandleClose True user (c\<lparr>inputBuffer := b\<rparr>) = Inr c'
        \<or> user (MessageCb t) (c\<lparr>inputBuffer := b\<rparr>) = Inr c'"
      by (auto simp: HandleError_def Let_def split: if_splits)
    moreover have "keeps_conn c (c\<lparr>inputBuffer := b\<rparr>)" by (simp add: keeps_conn_def same_dispatch_def)
    ultimately show ?thesis
      using HandleClose_keeps [OF assms] assms keeps_conn_trans unfolding keeps_conn_cb_def by blast
  qed
  show "keeps_conn c c'"
  proof (cases k)
    case (OnClose cb)
    with h HandleClose_keeps [OF assms] show ?thesis by (simp add: conn_cb_def)
  next
    case (OnError cb)
    with h show ?thesis by (simp add: conn_cb_def HandleError_def)
  next
    case (OnRead cb t)
    with h read show ?thesis by (simp add: conn_cb_def)
  next
    case (OnWrite cb)
    with h one_update_keeps [OF HandleWrite_update] show ?thesis by (simp add: conn_cb_def)
  qed
qed

lemma conn_events_ok:
  assumes ok: "conn_ok c" and idle: "\<not> eventHandling (conn_ch c)" and alive: "\<forall>obj. tie (conn_ch c) = Some obj \<longrightarrow> alive obj"
    and user: "good_user user" and kernel: "good_kernel kr kw" and ev: "linux_events (revents (conn_ch c))"
  shows "\<exists>c'. conn_HandleEvents alive (conn_cb user kr kw) t c = Inr c' \<and> outcome c c'"
proof -
  have "conn_ok (flagged True c) \<and> length (filter may_close (due_calls t (conn_ch c))) \<le> 1"
    using ok due_calls_close_once [OF ev] by simp
  with run_conn_calls [OF user kernel, of "flagged True c" "due_calls t (conn_ch c)"] obtain c1 where
    c1: "run_calls (conn_cb user kr kw) (due_calls t (conn_ch c)) (flagged True c) = Inr c1" "outcome (flagged True c) c1" by blast
  have keeps: "keeps_conn_cb (conn_cb user kr kw)" using user conn_cb_keeps by (simp add: good_user_def)
  have "conn_HandleEvents alive (conn_cb user kr kw) t c = Inr (flagged False c1)"
    unfolding conn_HandleEvents_eq [OF keeps idle alive] c1(1) by simp
  with c1(2) kept_between_flags [OF idle] show ?thesis by (auto simp: outcome_def flagged_extends)
qed

end
