(* ===== verification/ConnLoop.thy ===== *)
theory ConnLoop
  imports ConnEvents
begin

text \<open>
  The connections of one loop: one poller, and the connections by the number of their channel.
  A round is \<^verbatim>\<open>PollPoller::Poll\<close> and \<^verbatim>\<open>EventLoop::HandleActiveChannels\<close> over them, each connection
  being handled as in \<^verbatim>\<open>ConnEvents\<close>, over the shared poller. Shown: a round fails no
  assertion whatever is ready, keeps every connection in order or ends it, loses no output of
  any of them, and leaves alone the connections that are not reported.
\<close>

record conn_loop =
  cl_poll :: poll_state
  cl_conns :: "nat \<rightharpoonup> tcp_conn"

type_synonym conn_user = "conn_call \<Rightarrow> tcp_conn \<Rightarrow> tcp_conn res"

definition conn_in :: "poll_state \<Rightarrow> tcp_conn \<Rightarrow> tcp_conn" where
  "conn_in p c = c\<lparr>poll := p\<rparr>"

definition put_conn :: "nat \<Rightarrow> tcp_conn \<Rightarrow> conn_loop \<Rightarrow> conn_loop" where
  "put_conn k c s = s\<lparr>cl_poll := poll c, cl_conns := (cl_conns s)(k \<mapsto> c)\<rparr>"

lemma put_conn_simps [simp]: "cl_poll (put_conn k c s) = poll c" "cl_conns (put_conn k c s) = (cl_conns s)(k \<mapsto> c)"
  by (simp_all add: put_conn_def)

text \<open>\<open>kr k\<close> and \<open>kw k\<close> are the answers of the kernel for the descriptor of channel \<open>k\<close>.\<close>

definition handle_conn :: "(nat \<Rightarrow> bool) \<Rightarrow> conn_user \<Rightarrow> (nat \<Rightarrow> tcp_conn \<Rightarrow> readv_result) \<Rightarrow>
    (nat \<Rightarrow> tcp_conn \<Rightarrow> write_result) \<Rightarrow> int \<Rightarrow> nat \<Rightarrow> conn_loop \<Rightarrow> conn_loop res" where
  "handle_conn alive user kr kw t k s = (case cl_conns s k of
       None \<Rightarrow> Inl UseAfterFree
     | Some c \<Rightarrow> mapR (\<lambda>c'. put_conn k c' s)
         (conn_HandleEvents alive (conn_cb user (kr k) (kw k)) t (conn_in (cl_poll s) c)))"

fun handle_conns :: "(nat \<Rightarrow> bool) \<Rightarrow> conn_user \<Rightarrow> (nat \<Rightarrow> tcp_conn \<Rightarrow> readv_result) \<Rightarrow>
    (nat \<Rightarrow> tcp_conn \<Rightarrow> write_result) \<Rightarrow> int \<Rightarrow> nat list \<Rightarrow> conn_loop \<Rightarrow> conn_loop res" where
  "handle_conns alive user kr kw t [] s = Inr s"
| "handle_conns alive user kr kw t (k # ks) s =
     bindR (handle_conn alive user kr kw t k s) (handle_conns alive user kr kw t ks)"

definition conns_round :: "bool \<Rightarrow> (nat \<Rightarrow> bool) \<Rightarrow> conn_user \<Rightarrow> (nat \<Rightarrow> tcp_conn \<Rightarrow> readv_result) \<Rightarrow>
    (nat \<Rightarrow> tcp_conn \<Rightarrow> write_result) \<Rightarrow> int \<times> int \<times> 16 word list \<Rightarrow> conn_loop \<Rightarrow> conn_loop res" where
  "conns_round mempool alive user kr kw k s = (case k of (t, numReady, rs) \<Rightarrow>
     bindR (Poll mempool numReady rs (cl_poll s)) (\<lambda>(p, active).
       handle_conns alive user kr kw t active (s\<lparr>cl_poll := p\<rparr>)))"

section \<open>The invariant\<close>

definition conn_fine :: "(nat \<Rightarrow> bool) \<Rightarrow> nat \<Rightarrow> tcp_conn \<Rightarrow> bool" where
  "conn_fine alive k c \<longleftrightarrow> (conn_ok c \<or> conn_down c) \<and> conn_chan c = k \<and> \<not> eventHandling (chan (poll c) k)
     \<and> (\<forall>obj. tie (chan (poll c) k) = Some obj \<longrightarrow> alive obj)"

text \<open>The kernel is asked about a channel. \<open>K\<close> are the channels that belong to others; they are polled all the time.\<close>

definition polled :: "poll_state \<Rightarrow> nat \<Rightarrow> bool" where
  "polled p k \<longleftrightarrow> (\<exists>ev. interest p (ch_fd (chan p k)) = Some (True, ev))"

definition conns_ok :: "(nat \<Rightarrow> bool) \<Rightarrow> nat set \<Rightarrow> conn_loop \<Rightarrow> bool" where
  "conns_ok alive K s \<longleftrightarrow> poller_ok (cl_poll s)
     \<and> (\<forall>fd k. channels (cl_poll s) fd = Some k \<longrightarrow> cl_conns s k \<noteq> None \<or> k \<in> K)
     \<and> (\<forall>k \<in> K. cl_conns s k = None \<and> registered (cl_poll s) k \<and> \<not> eventHandling (chan (cl_poll s) k)
        \<and> polled (cl_poll s) k)
     \<and> (\<forall>k c. cl_conns s k = Some c \<longrightarrow> conn_fine alive k (conn_in (cl_poll s) c))"

lemma conn_in_extends [simp]: "extends (conn_in p c) c' = extends c c'" "extends c (conn_in p c') = extends c c'"
  by (simp_all add: conn_in_def extends_def more_tasks_def)

lemma conn_in_simps [simp]: "poll (conn_in p c) = p" "conn_chan (conn_in p c) = conn_chan c"
  "conn_in q (conn_in p c) = conn_in q c" "conn_in (poll c) c = c" "wire (conn_in p c) = wire c"
  "outputBuffer (conn_in p c) = outputBuffer c" "state (conn_in p c) = state c" "queued (conn_in p c) = queued c"
  "inputBuffer (conn_in p c) = inputBuffer c" "wr_shutdown (conn_in p c) = wr_shutdown c"
  by (simp_all add: conn_in_def)

text \<open>The events of one connection leave another one as it was, up to the index of its channel.\<close>

lemma kept_channel:
  assumes "others_kept d p p'" and "k \<noteq> d"
  shows "ch_fd (chan p' k) = ch_fd (chan p k)" and "ch_events (chan p' k) = ch_events (chan p k)"
    and "eventHandling (chan p' k) = eventHandling (chan p k)" and "tie (chan p' k) = tie (chan p k)"
    and "same_dispatch (chan p k) (chan p' k)"
proof -
  have "(chan p' k)\<lparr>ch_index := 0\<rparr> = (chan p k)\<lparr>ch_index := 0\<rparr>" using assms by (simp add: others_kept_def)
  from arg_cong [OF this, of ch_fd] arg_cong [OF this, of ch_events] arg_cong [OF this, of eventHandling]
    arg_cong [OF this, of tie] arg_cong [OF this, of revents] arg_cong [OF this, of readCb]
    arg_cong [OF this, of writeCb] arg_cong [OF this, of closeCb] arg_cong [OF this, of errorCb]
  show "ch_fd (chan p' k) = ch_fd (chan p k)" "ch_events (chan p' k) = ch_events (chan p k)"
    "eventHandling (chan p' k) = eventHandling (chan p k)" "tie (chan p' k) = tie (chan p k)"
    "same_dispatch (chan p k) (chan p' k)" by (simp_all add: same_dispatch_def)
qed

lemma kept_registered:
  assumes kept: "others_kept d p p'" and kd: "k \<noteq> d" and reg: "registered p d"
  shows "registered p' k \<longleftrightarrow> registered p k"
    and "registered p k \<Longrightarrow> interest p' (ch_fd (chan p k)) = interest p (ch_fd (chan p k))"
proof -
  have here: "channels p (ch_fd (chan p d)) = Some d" "channels p' (ch_fd (chan p d)) \<in> {Some d, None}"
    using reg kept by (auto simp: registered_def others_kept_def)
  have elsewhere: "channels p' fd = channels p fd" "interest p' fd = interest p fd" if "fd \<noteq> ch_fd (chan p d)" for fd
    using kept that by (auto simp: others_kept_def)
  show "registered p' k \<longleftrightarrow> registered p k"
    "registered p k \<Longrightarrow> interest p' (ch_fd (chan p k)) = interest p (ch_fd (chan p k))"
    using here elsewhere [of "ch_fd (chan p k)"] kd
    by (cases "ch_fd (chan p k) = ch_fd (chan p d)"; force simp: registered_def kept_channel(1) [OF kept kd])+
qed

lemma other_conn_fine:
  assumes fine: "conn_fine alive k (conn_in p c)" and kd: "k \<noteq> d" and p': "poller_ok p'"
    and kept: "others_kept d p p'" and reg: "registered p d"
  shows "conn_fine alive k (conn_in p' c)" and "conn_ok (conn_in p c) \<Longrightarrow> conn_ok (conn_in p' c)"
proof -
  note ch = kept_channel [OF kept kd] and r = kept_registered [OF kept kd reg]
  have k: "conn_chan c = k" using fine by (simp add: conn_fine_def)
  show ok: "conn_ok (conn_in p' c)" if "conn_ok (conn_in p c)"
    using that p' r ch k by (simp add: conn_ok_def conn_live_def conn_in_def)
  have down: "conn_down (conn_in p' c)" if "conn_down (conn_in p c)"
    using that p' r ch k by (simp add: conn_down_def)
  show "conn_fine alive k (conn_in p' c)" using fine ok down ch by (auto simp: conn_fine_def)
qed

text \<open>Whatever an operation on one connection does to it, the loop stays in order.\<close>

lemma put_conn_ok:
  assumes ok: "conns_ok alive K s" and c: "cl_conns s k = Some c"
    and out: "conn_ok c' \<or> conn_down c'" "conn_kept (conn_in (cl_poll s) c) c'"
    and "where": "registered (cl_poll s) k \<or> poll c' = cl_poll s"
  shows "conns_ok alive K (put_conn k c' s)"
    and "d \<noteq> k \<Longrightarrow> cl_conns s d = Some e \<Longrightarrow> conn_ok (conn_in (cl_poll s) e) \<Longrightarrow> conn_ok (conn_in (poll c') e)"
    and "d \<noteq> k \<Longrightarrow> same_dispatch (chan (cl_poll s) d) (chan (poll c') d)"
proof -
  let ?p = "cl_poll s" and ?s' = "put_conn k c' s"
  have fine: "conn_fine alive k (conn_in ?p c)" using ok c(1) by (simp add: conns_ok_def)
  then have k: "conn_chan c = k" by (simp add: conn_fine_def)
  have p': "poller_ok (poll c')" using out(1) by (auto simp: conn_ok_def conn_down_def)
  have ck: "conn_chan c' = k" and kept: "others_kept k ?p (poll c')"
    using out(2) k by (simp_all add: conn_kept_def)
  have fine': "conn_fine alive k c'"
    using fine out ck kept by (auto simp: conn_fine_def others_kept_def)
  have other: "conn_fine alive d (conn_in (poll c') e)" "conn_ok (conn_in ?p e) \<Longrightarrow> conn_ok (conn_in (poll c') e)"
    if "d \<noteq> k" "cl_conns s d = Some e" for d e
  proof -
    have "conn_fine alive d (conn_in ?p e)" using ok that(2) by (simp add: conns_ok_def)
    with other_conn_fine [OF this that(1) p' kept] "where"
    show "conn_fine alive d (conn_in (poll c') e)" "conn_ok (conn_in ?p e) \<Longrightarrow> conn_ok (conn_in (poll c') e)"
      by auto
  qed
  show "d \<noteq> k \<Longrightarrow> cl_conns s d = Some e \<Longrightarrow> conn_ok (conn_in ?p e) \<Longrightarrow> conn_ok (conn_in (poll c') e)"
    by (rule other(2))
  show "d \<noteq> k \<Longrightarrow> same_dispatch (chan ?p d) (chan (poll c') d)" by (rule kept_channel(5) [OF kept])
  have K: "cl_conns s d = None" "registered ?p d" "\<not> eventHandling (chan ?p d)" "polled ?p d" if "d \<in> K" for d
    using ok that by (auto simp: conns_ok_def)
  show "conns_ok alive K ?s'"
    unfolding conns_ok_def
  proof (intro conjI allI impI ballI)
    show "poller_ok (cl_poll ?s')" using p' by simp
    fix fd d assume d: "channels (cl_poll ?s') fd = Some d"
    show "cl_conns ?s' d \<noteq> None \<or> d \<in> K"
    proof (cases "d = k")
      case False
      have "channels ?p fd = Some d"
        using d kept by (cases "fd = ch_fd (chan ?p k)") (auto simp: others_kept_def)
      with ok False show ?thesis by (simp add: conns_ok_def)
    qed simp
  next
    fix d assume d: "d \<in> K"
    then have dk: "d \<noteq> k" using K(1) c by auto
    with K(1) [OF d] show "cl_conns ?s' d = None" by simp
    show "registered (cl_poll ?s') d"
      using kept_registered(1) [OF kept dk] K(2) [OF d] "where" by auto
    show "\<not> eventHandling (chan (cl_poll ?s') d)" using kept_channel(3) [OF kept dk] K(3) [OF d] by simp
    show "polled (cl_poll ?s') d"
      using kept_channel(1) [OF kept dk] kept_registered(2) [OF kept dk _ K(2) [OF d]] K(4) [OF d] "where"
      by (auto simp: polled_def)
  next
    fix d e assume "cl_conns ?s' d = Some e"
    then show "conn_fine alive d (conn_in (cl_poll ?s') e)"
      using fine' other(1) by (cases "d = k") auto
  qed
qed

text \<open>One connection of the loop.\<close>

lemma handle_conn_ok:
  assumes ok: "conns_ok alive K s" and c: "cl_conns s k = Some c" "conn_ok (conn_in (cl_poll s) c)"
    and ev: "linux_events (revents (chan (cl_poll s) k))" and user: "good_user user" and kernel: "good_kernel (kr k) (kw k)"
  shows "\<exists>c'. conn_HandleEvents alive (conn_cb user (kr k) (kw k)) t (conn_in (cl_poll s) c) = Inr c'
    \<and> handle_conn alive user kr kw t k s = Inr (put_conn k c' s)
    \<and> outcome (conn_in (cl_poll s) c) c' \<and> extends c c' \<and> conns_ok alive K (put_conn k c' s)
    \<and> (\<forall>d e. d \<noteq> k \<and> cl_conns s d = Some e \<longrightarrow> revents (chan (poll c') d) = revents (chan (cl_poll s) d)
         \<and> (conn_ok (conn_in (cl_poll s) e) \<longrightarrow> conn_ok (conn_in (poll c') e)))"
proof -
  let ?c = "conn_in (cl_poll s) c"
  have fine: "conn_fine alive k ?c" using ok c(1) by (simp add: conns_ok_def)
  then have k: "conn_chan c = k" by (simp add: conn_fine_def)
  have reg: "registered (cl_poll s) k" using c(2) k by (simp add: conn_ok_def)
  from conn_events_ok [OF c(2) _ _ user kernel, of alive t] fine ev k obtain c' where
    c': "conn_HandleEvents alive (conn_cb user (kr k) (kw k)) t ?c = Inr c'" "outcome ?c c'"
    by (auto simp: conn_fine_def)
  have out: "conn_ok c' \<or> conn_down c'" "conn_kept ?c c'" using c'(2) by (simp_all add: outcome_def)
  note put = put_conn_ok [OF ok c(1) out disjI1 [OF reg]]
  have "\<forall>d e. d \<noteq> k \<and> cl_conns s d = Some e \<longrightarrow> revents (chan (poll c') d) = revents (chan (cl_poll s) d)
      \<and> (conn_ok (conn_in (cl_poll s) e) \<longrightarrow> conn_ok (conn_in (poll c') e))"
    using put(2,3) unfolding same_dispatch_def by blast
  moreover have "extends c c'" using c'(2) by (simp add: outcome_def)
  moreover have "handle_conn alive user kr kw t k s = Inr (put_conn k c' s)" using c c'(1) by (simp add: handle_conn_def)
  ultimately show ?thesis using c' put(1) by blast
qed

lemma handle_conns_ok:
  assumes user: "good_user user" and kernel: "\<And>k. good_kernel (kr k) (kw k)"
  shows "conns_ok alive K s \<Longrightarrow> distinct ks \<Longrightarrow>
    \<forall>k \<in> set ks. linux_events (revents (chan (cl_poll s) k)) \<and> (\<exists>c. cl_conns s k = Some c \<and> conn_ok (conn_in (cl_poll s) c)) \<Longrightarrow>
    \<exists>s'. handle_conns alive user kr kw t ks s = Inr s' \<and> conns_ok alive K s'
      \<and> (\<forall>k c. cl_conns s k = Some c \<longrightarrow> (if k \<in> set ks then \<exists>c'. cl_conns s' k = Some c' \<and> extends c c' else cl_conns s' k = Some c))"
proof (induction ks arbitrary: s)
  case (Cons k ks)
  then obtain c where c: "cl_conns s k = Some c" "conn_ok (conn_in (cl_poll s) c)"
    "linux_events (revents (chan (cl_poll s) k))" by auto
  from handle_conn_ok [where kr = kr and kw = kw and t = t, OF Cons.prems(1) c user kernel] obtain c' where
    c': "handle_conn alive user kr kw t k s = Inr (put_conn k c' s)"
      "conns_ok alive K (put_conn k c' s)" "extends c c'"
      "\<forall>d e. d \<noteq> k \<and> cl_conns s d = Some e \<longrightarrow> revents (chan (poll c') d) = revents (chan (cl_poll s) d)
         \<and> (conn_ok (conn_in (cl_poll s) e) \<longrightarrow> conn_ok (conn_in (poll c') e))" by blast
  let ?s1 = "put_conn k c' s"
  have "\<forall>d \<in> set ks. linux_events (revents (chan (cl_poll ?s1) d))
      \<and> (\<exists>e. cl_conns ?s1 d = Some e \<and> conn_ok (conn_in (cl_poll ?s1) e))"
  proof
    fix d assume d: "d \<in> set ks"
    then have "d \<noteq> k" using Cons.prems(2) by auto
    moreover from Cons.prems(3) d obtain e where "cl_conns s d = Some e" "conn_ok (conn_in (cl_poll s) e)"
      "linux_events (revents (chan (cl_poll s) d))" by auto
    ultimately show "linux_events (revents (chan (cl_poll ?s1) d))
      \<and> (\<exists>e. cl_conns ?s1 d = Some e \<and> conn_ok (conn_in (cl_poll ?s1) e))" using c'(4) by auto
  qed
  with Cons.IH [OF c'(2)] Cons.prems(2) obtain s' where
    s': "handle_conns alive user kr kw t ks ?s1 = Inr s'" "conns_ok alive K s'"
      "\<forall>d e. cl_conns ?s1 d = Some e \<longrightarrow> (if d \<in> set ks then \<exists>e'. cl_conns s' d = Some e' \<and> extends e e' else cl_conns s' d = Some e)"
    by auto
  have "if d \<in> set (k # ks) then \<exists>e'. cl_conns s' d = Some e' \<and> extends e e' else cl_conns s' d = Some e"
    if "cl_conns s d = Some e" for d e
  proof (cases "d = k")
    case True
    with that c(1) have "e = c" by simp
    moreover have "cl_conns ?s1 k = Some c'" by simp
    with s'(3) Cons.prems(2) have "cl_conns s' k = Some c'" by fastforce
    ultimately show ?thesis using True c'(3) by simp
  next
    case False
    with that have "cl_conns ?s1 d = Some e" by simp
    with s'(3) False show ?thesis by simp
  qed
  with c'(1) s'(1,2) show ?case by (intro exI [of _ s']) simp
qed simp

section \<open>Rounds\<close>

fun conns_loop :: "bool \<Rightarrow> (nat \<Rightarrow> bool) \<Rightarrow> conn_user \<Rightarrow> (nat \<Rightarrow> tcp_conn \<Rightarrow> readv_result) \<Rightarrow>
    (nat \<Rightarrow> tcp_conn \<Rightarrow> write_result) \<Rightarrow> (int \<times> int \<times> 16 word list) list \<Rightarrow> conn_loop \<Rightarrow> conn_loop res" where
  "conns_loop mempool alive user kr kw [] s = Inr s"
| "conns_loop mempool alive user kr kw (k # ks) s =
     bindR (conns_round mempool alive user kr kw k s) (conns_loop mempool alive user kr kw ks)"

text \<open>Every answer of \<^verbatim>\<open>poll(2)\<close> keeps the promises of its manual, for the array it is asked with.\<close>

fun polled_well :: "bool \<Rightarrow> (nat \<Rightarrow> bool) \<Rightarrow> conn_user \<Rightarrow> (nat \<Rightarrow> tcp_conn \<Rightarrow> readv_result) \<Rightarrow>
    (nat \<Rightarrow> tcp_conn \<Rightarrow> write_result) \<Rightarrow> (int \<times> int \<times> 16 word list) list \<Rightarrow> conn_loop \<Rightarrow> bool" where
  "polled_well mempool alive user kr kw [] s = True"
| "polled_well mempool alive user kr kw ((t, n, rs) # ks) s =
     (poll_contract (pollfds (cl_poll s)) n rs \<and> (\<forall>r \<in> set rs. linux_events (word_of_int (sint r)))
      \<and> (case conns_round mempool alive user kr kw (t, n, rs) s of
           Inl e \<Rightarrow> True | Inr s' \<Rightarrow> polled_well mempool alive user kr kw ks s'))"

text \<open>A connection of which an event is reported is up: the entry of one that is over is ignored.\<close>

lemma reported_conn_ok:
  assumes ok: "conns_ok alive K s" and kernel: "poll_contract (pollfds (cl_poll s)) n rs"
    and i: "i < length (pollfds (cl_poll s))" "rs ! i \<noteq> 0" and k: "channel_at (cl_poll s) i \<notin> K"
  shows "\<exists>c. cl_conns s (channel_at (cl_poll s) i) = Some c \<and> conn_ok (conn_in (cl_poll s) c)"
proof -
  let ?p = "cl_poll s" and ?k = "channel_at (cl_poll s) i"
  have p: "poller_ok ?p" using ok by (simp add: conns_ok_def)
  note at = channel_at_registered [OF p i(1)]
  from at(1) have reg: "channels ?p (ch_fd (chan ?p ?k)) = Some ?k" by (simp add: registered_def)
  with ok k obtain c where c: "cl_conns s ?k = Some c" unfolding conns_ok_def by blast
  with ok have fine: "conn_fine alive ?k (conn_in ?p c)" by (simp add: conns_ok_def)
  have "0 \<le> pfd_fd (pollfds ?p ! i)" using kernel i by (simp add: poll_contract_def)
  then have "interest ?p (ch_fd (chan ?p ?k)) = Some (True, pfd_events (pollfds ?p ! i))"
    using reg at(2) by (simp add: interest_def)
  with fine at(1) have "conn_ok (conn_in ?p c)" by (auto simp: conn_fine_def conn_down_def)
  with c show ?thesis by blast
qed

text \<open>Noting the reported events in the channels changes nothing for the connections.\<close>

lemma polled_conn:
  assumes p': "poller_ok p'" and r: "Poll mempool n rs p = Inr (p', active)" and i: "interest p' = interest p"
  shows "conn_ok (conn_in p c) \<Longrightarrow> conn_ok (conn_in p' c)"
    and "conn_fine alive k (conn_in p c) \<Longrightarrow> conn_fine alive k (conn_in p' c)"
    and "conns_ok alive K s \<Longrightarrow> cl_poll s = p \<Longrightarrow> conns_ok alive K (s\<lparr>cl_poll := p'\<rparr>)"
proof -
  have "chan p' d = (chan p d)\<lparr>revents := revents (chan p' d)\<rparr>" for d by (rule Poll_chan [OF r])
  from arg_cong [OF this, of ch_fd] arg_cong [OF this, of ch_events] arg_cong [OF this, of eventHandling]
    arg_cong [OF this, of tie]
  have ch: "ch_fd (chan p' d) = ch_fd (chan p d)" "ch_events (chan p' d) = ch_events (chan p d)"
    "eventHandling (chan p' d) = eventHandling (chan p d)" "tie (chan p' d) = tie (chan p d)" for d by simp_all
  have reg: "registered p' d = registered p d" for d by (simp add: registered_def ch Poll_channels [OF r])
  show ok: "conn_ok (conn_in p' c)" if "conn_ok (conn_in p c)" for c
    using that p' by (simp add: conn_ok_def conn_live_def conn_in_def ch reg i)
  have down: "conn_down (conn_in p' c)" if "conn_down (conn_in p c)" for c
    using that p' by (simp add: conn_down_def ch reg i)
  show "conn_fine alive k (conn_in p' c)" if "conn_fine alive k (conn_in p c)"
    using that ok down by (auto simp: conn_fine_def ch)
  then have fine: "conn_fine alive k (conn_in p' c)" if "conn_fine alive k (conn_in p c)" for k c
    using that ok down by (auto simp: conn_fine_def ch)
  show "conns_ok alive K (s\<lparr>cl_poll := p'\<rparr>)" if "conns_ok alive K s" "cl_poll s = p"
    unfolding conns_ok_def
  proof (intro conjI allI ballI impI)
    show "poller_ok (cl_poll (s\<lparr>cl_poll := p'\<rparr>))" using p' by simp
    show "cl_conns (s\<lparr>cl_poll := p'\<rparr>) k \<noteq> None \<or> k \<in> K" if "channels (cl_poll (s\<lparr>cl_poll := p'\<rparr>)) fd = Some k" for fd k
      using \<open>conns_ok alive K s\<close> \<open>cl_poll s = p\<close> that Poll_channels [OF r] by (simp add: conns_ok_def)
    fix k assume "k \<in> K"
    then show "cl_conns (s\<lparr>cl_poll := p'\<rparr>) k = None" "registered (cl_poll (s\<lparr>cl_poll := p'\<rparr>)) k"
      "\<not> eventHandling (chan (cl_poll (s\<lparr>cl_poll := p'\<rparr>)) k)" "polled (cl_poll (s\<lparr>cl_poll := p'\<rparr>)) k"
      using \<open>conns_ok alive K s\<close> \<open>cl_poll s = p\<close> by (simp_all add: conns_ok_def polled_def reg ch i)
  next
    show "conn_fine alive k (conn_in (cl_poll (s\<lparr>cl_poll := p'\<rparr>)) c)" if "cl_conns (s\<lparr>cl_poll := p'\<rparr>) k = Some c" for k c
      using \<open>conns_ok alive K s\<close> \<open>cl_poll s = p\<close> that fine by (simp add: conns_ok_def)
  qed
qed

lemma conns_round_ok:
  assumes ok: "conns_ok alive {} s" and user: "good_user user" and io: "\<And>k. good_kernel (kr k) (kw k)"
    and kernel: "poll_contract (pollfds (cl_poll s)) n rs" and ev: "\<forall>r \<in> set rs. linux_events (word_of_int (sint r))"
  shows "\<exists>s'. conns_round mempool alive user kr kw (t, n, rs) s = Inr s' \<and> conns_ok alive {} s'
    \<and> (\<forall>k c. cl_conns s k = Some c \<longrightarrow> (if k \<in> set (reported mempool (cl_poll s) rs)
         then \<exists>c'. cl_conns s' k = Some c' \<and> extends c c' else cl_conns s' k = Some c))"
proof -
  let ?p = "cl_poll s" and ?ks = "reported mempool (cl_poll s) rs"
  have p: "poller_ok ?p" using ok by (simp add: conns_ok_def)
  from Poll_ready [OF p kernel, of mempool] obtain p' active where
    r: "Poll mempool n rs ?p = Inr (p', active)" "poller_ok p'" "interest p' = interest ?p" "distinct active"
      "(if mempool then rev active else active) = map (channel_at ?p) (filter (\<lambda>i. rs ! i \<noteq> 0) [0..<length (pollfds ?p)])"
    and rev: "\<forall>i < length (pollfds ?p). rs ! i \<noteq> 0 \<longrightarrow> revents (chan p' (channel_at ?p i)) = word_of_int (sint (rs ! i))" by blast
  have act: "active = ?ks" unfolding reported_def Let_def r(5) [symmetric] by simp
  let ?s = "s\<lparr>cl_poll := p'\<rparr>"
  have len: "length rs = length (pollfds ?p)" using kernel by (simp add: poll_contract_def)
  have ok': "conns_ok alive {} ?s"
    by (rule polled_conn(3) [OF r(2,1,3) ok]) simp
  have ready: "\<forall>k \<in> set active. linux_events (revents (chan (cl_poll ?s) k))
      \<and> (\<exists>c. cl_conns ?s k = Some c \<and> conn_ok (conn_in (cl_poll ?s) c))"
  proof
    fix k assume "k \<in> set active"
    then obtain i where i: "i < length (pollfds ?p)" "rs ! i \<noteq> 0" "k = channel_at ?p i"
      unfolding act by (auto simp: reported_def Let_def split: if_splits)
    moreover have "rs ! i \<in> set rs" using i(1) len by simp
    ultimately have "linux_events (revents (chan p' k))" using rev ev by simp
    with reported_conn_ok [OF ok kernel i(1,2)] polled_conn(1) [OF r(2,1,3)] i(3)
    show "linux_events (revents (chan (cl_poll ?s) k)) \<and> (\<exists>c. cl_conns ?s k = Some c \<and> conn_ok (conn_in (cl_poll ?s) c))"
      by auto
  qed
  from handle_conns_ok [where kr = kr and kw = kw and t = t, OF user io ok' r(4) ready] r(1) act show ?thesis by (simp add: conns_round_def)
qed

lemma conns_loop_ok:
  assumes user: "good_user user" and io: "\<And>k. good_kernel (kr k) (kw k)"
  shows "conns_ok alive {} s \<Longrightarrow> polled_well mempool alive user kr kw ks s \<Longrightarrow>
    \<exists>s'. conns_loop mempool alive user kr kw ks s = Inr s' \<and> conns_ok alive {} s'
      \<and> (\<forall>k c. cl_conns s k = Some c \<longrightarrow> (\<exists>c'. cl_conns s' k = Some c' \<and> extends c c'))"
proof (induction ks arbitrary: s)
  case Nil
  then show ?case by simp
next
  case (Cons q ks)
  obtain t n rs where q: "q = (t, n, rs)" by (cases q)
  from Cons.prems(2) have k: "poll_contract (pollfds (cl_poll s)) n rs" "\<forall>r \<in> set rs. linux_events (word_of_int (sint r))"
    unfolding q by simp_all
  from conns_round_ok [where kr = kr and kw = kw and mempool = mempool and t = t, OF Cons.prems(1) user io k] obtain s1 where
    s1: "conns_round mempool alive user kr kw (t, n, rs) s = Inr s1" "conns_ok alive {} s1"
      "\<forall>k c. cl_conns s k = Some c \<longrightarrow> (if k \<in> set (reported mempool (cl_poll s) rs)
         then \<exists>c'. cl_conns s1 k = Some c' \<and> extends c c' else cl_conns s1 k = Some c)" by blast
  have "polled_well mempool alive user kr kw ks s1" using Cons.prems(2) s1(1) by (simp add: q)
  from Cons.IH [OF s1(2) this] obtain s' where
    s': "conns_loop mempool alive user kr kw ks s1 = Inr s'" "conns_ok alive {} s'"
      "\<forall>k c. cl_conns s1 k = Some c \<longrightarrow> (\<exists>c'. cl_conns s' k = Some c' \<and> extends c c')" by blast
  have "\<exists>c'. cl_conns s' k = Some c' \<and> extends c c'" if c: "cl_conns s k = Some c" for k c
  proof -
    have "\<exists>c1. cl_conns s1 k = Some c1 \<and> extends c c1" using s1(3) c extends_refl by metis
    with s'(3) extends_trans show ?thesis by metis
  qed
  with s1(1) s'(1,2) show ?case by (auto simp: q)
qed

section \<open>The property\<close>

text \<open>C7. The connections of a loop: from any state in order, with callbacks that keep their
  connection in order (sending, shutting down, taking input) and a kernel that keeps its promises, every
  round of polling and handling succeeds: no assertion fails, every connection is
  in order or over, none of them is lost, and what each has written to the wire and still buffers only
  grows at its end, whatever happens to the others.\<close>

theorem conns_loop_safe:
  assumes "conns_ok alive {} s" and "good_user user" and "\<And>k. good_kernel (kr k) (kw k)"
    and "polled_well mempool alive user kr kw ks s"
  shows "\<exists>s'. conns_loop mempool alive user kr kw ks s = Inr s' \<and> conns_ok alive {} s'
    \<and> (\<forall>k c. cl_conns s k = Some c \<longrightarrow> (\<exists>c'. cl_conns s' k = Some c' \<and> extends c c'))"
  by (rule conns_loop_ok [where kr = kr and kw = kw, OF assms(2,3,1,4)])

text \<open>Two connections of a server that echoes: one receives, the peer of the other has hung up. The kernel takes one byte
  of an answer at a time.\<close>

definition echo_write :: "byte list \<Rightarrow> tcp_conn \<Rightarrow> write_result" where
  "echo_write d c = (if wr_shutdown c then WriteErr EPIPE else Wrote (min 1 (length d)))"

definition echo :: conn_user where
  "echo call c = (case call of MessageCb t \<Rightarrow>
       let d = contents (inputBuffer c); c1 = c\<lparr>inputBuffer := RetrieveAll (inputBuffer c)\<rparr> in
         if length d \<le> room (outputBuffer c) then SendInLoop True (echo_write d c1) d c1 else Inr c1
     | _ \<Rightarrow> Inr c)"

lemma echo_contract: "write_contract (echo_write d c) (length d) c"
  by (simp add: write_contract_def echo_write_def)

lemma echo_good: "good_user echo"
proof -
  have upd: "one_update c c'" if h: "echo k c = Inr c'" for k c c'
  proof (cases k)
    case (MessageCb t)
    let ?d = "contents (inputBuffer c)" and ?c1 = "c\<lparr>inputBuffer := RetrieveAll (inputBuffer c)\<rparr>"
    have "c' = ?c1 \<or> SendInLoop True (echo_write ?d ?c1) ?d ?c1 = Inr c'"
      using h MessageCb by (simp add: echo_def Let_def split: if_splits)
    moreover have "one_update ?c1 ?c1" by (simp add: one_update_def)
    ultimately have "one_update ?c1 c'" using SendInLoop_update by metis
    then show ?thesis by (simp add: one_update_def)
  qed (use h in \<open>simp_all add: echo_def one_update_def\<close>)
  have msg: "\<exists>c'. echo (MessageCb t) c = Inr c' \<and> conn_ok c' \<and> extends c c'" if ok: "conn_ok c" for t c
  proof -
    let ?d = "contents (inputBuffer c)" and ?c1 = "c\<lparr>inputBuffer := RetrieveAll (inputBuffer c)\<rparr>"
    have ok1: "conn_ok ?c1" using ok RetrieveAll_ok by (simp add: conn_ok_def conn_live_def)
    show ?thesis
    proof (cases "length ?d \<le> room (outputBuffer c)")
      case True
      with SendInLoop_ok [OF ok1 echo_contract [of ?d]] obtain c' where
        "SendInLoop True (echo_write ?d ?c1) ?d ?c1 = Inr c'" "conn_ok c'"
        "wire c' @ outdata c' = wire c @ outdata c @ (if dropped (echo_write ?d ?c1) ?c1 then [] else ?d)" by auto
      moreover from SendInLoop_tasks [OF this(1)] have "more_tasks c c'" by (auto simp: more_tasks_def)
      ultimately show ?thesis using True by (auto simp: echo_def extends_def)
    next
      case False
      with ok1 show ?thesis by (simp add: echo_def extends_def more_tasks_def)
    qed
  qed
  have closed: "conn_down c" if "conn_closed c" for c
    using that by (simp add: conn_closed_def conn_down_def IsNoneEvent_def)
  show ?thesis
    unfolding good_user_def keeps_conn_cb_def
  proof (intro conjI allI impI)
    show "keeps_conn c c'" if "echo k c = Inr c'" for k c c' by (rule one_update_keeps [OF upd [OF that]])
    show "\<exists>c'. echo (MessageCb t) c = Inr c' \<and> conn_ok c' \<and> conn_kept c c' \<and> extends c c'" if "conn_ok c" for t c
      using msg [OF that] upd one_update_kept that by blast
    show "\<exists>c'. echo CloseCb c = Inr c' \<and> conn_down c' \<and> conn_kept c c' \<and> extends c c'" if "conn_closed c" for c
      using closed [OF that] by (simp add: echo_def)
  qed
qed

definition two_poll :: poll_state where
  "two_poll = \<lparr>pollfds = [\<lparr>pfd_fd = 7, pfd_events = ucast (wanted_events []), pfd_revents = 0\<rparr>,
       \<lparr>pfd_fd = 8, pfd_events = ucast (wanted_events []), pfd_revents = 0\<rparr>],
     channels = [7 \<mapsto> 0, 8 \<mapsto> 1],
     chan = (\<lambda>k. (new_Channel (7 + int k))\<lparr>ch_index := int k, ch_events := wanted_events [], tie := Some k,
       readCb := Some 0, writeCb := Some 1, closeCb := Some 2, errorCb := Some 3\<rparr>)\<rparr>"

definition two_conns :: conn_loop where
  "two_conns = \<lparr>cl_poll = two_poll, cl_conns = (\<lambda>k. if k < 2
     then Some ((demo_conn Connected [])\<lparr>poll := two_poll, conn_chan := k, conn_self := k\<rparr>) else None)\<rparr>"

definition echo_read :: "nat \<Rightarrow> tcp_conn \<Rightarrow> readv_result" where
  "echo_read k c = (if 100 \<le> iov_capacity (inputBuffer c) \<and> 100 \<le> room (inputBuffer c) then ReadvData [1, 2] else ReadvError 11)"

lemma echo_kernel: "good_kernel (echo_read k) (\<lambda>c. echo_write (outdata c) c)"
  by (auto simp: good_kernel_def echo_contract echo_read_def split: if_splits)

lemma two_conns_ok: "conns_ok (\<lambda>obj. True) {} two_conns"
proof -
  have p: "poller_ok two_poll"
    by (auto simp: poller_ok_def two_poll_def at_index_def real_fd_def new_Channel_def less_Suc_eq split: if_splits)
  have "conn_ok ((demo_conn Connected [])\<lparr>poll := two_poll, conn_chan := k, conn_self := k\<rparr>)" if "k < 2" for k
  proof -
    have k: "k = 0 \<or> k = 1" using that by auto
    have "buf_ok (demo_buffer [])" by (rule demo_buf_ok) simp
    then have "conn_ok ((demo_conn Connected [])\<lparr>poll := two_poll, conn_chan := k, conn_self := k\<rparr>)
        = (registered two_poll k \<and> ch_events (chan two_poll k) = wanted_events []
           \<and> interest two_poll (ch_fd (chan two_poll k)) = Some (True, ucast (wanted_events [])))"
      using p by (simp add: conn_ok_def conn_live_def demo_conn_def)
    with k show ?thesis by (auto simp: registered_def interest_def two_poll_def new_Channel_def)
  qed
  with p show ?thesis
    by (auto simp: conns_ok_def conn_fine_def conn_in_def two_conns_def)
      (auto simp: two_poll_def demo_conn_def new_Channel_def split: if_splits)
qed

theorem conns_loop_safe_witness:
  "\<exists>s'. conns_loop True (\<lambda>obj. True) echo echo_read (\<lambda>k c. echo_write (outdata c) c) [(5, 2, [1, 16])] two_conns = Inr s'
    \<and> conns_ok (\<lambda>obj. True) {} s' \<and> cl_conns s' 0 \<noteq> None"
proof -
  have "poll_contract (pollfds (cl_poll two_conns)) 2 [1, 16]"
  proof -
    have "\<forall>i < 2. [1, 16 :: 16 word] ! i \<noteq> 0 \<longrightarrow>
        0 \<le> pfd_fd (pollfds two_poll ! i) \<and> 0 < sint ([1, 16 :: 16 word] ! i)"
      by (auto simp: less_2_cases_iff two_poll_def)
    moreover have "length (pollfds two_poll) = 2" by (simp add: two_poll_def)
    ultimately show ?thesis by (simp add: poll_contract_def two_conns_def)
  qed
  moreover have "\<forall>r \<in> set [1, 16 :: 16 word]. linux_events (word_of_int (sint r))"
    by (simp add: linux_events_def has_event_def POLLHUP_def POLLIN_def POLLPRI_def POLLRDHUP_def)
  ultimately have "polled_well True (\<lambda>obj. True) echo echo_read (\<lambda>k c. echo_write (outdata c) c) [(5, 2, [1, 16])] two_conns"
    by (simp split: sum.split)
  from conns_loop_safe [OF two_conns_ok echo_good echo_kernel this] obtain s' where
    "conns_loop True (\<lambda>obj. True) echo echo_read (\<lambda>k c. echo_write (outdata c) c) [(5, 2, [1, 16])] two_conns = Inr s'"
    "conns_ok (\<lambda>obj. True) {} s'"
    "\<forall>k c. cl_conns two_conns k = Some c \<longrightarrow> (\<exists>c'. cl_conns s' k = Some c' \<and> extends c c')" by blast
  moreover have "\<exists>c. cl_conns two_conns 0 = Some c" by (simp add: two_conns_def)
  ultimately show ?thesis by auto
qed

end
