(* ===== verification/InetAddr.thy ===== *)
theory InetAddr
  imports Endian
begin

text \<open>
  Addresses and sockets: \<^verbatim>\<open>InetAddr.cpp\<close>, \<^verbatim>\<open>base/SocketOps.cpp\<close> and \<^verbatim>\<open>Socket.cpp\<close>. A socket
  address is one of its two families, port and address as they lie in memory. What a system call
  answers is an argument; so are the conversions of Boost.Endian and the text form of IPv6
  addresses. \<^verbatim>\<open>inet_pton\<close> and \<^verbatim>\<open>inet_ntop\<close> are written out for IPv4. Shown: an IPv4 address read
  from text is printed as that text, with its port; an IPv6 address loses its opening bracket.
\<close>

section \<open>Text of IPv4 addresses\<close>

definition is_digit :: "char \<Rightarrow> bool" where
  "is_digit ch \<longleftrightarrow> 48 \<le> (of_char ch :: nat) \<and> (of_char ch :: nat) < 58"

text \<open>\<^verbatim>\<open>inet_pton(AF_INET, ...)\<close>: four numbers below 256 without leading zeros, separated by dots;
  \<open>acc\<close> is the finished ones, the last one first, \<open>cur\<close> the one being read.\<close>

fun pton4 :: "string \<Rightarrow> nat list \<Rightarrow> nat option \<Rightarrow> nat list option" where
  "pton4 [] acc None = None"
| "pton4 [] acc (Some v) = (if length acc = 3 then Some (rev (v # acc)) else None)"
| "pton4 (ch # s) acc None = (if is_digit ch then pton4 s acc (Some (of_char ch - 48)) else None)"
| "pton4 (ch # s) acc (Some v) =
     (if is_digit ch
      then let n = v * 10 + (of_char ch - 48) in if v = 0 \<or> 255 < n then None else pton4 s acc (Some n)
      else if ch = CHR ''.'' then if length acc = 3 then None else pton4 s (v # acc) None
      else None)"

definition inet_pton4 :: "string \<Rightarrow> byte list option" where
  "inet_pton4 s = map_option (map of_nat) (pton4 s [] None)"

fun dotted :: "nat list \<Rightarrow> string" where
  "dotted [] = []"
| "dotted [v] = to_string v"
| "dotted (v # vs) = to_string v @ CHR ''.'' # dotted vs"

definition inet_ntop4 :: "byte list \<Rightarrow> string" where
  "inet_ntop4 bs = dotted (map unat bs)"

section \<open>Socket addresses\<close>

text \<open>\<open>SockIn port a\<close> is a \<^verbatim>\<open>sockaddr_in\<close>, \<open>SockIn6 port bs\<close> a \<^verbatim>\<open>sockaddr_in6\<close>; ports and the IPv4
  address are the words in memory, in network order.\<close>

datatype sock_addr = SockIn "16 word" "32 word" | SockIn6 "16 word" "byte list"

definition kInaddrAny :: "32 word" where "kInaddrAny = 0"
definition kInaddrLoopback :: "32 word" where "kInaddrLoopback = 0x7F000001"
definition in6addr_any :: "byte list" where "in6addr_any = replicate 16 0"
definition in6addr_loopback :: "byte list" where "in6addr_loopback = replicate 15 0 @ [1]"

definition InetAddr_port :: "(16 word \<Rightarrow> 16 word) \<Rightarrow> (32 word \<Rightarrow> 32 word) \<Rightarrow> 16 word \<Rightarrow> bool \<Rightarrow> bool \<Rightarrow> sock_addr" where
  "InetAddr_port n2b16 n2b32 port loopback_only ipv6 =
     (if ipv6
      then SockIn6 (NativeToBig n2b16 port) (if loopback_only then in6addr_loopback else in6addr_any)
      else SockIn (NativeToBig n2b16 port) (NativeToBig n2b32 (if loopback_only then kInaddrLoopback else kInaddrAny)))"

text \<open>A text that is no address leaves the zeros of \<^verbatim>\<open>memset\<close>.\<close>

definition fromIpPort4 :: "(16 word \<Rightarrow> 16 word) \<Rightarrow> string \<Rightarrow> 16 word \<Rightarrow> 32 word \<Rightarrow> sock_addr" where
  "fromIpPort4 n2b16 ip port a =
     SockIn (NativeToBig n2b16 port) (case inet_pton4 ip of None \<Rightarrow> a | Some bs \<Rightarrow> word_of_le bs)"

definition fromIpPort6 :: "(16 word \<Rightarrow> 16 word) \<Rightarrow> (string \<Rightarrow> byte list option) \<Rightarrow> string \<Rightarrow> 16 word \<Rightarrow> byte list \<Rightarrow> sock_addr" where
  "fromIpPort6 n2b16 pton6 ip port a =
     SockIn6 (NativeToBig n2b16 port) (case pton6 ip of None \<Rightarrow> a | Some bs \<Rightarrow> bs)"

definition InetAddr_ip :: "(16 word \<Rightarrow> 16 word) \<Rightarrow> (string \<Rightarrow> byte list option) \<Rightarrow> string \<Rightarrow> 16 word \<Rightarrow> bool \<Rightarrow> sock_addr" where
  "InetAddr_ip n2b16 pton6 ip port ipv6 =
     (if ipv6 then fromIpPort6 n2b16 pton6 ip port (replicate 16 0) else fromIpPort4 n2b16 ip port 0)"

text \<open>A C string written into a buffer from index \<open>i\<close>; what came before stays.\<close>

definition write_cstr :: "nat \<Rightarrow> string \<Rightarrow> string \<Rightarrow> string" where
  "write_cstr i t buf = take i buf @ t"

definition toIp :: "(byte list \<Rightarrow> string) \<Rightarrow> string \<Rightarrow> nat \<Rightarrow> sock_addr \<Rightarrow> string res" where
  "toIp ntop6 buf n addr = (case addr of
       SockIn port a \<Rightarrow> ensure (16 \<le> n) (Inr (write_cstr 0 (inet_ntop4 (le_bytes 4 a)) buf))
     | SockIn6 port bs \<Rightarrow> ensure (46 \<le> n) (Inr (write_cstr 0 (ntop6 bs) buf)))"

text \<open>\<^verbatim>\<open>snprintf\<close> at the end of the string, cut to the room left.\<close>

definition append_port :: "nat \<Rightarrow> string \<Rightarrow> 16 word \<Rightarrow> string \<Rightarrow> string res" where
  "append_port n sep port buf = ensure (length buf < n)
     (Inr (write_cstr (length buf) (take (n - length buf - 1) (sep @ to_string (unat port))) buf))"

definition toIpPort :: "(16 word \<Rightarrow> 16 word) \<Rightarrow> (byte list \<Rightarrow> string) \<Rightarrow> string \<Rightarrow> nat \<Rightarrow> sock_addr \<Rightarrow> string res" where
  "toIpPort b2n16 ntop6 buf n addr = (case addr of
       SockIn port a \<Rightarrow> bindR (toIp ntop6 buf n addr) (append_port n '':'' (BigToNative b2n16 port))
     | SockIn6 port bs \<Rightarrow> bindR (toIp ntop6 (write_cstr 0 ''['' buf) n addr)
         (append_port n '']:'' (BigToNative b2n16 port)))"

definition GetIp :: "(byte list \<Rightarrow> string) \<Rightarrow> sock_addr \<Rightarrow> string res" where
  "GetIp ntop6 addr = toIp ntop6 [] 64 addr"

definition GetIpPort :: "(16 word \<Rightarrow> 16 word) \<Rightarrow> (byte list \<Rightarrow> string) \<Rightarrow> sock_addr \<Rightarrow> string res" where
  "GetIpPort b2n16 ntop6 addr = toIpPort b2n16 ntop6 [] 64 addr"

section \<open>System calls and sockets\<close>

text \<open>The calls that end the process on an error; the argument is the answer of the kernel.\<close>

definition createNonblockingOrDie :: "int \<Rightarrow> int res" where
  "createNonblockingOrDie sockfd = (if sockfd < 0 then Inl FatalLog else Inr sockfd)"

definition bindOrDie :: "int \<Rightarrow> unit res" where
  "bindOrDie ret = (if ret < 0 then Inl FatalLog else Inr ())"

definition listenOrDie :: "int \<Rightarrow> unit res" where
  "listenOrDie ret = (if ret < 0 then Inl FatalLog else Inr ())"

text \<open>\<^verbatim>\<open>EAGAIN\<close>, \<^verbatim>\<open>EINTR\<close>, \<^verbatim>\<open>ECONNABORTED\<close>, \<^verbatim>\<open>EPROTO\<close>, \<^verbatim>\<open>EPERM\<close>, \<^verbatim>\<open>EMFILE\<close>.\<close>

definition accept_transient :: "int set" where
  "accept_transient = {11, 4, 103, 71, 1, 24}"

definition sockets_accept :: "int \<times> int \<Rightarrow> (int \<times> int) res" where
  "sockets_accept k = (case k of (sockfd, errno) \<Rightarrow>
     if sockfd < 0 \<and> errno \<notin> accept_transient then Inl FatalLog else Inr (sockfd, errno))"

definition getSocketError :: "int \<Rightarrow> int \<Rightarrow> int \<Rightarrow> int" where
  "getSocketError ret optval errno = (if ret < 0 then errno else optval)"

record socket =
  sockfd :: int
  keep_alive :: bool
  reuse_port :: bool
  reuse_addr :: bool
  tcp_no_delay :: bool
  bound_to :: "sock_addr option"
  sock_listening :: bool

definition new_Socket :: "int \<Rightarrow> socket" where
  "new_Socket fd = \<lparr>sockfd = fd, keep_alive = False, reuse_port = False, reuse_addr = False,
     tcp_no_delay = False, bound_to = None, sock_listening = False\<rparr>"

text \<open>An option that cannot be set is reported in the log only.\<close>

definition SetKeepAlive :: "bool \<Rightarrow> int \<Rightarrow> socket \<Rightarrow> socket" where
  "SetKeepAlive on ret s = (if ret < 0 then s else s\<lparr>keep_alive := on\<rparr>)"

definition SetReusePort :: "bool \<Rightarrow> int \<Rightarrow> socket \<Rightarrow> socket" where
  "SetReusePort on ret s = (if ret < 0 then s else s\<lparr>reuse_port := on\<rparr>)"

definition SetReuseAddr :: "bool \<Rightarrow> int \<Rightarrow> socket \<Rightarrow> socket" where
  "SetReuseAddr on ret s = (if ret < 0 then s else s\<lparr>reuse_addr := on\<rparr>)"

definition SetTcpNoDelay :: "bool \<Rightarrow> int \<Rightarrow> socket \<Rightarrow> socket" where
  "SetTcpNoDelay on ret s = (if ret < 0 then s else s\<lparr>tcp_no_delay := on\<rparr>)"

definition BindInetAddr :: "sock_addr \<Rightarrow> int \<Rightarrow> socket \<Rightarrow> socket res" where
  "BindInetAddr addr ret s = mapR (\<lambda>u. s\<lparr>bound_to := Some addr\<rparr>) (bindOrDie ret)"

definition Socket_Listen :: "int \<Rightarrow> socket \<Rightarrow> socket res" where
  "Socket_Listen ret s = mapR (\<lambda>u. s\<lparr>sock_listening := True\<rparr>) (listenOrDie ret)"

text \<open>The address out-parameter is written only for an accepted connection.\<close>

definition Socket_Accept :: "int \<times> int \<Rightarrow> sock_addr \<Rightarrow> sock_addr \<Rightarrow> (int \<times> sock_addr) res" where
  "Socket_Accept k peer addr = bindR (sockets_accept k) (\<lambda>(sock_fd, errno).
     Inr (sock_fd, if 0 \<le> sock_fd then peer else addr))"

text \<open>The listening socket as the constructor of \<^verbatim>\<open>Acceptor\<close> prepares it; \<open>r1\<close>, \<open>r2\<close>, \<open>r3\<close> answer the
  three calls after \<^verbatim>\<open>socket(2)\<close>.\<close>

definition new_listener :: "int \<Rightarrow> sock_addr \<Rightarrow> bool \<Rightarrow> int \<Rightarrow> int \<Rightarrow> int \<Rightarrow> socket res" where
  "new_listener fd addr reuse r1 r2 r3 = bindR (createNonblockingOrDie fd) (\<lambda>f.
     BindInetAddr addr r3 (SetReusePort reuse r2 (SetReuseAddr True r1 (new_Socket f))))"

section \<open>Reading and printing IPv4 addresses\<close>

lemma digit_bound: "is_digit ch \<Longrightarrow> of_char ch - 48 < (10 :: nat)"
  unfolding is_digit_def by linarith

lemma digit_of: "is_digit ch \<Longrightarrow> digit (of_char ch - 48) = ch"
  by (simp add: is_digit_def digit_def)

lemma to_string_digit: "is_digit ch \<Longrightarrow> to_string (of_char ch - 48) = [ch]"
  using digit_bound by (subst to_string.simps) (simp add: digit_of)

lemma to_string_snoc:
  assumes "is_digit ch" and "v \<noteq> 0"
  shows "to_string (v * 10 + (of_char ch - 48)) = to_string v @ [ch]"
proof -
  have d: "of_char ch - 48 < (10 :: nat)" by (rule digit_bound [OF assms(1)])
  have "to_string (v * 10 + (of_char ch - 48)) = to_string ((v * 10 + (of_char ch - 48)) div 10)
      @ [digit ((v * 10 + (of_char ch - 48)) mod 10)]"
    using assms(2) by (subst to_string.simps) auto
  with d show ?thesis using digit_of [OF assms(1)] by simp
qed

definition pton_prefix :: "nat list \<Rightarrow> nat option \<Rightarrow> string" where
  "pton_prefix acc cur = concat (map (\<lambda>v. to_string v @ ''.'') (rev acc)) @ (case cur of None \<Rightarrow> [] | Some v \<Rightarrow> to_string v)"

lemma dotted_snoc: "dotted (xs @ [v]) = concat (map (\<lambda>v. to_string v @ ''.'') xs) @ to_string v"
proof (induction xs)
  case (Cons x xs)
  then show ?case by (cases "xs @ [v]") simp_all
qed simp

text \<open>What has been read is the text of the numbers found: a text that is accepted is canonical.\<close>

lemma pton4_dotted:
  "pton4 s acc cur = Some bs \<Longrightarrow> (\<forall>v \<in> set acc. v < 256) \<Longrightarrow> (\<forall>v. cur = Some v \<longrightarrow> v < 256) \<Longrightarrow>
   pton_prefix acc cur @ s = dotted bs \<and> length bs = 4 \<and> (\<forall>v \<in> set bs. v < 256)"
proof (induction s acc cur rule: pton4.induct)
  case (2 acc v)
  then show ?case by (auto simp: pton_prefix_def dotted_snoc split: if_splits)
next
  case (3 ch s acc)
  then have d: "is_digit ch" "pton4 s acc (Some (of_char ch - 48)) = Some bs" by (auto split: if_splits)
  then have "(of_char ch :: nat) - 48 < 256" using digit_bound [of ch] by simp
  with 3 d have "pton_prefix acc (Some (of_char ch - 48)) @ s = dotted bs \<and> length bs = 4 \<and> (\<forall>v \<in> set bs. v < 256)" by simp
  then show ?case using to_string_digit [OF d(1)] by (simp add: pton_prefix_def)
next
  case (4 ch s acc v)
  show ?case
  proof (cases "is_digit ch")
    case True
    let ?n = "v * 10 + (of_char ch - 48)"
    from True 4(3) have n: "v \<noteq> 0" "?n \<le> 255" "pton4 s acc (Some ?n) = Some bs" by (auto simp: Let_def split: if_splits)
    with 4 True have "pton_prefix acc (Some ?n) @ s = dotted bs \<and> length bs = 4 \<and> (\<forall>v \<in> set bs. v < 256)" by auto
    then show ?thesis using to_string_snoc [OF True n(1)] by (simp add: pton_prefix_def)
  next
    case False
    with 4(3) have d: "ch = CHR ''.''" "length acc \<noteq> 3" "pton4 s (v # acc) None = Some bs" by (auto split: if_splits)
    with 4 False have "pton_prefix (v # acc) None @ s = dotted bs \<and> length bs = 4 \<and> (\<forall>v \<in> set bs. v < 256)" by auto
    then show ?thesis using d(1) by (simp add: pton_prefix_def)
  qed
qed simp

lemma inet_pton4_inverse: "inet_pton4 ip = Some bs \<Longrightarrow> inet_ntop4 bs = ip \<and> length bs = 4"
proof -
  assume "inet_pton4 ip = Some bs"
  then obtain vs where vs: "pton4 ip [] None = Some vs" "bs = map of_nat vs" by (auto simp: inet_pton4_def)
  from pton4_dotted [OF vs(1)] have v: "ip = dotted vs" "length vs = 4" "\<forall>v \<in> set vs. v < 256"
    by (simp_all add: pton_prefix_def)
  have "map unat bs = vs" unfolding vs(2) map_map comp_def
    by (rule map_idI) (use v(3) in \<open>simp add: unat_of_nat\<close>)
  with v vs(2) show ?thesis by (simp add: inet_ntop4_def)
qed

lemma to_string_length3: "n < 1000 \<Longrightarrow> length (to_string n) \<le> 3"
  by (subst to_string.simps, simp, subst to_string.simps, simp, subst to_string.simps, simp)

lemma to_string_length5: "n < 100000 \<Longrightarrow> length (to_string n) \<le> 5"
  using to_string_length3 [of "n div 100"]
  by (subst to_string.simps, simp, subst to_string.simps, simp add: div_mult2_eq [symmetric])

lemma inet_ntop4_length:
  assumes "length bs = 4"
  shows "length (inet_ntop4 bs) \<le> 15"
proof -
  obtain a b c d where bs: "bs = [a, b, c, d]" using assms by (auto simp: length_Suc_conv eval_nat_numeral)
  have "length (to_string (unat (x :: byte))) \<le> 3" for x
    using unsigned_less [where 'a = nat, of x] by (intro to_string_length3) simp
  from this [of a] this [of b] this [of c] this [of d] show ?thesis by (simp add: bs inet_ntop4_def)
qed

lemma append_port_fits:
  "length buf \<le> 45 \<Longrightarrow> length sep \<le> 2 \<Longrightarrow> append_port 64 sep port buf = Inr (buf @ sep @ to_string (unat port))"
  using to_string_length5 [of "unat port"] unsigned_less [where 'a = nat, of port] by (simp add: append_port_def write_cstr_def)

section \<open>Properties\<close>

text \<open>C37. An IPv4 address made from a text that \<^verbatim>\<open>inet_pton\<close> accepts is printed as exactly that
  text, and with a colon and its port in decimal, whatever the byte order conversions do as long as they
  reverse each other.\<close>

theorem inet4_roundtrip:
  assumes "boost_endian 2 n2b b2n" and "inet_pton4 ip = Some bs"
  shows "GetIp ntop6 (InetAddr_ip n2b pton6 ip port False) = Inr ip
    \<and> GetIpPort b2n ntop6 (InetAddr_ip n2b pton6 ip port False) = Inr (ip @ '':'' @ to_string (unat port))"
proof -
  have bs: "inet_ntop4 bs = ip" "length bs = 4" using inet_pton4_inverse [OF assms(2)] by simp_all
  have mem: "le_bytes 4 (word_of_le bs :: 32 word) = bs" by (rule le_bytes_word_of_le) (simp_all add: bs(2))
  have port: "b2n (n2b port) = port" by (rule boost_endian_inverse [OF assms(1)]) simp
  have len: "length ip \<le> 15" using inet_ntop4_length [OF bs(2)] bs(1) by simp
  show ?thesis using len
    by (simp add: GetIp_def GetIpPort_def InetAddr_ip_def fromIpPort4_def assms(2) toIpPort_def toIp_def mem bs(1)
        write_cstr_def NativeToBig_def BigToNative_def port append_port_fits)
qed

theorem inet4_roundtrip_witness:
  "GetIpPort (byteswap 2) (\<lambda>bs. []) (InetAddr_ip (byteswap 2) (\<lambda>s. None) ''192.168.0.7'' 80 False)
     = Inr ''192.168.0.7:80''"
proof -
  have b: "boost_endian 2 (byteswap 2) (byteswap 2 :: 16 word \<Rightarrow> 16 word)" by (rule boost_endian_byteswap) simp
  have i: "inet_pton4 ''192.168.0.7'' = Some [192, 168, 0, 7]" by code_simp
  have "to_string 80 = ''80''" by code_simp
  then show ?thesis using inet4_roundtrip [OF b i, of "\<lambda>bs. []" "\<lambda>s. None" 80] by simp
qed

text \<open>The default address: any interface, or the loopback one.\<close>

lemma default_address:
  assumes "boost_endian 2 n2b b2n" and "boost_endian 4 n2b32 b2n32"
  shows "GetIpPort b2n ntop6 (InetAddr_port n2b n2b32 port loop False)
    = Inr ((if loop then ''127.0.0.1'' else ''0.0.0.0'') @ '':'' @ to_string (unat port))"
proof -
  have port: "b2n (n2b port) = port" by (rule boost_endian_inverse [OF assms(1)]) simp
  have mem: "le_bytes 4 (n2b32 x) = rev (le_bytes 4 x)" for x by (rule boost_endian_bytes [OF assms(2)])
  have t: "inet_ntop4 (rev (le_bytes 4 (if loop then kInaddrLoopback else kInaddrAny)))
      = (if loop then ''127.0.0.1'' else ''0.0.0.0'')"
    by (cases loop; simp only: if_True if_False; code_simp)
  show ?thesis
    by (cases loop) (use t in \<open>simp_all add: GetIpPort_def InetAddr_port_def toIpPort_def toIp_def mem write_cstr_def
        NativeToBig_def BigToNative_def port append_port_fits\<close>)
qed

text \<open>An IPv6 address loses its opening bracket: \<^verbatim>\<open>toIp\<close> writes over it.\<close>

lemma ipv6_bracket_lost:
  assumes "boost_endian 2 n2b b2n" and "pton6 ip = Some bs" and "length (ntop6 bs) \<le> 45"
  shows "GetIpPort b2n ntop6 (InetAddr_ip n2b pton6 ip port True) = Inr (ntop6 bs @ '']:'' @ to_string (unat port))"
proof -
  have port: "b2n (n2b port) = port" by (rule boost_endian_inverse [OF assms(1)]) simp
  show ?thesis using assms(3)
    by (simp add: GetIpPort_def InetAddr_ip_def fromIpPort6_def assms(2) toIpPort_def toIp_def write_cstr_def
        NativeToBig_def BigToNative_def port append_port_fits)
qed

text \<open>A failed accept that does not end the process leaves the address alone.\<close>

lemma Socket_Accept_transient:
  "errno \<in> accept_transient \<Longrightarrow> Socket_Accept (- 1, errno) peer addr = Inr (- 1, addr)"
  by (simp add: Socket_Accept_def sockets_accept_def)

end
