(* ===== verification/LogStream.thy ===== *)
theory LogStream
  imports Prelude
begin

text \<open>
  The fixed-size buffer \<^verbatim>\<open>FixedBuffer\<close> and the formatting stream \<^verbatim>\<open>LogStream\<close> of
  \<^verbatim>\<open>LogStream.h\<close> and \<^verbatim>\<open>LogStream.cpp\<close>. A buffer is its size and the elements between \<^verbatim>\<open>data_\<close> and
  \<^verbatim>\<open>cur_\<close>; it takes a block whole or not at all. Floating-point numbers come as the text the
  standard library makes of them. Shown: what a sequence of blocks leaves in a buffer, and that a stream
  holds the concatenation of its arguments' texts when they fit.
\<close>

section \<open>The buffer\<close>

definition kLargeBuffer :: nat where "kLargeBuffer = 4000 * 1024"
definition kSmallBuffer :: nat where "kSmallBuffer = 4000"

record 'a fixed_buffer =
  fb_size :: nat
  fb_data :: "'a list"

definition new_FixedBuffer :: "nat \<Rightarrow> 'a fixed_buffer" where
  "new_FixedBuffer n = \<lparr>fb_size = n, fb_data = []\<rparr>"

definition copy_FixedBuffer :: "'a fixed_buffer \<Rightarrow> 'a fixed_buffer" where
  "copy_FixedBuffer b = (new_FixedBuffer (fb_size b))\<lparr>fb_data := take (length (fb_data b)) (fb_data b)\<rparr>"

definition GetLength :: "'a fixed_buffer \<Rightarrow> nat" where
  "GetLength b = length (fb_data b)"

definition Avail :: "'a fixed_buffer \<Rightarrow> nat" where
  "Avail b = fb_size b - length (fb_data b)"

definition FixedBuffer_Append :: "'a list \<Rightarrow> 'a fixed_buffer \<Rightarrow> 'a fixed_buffer" where
  "FixedBuffer_Append data b = (if length data < Avail b then b\<lparr>fb_data := fb_data b @ data\<rparr> else b)"

definition FixedBuffer_Reset :: "'a fixed_buffer \<Rightarrow> 'a fixed_buffer" where
  "FixedBuffer_Reset b = b\<lparr>fb_data := []\<rparr>"

definition ToString :: "char fixed_buffer \<Rightarrow> string" where
  "ToString b = take (GetLength b) (fb_data b)"

text \<open>A buffer is never full: the cursor stays inside the array.\<close>

definition fb_ok :: "'a fixed_buffer \<Rightarrow> bool" where
  "fb_ok b \<longleftrightarrow> length (fb_data b) < fb_size b"

lemma fb_ok_new [simp]: "0 < n \<Longrightarrow> fb_ok (new_FixedBuffer n)"
  by (simp add: fb_ok_def new_FixedBuffer_def)

lemma fb_ok_Append [simp]: "fb_ok b \<Longrightarrow> fb_ok (FixedBuffer_Append data b)"
  by (auto simp: fb_ok_def FixedBuffer_Append_def Avail_def)

lemma fb_ok_Reset [simp]: "fb_ok b \<Longrightarrow> fb_ok (FixedBuffer_Reset b)"
  by (simp add: fb_ok_def FixedBuffer_Reset_def)

lemma copy_FixedBuffer_eq [simp]: "copy_FixedBuffer b = b"
  by (simp add: copy_FixedBuffer_def new_FixedBuffer_def)

lemma size_Append [simp]: "fb_size (FixedBuffer_Append data b) = fb_size b"
  by (simp add: FixedBuffer_Append_def)

lemma FixedBuffer_Append_fits:
  "length (fb_data b) + length data < fb_size b \<Longrightarrow>
   FixedBuffer_Append data b = b\<lparr>fb_data := fb_data b @ data\<rparr>"
  by (simp add: FixedBuffer_Append_def Avail_def)

text \<open>A sequence of blocks; the blocks that were taken.\<close>

definition append_all :: "'a list list \<Rightarrow> 'a fixed_buffer \<Rightarrow> 'a fixed_buffer" where
  "append_all ds b = fold FixedBuffer_Append ds b"

fun taken_blocks :: "nat \<Rightarrow> 'a list list \<Rightarrow> 'a list list" where
  "taken_blocks room [] = []"
| "taken_blocks room (d # ds) =
     (if length d < room then d # taken_blocks (room - length d) ds else taken_blocks room ds)"

lemma append_all_simps [simp]:
  "append_all [] b = b"
  "append_all (d # ds) b = append_all ds (FixedBuffer_Append d b)"
  by (simp_all add: append_all_def)

lemma append_all_append: "append_all (ds @ es) b = append_all es (append_all ds b)"
  by (simp add: append_all_def)

lemma size_append_all [simp]: "fb_size (append_all ds b) = fb_size b"
  by (induction ds arbitrary: b) simp_all

lemma fb_ok_append_all [simp]: "fb_ok b \<Longrightarrow> fb_ok (append_all ds b)"
  by (induction ds arbitrary: b) simp_all

lemma append_all_taken: "fb_data (append_all ds b) = fb_data b @ concat (taken_blocks (Avail b) ds)"
proof (induction ds arbitrary: b)
  case (Cons d ds)
  have "Avail (FixedBuffer_Append d b) = (if length d < Avail b then Avail b - length d else Avail b)"
    by (simp add: FixedBuffer_Append_def Avail_def)
  with Cons show ?case by (simp add: FixedBuffer_Append_def)
qed simp

lemma taken_all: "length (concat ds) < room \<Longrightarrow> taken_blocks room ds = ds"
  by (induction ds arbitrary: room) auto

lemma append_all_fits:
  "length (fb_data b) + length (concat ds) < fb_size b \<Longrightarrow> fb_data (append_all ds b) = fb_data b @ concat ds"
  by (simp add: append_all_taken taken_all Avail_def)

section \<open>The stream\<close>

text \<open>What is inserted: a string, a C string or a null pointer, a character, a truth value, an
  integer, a pointer (\<open>0\<close> is null), the text of a floating-point number.\<close>

datatype log_arg = StdString string | CString "string option" | Character char | Boolean bool
  | Integer int | Pointer nat | FloatText string

definition strlen :: "string \<Rightarrow> nat" where
  "strlen s = length (takeWhile (\<lambda>ch. ch \<noteq> CHR 0x00) s)"

definition hex_digit :: "nat \<Rightarrow> char" where
  "hex_digit d = char_of (if d < 10 then 48 + d else 87 + d)"

fun hex_string :: "nat \<Rightarrow> string" where
  "hex_string n = (if n < 16 then [hex_digit n] else hex_string (n div 16) @ [hex_digit (n mod 16)])"

declare hex_string.simps [simp del]

fun arg_text :: "log_arg \<Rightarrow> string" where
  "arg_text (StdString s) = s"
| "arg_text (CString None) = ''(null)''"
| "arg_text (CString (Some s)) = take (strlen s) s"
| "arg_text (Character ch) = [ch]"
| "arg_text (Boolean b) = (if b then ''true'' else ''false'')"
| "arg_text (Integer i) = int_to_string i"
| "arg_text (Pointer p) = (if p = 0 then ''0x0'' else ''0x'' @ hex_string p)"
| "arg_text (FloatText s) = s"

definition new_LogStream :: "char fixed_buffer" where
  "new_LogStream = new_FixedBuffer kSmallBuffer"

definition ResetBuffer :: "char fixed_buffer \<Rightarrow> char fixed_buffer" where
  "ResetBuffer s = FixedBuffer_Reset s"

definition insert_arg :: "log_arg \<Rightarrow> char fixed_buffer \<Rightarrow> char fixed_buffer" where
  "insert_arg a s = FixedBuffer_Append (arg_text a) s"

definition insert_all :: "log_arg list \<Rightarrow> char fixed_buffer \<Rightarrow> char fixed_buffer" where
  "insert_all as s = fold insert_arg as s"

lemma insert_all_eq: "insert_all as s = append_all (map arg_text as) s"
  by (induction as arbitrary: s) (simp_all add: insert_all_def insert_arg_def)

lemma insert_all_append: "insert_all (as @ bs) s = insert_all bs (insert_all as s)"
  by (simp add: insert_all_def)

definition text_of :: "log_arg list \<Rightarrow> string" where
  "text_of as = concat (map arg_text as)"

lemma insert_all_fits:
  "length (text_of as) < kSmallBuffer \<Longrightarrow> fb_data (insert_all as new_LogStream) = text_of as"
  by (simp add: insert_all_eq new_LogStream_def new_FixedBuffer_def text_of_def append_all_fits)

lemma insert_all_length: "length (fb_data (insert_all as new_LogStream)) < kSmallBuffer"
proof -
  have "fb_ok (insert_all as new_LogStream)" "fb_size (insert_all as new_LogStream) = kSmallBuffer"
    by (simp_all add: insert_all_eq new_LogStream_def kSmallBuffer_def, simp add: new_FixedBuffer_def)
  then show ?thesis by (simp add: fb_ok_def)
qed

end
