(* ===== verification/Logging.thy ===== *)
theory Logging
  imports LogStream
begin

text \<open>
  The log statement: class \<^verbatim>\<open>Logger\<close> and the \<^verbatim>\<open>LOG_\<close> macros of \<^verbatim>\<open>Logging.h\<close> and \<^verbatim>\<open>Logging.cpp\<close>.
  The clock, the thread id, the text of an error number and the text of a date are arguments; the
  output handler is the list of the lines it was given. Shown: which statements write, what a
  line consists of, that a fatal one flushes and ends the process, and that a line that does not fit
  loses whole parts.
\<close>

section \<open>Parts of a line\<close>

datatype log_level = TRACE | DEBUG | INFO | WARNING | ERROR | FATAL

fun level_rank :: "log_level \<Rightarrow> nat" where
  "level_rank TRACE = 0" | "level_rank DEBUG = 1" | "level_rank INFO = 2"
| "level_rank WARNING = 3" | "level_rank ERROR = 4" | "level_rank FATAL = 5"

instantiation log_level :: linorder
begin

definition less_eq_log_level :: "log_level \<Rightarrow> log_level \<Rightarrow> bool" where
  "less_eq_log_level a b \<longleftrightarrow> level_rank a \<le> level_rank b"

definition less_log_level :: "log_level \<Rightarrow> log_level \<Rightarrow> bool" where
  "less_log_level a b \<longleftrightarrow> level_rank a < level_rank b"

instance
proof
  fix a b :: log_level
  show "a \<le> b \<Longrightarrow> b \<le> a \<Longrightarrow> a = b" by (cases a; cases b) (simp_all add: less_eq_log_level_def)
qed (auto simp: less_eq_log_level_def less_log_level_def)

end

fun LevelName :: "log_level \<Rightarrow> string" where
  "LevelName TRACE = ''[TRACE] ''" | "LevelName DEBUG = ''[DEBUG] ''" | "LevelName INFO = ''[INFO ] ''"
| "LevelName WARNING = ''[WARN ] ''" | "LevelName ERROR = ''[ERROR] ''" | "LevelName FATAL = ''[FATAL] ''"

definition escape :: "string \<Rightarrow> string" where
  "escape code = CHR 0x1B # CHR ''['' # code @ ''m''"

fun level_color :: "log_level \<Rightarrow> string" where
  "level_color TRACE = ''1;96''" | "level_color DEBUG = ''1;95''" | "level_color INFO = ''1;34''"
| "level_color WARNING = ''1;93''" | "level_color ERROR = ''1;31''" | "level_color FATAL = ''1;31''"

definition LevelNameWithColor :: "log_level \<Rightarrow> string" where
  "LevelNameWithColor l = escape (level_color l) @ LevelName l @ escape ''0''"

definition FormatLevel :: "bool \<Rightarrow> log_level \<Rightarrow> log_arg list" where
  "FormatLevel toConsole l = [CString (Some (if toConsole then LevelNameWithColor l else LevelName l))]"

text \<open>\<^verbatim>\<open>std::strrchr\<close>: the index of the last occurrence.\<close>

fun strrchr :: "string \<Rightarrow> char \<Rightarrow> nat option" where
  "strrchr [] c = None"
| "strrchr (x # xs) c = (case strrchr xs c of Some i \<Rightarrow> Some (Suc i) | None \<Rightarrow> if x = c then Some 0 else None)"

definition SourceFile :: "string \<Rightarrow> string" where
  "SourceFile arr = (case strrchr arr CHR ''/'' of
       None \<Rightarrow> arr
     | Some boundary \<Rightarrow> take (length arr - (boundary + 1)) (drop (boundary + 1) arr))"

definition pad3 :: "nat \<Rightarrow> string" where
  "pad3 n = replicate (3 - length (to_string n)) CHR ''0'' @ to_string n"

text \<open>\<open>date\<close> is the text of date and time, \<open>ms\<close> the milliseconds since the epoch.\<close>

definition FormatCurTime :: "string \<Rightarrow> nat \<Rightarrow> log_arg list" where
  "FormatCurTime date ms = [StdString (date @ ''.'' @ pad3 (ms mod 1000) @ '' '')]"

definition FormatTid :: "nat \<Rightarrow> log_arg list" where
  "FormatTid tid = [CString (Some ''Tid=''), Integer (int tid), Character CHR '' '']"

definition format_errno :: "(int \<Rightarrow> string) \<Rightarrow> int \<Rightarrow> log_arg list" where
  "format_errno strerror error_num =
     (if error_num \<noteq> 0
      then [CString (Some (strerror error_num)), CString (Some '' (errno=''), Integer error_num, CString (Some '') - '')]
      else [])"

definition Finish :: "string \<Rightarrow> int \<Rightarrow> log_arg list" where
  "Finish file line = [CString (Some '' - ''), StdString (SourceFile file), Character CHR '':'', Integer line,
     Character (CHR 0x0A)]"

section \<open>A log statement\<close>

text \<open>The macros: the level, the name of the function for trace and debug, \<^verbatim>\<open>errno\<close> for the two
  that report a system error.\<close>

datatype log_macro = LOG_TRACE string | LOG_DEBUG string | LOG_INFO | LOG_WARN | LOG_ERROR | LOG_FATAL
  | LOG_SYSERR | LOG_SYSFATAL

fun macro_level :: "log_macro \<Rightarrow> log_level" where
  "macro_level (LOG_TRACE f) = TRACE" | "macro_level (LOG_DEBUG f) = DEBUG" | "macro_level LOG_INFO = INFO"
| "macro_level LOG_WARN = WARNING" | "macro_level LOG_ERROR = ERROR" | "macro_level LOG_FATAL = FATAL"
| "macro_level LOG_SYSERR = ERROR" | "macro_level LOG_SYSFATAL = FATAL"

fun macro_guard :: "log_level \<Rightarrow> log_macro \<Rightarrow> bool" where
  "macro_guard g (LOG_TRACE f) \<longleftrightarrow> g \<le> TRACE"
| "macro_guard g (LOG_DEBUG f) \<longleftrightarrow> g \<le> DEBUG"
| "macro_guard g LOG_INFO \<longleftrightarrow> g \<le> INFO"
| "macro_guard g m \<longleftrightarrow> True"

fun macro_errno :: "int \<Rightarrow> log_macro \<Rightarrow> int" where
  "macro_errno errno LOG_SYSERR = errno"
| "macro_errno errno LOG_SYSFATAL = errno"
| "macro_errno errno m = 0"

fun macro_prefix :: "log_macro \<Rightarrow> log_arg list" where
  "macro_prefix (LOG_TRACE f) = [CString (Some ''{''), CString (Some f), CString (Some ''} '')]"
| "macro_prefix (LOG_DEBUG f) = [CString (Some ''{''), CString (Some f), CString (Some ''} '')]"
| "macro_prefix m = []"

text \<open>Where and when a statement is executed.\<close>

record log_site =
  site_file :: string
  site_line :: int
  site_date :: string
  site_ms :: nat
  site_tid :: nat
  site_errno :: int

record logging =
  g_logLevel :: log_level
  g_toConsole :: bool
  output_lines :: "string list"
  flushes :: nat

definition initLogLevel :: "bool \<Rightarrow> bool \<Rightarrow> log_level" where
  "initLogLevel env_trace env_debug = (if env_trace then TRACE else if env_debug then DEBUG else INFO)"

definition SetOutputHandler :: "bool \<Rightarrow> logging \<Rightarrow> logging" where
  "SetOutputHandler use_escape g = g\<lparr>g_toConsole := use_escape\<rparr>"

text \<open>The constructor of \<^verbatim>\<open>LoggerImpl\<close>, then those of \<^verbatim>\<open>Logger\<close>.\<close>

definition LoggerImpl_args :: "(int \<Rightarrow> string) \<Rightarrow> bool \<Rightarrow> log_level \<Rightarrow> int \<Rightarrow> log_site \<Rightarrow> log_arg list" where
  "LoggerImpl_args strerror toConsole l error_num w =
     FormatLevel toConsole l @ FormatCurTime (site_date w) (site_ms w) @ FormatTid (site_tid w)
     @ format_errno strerror error_num"

definition new_Logger :: "(int \<Rightarrow> string) \<Rightarrow> bool \<Rightarrow> log_macro \<Rightarrow> log_site \<Rightarrow> char fixed_buffer" where
  "new_Logger strerror toConsole m w =
     insert_all (LoggerImpl_args strerror toConsole (macro_level m) (macro_errno (site_errno w) m) w @ macro_prefix m)
       new_LogStream"

text \<open>The destructor writes the line; a fatal one flushes and aborts. The second component says
  that the process is aborted.\<close>

definition Destruct_Logger :: "log_macro \<Rightarrow> log_site \<Rightarrow> char fixed_buffer \<Rightarrow> logging \<Rightarrow> logging \<times> bool" where
  "Destruct_Logger m w s g =
     (let s1 = insert_all (Finish (site_file w) (site_line w)) s;
          g1 = g\<lparr>output_lines := output_lines g @ [take (GetLength s1) (fb_data s1)]\<rparr>
      in if macro_level m = FATAL then (g1\<lparr>flushes := flushes g1 + 1\<rparr>, True) else (g1, False))"

definition log_statement :: "(int \<Rightarrow> string) \<Rightarrow> log_macro \<Rightarrow> log_arg list \<Rightarrow> log_site \<Rightarrow> logging \<Rightarrow> logging \<times> bool" where
  "log_statement strerror m args w g =
     (if macro_guard (g_logLevel g) m
      then Destruct_Logger m w (insert_all args (new_Logger strerror (g_toConsole g) m w)) g
      else (g, False))"

section \<open>What a line consists of\<close>

definition line_args :: "(int \<Rightarrow> string) \<Rightarrow> bool \<Rightarrow> log_macro \<Rightarrow> log_arg list \<Rightarrow> log_site \<Rightarrow> log_arg list" where
  "line_args strerror toConsole m args w =
     LoggerImpl_args strerror toConsole (macro_level m) (macro_errno (site_errno w) m) w @ macro_prefix m
     @ args @ Finish (site_file w) (site_line w)"

lemma macro_guard_level: "macro_guard g m \<longleftrightarrow> g \<le> macro_level m \<or> INFO < macro_level m"
  by (cases m) (simp_all add: less_eq_log_level_def less_log_level_def)

lemma line_of_statement:
  "insert_all (Finish (site_file w) (site_line w)) (insert_all args (new_Logger strerror c m w))
     = insert_all (line_args strerror c m args w) new_LogStream"
  by (simp add: new_Logger_def line_args_def insert_all_append)

lemma strrchr_None: "strrchr s c = None \<longleftrightarrow> c \<notin> set s"
  by (induction s) (auto split: option.splits)

lemma strrchr_Some: "strrchr s c = Some i \<Longrightarrow> i < length s \<and> s ! i = c \<and> c \<notin> set (drop (Suc i) s)"
proof (induction s arbitrary: i)
  case (Cons x s)
  show ?case
  proof (cases "strrchr s c")
    case None
    with Cons.prems show ?thesis using strrchr_None [of s c] by (auto split: if_splits)
  next
    case (Some j)
    with Cons show ?thesis by auto
  qed
qed simp

text \<open>The file is named without its directories.\<close>

lemma SourceFile_base:
  "CHR ''/'' \<notin> set (SourceFile path) \<and> (\<exists>dir. path = dir @ SourceFile path \<and> (dir = [] \<or> last dir = CHR ''/''))"
proof (cases "strrchr path CHR ''/''")
  case None
  then have "CHR ''/'' \<notin> set path" "SourceFile path = path"
    using strrchr_None [of path "CHR ''/''"] by (simp_all add: SourceFile_def)
  then show ?thesis by simp
next
  case (Some i)
  note i = strrchr_Some [OF Some]
  have f: "SourceFile path = drop (Suc i) path" using Some by (simp add: SourceFile_def)
  have "last (take (Suc i) path) = CHR ''/''" using i by (simp add: take_Suc_conv_app_nth)
  moreover have "path = take (Suc i) path @ SourceFile path" using f by simp
  ultimately show ?thesis using i f by metis
qed

lemma pad3_length: "n < 1000 \<Longrightarrow> length (pad3 n) = 3"
proof -
  assume n: "n < 1000"
  have 1: "length (to_string k) = 1" if "k < 10" for k
    using that by (subst to_string.simps) simp
  have 2: "length (to_string k) \<le> 2" if "k < 100" for k
    by (cases "k < 10") (use that 1 in \<open>subst to_string.simps, simp\<close>)+
  have "length (to_string n) \<le> 3"
  proof (cases "n < 10")
    case False
    have "n div 10 < 100" using n by simp
    with False 2 [of "n div 10"] show ?thesis by (subst to_string.simps) simp
  qed (simp add: 1)
  then show ?thesis by (simp add: pad3_def)
qed

lemma line_newline: "last (text_of (line_args strerror c m args w)) = CHR 0x0A"
proof -
  have "\<exists>as. line_args strerror c m args w = as @ [Character (CHR 0x0A)]"
    unfolding line_args_def Finish_def by (metis append_Cons append_Nil append_assoc)
  then show ?thesis by (auto simp: text_of_def)
qed

lemma log_statement_line:
  assumes "macro_guard (g_logLevel g) m"
    and l_def: "l = fb_data (insert_all (line_args strerror (g_toConsole g) m args w) new_LogStream)"
  shows "log_statement strerror m args w g
    = (g\<lparr>output_lines := output_lines g @ [l], flushes := flushes g + (if macro_level m = FATAL then 1 else 0)\<rparr>,
       macro_level m = FATAL)"
proof -
  have "log_statement strerror m args w g
    = (let g1 = g\<lparr>output_lines := output_lines g @ [l]\<rparr>
       in if macro_level m = FATAL then (g1\<lparr>flushes := flushes g1 + 1\<rparr>, True) else (g1, False))"
    using assms(1) unfolding log_statement_def Destruct_Logger_def line_of_statement l_def
    by (simp only: GetLength_def take_all order_refl if_True Let_def)
  then show ?thesis by (cases "macro_level m = FATAL") (simp_all add: Let_def)
qed

definition demo_site :: log_site where
  "demo_site = \<lparr>site_file = ''src/a.cc'', site_line = 7, site_date = ''d'', site_ms = 2005, site_tid = 9, site_errno = 0\<rparr>"

definition demo_logging :: logging where
  "demo_logging = \<lparr>g_logLevel = INFO, g_toConsole = False, output_lines = [], flushes = 0\<rparr>"

section \<open>Properties\<close>

text \<open>C39. A log statement: it writes exactly when its level is at least the global one or above
  INFO; then it gives the output handler exactly one line, which is shorter than the buffer and,
  when all of it fits, is the level, the time, the thread, the error, the inserted arguments, the
  file without its directories and the line number, ended by a newline; and the process is aborted,
  after a flush, exactly when the level is FATAL.\<close>

theorem log_statement_spec:
  "(\<not> (g_logLevel g \<le> macro_level m \<or> INFO < macro_level m) \<longrightarrow> log_statement strerror m args w g = (g, False))
   \<and> (g_logLevel g \<le> macro_level m \<or> INFO < macro_level m \<longrightarrow>
      (\<exists>l. log_statement strerror m args w g
          = (g\<lparr>output_lines := output_lines g @ [l],
              flushes := flushes g + (if macro_level m = FATAL then 1 else 0)\<rparr>, macro_level m = FATAL)
        \<and> length l < kSmallBuffer
        \<and> (length (text_of (line_args strerror (g_toConsole g) m args w)) < kSmallBuffer \<longrightarrow>
            l = text_of (line_args strerror (g_toConsole g) m args w) \<and> last l = CHR 0x0A)))"
proof (intro conjI impI)
  assume "\<not> (g_logLevel g \<le> macro_level m \<or> INFO < macro_level m)"
  then show "log_statement strerror m args w g = (g, False)" by (simp add: log_statement_def macro_guard_level)
next
  assume "g_logLevel g \<le> macro_level m \<or> INFO < macro_level m"
  then have guard: "macro_guard (g_logLevel g) m" by (simp add: macro_guard_level)
  let ?l = "fb_data (insert_all (line_args strerror (g_toConsole g) m args w) new_LogStream)"
  let ?t = "text_of (line_args strerror (g_toConsole g) m args w)"
  have fits: "length ?t < kSmallBuffer \<Longrightarrow> ?l = ?t \<and> last ?l = CHR 0x0A"
    using insert_all_fits line_newline by metis
  show "\<exists>l. log_statement strerror m args w g
          = (g\<lparr>output_lines := output_lines g @ [l],
              flushes := flushes g + (if macro_level m = FATAL then 1 else 0)\<rparr>, macro_level m = FATAL)
        \<and> length l < kSmallBuffer
        \<and> (length ?t < kSmallBuffer \<longrightarrow> l = ?t \<and> last l = CHR 0x0A)"
    by (intro exI [of _ ?l] conjI impI) (use log_statement_line [OF guard refl] insert_all_length fits in blast)+
qed

theorem log_statement_spec_witness:
  "log_statement (\<lambda>e. []) LOG_FATAL [Integer (- 5)] demo_site demo_logging
     = (demo_logging\<lparr>output_lines := [''[FATAL] d.005 Tid=9 -5 - a.cc:7'' @ [CHR 0x0A]], flushes := 1\<rparr>, True)"
proof -
  let ?t = "text_of (line_args (\<lambda>e. []) (g_toConsole demo_logging) LOG_FATAL [Integer (- 5)] demo_site)"
  have t: "?t = ''[FATAL] d.005 Tid=9 -5 - a.cc:7'' @ [CHR 0x0A]" by code_simp
  then have "length ?t < kSmallBuffer" by (simp add: kSmallBuffer_def)
  moreover have "INFO < macro_level LOG_FATAL" "output_lines demo_logging = []" "flushes demo_logging = 0"
    by (simp_all add: less_log_level_def demo_logging_def)
  ultimately show ?thesis
    using log_statement_spec [of demo_logging LOG_FATAL "\<lambda>e. []" "[Integer (- 5)]" demo_site] t by auto
qed

end
