(* ===== verification/ConnObject.thy ===== *)
theory ConnObject
  imports TcpConnection InetAddr Logging
begin

text \<open>
  A connection as its users hold it: \<^verbatim>\<open>TcpConnection\<close> with its name, its addresses, its socket and the
  context object, its accessors, and the two default callbacks of \<^verbatim>\<open>TcpConnection.cpp\<close>; the calls of
  \<^verbatim>\<open>SocketOps.cpp\<close> that only report a failure, and what else the library logs by itself. What a system call
  answers is an argument. Shown: the default message callback consumes the input only when trace lines are
  written; otherwise everything received piles up in the input buffer.
\<close>

section \<open>Socket calls that report a failure\<close>

definition log_line :: "(int \<Rightarrow> string) \<Rightarrow> log_macro \<Rightarrow> log_arg list \<Rightarrow> log_site \<Rightarrow> logging \<Rightarrow> logging" where
  "log_line strerror m args w g = fst (log_statement strerror m args w g)"

definition sockets_close :: "(int \<Rightarrow> string) \<Rightarrow> int \<Rightarrow> log_site \<Rightarrow> logging \<Rightarrow> logging" where
  "sockets_close strerror ret w g =
     (if ret < 0 then log_line strerror LOG_SYSERR [CString (Some ''sockets::close'')] w g else g)"

definition sockets_shutdownWrite :: "(int \<Rightarrow> string) \<Rightarrow> int \<Rightarrow> log_site \<Rightarrow> logging \<Rightarrow> logging" where
  "sockets_shutdownWrite strerror ret w g =
     (if ret < 0 then log_line strerror LOG_SYSERR [CString (Some ''sockets::shutdownWrite'')] w g else g)"

definition Destruct_Socket :: "(int \<Rightarrow> string) \<Rightarrow> int \<Rightarrow> log_site \<Rightarrow> logging \<Rightarrow> logging" where
  "Destruct_Socket strerror ret w g = sockets_close strerror ret w g"

definition Socket_ShutdownWrite :: "(int \<Rightarrow> string) \<Rightarrow> int \<Rightarrow> log_site \<Rightarrow> logging \<Rightarrow> logging" where
  "Socket_ShutdownWrite strerror ret w g = sockets_shutdownWrite strerror ret w g"

text \<open>The kernel writes the address into the local variable, or leaves what the memory held.\<close>

definition getLocalAddr :: "sock_addr \<Rightarrow> sock_addr option \<Rightarrow> sock_addr" where
  "getLocalAddr memory answer = (case answer of Some addr \<Rightarrow> addr | None \<Rightarrow> memory)"

definition getRemoteAddr :: "sock_addr \<Rightarrow> sock_addr option \<Rightarrow> sock_addr" where
  "getRemoteAddr memory answer = (case answer of Some addr \<Rightarrow> addr | None \<Rightarrow> memory)"

section \<open>The object\<close>

record 'a conn_object =
  oc_conn :: tcp_conn
  oc_name :: string
  oc_localAddr :: sock_addr
  oc_remoteAddr :: sock_addr
  oc_socket :: socket
  oc_context :: "'a option"

definition conn_SetKeepAlive :: "bool \<Rightarrow> int \<Rightarrow> 'a conn_object \<Rightarrow> 'a conn_object" where
  "conn_SetKeepAlive on ret c = c\<lparr>oc_socket := SetKeepAlive on ret (oc_socket c)\<rparr>"

definition conn_SetTcpNoDelay :: "bool \<Rightarrow> int \<Rightarrow> 'a conn_object \<Rightarrow> 'a conn_object" where
  "conn_SetTcpNoDelay on ret c = c\<lparr>oc_socket := SetTcpNoDelay on ret (oc_socket c)\<rparr>"

text \<open>\<open>ret\<close> answers the \<^verbatim>\<open>setsockopt\<close> of the constructor.\<close>

definition new_conn_object :: "string \<Rightarrow> int \<Rightarrow> sock_addr \<Rightarrow> sock_addr \<Rightarrow> nat \<Rightarrow> nat \<Rightarrow> int \<Rightarrow> poll_state \<Rightarrow> 'a conn_object" where
  "new_conn_object name fd local_addr remote_addr k self ret p = conn_SetKeepAlive True ret
     \<lparr>oc_conn = new_TcpConnection fd k self p, oc_name = name, oc_localAddr = local_addr,
      oc_remoteAddr = remote_addr, oc_socket = new_Socket fd, oc_context = None\<rparr>"

definition GetName :: "'a conn_object \<Rightarrow> string" where "GetName c = oc_name c"
definition GetLocalAddr :: "'a conn_object \<Rightarrow> sock_addr" where "GetLocalAddr c = oc_localAddr c"
definition GetRemoteAddr :: "'a conn_object \<Rightarrow> sock_addr" where "GetRemoteAddr c = oc_remoteAddr c"
definition GetContext :: "'a conn_object \<Rightarrow> 'a option" where "GetContext c = oc_context c"

definition SetContext :: "'a \<Rightarrow> 'a conn_object \<Rightarrow> 'a conn_object" where
  "SetContext ctx c = c\<lparr>oc_context := Some ctx\<rparr>"

definition IsConnected :: "'a conn_object \<Rightarrow> bool" where
  "IsConnected c \<longleftrightarrow> state (oc_conn c) = Connected"

text \<open>That the two optional callbacks are set is all the model of the connection keeps of them.\<close>

definition SetWriteCompleteCallback :: "bool \<Rightarrow> 'a conn_object \<Rightarrow> 'a conn_object" where
  "SetWriteCompleteCallback cb c = c\<lparr>oc_conn := (oc_conn c)\<lparr>has_writeComplete := cb\<rparr>\<rparr>"

definition SetHighWaterMarkCallback :: "nat \<Rightarrow> bool \<Rightarrow> 'a conn_object \<Rightarrow> 'a conn_object" where
  "SetHighWaterMarkCallback hwm cb c = c\<lparr>oc_conn := (oc_conn c)\<lparr>highWaterMark := hwm, has_highWater := cb\<rparr>\<rparr>"

section \<open>What the library logs\<close>

definition HandleError_line :: "(int \<Rightarrow> string) \<Rightarrow> int \<Rightarrow> log_site \<Rightarrow> 'a conn_object \<Rightarrow> logging \<Rightarrow> logging" where
  "HandleError_line strerror err w c g = log_line strerror LOG_ERROR
     [CString (Some ''TcpConnection::HandleError[''), StdString (oc_name c), CString (Some ''] occurred a error,detail: ''),
      CString (Some (strerror err)), CString (Some ''(''), Integer err, CString (Some '')'')] w g"

text \<open>The arguments of a trace line are evaluated only when it is written.\<close>

definition DefaultConnectionCallback :: "(16 word \<Rightarrow> 16 word) \<Rightarrow> (byte list \<Rightarrow> string) \<Rightarrow> (int \<Rightarrow> string) \<Rightarrow> log_site \<Rightarrow>
    'a conn_object \<Rightarrow> logging \<Rightarrow> logging res" where
  "DefaultConnectionCallback b2n16 ntop6 strerror w c g =
     (let m = LOG_TRACE ''DefaultConnectionCallback'' in
      if macro_guard (g_logLevel g) m
      then bindR (GetIpPort b2n16 ntop6 (GetLocalAddr c)) (\<lambda>here.
           bindR (GetIpPort b2n16 ntop6 (GetRemoteAddr c)) (\<lambda>there.
             Inr (log_line strerror m [StdString here, CString (Some '' -> ''), StdString there, CString (Some '' is ''),
               CString (Some (if IsConnected c then ''UP'' else ''DOWN''))] w g)))
      else Inr g)"

definition DefaultMessageCallback :: "(int \<Rightarrow> string) \<Rightarrow> log_site \<Rightarrow> 'a conn_object \<Rightarrow> buffer \<Rightarrow> logging \<Rightarrow>
    (buffer \<times> logging) res" where
  "DefaultMessageCallback strerror w c buf g =
     (let m = LOG_TRACE ''DefaultMessageCallback'' in
      if macro_guard (g_logLevel g) m
      then mapR (\<lambda>(d, b). (b, log_line strerror m [CString (Some ''connection[''), StdString (GetName c),
               CString (Some ''] received message: ''), StdString (map (\<lambda>x. char_of (unat x)) d)] w g))
             (RetrieveAllAsString buf)
      else Inr (buf, g))"

text \<open>\<^verbatim>\<open>EventLoop::PrintActiveChannels\<close>, and its guard in \<^verbatim>\<open>EventLoop::Loop\<close>.\<close>

definition PrintActiveChannels :: "(int \<Rightarrow> string) \<Rightarrow> log_site \<Rightarrow> channel list \<Rightarrow> logging \<Rightarrow> logging" where
  "PrintActiveChannels strerror w chs g = fold (\<lambda>ch. log_line strerror (LOG_TRACE ''PrintActiveChannels'')
     [CString (Some ''<''), StdString (EventToString (ch_fd ch) (revents ch)), CString (Some ''> '')] w) chs g"

definition trace_active :: "(int \<Rightarrow> string) \<Rightarrow> log_site \<Rightarrow> channel list \<Rightarrow> logging \<Rightarrow> logging" where
  "trace_active strerror w chs g = (if g_logLevel g \<le> TRACE then PrintActiveChannels strerror w chs g else g)"

section \<open>The default message callback\<close>

lemma at_trace: "l \<le> TRACE \<longleftrightarrow> l = TRACE"
  by (cases l) (simp_all add: less_eq_log_level_def)

lemma default_message_silent:
  "g_logLevel g \<noteq> TRACE \<Longrightarrow> DefaultMessageCallback strerror w c buf g = Inr (buf, g)"
  by (simp add: DefaultMessageCallback_def Let_def at_trace)

lemma default_message_traced:
  assumes "g_logLevel g = TRACE" and ok: "buf_ok buf"
  shows "\<exists>b g'. DefaultMessageCallback strerror w c buf g = Inr (b, g') \<and> buf_ok b \<and> contents b = []
    \<and> (\<exists>l. g' = g\<lparr>output_lines := output_lines g @ [l]\<rparr>)"
proof -
  let ?m = "LOG_TRACE ''DefaultMessageCallback''"
  from RetrieveAsString_eq [OF ok, of "ReadableBytes buf"] obtain b where
    b: "RetrieveAllAsString buf = Inr (contents buf, b)" "buf_ok b" "contents b = []"
    using length_contents [OF ok] by (auto simp: RetrieveAllAsString_def)
  have "\<exists>l. log_line strerror ?m args w g = g\<lparr>output_lines := output_lines g @ [l]\<rparr>" for args
    using log_statement_line [of g ?m _ strerror args w] assms(1) by (auto simp: log_line_def at_trace)
  with b assms(1) show ?thesis by (simp add: DefaultMessageCallback_def at_trace)
qed

text \<open>Reads, each followed by the callback.\<close>

fun default_reads :: "(int \<Rightarrow> string) \<Rightarrow> log_site \<Rightarrow> 'a conn_object \<Rightarrow> byte list list \<Rightarrow> buffer \<Rightarrow> logging \<Rightarrow> (buffer \<times> logging) res" where
  "default_reads strerror w c [] buf g = Inr (buf, g)"
| "default_reads strerror w c (d # ds) buf g = bindR (ReadFd (ReadvData d) buf) (\<lambda>(n, e, b).
     bindR (DefaultMessageCallback strerror w c b g) (\<lambda>(b', g'). default_reads strerror w c ds b' g'))"

fun reads_fit :: "byte list list \<Rightarrow> buffer \<Rightarrow> bool" where
  "reads_fit [] buf = True"
| "reads_fit (d # ds) buf = (length d \<le> iov_capacity buf \<and> length d \<le> room buf
     \<and> (case ReadFd (ReadvData d) buf of Inl e \<Rightarrow> True | Inr (n, e, b) \<Rightarrow> reads_fit ds b))"

text \<open>Below the trace level nothing is ever consumed.\<close>

lemma default_reads_pile_up:
  "g_logLevel g \<noteq> TRACE \<Longrightarrow> buf_ok buf \<Longrightarrow> reads_fit ds buf \<Longrightarrow>
   \<exists>b. default_reads strerror w c ds buf g = Inr (b, g) \<and> buf_ok b \<and> contents b = contents buf @ concat ds"
proof (induction ds arbitrary: buf)
  case (Cons d ds)
  from Cons.prems(3) have d: "length d \<le> iov_capacity buf" "length d \<le> room buf" by simp_all
  from ReadFd_ok [OF Cons.prems(2) d] obtain b where
    b: "ReadFd (ReadvData d) buf = Inr (int (length d), None, b)" "buf_ok b" "contents b = contents buf @ d" by blast
  with Cons.prems(3) have "reads_fit ds b" by (simp del: ReadFd.simps)
  from Cons.IH [OF Cons.prems(1) b(2) this] b Cons.prems(1) show ?case
    by (auto simp: default_message_silent simp del: ReadFd.simps)
qed simp

lemma trace_active_silent: "g_logLevel g \<noteq> TRACE \<Longrightarrow> trace_active strerror w chs g = g"
  by (simp add: trace_active_def at_trace)

text \<open>Setting options and callbacks leaves the stream alone, so what \<^verbatim>\<open>TcpConnection\<close> shows holds for the object.\<close>

lemma conn_object_new:
  assumes "poller_ok p" and "0 \<le> fd" and "channels p fd = None" and "\<And>x. channels p x \<noteq> Some k"
  shows "conn_fresh (oc_conn (new_conn_object name fd a b k self ret p))"
    and "keep_alive (oc_socket (new_conn_object name fd a b k self ret p)) = (0 \<le> ret)"
  using new_conn_fresh [OF assms] by (simp_all add: new_conn_object_def conn_SetKeepAlive_def SetKeepAlive_def new_Socket_def)

lemma conn_options_keep:
  "conn_ok (oc_conn (SetWriteCompleteCallback cb c)) = conn_ok (oc_conn c)"
  "conn_ok (oc_conn (SetHighWaterMarkCallback hwm cb c)) = conn_ok (oc_conn c)"
  by (simp_all add: SetWriteCompleteCallback_def SetHighWaterMarkCallback_def conn_ok_def conn_live_def)

end
