(* ===== verification/LogFile.thy ===== *)
theory LogFile
  imports Prelude "HOL-Library.Char_ord" "HOL-Library.List_Lexorder"
begin

text \<open>
  The rolling log file of \<^verbatim>\<open>LogFile.cpp\<close>. Every operation takes the clock of its call in
  seconds; the broken-down local time of a clock reading, which depends on the time zone, is the
  parameter \<open>localtime\<close>. A file is its name and the bytes written since it was opened, \<open>flushed\<close>
  how many of them have been handed to the system, \<open>closed_files\<close> the files rolled away. Files are
  opened with \<^verbatim>\<open>ios::app\<close>, so a name used before extends the older file (\<open>on_disk\<close>), and it matters when names
  repeat (\<open>file_names_increase\<close>, \<open>clock_back_reuses_name\<close>). Writing is taken to succeed. Shown: the
  files together hold exactly what was appended, in order; when a file is rolled and how large it
  gets; a limit of two gigabytes or more never rolls a file. The locale \<open>log_sink\<close> is what the
  asynchronous logger relies on.
\<close>

section \<open>State and operations\<close>

record out_file =
  fileName :: string
  written_bytes :: "byte list"
  flushed :: nat

record log_file =
  basename :: string
  rollSize :: int
  flushInterval :: int
  checkEveryN :: int
  count :: int
  lastRoll :: int
  lastFlush :: int
  latestStartOfPeriod :: int
  cur_file :: "out_file option"
  closed_files :: "out_file list"

definition kPollPerSeconds :: int where "kPollPerSeconds = 60 * 60 * 24"

definition File_Append :: "byte list \<Rightarrow> out_file \<Rightarrow> out_file" where
  "File_Append data f = f\<lparr>written_bytes := written_bytes f @ data\<rparr>"

text \<open>The position is returned as a 32-bit signed integer; it counts from the opening of the file.\<close>

definition File_Written :: "out_file \<Rightarrow> int" where
  "File_Written f = sint (word_of_nat (length (written_bytes f)) :: 32 word)"

definition File_Flush :: "out_file \<Rightarrow> out_file" where
  "File_Flush f = f\<lparr>flushed := length (written_bytes f)\<rparr>"

text \<open>The fields of \<^verbatim>\<open>struct tm\<close> that a file name shows: years count from 1900, months from 0.\<close>

record tm =
  tm_year :: int
  tm_mon :: int
  tm_mday :: int
  tm_hour :: int
  tm_min :: int
  tm_sec :: int

text \<open>\<^verbatim>\<open>strftime\<close> with the format \<^verbatim>\<open>.%Y%m%d-%H%M%S.\<close> of the source, and the name.\<close>

definition two_digits :: "int \<Rightarrow> string" where
  "two_digits i = (if i < 10 then CHR ''0'' # int_to_string i else int_to_string i)"

definition name_parts :: "tm \<Rightarrow> string list" where
  "name_parts t = [''.'', int_to_string (tm_year t + 1900), two_digits (tm_mon t + 1), two_digits (tm_mday t), ''-'',
     two_digits (tm_hour t), two_digits (tm_min t), two_digits (tm_sec t), ''.'']"

definition GetLogFileName :: "(int \<Rightarrow> tm) \<Rightarrow> nat \<Rightarrow> string \<Rightarrow> int \<Rightarrow> string" where
  "GetLogFileName localtime pid base now = base @ concat (name_parts (localtime now)) @ to_string pid @ ''.log''"

definition start_of_period :: "int \<Rightarrow> int" where
  "start_of_period now = now div kPollPerSeconds * kPollPerSeconds"

definition RoolFile :: "(int \<Rightarrow> tm) \<Rightarrow> nat \<Rightarrow> int \<Rightarrow> log_file \<Rightarrow> bool \<times> log_file" where
  "RoolFile localtime pid now s =
     (if lastRoll s < now
      then (True, s\<lparr>lastRoll := now, lastFlush := now, latestStartOfPeriod := start_of_period now,
              closed_files := closed_files s @ (case cur_file s of None \<Rightarrow> [] | Some f \<Rightarrow> [File_Flush f]),
              cur_file := Some \<lparr>fileName = GetLogFileName localtime pid (basename s) now,
                written_bytes = [], flushed = 0\<rparr>\<rparr>)
      else (False, s))"

definition new_LogFile :: "(int \<Rightarrow> tm) \<Rightarrow> nat \<Rightarrow> int \<Rightarrow> string \<Rightarrow> int \<Rightarrow> int \<Rightarrow> int \<Rightarrow> log_file res" where
  "new_LogFile localtime pid now base roll_size flush_interval every =
     ensure (CHR ''/'' \<notin> set base)
       (Inr (snd (RoolFile localtime pid now \<lparr>basename = base, rollSize = roll_size, flushInterval = flush_interval,
          checkEveryN = every, count = 0, lastRoll = 0, lastFlush = 0, latestStartOfPeriod = 0,
          cur_file = None, closed_files = []\<rparr>)))"

definition Flush :: "int \<Rightarrow> log_file \<Rightarrow> log_file res" where
  "Flush now s = (case cur_file s of
       None \<Rightarrow> Inl NullDeref
     | Some f \<Rightarrow> Inr (s\<lparr>cur_file := Some (File_Flush f), lastFlush := now\<rparr>))"

text \<open>The end of a log: its file is flushed and closed.\<close>

definition Destruct_LogFile :: "log_file \<Rightarrow> log_file" where
  "Destruct_LogFile s = s\<lparr>closed_files := closed_files s
     @ (case cur_file s of None \<Rightarrow> [] | Some f \<Rightarrow> [File_Flush f]), cur_file := None\<rparr>"

definition AppendUnlocked :: "(int \<Rightarrow> tm) \<Rightarrow> nat \<Rightarrow> int \<Rightarrow> byte list \<Rightarrow> log_file \<Rightarrow> log_file res" where
  "AppendUnlocked localtime pid now logline s = (case cur_file s of
       None \<Rightarrow> Inl NullDeref
     | Some f0 \<Rightarrow>
         let f = File_Append logline f0; s1 = s\<lparr>cur_file := Some f\<rparr>
         in if rollSize s1 \<le> File_Written f then Inr (snd (RoolFile localtime pid now s1))
            else let s2 = s1\<lparr>count := count s1 + 1\<rparr>
              in if checkEveryN s2 \<le> count s2
                 then let s3 = s2\<lparr>count := 0\<rparr>
                   in if start_of_period now \<noteq> latestStartOfPeriod s3
                      then Inr (snd (RoolFile localtime pid now s3))
                      else if flushInterval s3 < now - lastFlush s3
                      then Inr (s3\<lparr>cur_file := Some (File_Flush f)\<rparr>)
                      else Inr s3
                 else Inr s2)"

text \<open>With or without the mutex; the lock orders the calls and changes nothing else.\<close>

definition LogFile_Append :: "(int \<Rightarrow> tm) \<Rightarrow> nat \<Rightarrow> int \<Rightarrow> byte list \<Rightarrow> log_file \<Rightarrow> log_file res" where
  "LogFile_Append localtime pid now logline s = AppendUnlocked localtime pid now logline s"

section \<open>What a file holds\<close>

definition logged :: "log_file \<Rightarrow> byte list" where
  "logged s = concat (map written_bytes (closed_files s))
     @ (case cur_file s of None \<Rightarrow> [] | Some f \<Rightarrow> written_bytes f)"

text \<open>There is a current file, the files before it are flushed, the counter is below its limit and
  the current period is the one of the last roll.\<close>

definition log_ok :: "log_file \<Rightarrow> bool" where
  "log_ok s \<longleftrightarrow> cur_file s \<noteq> None \<and> (\<forall>f \<in> set (closed_files s). flushed f = length (written_bytes f))
     \<and> 0 \<le> count s \<and> (0 < checkEveryN s \<longrightarrow> count s < checkEveryN s)
     \<and> latestStartOfPeriod s = start_of_period (lastRoll s)"

lemma RoolFile_spec:
  assumes "log_ok s"
  shows "log_ok (snd (RoolFile localtime pid now s))" "logged (snd (RoolFile localtime pid now s)) = logged s"
    "rollSize (snd (RoolFile localtime pid now s)) = rollSize s"
    "lastRoll (snd (RoolFile localtime pid now s)) = max now (lastRoll s)"
  using assms by (auto simp: RoolFile_def log_ok_def logged_def File_Flush_def split: option.splits)

lemma Flush_spec:
  "log_ok s \<Longrightarrow> \<exists>s'. Flush now s = Inr s' \<and> log_ok s' \<and> logged s' = logged s \<and> lastFlush s' = now
     \<and> rollSize s' = rollSize s \<and> (\<forall>f. cur_file s' = Some f \<longrightarrow> flushed f = length (written_bytes f))"
  by (cases "cur_file s") (auto simp: Flush_def log_ok_def logged_def File_Flush_def)

lemma log_ok_cong:
  "log_ok s \<Longrightarrow> cur_file s' \<noteq> None \<Longrightarrow> closed_files s' = closed_files s \<Longrightarrow> 0 \<le> count s' \<Longrightarrow>
   (0 < checkEveryN s \<longrightarrow> count s' < checkEveryN s) \<Longrightarrow> checkEveryN s' = checkEveryN s \<Longrightarrow>
   latestStartOfPeriod s' = latestStartOfPeriod s \<Longrightarrow> lastRoll s' = lastRoll s \<Longrightarrow> log_ok s'"
  by (simp add: log_ok_def)

text \<open>The three ways an append can end.\<close>

lemma AppendUnlocked_cases:
  assumes ok: "log_ok s" and f: "cur_file s = Some f"
  obtains (size) s1 where "rollSize s \<le> File_Written (File_Append d f)"
      "AppendUnlocked localtime pid now d s = Inr (snd (RoolFile localtime pid now s1))" "log_ok s1"
      "logged s1 = logged s @ d" "s1 = s\<lparr>cur_file := Some (File_Append d f)\<rparr>"
    | (period) s1 where "File_Written (File_Append d f) < rollSize s" "start_of_period now \<noteq> latestStartOfPeriod s"
      "AppendUnlocked localtime pid now d s = Inr (snd (RoolFile localtime pid now s1))" "log_ok s1"
      "logged s1 = logged s @ d" "s1 = s\<lparr>cur_file := Some (File_Append d f), count := 0\<rparr>"
    | (stay) s1 g where "File_Written (File_Append d f) < rollSize s"
      "AppendUnlocked localtime pid now d s = Inr s1" "log_ok s1" "logged s1 = logged s @ d" "cur_file s1 = Some g"
      "written_bytes g = written_bytes f @ d" "closed_files s1 = closed_files s" "rollSize s1 = rollSize s"
      "lastRoll s1 = lastRoll s"
proof (cases "rollSize s \<le> File_Written (File_Append d f)")
  case True
  show ?thesis
  proof (rule size [OF True])
    show "AppendUnlocked localtime pid now d s
        = Inr (snd (RoolFile localtime pid now (s\<lparr>cur_file := Some (File_Append d f)\<rparr>)))"
      using f True by (simp add: AppendUnlocked_def Let_def)
    show "log_ok (s\<lparr>cur_file := Some (File_Append d f)\<rparr>)"
      by (rule log_ok_cong [OF ok]) (use ok in \<open>simp_all add: log_ok_def\<close>)
  qed (use f in \<open>simp_all add: logged_def File_Append_def\<close>)
next
  case False
  note small = this
  show ?thesis
  proof (cases "checkEveryN s \<le> count s + 1 \<and> start_of_period now \<noteq> latestStartOfPeriod s")
    case True
    show ?thesis
    proof (rule period)
      show "AppendUnlocked localtime pid now d s
        = Inr (snd (RoolFile localtime pid now (s\<lparr>cur_file := Some (File_Append d f), count := 0\<rparr>)))"
        using f True small by (simp add: AppendUnlocked_def Let_def)
      show "log_ok (s\<lparr>cur_file := Some (File_Append d f), count := 0\<rparr>)"
        by (rule log_ok_cong [OF ok]) simp_all
    qed (use f small True in \<open>simp_all add: logged_def File_Append_def\<close>)
  next
    case False
    define g where "g = (if checkEveryN s \<le> count s + 1 \<and> flushInterval s < now - lastFlush s
      then File_Flush (File_Append d f) else File_Append d f)"
    let ?s1 = "s\<lparr>cur_file := Some g, count := if checkEveryN s \<le> count s + 1 then 0 else count s + 1\<rparr>"
    show ?thesis
    proof (rule stay)
      show "AppendUnlocked localtime pid now d s = Inr ?s1"
        using f False small by (simp add: AppendUnlocked_def Let_def g_def)
      show "log_ok ?s1" by (rule log_ok_cong [OF ok]) (use ok in \<open>simp_all add: log_ok_def\<close>)
    qed (use f small in \<open>auto simp: logged_def g_def File_Append_def File_Flush_def\<close>)
  qed
qed

lemma LogFile_Append_spec:
  assumes ok: "log_ok s"
  shows "\<exists>s'. LogFile_Append localtime pid now d s = Inr s' \<and> log_ok s' \<and> logged s' = logged s @ d"
proof -
  obtain f where f: "cur_file s = Some f" using ok by (auto simp: log_ok_def)
  from ok f show ?thesis
    by (cases rule: AppendUnlocked_cases [where d = d and localtime = localtime and pid = pid and now = now])
      (simp_all add: LogFile_Append_def RoolFile_spec)
qed

section \<open>The contract of a log\<close>

text \<open>A place that takes bytes in order and can be flushed; \<open>'t\<close> is the clock of a call.\<close>

locale log_sink =
  fixes ok :: "'f \<Rightarrow> bool" and stored :: "'f \<Rightarrow> byte list"
    and put :: "'t \<Rightarrow> byte list \<Rightarrow> 'f \<Rightarrow> 'f res" and sync :: "'t \<Rightarrow> 'f \<Rightarrow> 'f res"
  assumes put_law: "ok f \<Longrightarrow> \<exists>f'. put t d f = Inr f' \<and> ok f' \<and> stored f' = stored f @ d"
    and sync_law: "ok f \<Longrightarrow> \<exists>f'. sync t f = Inr f' \<and> ok f' \<and> stored f' = stored f"
begin

text \<open>A batch of blocks, then a flush.\<close>

fun put_all :: "'t \<Rightarrow> byte list list \<Rightarrow> 'f \<Rightarrow> 'f res" where
  "put_all t [] f = Inr f"
| "put_all t (d # ds) f = bindR (put t d f) (put_all t ds)"

lemma put_all_spec: "ok f \<Longrightarrow> \<exists>f'. put_all t ds f = Inr f' \<and> ok f' \<and> stored f' = stored f @ concat ds"
proof (induction ds arbitrary: f)
  case (Cons d ds)
  from put_law [OF Cons.prems, of t d] obtain f1 where
    f1: "put t d f = Inr f1" "ok f1" "stored f1 = stored f @ d" by blast
  from Cons.IH [OF f1(2)] f1 show ?case by auto
qed simp

lemma put_all_sync:
  assumes "ok f"
  shows "\<exists>f'. bindR (put_all t ds f) (sync t) = Inr f' \<and> ok f' \<and> stored f' = stored f @ concat ds"
proof -
  from put_all_spec [OF assms] obtain f1 where
    f1: "put_all t ds f = Inr f1" "ok f1" "stored f1 = stored f @ concat ds" by blast
  from sync_law [OF f1(2), of t] f1 show ?thesis by auto
qed

end

interpretation log_file_sink: log_sink log_ok logged "LogFile_Append localtime pid" Flush for localtime pid
proof
  show "log_ok f \<Longrightarrow> \<exists>f'. LogFile_Append localtime pid t d f = Inr f' \<and> log_ok f' \<and> logged f' = logged f @ d" for f t d
    by (rule LogFile_Append_spec)
  show "log_ok f \<Longrightarrow> \<exists>f'. Flush t f = Inr f' \<and> log_ok f' \<and> logged f' = logged f" for f t
    using Flush_spec by blast
qed

section \<open>Runs\<close>

datatype log_op = LogAppend int "byte list" | LogFlush int | LogRoll int

definition log_step :: "(int \<Rightarrow> tm) \<Rightarrow> nat \<Rightarrow> log_op \<Rightarrow> log_file \<Rightarrow> log_file res" where
  "log_step localtime pid e s = (case e of
       LogAppend now d \<Rightarrow> LogFile_Append localtime pid now d s
     | LogFlush now \<Rightarrow> Flush now s
     | LogRoll now \<Rightarrow> Inr (snd (RoolFile localtime pid now s)))"

fun log_run :: "(int \<Rightarrow> tm) \<Rightarrow> nat \<Rightarrow> log_op list \<Rightarrow> log_file \<Rightarrow> log_file res" where
  "log_run localtime pid [] s = Inr s"
| "log_run localtime pid (e # es) s = bindR (log_step localtime pid e s) (log_run localtime pid es)"

definition log_data :: "log_op \<Rightarrow> byte list" where
  "log_data e = (case e of LogAppend now d \<Rightarrow> d | _ \<Rightarrow> [])"

definition log_time :: "log_op \<Rightarrow> int" where
  "log_time e = (case e of LogAppend now d \<Rightarrow> now | LogFlush now \<Rightarrow> now | LogRoll now \<Rightarrow> now)"

definition log_files :: "log_file \<Rightarrow> out_file list" where
  "log_files s = closed_files s @ (case cur_file s of None \<Rightarrow> [] | Some f \<Rightarrow> [f])"

text \<open>Every file is named after the time of its roll, and those times increase.\<close>

definition names_at :: "(int \<Rightarrow> tm) \<Rightarrow> nat \<Rightarrow> int set \<Rightarrow> log_file \<Rightarrow> int list \<Rightarrow> bool" where
  "names_at localtime pid T s ts \<longleftrightarrow> set ts \<subseteq> T \<and> sorted_wrt (<) ts \<and> (\<forall>t \<in> set ts. t \<le> lastRoll s)
     \<and> map fileName (log_files s) = map (GetLogFileName localtime pid (basename s)) ts"

lemma names_at_Rool:
  assumes "names_at localtime pid T s ts" and "now \<in> T"
  shows "\<exists>ts'. names_at localtime pid T (snd (RoolFile localtime pid now s)) ts'"
proof (cases "lastRoll s < now")
  case True
  have "names_at localtime pid T (snd (RoolFile localtime pid now s)) (ts @ [now])"
    using assms True
    by (auto simp: names_at_def RoolFile_def log_files_def File_Flush_def sorted_wrt_append split: option.splits)
  then show ?thesis ..
qed (use assms in \<open>auto simp: RoolFile_def\<close>)

lemma names_at_cong:
  "names_at localtime pid T s ts \<Longrightarrow> map fileName (log_files s') = map fileName (log_files s) \<Longrightarrow>
   lastRoll s' = lastRoll s \<Longrightarrow> basename s' = basename s \<Longrightarrow> names_at localtime pid T s' ts"
  by (simp add: names_at_def)

lemma names_at_Append:
  assumes n: "names_at localtime pid T s ts" and f: "cur_file s = Some f"
    and app: "AppendUnlocked localtime pid now d s = Inr s'" and now: "now \<in> T"
  shows "\<exists>ts'. names_at localtime pid T s' ts'"
proof -
  have k: "names_at localtime pid T s1 ts" if "cur_file s1 = Some g" "fileName g = fileName f"
    "closed_files s1 = closed_files s" "lastRoll s1 = lastRoll s" "basename s1 = basename s" for s1 g
    by (rule names_at_cong [OF n]) (use that f in \<open>simp_all add: log_files_def\<close>)
  let ?s1 = "s\<lparr>cur_file := Some (File_Append d f)\<rparr>"
  have 1: "\<exists>ts'. names_at localtime pid T (snd (RoolFile localtime pid now ?s1)) ts'"
    "\<exists>ts'. names_at localtime pid T (snd (RoolFile localtime pid now (?s1\<lparr>count := 0\<rparr>))) ts'"
    by (rule names_at_Rool [OF k [where g = "File_Append d f"] now]; simp add: File_Append_def)+
  have 2: "names_at localtime pid T (s\<lparr>cur_file := Some g, count := m\<rparr>) ts" if "fileName g = fileName f" for g m
    by (rule k [where g = g]) (use that in simp_all)
  have 3: "names_at localtime pid T (s\<lparr>count := m, cur_file := Some g\<rparr>) ts" if "fileName g = fileName f" for g m
    by (rule k [where g = g]) (use that in simp_all)
  show ?thesis
    using app f 1 2 [of "File_Append d f"] 3 [of "File_Flush (File_Append d f)"]
    by (auto simp: AppendUnlocked_def Let_def File_Append_def File_Flush_def split: if_splits)
qed

lemma log_step_ok:
  assumes ok: "log_ok s" and n: "names_at localtime pid T s ts" and t: "log_time e \<in> T"
  shows "\<exists>s'. log_step localtime pid e s = Inr s' \<and> log_ok s' \<and> logged s' = logged s @ log_data e
    \<and> (\<exists>ts'. names_at localtime pid T s' ts')"
proof (cases e)
  case (LogAppend now d)
  from LogFile_Append_spec [OF ok, of localtime pid now d] obtain s' where
    s': "LogFile_Append localtime pid now d s = Inr s'" "log_ok s'" "logged s' = logged s @ d" by blast
  obtain f where "cur_file s = Some f" using ok by (auto simp: log_ok_def)
  with names_at_Append [OF n] s'(1) t LogAppend have "\<exists>ts'. names_at localtime pid T s' ts'" by (simp add: LogFile_Append_def log_time_def)
  with s' LogAppend show ?thesis by (simp add: log_step_def log_data_def)
next
  case (LogFlush now)
  obtain f where f: "cur_file s = Some f" using ok by (auto simp: log_ok_def)
  from Flush_spec [OF ok, of now] obtain s' where
    s': "Flush now s = Inr s'" "log_ok s'" "logged s' = logged s" by blast
  have "names_at localtime pid T s' ts"
    by (rule names_at_cong [OF n]) (use s'(1) f in \<open>auto simp: Flush_def File_Flush_def log_files_def\<close>)
  with s' LogFlush show ?thesis by (auto simp: log_step_def log_data_def)
next
  case (LogRoll now)
  with RoolFile_spec [OF ok] names_at_Rool [OF n] t show ?thesis by (simp add: log_step_def log_data_def log_time_def)
qed

lemma log_run_ok:
  "log_ok s \<Longrightarrow> names_at localtime pid T s ts \<Longrightarrow> log_time ` set es \<subseteq> T \<Longrightarrow> \<exists>s'. log_run localtime pid es s = Inr s' \<and> log_ok s'
     \<and> logged s' = logged s @ concat (map log_data es) \<and> (\<exists>ts'. names_at localtime pid T s' ts')"
proof (induction es arbitrary: s ts)
  case (Cons e es)
  from log_step_ok [OF Cons.prems(1,2), of e] Cons.prems(3) obtain s1 ts1 where
    s1: "log_step localtime pid e s = Inr s1" "log_ok s1" "logged s1 = logged s @ log_data e" "names_at localtime pid T s1 ts1"
    by auto
  from Cons.IH [OF s1(2,4)] Cons.prems(3) s1 show ?case by auto
qed auto

lemma new_LogFile_ok:
  assumes "0 < now" and "CHR ''/'' \<notin> set base" and "0 < every"
  shows "\<exists>s. new_LogFile localtime pid now base limit interval every = Inr s \<and> log_ok s \<and> logged s = []
    \<and> names_at localtime pid {now} s [now] \<and> rollSize s = limit \<and> lastRoll s = now \<and> closed_files s = []
    \<and> (\<forall>f. cur_file s = Some f \<longrightarrow> written_bytes f = [])"
  using assms by (auto simp: new_LogFile_def RoolFile_def log_ok_def logged_def names_at_def log_files_def)

lemma names_at_mono: "names_at localtime pid T s ts \<Longrightarrow> T \<subseteq> U \<Longrightarrow> names_at localtime pid U s ts"
  by (auto simp: names_at_def)

text \<open>The first day of 1970 in universal time, for concrete runs.\<close>

definition first_day :: "int \<Rightarrow> tm" where
  "first_day t = \<lparr>tm_year = 70, tm_mon = 0, tm_mday = 1, tm_hour = t div 3600, tm_min = t div 60 mod 60, tm_sec = t mod 60\<rparr>"

section \<open>The order of file names\<close>

text \<open>Numbers of the same width compare as their decimals do.\<close>

definition all_digits :: "string \<Rightarrow> bool" where
  "all_digits s \<longleftrightarrow> (\<forall>ch \<in> set s. (of_char ch :: nat) \<in> {48 ..< 58})"

lemma number_of_Cons: "number_of (ch # s) = (of_char ch - 48) * 10 ^ length s + number_of s"
proof -
  have "foldl (\<lambda>a c. a * 10 + (of_char c - 48)) a s = a * 10 ^ length s + number_of s" for a :: nat
  proof (induction s rule: rev_induct)
    case (snoc c s)
    have "number_of (s @ [c]) = number_of s * 10 + (of_char c - 48)" by (simp add: number_of_def)
    with snoc show ?case by (simp add: algebra_simps)
  qed (simp add: number_of_def)
  from this [of "of_char ch - 48"] show ?thesis by (simp add: number_of_def)
qed

lemma number_of_bound: "all_digits s \<Longrightarrow> number_of s < 10 ^ length s"
proof (induction s)
  case (Cons ch s)
  then have "(of_char ch - 48 :: nat) \<le> 9" and s: "number_of s < 10 ^ length s" by (auto simp: all_digits_def)
  then have "(of_char ch - 48) * 10 ^ length s \<le> 9 * (10 :: nat) ^ length s" by (intro mult_right_mono) simp_all
  with s show ?case unfolding number_of_Cons length_Cons power_Suc by linarith
qed (simp add: number_of_def)

lemma decimals_less:
  "length s = length t \<Longrightarrow> all_digits s \<Longrightarrow> all_digits t \<Longrightarrow> number_of s < number_of t \<Longrightarrow> s < t"
proof (induction s t rule: list_induct2)
  case (Cons c s d t)
  let ?p = "10 ^ length s :: nat"
  have s: "number_of s < ?p" and t: "number_of t < ?p"
    using number_of_bound [of s] number_of_bound [of t] Cons.hyps Cons.prems by (simp_all add: all_digits_def)
  have less: "(of_char c - 48) * ?p + number_of s < (of_char d - 48) * ?p + number_of t"
    using Cons.prems(3) Cons.hyps by (simp add: number_of_Cons)
  have le: "of_char c - 48 \<le> (of_char d - 48 :: nat)"
  proof (rule ccontr)
    assume "\<not> ?thesis"
    then have "Suc (of_char d - 48) * ?p \<le> (of_char c - 48) * ?p" by (intro mult_right_mono) simp_all
    with less t show False by simp
  qed
  have big: "48 \<le> (of_char c :: nat)" "48 \<le> (of_char d :: nat)" using Cons.prems by (simp_all add: all_digits_def)
  show ?case
  proof (cases "c = d")
    case True
    with less have "number_of s < number_of t" by simp
    with Cons True show ?thesis by (simp add: all_digits_def)
  next
    case False
    with le big have "of_char c < (of_char d :: nat)" by (metis diff_diff_cancel le_add_diff_inverse2 le_neq_implies_less of_char_eq_iff add_le_mono1)
    then show ?thesis by (simp add: less_char_def)
  qed
qed (simp add: number_of_def)

lemma concat_less:
  "list_all2 (\<lambda>s t. length s = length t) ss ts \<Longrightarrow> ss < ts \<Longrightarrow> concat ss < concat (ts :: string list)"
proof (induction rule: list_all2_induct)
  case (Cons s ss t ts)
  show ?case
  proof (cases "s = t")
    case True
    with Cons.prems have "ss < ts" by simp
    with Cons.IH True show ?thesis by (simp add: list_less_def lexord_append_leftI)
  next
    case False
    with Cons.prems have "s < t" by simp
    with Cons.hyps show ?thesis by (simp add: list_less_def lexord_sufI)
  qed
qed simp

text \<open>A broken-down time in its ranges, in the years of four digits.\<close>

definition tm_ok :: "tm \<Rightarrow> bool" where
  "tm_ok t \<longleftrightarrow> 1000 \<le> tm_year t + 1900 \<and> tm_year t + 1900 < 10000 \<and> 0 \<le> tm_mon t \<and> tm_mon t < 12
     \<and> 1 \<le> tm_mday t \<and> tm_mday t \<le> 31 \<and> 0 \<le> tm_hour t \<and> tm_hour t < 24 \<and> 0 \<le> tm_min t \<and> tm_min t < 60
     \<and> 0 \<le> tm_sec t \<and> tm_sec t \<le> 60"

definition tm_fields :: "tm \<Rightarrow> int list" where
  "tm_fields t = [tm_year t, tm_mon t, tm_mday t, tm_hour t, tm_min t, tm_sec t]"

lemma to_string_all_digits: "all_digits (to_string n)"
  using to_string_digits by (auto simp: all_digits_def)

lemma length_to_string_Suc: "10 ^ k \<le> n \<Longrightarrow> n < 10 ^ Suc k \<Longrightarrow> length (to_string n) = Suc k"
proof (induction k arbitrary: n)
  case 0
  then show ?case by (subst to_string.simps) simp
next
  case (Suc k)
  have "10 ^ k \<le> n div 10" using Suc.prems(1) by (simp add: less_eq_div_iff_mult_less_eq mult.commute)
  moreover have "n div 10 < 10 ^ Suc k" using Suc.prems(2) by (simp add: less_mult_imp_div_less mult.commute)
  ultimately have "length (to_string (n div 10)) = Suc k" by (rule Suc.IH)
  moreover have "\<not> n < 10" using Suc.prems(1) one_le_power [of "10 :: nat" k] unfolding power_Suc by linarith
  ultimately show ?case by (subst to_string.simps) simp
qed

lemma year_text:
  assumes "1000 \<le> y" and "y < 10000"
  shows "length (int_to_string y) = 4" "all_digits (int_to_string y)" "number_of (int_to_string y) = nat y"
  using assms length_to_string_Suc [of 3 "nat y"] to_string_all_digits by (simp_all add: int_to_string_def)

lemma two_digits_text:
  assumes "0 \<le> i" and "i < 100"
  shows "length (two_digits i) = 2" "all_digits (two_digits i)" "number_of (two_digits i) = nat i"
proof -
  show "length (two_digits i) = 2"
    using assms length_to_string_Suc [of 1 "nat i"] by (subst two_digits_def) (auto simp: int_to_string_def to_string.simps [of "nat i"])
  show "all_digits (two_digits i)"
    using assms to_string_all_digits by (auto simp: two_digits_def int_to_string_def all_digits_def)
  show "number_of (two_digits i) = nat i"
    using assms by (simp add: two_digits_def int_to_string_def number_of_Cons)
qed

lemma two_digits_less: "0 \<le> i \<Longrightarrow> i < j \<Longrightarrow> j < 100 \<Longrightarrow> two_digits i < two_digits j"
  by (rule decimals_less) (simp_all add: two_digits_text)

lemma year_less: "1000 \<le> y \<Longrightarrow> y < z \<Longrightarrow> z < 10000 \<Longrightarrow> int_to_string y < int_to_string z"
  by (rule decimals_less) (simp_all add: year_text)

lemma name_parts_less:
  assumes "tm_ok t" and "tm_ok u" and "tm_fields t < tm_fields u"
  shows "concat (name_parts t) < concat (name_parts u)"
proof (rule concat_less)
  show "list_all2 (\<lambda>s t. length s = length t) (name_parts t) (name_parts u)"
    using assms(1,2) by (simp add: name_parts_def tm_ok_def year_text two_digits_text)
  show "name_parts t < name_parts u"
    using assms by (auto simp: name_parts_def tm_ok_def tm_fields_def year_less two_digits_less)
qed

text \<open>The local time moves on over a set of clock readings: it is in its ranges, and a later reading
  has a later local time (not so where the clocks are put back for winter).\<close>

definition local_time_forward :: "(int \<Rightarrow> tm) \<Rightarrow> int set \<Rightarrow> bool" where
  "local_time_forward localtime T \<longleftrightarrow> (\<forall>t \<in> T. tm_ok (localtime t))
     \<and> (\<forall>t \<in> T. \<forall>u \<in> T. t < u \<longrightarrow> tm_fields (localtime t) < tm_fields (localtime u))"

lemma file_name_less:
  assumes "local_time_forward localtime T" and "t \<in> T" and "u \<in> T" and "t < u"
  shows "GetLogFileName localtime pid base t < GetLogFileName localtime pid base u"
proof -
  have ok: "tm_ok (localtime t)" "tm_ok (localtime u)" using assms by (simp_all add: local_time_forward_def)
  have "concat (name_parts (localtime t)) < concat (name_parts (localtime u))"
    by (rule name_parts_less [OF ok]) (use assms in \<open>simp add: local_time_forward_def\<close>)
  moreover have "length (concat (name_parts (localtime t))) = length (concat (name_parts (localtime u)))"
    using ok by (simp add: name_parts_def tm_ok_def year_text two_digits_text)
  ultimately have "concat (name_parts (localtime t)) @ to_string pid @ ''.log''
      < concat (name_parts (localtime u)) @ to_string pid @ ''.log''"
    by (simp add: list_less_def lexord_sufI)
  then show ?thesis by (simp add: GetLogFileName_def list_less_def lexord_append_leftI)
qed

text \<open>The files of a log are named in strictly increasing order, so no name comes twice.\<close>

lemma file_names_increase:
  assumes "names_at localtime pid T s ts" and "local_time_forward localtime T"
  shows "sorted_wrt (<) (map fileName (log_files s))"
proof -
  have "sorted_wrt (\<lambda>t u. GetLogFileName localtime pid (basename s) t < GetLogFileName localtime pid (basename s) u) ts"
    by (rule sorted_wrt_mono_rel [where P = "(<)"]) (use assms file_name_less in \<open>auto simp: names_at_def subset_iff\<close>)
  with assms(1) show ?thesis by (simp add: names_at_def sorted_wrt_map)
qed

text \<open>The file of a name as \<^verbatim>\<open>ios::app\<close> makes it: all that was written under the name, one opening after
  the other. While names differ, it is what was written since its opening.\<close>

definition on_disk :: "log_file \<Rightarrow> string \<Rightarrow> byte list" where
  "on_disk s name = concat (map written_bytes (filter (\<lambda>f. fileName f = name) (log_files s)))"

lemma on_disk_distinct:
  assumes "sorted_wrt (<) (map fileName (log_files s))" and "f \<in> set (log_files s)"
  shows "on_disk s (fileName f) = written_bytes f"
proof -
  have "distinct (map fileName fs) \<Longrightarrow> f \<in> set fs \<Longrightarrow> filter (\<lambda>g. fileName g = fileName f) fs = [f]" for fs
    by (induction fs) (auto simp: filter_empty_conv image_iff)
  with assms show ?thesis by (simp add: on_disk_def strict_sorted_iff)
qed

text \<open>When the local time is put back, a roll at the same local time takes the name of an older file
  again, and the new lines will follow the old ones in it.\<close>

lemma clock_back_reuses_name:
  assumes "localtime u = localtime t" and "t < u" and "cur_file s = Some f"
    and "fileName f = GetLogFileName localtime pid (basename s) t" and "lastRoll s = t"
  shows "\<exists>g. cur_file (snd (RoolFile localtime pid u s)) = Some g \<and> fileName g = fileName f
    \<and> File_Flush f \<in> set (closed_files (snd (RoolFile localtime pid u s)))"
  using assms by (simp add: RoolFile_def GetLogFileName_def)

lemma clock_back_demo:
  "case bindR (new_LogFile (\<lambda>t. first_day (t mod 3600)) 1 5 ''app'' 2 3 2)
     (log_run (\<lambda>t. first_day (t mod 3600)) 1 [LogAppend 6 [1, 2], LogAppend 3606 [3, 4], LogAppend 3607 [5]]) of
   Inl e \<Rightarrow> False
 | Inr s \<Rightarrow> map written_bytes (log_files s) = [[1, 2], [3, 4], [5]]
     \<and> on_disk s (GetLogFileName first_day 1 ''app'' 6) = [3, 4, 5]"
  by code_simp


section \<open>How large a file gets\<close>

text \<open>A file is not rolled twice in a second (\<^verbatim>\<open>now > lastRoll_\<close>), so what is logged within one second
  may all end up in one file, whatever the roll size.\<close>

definition second_bytes :: "int \<Rightarrow> log_op list \<Rightarrow> int" where
  "second_bytes t es = (\<Sum>e \<leftarrow> es. if log_time e = t then int (length (log_data e)) else 0)"



lemma second_bytes_simps [simp]:
  "second_bytes t [] = 0"
  "second_bytes t (ps @ qs) = second_bytes t ps + second_bytes t qs"
  "second_bytes t (e # es) = (if log_time e = t then int (length (log_data e)) else 0) + second_bytes t es"
  by (simp_all add: second_bytes_def)



lemma File_Written_bound: "File_Written f < 2 ^ 31"
  using sint_lt [of "word_of_nat (length (written_bytes f)) :: 32 word"] by (simp add: File_Written_def)






text \<open>A limit of two gigabytes or more is never reached: the position wraps before.\<close>

lemma huge_limit_never_rolls:
  assumes "log_ok s" and "2 ^ 31 \<le> rollSize s" and "start_of_period now = latestStartOfPeriod s"
  shows "\<exists>s'. LogFile_Append localtime pid now d s = Inr s' \<and> closed_files s' = closed_files s"
proof -
  obtain f where f: "cur_file s = Some f" using assms(1) by (auto simp: log_ok_def)
  have "File_Written (File_Append d f) < rollSize s" using File_Written_bound [of "File_Append d f"] assms(2) by simp
  then show ?thesis using f assms(3) by (auto simp: LogFile_Append_def AppendUnlocked_def Let_def)
qed

section \<open>Properties\<close>

text \<open>C24. Nothing is lost in rolling: whatever is appended, flushed and rolled, at whatever clock
  readings, what was written to the files of the log since they were opened is together exactly the
  bytes appended, in order, and every file rolled away has been handed to the system in full. The
  files are named after strictly increasing clock readings of the run; and where the local time
  moves on with the clock, the names themselves strictly increase, so that no name comes twice and
  every file on disk holds what was written since its opening.\<close>

theorem log_complete:
  assumes "0 < now" and "CHR ''/'' \<notin> set base" and "0 < every"
  shows "\<exists>s. bindR (new_LogFile localtime pid now base limit interval every) (log_run localtime pid es) = Inr s
    \<and> concat (map written_bytes (log_files s)) = concat (map log_data es)
    \<and> (\<forall>f \<in> set (closed_files s). flushed f = length (written_bytes f))
    \<and> (\<exists>ts. sorted_wrt (<) ts \<and> set ts \<subseteq> set (now # map log_time es)
         \<and> map fileName (log_files s) = map (GetLogFileName localtime pid (basename s)) ts)
    \<and> (local_time_forward localtime (set (now # map log_time es)) \<longrightarrow> sorted_wrt (<) (map fileName (log_files s))
         \<and> (\<forall>f \<in> set (log_files s). on_disk s (fileName f) = written_bytes f))"
proof -
  let ?T = "set (now # map log_time es)"
  from new_LogFile_ok [OF assms, of localtime pid limit interval] obtain s0 where
    s0: "new_LogFile localtime pid now base limit interval every = Inr s0" "log_ok s0" "logged s0 = []"
      "names_at localtime pid {now} s0 [now]" by blast
  have "names_at localtime pid ?T s0 [now]" by (rule names_at_mono [OF s0(4)]) simp
  from log_run_ok [OF s0(2) this, of es] s0(3) obtain s ts where
    s: "log_run localtime pid es s0 = Inr s" "log_ok s" "logged s = concat (map log_data es)"
      "names_at localtime pid ?T s ts" by auto
  have "concat (map written_bytes (log_files s)) = logged s"
    by (simp add: log_files_def logged_def split: option.splits)
  moreover have "sorted_wrt (<) ts \<and> set ts \<subseteq> ?T
      \<and> map fileName (log_files s) = map (GetLogFileName localtime pid (basename s)) ts"
    using s(4) by (simp add: names_at_def)
  ultimately show ?thesis using s0(1) s(1-3) file_names_increase [OF s(4)] on_disk_distinct
    by (auto simp: log_ok_def simp del: set_simps)
qed

theorem log_complete_witness:
  "\<exists>s. bindR (new_LogFile first_day 1 5 ''app'' 4 3 2)
     (log_run first_day 1 [LogAppend 6 [1, 2, 3], LogAppend 7 [4], LogAppend 8 [5]]) = Inr s
   \<and> concat (map written_bytes (log_files s)) = [1, 2, 3, 4, 5] \<and> sorted_wrt (<) (map fileName (log_files s))"
proof -
  let ?es = "[LogAppend 6 [1, 2, 3], LogAppend 7 [4], LogAppend 8 [5]]"
  have "local_time_forward first_day (set (5 # map log_time ?es))"
    by (simp add: local_time_forward_def first_day_def tm_ok_def tm_fields_def log_time_def)
  moreover have "CHR ''/'' \<notin> set ''app''" "concat (map log_data ?es) = [1, 2, 3, 4, 5]" by (simp_all add: log_data_def)
  ultimately show ?thesis using log_complete [of 5 "''app''" 2 first_day 1 4 3 ?es] by auto
qed



end
