(* ===== verification/AsyncLogging.thy ===== *)
theory AsyncLogging
  imports LogStream LogFile
begin

text \<open>
  The asynchronous logger \<^verbatim>\<open>AsyncLogger\<close> of \<^verbatim>\<open>AsyncLogging.cpp\<close>: callers fill large buffers under a
  mutex, a back thread swaps the filled ones out and writes them to the log file. A state holds the
  members of the class and the locals of the back thread, whose program counter is \<open>back_pc\<close>; a run
  from the constructor interleaves starting, stopping and the appends of the callers with the steps
  of the back thread. The log file is the model of \<^verbatim>\<open>LogFile\<close>, used through the contract
  \<open>log_sink\<close>. Shown: no assertion of the protocol fails unless the logger is stopped before its new
  thread has begun; no byte is lost, repeated or reordered unless the thread falls more than
  twenty-five buffers behind, and a round brings everything to the file; what is appended after the
  last round is lost, and the wait of the back thread is the wrong way round.
\<close>

section \<open>State\<close>

type_synonym big_buffer = "byte fixed_buffer"

text \<open>No thread yet, a thread that has not run yet, the three places of its loop, its end.\<close>

datatype back_pc = NoThread | AtBegin | AtTop | AtWait | AtWrite | BackEnded

record async_logger =
  async_running :: bool
  async_basename :: string
  async_rollSize :: int
  buffers :: "big_buffer list"
  currentBuffer :: "big_buffer option"
  nextBuffer :: "big_buffer option"
  newBuffer1 :: "big_buffer option"
  newBuffer2 :: "big_buffer option"
  buffers_to_write :: "big_buffer list"
  bg :: back_pc
  sink :: log_file

definition new_big :: big_buffer where
  "new_big = new_FixedBuffer kLargeBuffer"

text \<open>No log file is open before the back thread has begun; \<open>closed_files\<close> keeps the files of the
  threads that have ended.\<close>

definition no_LogFile :: log_file where
  "no_LogFile = \<lparr>basename = [], rollSize = 0, flushInterval = 0, checkEveryN = 0, count = 0, lastRoll = 0,
     lastFlush = 0, latestStartOfPeriod = 0, cur_file = None, closed_files = []\<rparr>"

definition new_AsyncLogger :: "string \<Rightarrow> int \<Rightarrow> async_logger" where
  "new_AsyncLogger base roll_size = \<lparr>async_running = False, async_basename = base, async_rollSize = roll_size,
     buffers = [], currentBuffer = Some new_big, nextBuffer = Some new_big, newBuffer1 = None, newBuffer2 = None,
     buffers_to_write = [], bg = NoThread, sink = no_LogFile\<rparr>"

text \<open>A thread object that is replaced while its thread still runs terminates the program; one that
  has ended has been joined by the stop.\<close>

definition Async_Start :: "async_logger \<Rightarrow> async_logger res" where
  "Async_Start a =
     (if async_running a then Inr a
      else if bg a = NoThread \<or> bg a = BackEnded then Inr (a\<lparr>async_running := True, bg := AtBegin\<rparr>)
      else Inl Terminated)"

text \<open>The stop also joins the back thread, that is, returns when that has ended.\<close>

definition Async_Stop :: "async_logger \<Rightarrow> async_logger" where
  "Async_Stop a = (if async_running a then a\<lparr>async_running := False\<rparr> else a)"

definition Destruct_AsyncLogger :: "async_logger \<Rightarrow> async_logger" where
  "Destruct_AsyncLogger a = Async_Stop a"

section \<open>Appending\<close>

definition Async_Append :: "byte list \<Rightarrow> async_logger \<Rightarrow> async_logger res" where
  "Async_Append logline a = (case currentBuffer a of
       None \<Rightarrow> Inl NullDeref
     | Some cur \<Rightarrow>
         if length logline < Avail cur
         then Inr (a\<lparr>currentBuffer := Some (FixedBuffer_Append logline cur)\<rparr>)
         else let a1 = a\<lparr>buffers := buffers a @ [cur]\<rparr>;
                  cur' = (case nextBuffer a1 of Some nxt \<Rightarrow> nxt | None \<Rightarrow> new_big);
                  a2 = a1\<lparr>currentBuffer := Some cur', nextBuffer := None\<rparr>
              in ensure (length logline < Avail cur')
                   (Inr (a2\<lparr>currentBuffer := Some (FixedBuffer_Append logline cur')\<rparr>)))"

section \<open>The back thread\<close>

definition is_fresh :: "big_buffer option \<Rightarrow> bool" where
  "is_fresh b = (case b of None \<Rightarrow> False | Some x \<Rightarrow> GetLength x = 0)"

text \<open>The assertion and the locals at the start of the thread.\<close>

definition back_begin :: "(int \<Rightarrow> tm) \<Rightarrow> nat \<Rightarrow> int \<Rightarrow> async_logger \<Rightarrow> async_logger res" where
  "back_begin localtime pid now a = ensure (async_running a)
     (mapR (\<lambda>f. a\<lparr>sink := f\<lparr>closed_files := closed_files (sink a) @ closed_files f\<rparr>,
               newBuffer1 := Some new_big, newBuffer2 := Some new_big, buffers_to_write := [], bg := AtTop\<rparr>)
        (new_LogFile localtime pid now (async_basename a) (async_rollSize a) 3 1024))"

text \<open>The test of the loop and the assertions at its top; the end of the thread, which also ends its
  log file.\<close>

definition back_top :: "int \<Rightarrow> async_logger \<Rightarrow> async_logger res" where
  "back_top now a =
     (if async_running a
      then ensure (is_fresh (newBuffer1 a) \<and> is_fresh (newBuffer2 a) \<and> buffers_to_write a = [])
             (Inr (a\<lparr>bg := AtWait\<rparr>))
      else mapR (\<lambda>f. a\<lparr>sink := Destruct_LogFile f, newBuffer1 := None, newBuffer2 := None, bg := BackEnded\<rparr>)
             (Flush now (sink a)))"

text \<open>The condition of the wait; \<open>timed_out\<close> is the status of the last wait.\<close>

definition must_wait :: "bool \<Rightarrow> async_logger \<Rightarrow> bool" where
  "must_wait timed_out a \<longleftrightarrow> buffers a \<noteq> [] \<and> \<not> timed_out"

text \<open>The rest of the critical section.\<close>

definition swap_buffers :: "async_logger \<Rightarrow> async_logger res" where
  "swap_buffers a = (case currentBuffer a of
       None \<Rightarrow> Inl NullDeref
     | Some cur \<Rightarrow>
         let a1 = a\<lparr>buffers_to_write := buffers a @ [cur], buffers := buffers_to_write a,
                    currentBuffer := newBuffer1 a, newBuffer1 := None\<rparr>
         in Inr (if nextBuffer a1 = None
                 then a1\<lparr>nextBuffer := newBuffer2 a1, newBuffer2 := None, bg := AtWrite\<rparr>
                 else a1\<lparr>bg := AtWrite\<rparr>))"

fun write_buffers :: "(int \<Rightarrow> tm) \<Rightarrow> nat \<Rightarrow> int \<Rightarrow> big_buffer list \<Rightarrow> log_file \<Rightarrow> log_file res" where
  "write_buffers localtime pid now [] f = Inr f"
| "write_buffers localtime pid now (b # bs) f =
     bindR (LogFile_Append localtime pid now (fb_data b) f) (write_buffers localtime pid now bs)"

text \<open>More than twenty-five buffers: a note is written and all but the first two are dropped.\<close>

definition drop_overload :: "(int \<Rightarrow> tm) \<Rightarrow> nat \<Rightarrow> int \<Rightarrow> byte list \<Rightarrow> async_logger \<Rightarrow> async_logger res" where
  "drop_overload localtime pid now msg a =
     (if 25 < length (buffers_to_write a)
      then mapR (\<lambda>f. a\<lparr>sink := f, buffers_to_write := take 2 (buffers_to_write a)\<rparr>)
             (LogFile_Append localtime pid now msg (sink a))
      else Inr a)"

text \<open>The two buffers kept are emptied and used again.\<close>

definition recycle :: "async_logger \<Rightarrow> async_logger res" where
  "recycle a =
     (let tw = (if 2 < length (buffers_to_write a) then take 2 (buffers_to_write a) else buffers_to_write a)
      in ensure (newBuffer1 a = None) (ensure (tw \<noteq> [])
           (let a1 = a\<lparr>newBuffer1 := Some (FixedBuffer_Reset (last tw))\<rparr>; tw1 = butlast tw
            in if newBuffer2 a1 = None
               then ensure (tw1 \<noteq> [])
                      (Inr (a1\<lparr>newBuffer2 := Some (FixedBuffer_Reset (last tw1)), buffers_to_write := []\<rparr>))
               else Inr (a1\<lparr>buffers_to_write := []\<rparr>))))"

definition back_write :: "(int \<Rightarrow> tm) \<Rightarrow> nat \<Rightarrow> int \<Rightarrow> byte list \<Rightarrow> async_logger \<Rightarrow> async_logger res" where
  "back_write localtime pid now msg a = ensure (buffers_to_write a \<noteq> [])
     (bindR (drop_overload localtime pid now msg a) (\<lambda>a1.
      bindR (write_buffers localtime pid now (buffers_to_write a1) (sink a1)) (\<lambda>f.
      bindR (recycle (a1\<lparr>sink := f\<rparr>)) (\<lambda>a2.
      mapR (\<lambda>f. a2\<lparr>sink := f, bg := AtTop\<rparr>) (Flush now (sink a2))))))"

section \<open>Runs\<close>

datatype async_event = Logged "byte list" | StartCalled | StopCalled
  | BackBegin int | BackTop int | BackSwap bool | BackWrite int "byte list"

text \<open>A step of the back thread is taken where its program counter stands.\<close>

fun async_step :: "(int \<Rightarrow> tm) \<Rightarrow> nat \<Rightarrow> async_event \<Rightarrow> async_logger \<Rightarrow> async_logger res" where
  "async_step localtime pid (Logged d) a = Async_Append d a"
| "async_step localtime pid StartCalled a = Async_Start a"
| "async_step localtime pid StopCalled a = Inr (Async_Stop a)"
| "async_step localtime pid (BackBegin now) a = (if bg a = AtBegin then back_begin localtime pid now a else Inr a)"
| "async_step localtime pid (BackTop now) a = (if bg a = AtTop then back_top now a else Inr a)"
| "async_step localtime pid (BackSwap timed_out) a =
     (if bg a = AtWait \<and> \<not> must_wait timed_out a then swap_buffers a else Inr a)"
| "async_step localtime pid (BackWrite now msg) a =
     (if bg a = AtWrite then back_write localtime pid now msg a else Inr a)"

fun async_run :: "(int \<Rightarrow> tm) \<Rightarrow> nat \<Rightarrow> async_event list \<Rightarrow> async_logger \<Rightarrow> async_logger res" where
  "async_run localtime pid [] a = Inr a"
| "async_run localtime pid (e # es) a = bindR (async_step localtime pid e a) (async_run localtime pid es)"

fun event_bytes :: "async_event \<Rightarrow> byte list" where
  "event_bytes (Logged d) = d"
| "event_bytes _ = []"

text \<open>The back thread never falls more than twenty-five buffers behind.\<close>

fun keeps_up :: "(int \<Rightarrow> tm) \<Rightarrow> nat \<Rightarrow> async_event list \<Rightarrow> async_logger \<Rightarrow> bool" where
  "keeps_up localtime pid [] a \<longleftrightarrow> True"
| "keeps_up localtime pid (e # es) a \<longleftrightarrow> length (buffers_to_write a) \<le> 25
     \<and> (case async_step localtime pid e a of Inl f \<Rightarrow> True | Inr a' \<Rightarrow> keeps_up localtime pid es a')"

text \<open>An orderly run: the logger is not stopped while its new thread has not begun, not started again
  while the last thread still runs, and the clock is past the epoch when a log file is opened.\<close>

fun async_orderly :: "(int \<Rightarrow> tm) \<Rightarrow> nat \<Rightarrow> async_event list \<Rightarrow> async_logger \<Rightarrow> bool" where
  "async_orderly localtime pid [] a \<longleftrightarrow> True"
| "async_orderly localtime pid (e # es) a \<longleftrightarrow>
     (case e of
        StopCalled \<Rightarrow> bg a \<noteq> AtBegin
      | StartCalled \<Rightarrow> async_running a \<or> bg a = NoThread \<or> bg a = BackEnded
      | BackBegin now \<Rightarrow> 0 < now
      | _ \<Rightarrow> True)
     \<and> (case async_step localtime pid e a of Inl f \<Rightarrow> True | Inr a' \<Rightarrow> async_orderly localtime pid es a')"

section \<open>The invariant\<close>

definition big_ok :: "big_buffer \<Rightarrow> bool" where
  "big_ok b \<longleftrightarrow> fb_size b = kLargeBuffer \<and> length (fb_data b) < kLargeBuffer"

definition spare :: "big_buffer option \<Rightarrow> bool" where
  "spare b \<longleftrightarrow> b = Some new_big"

text \<open>A log whose thread has ended or not begun: no file is open, the closed ones are written out.\<close>

definition log_shut :: "log_file \<Rightarrow> bool" where
  "log_shut s \<longleftrightarrow> cur_file s = None \<and> (\<forall>f \<in> set (closed_files s). flushed f = length (written_bytes f))"

definition in_loop :: "async_logger \<Rightarrow> bool" where
  "in_loop a \<longleftrightarrow> bg a = AtTop \<or> bg a = AtWait \<or> bg a = AtWrite"

definition async_ok :: "async_logger \<Rightarrow> bool" where
  "async_ok a \<longleftrightarrow> (\<exists>cur. currentBuffer a = Some cur \<and> big_ok cur)
     \<and> (\<forall>b \<in> set (buffers a) \<union> set (buffers_to_write a). big_ok b)
     \<and> (nextBuffer a = None \<longrightarrow> buffers a \<noteq> []) \<and> (nextBuffer a \<noteq> None \<longrightarrow> spare (nextBuffer a))
     \<and> (if in_loop a then log_ok (sink a) else log_shut (sink a)) \<and> (bg a = AtBegin \<longrightarrow> async_running a)
     \<and> (if bg a = AtWrite
        then newBuffer1 a = None \<and> buffers_to_write a \<noteq> []
          \<and> (spare (newBuffer2 a) \<or> newBuffer2 a = None \<and> 2 \<le> length (buffers_to_write a))
        else buffers_to_write a = [] \<and> (in_loop a \<longrightarrow> spare (newBuffer1 a) \<and> spare (newBuffer2 a)))"

text \<open>The bytes taken but not yet in the file, in order.\<close>

definition unwritten :: "async_logger \<Rightarrow> byte list" where
  "unwritten a = concat (map fb_data (buffers_to_write a)) @ concat (map fb_data (buffers a))
     @ (case currentBuffer a of None \<Rightarrow> [] | Some cur \<Rightarrow> fb_data cur)"

lemma new_big_simps [simp]: "fb_data new_big = []" "fb_size new_big = kLargeBuffer" "big_ok new_big"
  "Avail new_big = kLargeBuffer" "GetLength new_big = 0"
  by (simp_all add: new_big_def new_FixedBuffer_def big_ok_def kLargeBuffer_def Avail_def GetLength_def)

lemma Reset_big: "big_ok b \<Longrightarrow> FixedBuffer_Reset b = new_big"
  by (cases b) (simp add: FixedBuffer_Reset_def big_ok_def new_big_def new_FixedBuffer_def)

lemma is_fresh_spare: "spare b \<Longrightarrow> is_fresh b"
  by (simp add: spare_def is_fresh_def)

lemma Append_big: "big_ok b \<Longrightarrow> length d < Avail b \<Longrightarrow>
   big_ok (FixedBuffer_Append d b) \<and> fb_data (FixedBuffer_Append d b) = fb_data b @ d"
  by (auto simp: big_ok_def FixedBuffer_Append_def Avail_def)

lemma async_ok_new [simp]: "async_ok (new_AsyncLogger base limit)"
  by (simp add: async_ok_def new_AsyncLogger_def no_LogFile_def in_loop_def log_shut_def spare_def)

lemma unwritten_new [simp]: "unwritten (new_AsyncLogger base limit) = []" "logged (sink (new_AsyncLogger base limit)) = []"
  by (simp_all add: unwritten_def logged_def new_AsyncLogger_def no_LogFile_def)

lemma new_AsyncLogger_name [simp]: "async_basename (new_AsyncLogger base limit) = base"
  by (simp add: new_AsyncLogger_def)

lemma in_loop_cong [simp]: "in_loop (a\<lparr>bg := pc\<rparr>) \<longleftrightarrow> pc = AtTop \<or> pc = AtWait \<or> pc = AtWrite"
  by (simp add: in_loop_def)

lemma Destruct_LogFile_spec:
  "log_ok s \<Longrightarrow> log_shut (Destruct_LogFile s) \<and> logged (Destruct_LogFile s) = logged s"
  by (auto simp: log_ok_def log_shut_def logged_def Destruct_LogFile_def File_Flush_def)

lemma Async_Append_ok:
  assumes ok: "async_ok a" and d: "length d < kLargeBuffer"
  shows "\<exists>a'. Async_Append d a = Inr a' \<and> async_ok a' \<and> unwritten a' = unwritten a @ d \<and> sink a' = sink a
    \<and> async_running a' = async_running a \<and> bg a' = bg a \<and> async_basename a' = async_basename a"
proof -
  obtain cur where cur: "currentBuffer a = Some cur" "big_ok cur" using ok by (auto simp: async_ok_def)
  show ?thesis
  proof (cases "length d < Avail cur")
    case True
    with cur ok Append_big [OF cur(2) True] show ?thesis
      by (auto simp: Async_Append_def async_ok_def unwritten_def in_loop_def)
  next
    case False
    define cur' where "cur' = (case nextBuffer a of Some nxt \<Rightarrow> nxt | None \<Rightarrow> new_big)"
    have c': "cur' = new_big" using ok by (auto simp: cur'_def async_ok_def spare_def split: option.splits)
    let ?a' = "a\<lparr>buffers := buffers a @ [cur], currentBuffer := Some (FixedBuffer_Append d new_big), nextBuffer := None\<rparr>"
    have "Async_Append d a = Inr ?a'"
      using cur False c' d by (simp add: Async_Append_def cur'_def [symmetric] Let_def)
    moreover have "async_ok ?a'" using ok cur Append_big [of new_big d] d by (auto simp: async_ok_def in_loop_def)
    moreover have "unwritten ?a' = unwritten a @ d" using cur Append_big [of new_big d] d by (simp add: unwritten_def)
    ultimately show ?thesis by simp
  qed
qed

lemma Async_Start_ok:
  assumes ok: "async_ok a" and "async_running a \<or> bg a = NoThread \<or> bg a = BackEnded"
  shows "\<exists>a'. Async_Start a = Inr a' \<and> async_ok a' \<and> unwritten a' = unwritten a \<and> sink a' = sink a
    \<and> async_basename a' = async_basename a"
  using assms by (auto simp: Async_Start_def async_ok_def unwritten_def in_loop_def)

lemma Async_Stop_ok:
  assumes ok: "async_ok a" and "bg a \<noteq> AtBegin"
  shows "async_ok (Async_Stop a)" "unwritten (Async_Stop a) = unwritten a" "sink (Async_Stop a) = sink a"
    "async_basename (Async_Stop a) = async_basename a"
  using assms by (auto simp: Async_Stop_def async_ok_def unwritten_def in_loop_def)

lemma back_begin_ok:
  assumes ok: "async_ok a" and b: "bg a = AtBegin" and "0 < now" and "CHR ''/'' \<notin> set (async_basename a)"
  shows "\<exists>a'. back_begin localtime pid now a = Inr a' \<and> async_ok a' \<and> unwritten a' = unwritten a
    \<and> logged (sink a') = logged (sink a) \<and> async_basename a' = async_basename a \<and> bg a' = AtTop"
proof -
  from new_LogFile_ok [OF assms(3,4), of 1024 localtime pid "async_rollSize a" 3] obtain f where
    f: "new_LogFile localtime pid now (async_basename a) (async_rollSize a) 3 1024 = Inr f" "log_ok f"
      "logged f = []" "closed_files f = []" by auto
  let ?f = "f\<lparr>closed_files := closed_files (sink a) @ closed_files f\<rparr>"
  have s: "async_running a" "log_shut (sink a)" "buffers_to_write a = []"
    using ok b by (simp_all add: async_ok_def in_loop_def)
  have "log_ok ?f" using f(2) s(2) by (auto simp: log_ok_def log_shut_def)
  moreover have "logged ?f = logged (sink a)" using f(3,4) s(2) by (simp add: logged_def log_shut_def)
  ultimately show ?thesis using ok f(1) s b
    by (auto simp: back_begin_def async_ok_def unwritten_def in_loop_def spare_def)
qed

lemma back_top_ok:
  assumes ok: "async_ok a" and "bg a = AtTop"
  shows "\<exists>a'. back_top now a = Inr a' \<and> async_ok a' \<and> unwritten a' = unwritten a \<and> logged (sink a') = logged (sink a)
    \<and> async_running a' = async_running a \<and> async_basename a' = async_basename a
    \<and> (async_running a \<longrightarrow> bg a' = AtWait \<and> buffers a' = buffers a)"
proof (cases "async_running a")
  case True
  with assms show ?thesis by (auto simp: back_top_def async_ok_def unwritten_def is_fresh_spare in_loop_def)
next
  case False
  from assms have "log_ok (sink a)" by (simp add: async_ok_def in_loop_def)
  from log_file_sink.sync_law [OF this, of now] obtain f where
    "Flush now (sink a) = Inr f" "log_ok f" "logged f = logged (sink a)" by blast
  with Destruct_LogFile_spec [of f] False assms show ?thesis
    by (auto simp: back_top_def async_ok_def unwritten_def in_loop_def)
qed

lemma swap_buffers_ok:
  assumes ok: "async_ok a" and "bg a = AtWait"
  shows "\<exists>a'. swap_buffers a = Inr a' \<and> async_ok a' \<and> unwritten a' = unwritten a \<and> sink a' = sink a
    \<and> async_basename a' = async_basename a \<and> async_running a' = async_running a \<and> bg a' = AtWrite
    \<and> length (buffers_to_write a') = Suc (length (buffers a)) \<and> buffers a' = []
    \<and> (\<forall>cur. currentBuffer a' = Some cur \<longrightarrow> fb_data cur = [])"
proof -
  obtain cur where cur: "currentBuffer a = Some cur" "big_ok cur" using ok by (auto simp: async_ok_def)
  have tw: "buffers_to_write a = []" "newBuffer1 a = Some new_big" "newBuffer2 a = Some new_big"
    using assms by (simp_all add: async_ok_def spare_def in_loop_def)
  have "length (buffers a) \<noteq> 0" if "nextBuffer a = None" using ok that by (simp add: async_ok_def)
  moreover have "log_ok (sink a)" using assms by (simp add: async_ok_def in_loop_def)
  ultimately show ?thesis using ok cur tw assms(2)
    by (cases "nextBuffer a = None")
      (auto simp: swap_buffers_def async_ok_def unwritten_def spare_def Suc_le_eq Let_def in_loop_def)
qed

lemma write_buffers_ok:
  "log_ok f \<Longrightarrow> \<exists>f'. write_buffers localtime pid now bs f = Inr f' \<and> log_ok f' \<and> logged f' = logged f @ concat (map fb_data bs)"
proof -
  have "write_buffers localtime pid now bs = log_file_sink.put_all localtime pid now (map fb_data bs)"
    by (induction bs) (intro ext, simp)+
  then show "log_ok f \<Longrightarrow> \<exists>f'. write_buffers localtime pid now bs f = Inr f' \<and> log_ok f' \<and> logged f' = logged f @ concat (map fb_data bs)"
    using log_file_sink.put_all_spec by simp
qed

lemma drop_overload_ok:
  assumes ok: "async_ok a" and w: "bg a = AtWrite"
  shows "\<exists>a'. drop_overload localtime pid now msg a = Inr a' \<and> async_ok a' \<and> bg a' = AtWrite \<and> buffers a' = buffers a
    \<and> currentBuffer a' = currentBuffer a \<and> async_running a' = async_running a \<and> async_basename a' = async_basename a
    \<and> (length (buffers_to_write a) \<le> 25 \<longrightarrow> a' = a)"
proof (cases "25 < length (buffers_to_write a)")
  case True
  from ok w have "log_ok (sink a)" by (simp add: async_ok_def in_loop_def)
  from log_file_sink.put_law [OF this, of localtime pid now msg] obtain f where
    f: "LogFile_Append localtime pid now msg (sink a) = Inr f" "log_ok f" by blast
  have "b \<in> set (buffers_to_write a)" if "b \<in> set (take 2 (buffers_to_write a))" for b
    using that by (rule in_set_takeD)
  moreover have "take 2 (buffers_to_write a) \<noteq> []" "length (take 2 (buffers_to_write a)) = 2" using True by auto
  ultimately have "async_ok (a\<lparr>sink := f, buffers_to_write := take 2 (buffers_to_write a)\<rparr>)"
    using ok w f(2) by (auto simp: async_ok_def in_loop_def)
  with True f w show ?thesis by (auto simp: drop_overload_def)
qed (use assms in \<open>simp add: drop_overload_def\<close>)

lemma recycle_ok:
  assumes ok: "async_ok a" and w: "bg a = AtWrite"
  shows "recycle a = Inr (a\<lparr>newBuffer1 := Some new_big, newBuffer2 := Some new_big, buffers_to_write := []\<rparr>)"
proof -
  let ?tw = "if 2 < length (buffers_to_write a) then take 2 (buffers_to_write a) else buffers_to_write a"
  have inv: "newBuffer1 a = None" "buffers_to_write a \<noteq> []"
    "newBuffer2 a = Some new_big \<or> newBuffer2 a = None \<and> 2 \<le> length (buffers_to_write a)"
    "\<forall>b \<in> set (buffers_to_write a). big_ok b"
    using assms by (auto simp: async_ok_def spare_def)
  have ne: "?tw \<noteq> []" using inv(2) by auto
  have sub: "set ?tw \<subseteq> set (buffers_to_write a)" by (auto dest: in_set_takeD)
  have r: "FixedBuffer_Reset b = new_big" if "b \<in> set ?tw" for b using that sub inv(4) Reset_big by blast
  have l: "FixedBuffer_Reset (last ?tw) = new_big" using ne by (intro r last_in_set)
  show ?thesis
  proof (cases "newBuffer2 a = None")
    case True
    then have "2 \<le> length (buffers_to_write a)" using inv(3) by simp
    then have "0 < length (butlast ?tw)" by simp
    then have b: "butlast ?tw \<noteq> []" by (rule length_greater_0_conv [THEN iffD1])
    then have "FixedBuffer_Reset (last (butlast ?tw)) = new_big"
      by (intro r) (metis in_set_butlastD last_in_set)
    with True inv(1) ne b l show ?thesis unfolding recycle_def Let_def by simp
  next
    case False
    with inv(3) have "newBuffer2 a = Some new_big" by simp
    with inv(1) ne l show ?thesis unfolding recycle_def Let_def by (cases a) simp
  qed
qed

lemma back_write_ok:
  assumes ok: "async_ok a" and w: "bg a = AtWrite"
  shows "\<exists>a'. back_write localtime pid now msg a = Inr a' \<and> async_ok a' \<and> bg a' = AtTop
    \<and> buffers a' = buffers a \<and> currentBuffer a' = currentBuffer a \<and> async_running a' = async_running a
    \<and> async_basename a' = async_basename a
    \<and> (length (buffers_to_write a) \<le> 25 \<longrightarrow> logged (sink a') @ unwritten a' = logged (sink a) @ unwritten a)
    \<and> buffers_to_write a' = []
    \<and> (\<forall>f. cur_file (sink a') = Some f \<longrightarrow> flushed f = length (written_bytes f))"
proof -
  obtain a1 where a1: "drop_overload localtime pid now msg a = Inr a1" "async_ok a1" "bg a1 = AtWrite"
    "buffers a1 = buffers a" "currentBuffer a1 = currentBuffer a" "async_running a1 = async_running a"
    "async_basename a1 = async_basename a" "length (buffers_to_write a) \<le> 25 \<longrightarrow> a1 = a"
    using drop_overload_ok [OF assms, of localtime pid now msg] by blast
  have "log_ok (sink a1)" using a1(2,3) by (simp add: async_ok_def in_loop_def)
  from write_buffers_ok [OF this, of localtime pid now "buffers_to_write a1"] obtain f where
    f: "write_buffers localtime pid now (buffers_to_write a1) (sink a1) = Inr f" "log_ok f"
      "logged f = logged (sink a1) @ concat (map fb_data (buffers_to_write a1))" by blast
  have ok1: "async_ok (a1\<lparr>sink := f\<rparr>)" using a1(2,3) f(2) by (simp add: async_ok_def in_loop_def)
  let ?a2 = "a1\<lparr>sink := f, newBuffer1 := Some new_big, newBuffer2 := Some new_big, buffers_to_write := []\<rparr>"
  have r: "recycle (a1\<lparr>sink := f\<rparr>) = Inr ?a2" using recycle_ok [OF ok1] a1(3) by simp
  from Flush_spec [OF f(2), of now] obtain g where
    g: "Flush now f = Inr g" "log_ok g" "logged g = logged f"
      "\<forall>h. cur_file g = Some h \<longrightarrow> flushed h = length (written_bytes h)" by blast
  let ?a3 = "?a2\<lparr>sink := g, bg := AtTop\<rparr>"
  have "back_write localtime pid now msg a = Inr ?a3"
    using ok w a1(1) f(1) r g(1) by (simp add: back_write_def async_ok_def)
  moreover have "async_ok ?a3" using a1(2,3) g(2) by (simp add: async_ok_def spare_def in_loop_def)
  moreover have "logged (sink ?a3) @ unwritten ?a3 = logged (sink a) @ unwritten a"
    if "length (buffers_to_write a) \<le> 25"
    using that a1(8) f(3) g(3) by (simp add: unwritten_def)
  ultimately show ?thesis using a1(4-7) g(4) by auto
qed

section \<open>Runs keep the invariant\<close>

lemma async_step_ok:
  assumes ok: "async_ok a" and d: "length (event_bytes e) < kLargeBuffer" and o: "async_orderly localtime pid (e # es) a"
    and base: "CHR ''/'' \<notin> set (async_basename a)"
  shows "\<exists>a'. async_step localtime pid e a = Inr a' \<and> async_ok a' \<and> async_basename a' = async_basename a
    \<and> async_orderly localtime pid es a'
    \<and> (length (buffers_to_write a) \<le> 25 \<longrightarrow> logged (sink a') @ unwritten a' = logged (sink a) @ unwritten a @ event_bytes e)"
proof (cases e)
  case (Logged d)
  with Async_Append_ok [OF ok, of d] d o show ?thesis by auto
next
  case StartCalled
  with Async_Start_ok [OF ok] o show ?thesis by auto
next
  case StopCalled
  with Async_Stop_ok [OF ok] o show ?thesis by auto
next
  case (BackBegin now)
  with back_begin_ok [OF ok, of now localtime pid] ok o base show ?thesis by (cases "bg a = AtBegin") auto
next
  case (BackTop now)
  with back_top_ok [OF ok, of now] ok o show ?thesis by (cases "bg a = AtTop") auto
next
  case (BackSwap timed_out)
  with swap_buffers_ok [OF ok] ok o show ?thesis by (cases "bg a = AtWait \<and> \<not> must_wait timed_out a") auto
next
  case (BackWrite now msg)
  with back_write_ok [OF ok, of localtime pid now msg] ok o show ?thesis by (cases "bg a = AtWrite") auto
qed

lemma async_run_ok:
  "async_ok a \<Longrightarrow> \<forall>e \<in> set es. length (event_bytes e) < kLargeBuffer \<Longrightarrow> async_orderly localtime pid es a \<Longrightarrow>
   CHR ''/'' \<notin> set (async_basename a) \<Longrightarrow>
   \<exists>a'. async_run localtime pid es a = Inr a' \<and> async_ok a' \<and> (keeps_up localtime pid es a \<longrightarrow>
     logged (sink a') @ unwritten a' = logged (sink a) @ unwritten a @ concat (map event_bytes es))"
proof (induction es arbitrary: a)
  case (Cons e es)
  from async_step_ok [OF Cons.prems(1) _ Cons.prems(3,4)] Cons.prems(2) obtain a1 where
    a1: "async_step localtime pid e a = Inr a1" "async_ok a1" "async_basename a1 = async_basename a" "async_orderly localtime pid es a1"
      "length (buffers_to_write a) \<le> 25 \<longrightarrow> logged (sink a1) @ unwritten a1 = logged (sink a) @ unwritten a @ event_bytes e"
    by auto
  from Cons.IH [OF a1(2) _ a1(4)] Cons.prems(2,4) a1(3) obtain a' where
    "async_run localtime pid es a1 = Inr a'" "async_ok a'" "keeps_up localtime pid es a1 \<longrightarrow>
      logged (sink a') @ unwritten a' = logged (sink a1) @ unwritten a1 @ concat (map event_bytes es)" by auto
  with a1 show ?case by auto
qed simp

text \<open>Stopped before its new thread has begun, the logger fails: the thread asserts that it runs. And
  a start while the last thread still runs ends the program.\<close>

lemma stop_right_after_start:
  "async_run localtime pid [StartCalled, StopCalled, BackBegin now] (new_AsyncLogger base limit) = Inl AssertFail"
  by (simp add: new_AsyncLogger_def Async_Start_def Async_Stop_def back_begin_def)

lemma start_before_end:
  "\<not> async_running a \<Longrightarrow> in_loop a \<Longrightarrow> async_step localtime pid StartCalled a = Inl Terminated"
  by (auto simp: Async_Start_def in_loop_def)

text \<open>The wait is the wrong way round: with nothing to write the back thread does not wait at all,
  and with full buffers it sleeps on through every notification until the flush interval is over.\<close>

lemma wait_is_inverted:
  "buffers a = [] \<Longrightarrow> bg a = AtWait \<Longrightarrow> async_step localtime pid (BackSwap False) a = swap_buffers a"
  "buffers a \<noteq> [] \<Longrightarrow> async_step localtime pid (BackSwap False) a = Inr a"
  by (simp_all add: must_wait_def)

text \<open>What is not yet written when the back thread finds the logger stopped stays unwritten: the
  thread has ended, and until the logger is started again no event reaches a file.\<close>

lemma stop_loses_tail:
  assumes ok: "async_ok a" and "bg a = AtTop" and "\<not> async_running a"
  shows "\<exists>a'. async_step localtime pid (BackTop now) a = Inr a' \<and> bg a' = BackEnded
    \<and> logged (sink a') = logged (sink a) \<and> unwritten a' = unwritten a"
    "bg b = BackEnded \<Longrightarrow> e \<noteq> StartCalled \<Longrightarrow> async_step localtime pid e b = Inr b' \<Longrightarrow> sink b' = sink b \<and> bg b' = BackEnded"
proof -
  from assms have "log_ok (sink a)" by (simp add: async_ok_def in_loop_def)
  from log_file_sink.sync_law [OF this, of now] obtain f where
    "Flush now (sink a) = Inr f" "log_ok f" "logged f = logged (sink a)" by blast
  with Destruct_LogFile_spec [of f] assms(2,3) show "\<exists>a'. async_step localtime pid (BackTop now) a = Inr a' \<and> bg a' = BackEnded
    \<and> logged (sink a') = logged (sink a) \<and> unwritten a' = unwritten a"
    by (simp add: back_top_def unwritten_def)
  show "bg b = BackEnded \<Longrightarrow> e \<noteq> StartCalled \<Longrightarrow> async_step localtime pid e b = Inr b' \<Longrightarrow> sink b' = sink b \<and> bg b' = BackEnded"
    by (cases e) (auto simp: Async_Append_def Async_Stop_def Let_def ensure_Inr_iff split: option.splits if_splits)
qed

text \<open>What evaluates a short run.\<close>

lemmas async_eval = new_AsyncLogger_def no_LogFile_def Async_Start_def Async_Stop_def Async_Append_def back_begin_def
  back_top_def is_fresh_def must_wait_def swap_buffers_def back_write_def drop_overload_def recycle_def
  FixedBuffer_Append_def FixedBuffer_Reset_def Avail_def GetLength_def kLargeBuffer_def new_big_def new_FixedBuffer_def
  new_LogFile_def RoolFile_def LogFile_Append_def AppendUnlocked_def LogFile.Flush_def File_Append_def File_Flush_def
  File_Written_def Destruct_LogFile_def

section \<open>Properties\<close>

text \<open>C17. The asynchronous logger is sound: from its constructor, for every interleaving of starts,
  stops, callers and back thread that is orderly (no stop before the new thread has begun, which fails
  its assertion, \<open>stop_right_after_start\<close>, no start while the last thread still runs, a clock past the
  epoch), with a file name without slash and messages shorter than a buffer, no
  assertion fails and no null pointer is used; and while the back thread keeps up (never more than
  twenty-five buffers behind), the log files followed by what still waits in the buffers are exactly
  the messages appended, in order, none lost or repeated.\<close>

theorem async_complete:
  assumes "CHR ''/'' \<notin> set base" and "async_orderly localtime pid es (new_AsyncLogger base limit)"
    and "\<forall>e \<in> set es. length (event_bytes e) < kLargeBuffer"
  shows "\<exists>a. async_run localtime pid es (new_AsyncLogger base limit) = Inr a \<and> async_ok a
    \<and> (keeps_up localtime pid es (new_AsyncLogger base limit) \<longrightarrow>
         logged (sink a) @ unwritten a = concat (map event_bytes es))"
  using async_run_ok [OF async_ok_new assms(3,2)] assms(1) by simp

text \<open>Logging before the start, a round, a stop, the end of the thread and a second start.\<close>

theorem async_complete_witness:
  "\<exists>a. async_run first_day 1 [Logged [1, 2], StartCalled, BackBegin 5, BackTop 6, BackSwap True, Logged [3], BackWrite 7 [],
       StopCalled, BackTop 8, StartCalled, BackBegin 9, Logged [4]] (new_AsyncLogger ''app'' 100) = Inr a
     \<and> logged (sink a) @ unwritten a = [1, 2, 3, 4]"
proof -
  let ?es = "[Logged [1, 2], StartCalled, BackBegin 5, BackTop 6, BackSwap True, Logged [3], BackWrite 7 [],
       StopCalled, BackTop 8, StartCalled, BackBegin 9, Logged [4]]"
  have "keeps_up first_day 1 ?es (new_AsyncLogger ''app'' 100)" "async_orderly first_day 1 ?es (new_AsyncLogger ''app'' 100)"
    by (simp_all add: async_eval)
  moreover have "\<forall>e \<in> set ?es. length (event_bytes e) < kLargeBuffer" "concat (map event_bytes ?es) = [1, 2, 3, 4]"
    by (simp_all add: kLargeBuffer_def)
  moreover have "CHR ''/'' \<notin> set ''app''" by simp
  ultimately show ?thesis using async_complete [of "''app''" first_day 1 ?es 100] by auto
qed

text \<open>C33. One round brings everything to the file: when the back thread starts a round with at most
  twenty-four full buffers, test, swap and write succeed, and afterwards every byte taken before
  the swap is in the file and has been handed to the system, and all buffers are empty.\<close>

theorem async_round:
  assumes ok: "async_ok a" and "bg a = AtTop" and "async_running a" and "length (buffers a) \<le> 24"
  shows "\<exists>a'. async_run localtime pid [BackTop t1, BackSwap True, BackWrite t2 msg] a = Inr a'
    \<and> logged (sink a') = logged (sink a) @ unwritten a \<and> unwritten a' = [] \<and> bg a' = AtTop
    \<and> (\<forall>f. cur_file (sink a') = Some f \<longrightarrow> flushed f = length (written_bytes f))"
proof -
  from back_top_ok [OF ok assms(2), of t1] assms(3) obtain a1 where
    a1: "back_top t1 a = Inr a1" "async_ok a1" "unwritten a1 = unwritten a" "logged (sink a1) = logged (sink a)"
      "bg a1 = AtWait" "buffers a1 = buffers a" by auto
  from swap_buffers_ok [OF a1(2,5)] obtain a2 where
    a2: "swap_buffers a1 = Inr a2" "async_ok a2" "unwritten a2 = unwritten a1" "sink a2 = sink a1" "bg a2 = AtWrite"
      "length (buffers_to_write a2) = Suc (length (buffers a1))" "buffers a2 = []"
      "\<forall>cur. currentBuffer a2 = Some cur \<longrightarrow> fb_data cur = []" by blast
  from back_write_ok [OF a2(2,5), of localtime pid t2 msg] obtain a3 where
    a3: "back_write localtime pid t2 msg a2 = Inr a3" "bg a3 = AtTop" "buffers a3 = buffers a2"
      "currentBuffer a3 = currentBuffer a2" "buffers_to_write a3 = []"
      "length (buffers_to_write a2) \<le> 25 \<longrightarrow> logged (sink a3) @ unwritten a3 = logged (sink a2) @ unwritten a2"
      "\<forall>f. cur_file (sink a3) = Some f \<longrightarrow> flushed f = length (written_bytes f)" by blast
  have "unwritten a3 = []" using a3(3-5) a2(7,8) by (simp add: unwritten_def split: option.splits)
  moreover have "logged (sink a3) @ unwritten a3 = logged (sink a) @ unwritten a"
    using a3(6) a2(3,4,6) a1(3,4,6) assms(4) by simp
  ultimately show ?thesis using assms(2) a1(1,5) a2(1,5) a3(1,2,7) by (simp add: must_wait_def)
qed

theorem async_round_witness:
  "\<exists>a a'. async_ok a \<and> unwritten a = [7] \<and> async_run first_day 1 [BackTop 6, BackSwap True, BackWrite 7 []] a = Inr a'
     \<and> logged (sink a') = [7]"
proof -
  let ?n = "new_AsyncLogger ''app'' 100" and ?es = "[StartCalled, BackBegin 5, Logged [7]]"
  have o: "async_orderly first_day 1 ?es ?n" and k: "keeps_up first_day 1 ?es ?n" by (simp_all add: async_eval)
  have m: "\<forall>e \<in> set ?es. length (event_bytes e) < kLargeBuffer" by (simp add: kLargeBuffer_def)
  have b: "CHR ''/'' \<notin> set (async_basename ?n)" by simp
  from async_run_ok [OF async_ok_new m o b] k obtain a where
    a: "async_run first_day 1 ?es ?n = Inr a" "async_ok a" "logged (sink a) @ unwritten a = [7]"
    by (auto simp del: async_run.simps keeps_up.simps)
  have "case async_run first_day 1 ?es ?n of Inl e \<Rightarrow> False
    | Inr a \<Rightarrow> bg a = AtTop \<and> async_running a \<and> buffers a = [] \<and> logged (sink a) = []"
    by (simp add: async_eval logged_def)
  with a have "bg a = AtTop" "async_running a" "buffers a = []" "unwritten a = [7]" "logged (sink a) = []" by auto
  with async_round [OF a(2), of first_day 1 6 7 "[]"] a(2) show ?thesis by auto
qed

end
