(* ===== verification/ThreadPool.thy ===== *)
theory ThreadPool
  imports Prelude
begin

text \<open>
  The class \<^verbatim>\<open>ThreadPool\<close> of \<^verbatim>\<open>ThreadPool.cpp\<close>: a bounded queue of tasks between callers of
  \<^verbatim>\<open>Run\<close> and worker threads. What happens under the mutex is one step; the two condition variables
  are the sleeping workers and the sleeping callers, and a notification wakes an arbitrary sleeper, if
  there is one. A step relation interleaves workers, callers, spurious wake-ups and \<^verbatim>\<open>Stop\<close>. Tasks
  are numbers; \<open>accepted\<close>, \<open>begun\<close>, \<open>executed\<close> and \<open>refused\<close> record what became of them. Shown: tasks
  are begun in the order they were accepted, none lost or doubled, the queue keeps its bound, waiting
  tasks always find a worker; but callers blocked on a full queue can be forgotten, and a woken
  caller does not look again whether there is room.
\<close>

section \<open>State\<close>

text \<open>A worker is at the test of its loop, about to take the mutex in \<^verbatim>\<open>Take\<close>, asleep there, running
  a task, or gone. A caller in \<^verbatim>\<open>Run\<close> is asleep on the full queue, woken, or returned.\<close>

datatype worker = AtLoop | InTake | TakeAsleep | Running nat | Exited
datatype caller = RunAsleep nat | RunWoken nat | RunDone

record thread_pool =
  tp_running :: bool
  maxQueueSize :: nat
  taskQueue :: "nat list"
  workers :: "worker list"
  callers :: "caller list"
  accepted :: "nat list"
  begun :: "nat list"
  executed :: "nat list"
  refused :: "nat list"

definition new_ThreadPool :: "nat \<Rightarrow> thread_pool" where
  "new_ThreadPool n = \<lparr>tp_running = False, maxQueueSize = n, taskQueue = [], workers = [], callers = [],
     accepted = [], begun = [], executed = [], refused = []\<rparr>"

definition SetMaxQueueSize :: "nat \<Rightarrow> thread_pool \<Rightarrow> thread_pool" where
  "SetMaxQueueSize n p = p\<lparr>maxQueueSize := n\<rparr>"

definition Pool_Start :: "nat \<Rightarrow> thread_pool \<Rightarrow> thread_pool res" where
  "Pool_Start thread_num p = ensure (workers p = []) (ensure (\<not> tp_running p)
     (Inr (p\<lparr>tp_running := True, workers := replicate thread_num AtLoop\<rparr>)))"

section \<open>Condition variables\<close>

text \<open>\<open>sleeper i P xs\<close>: a notification may wake the sleeper at \<open>i\<close>, or nobody sleeps.\<close>

definition sleeper :: "nat \<Rightarrow> ('a \<Rightarrow> bool) \<Rightarrow> 'a list \<Rightarrow> bool" where
  "sleeper i P xs \<longleftrightarrow> (if i < length xs then P (xs ! i) else True) \<and> (length xs \<le> i \<longrightarrow> (\<forall>x \<in> set xs. \<not> P x))"

definition wake_worker :: "nat \<Rightarrow> worker list \<Rightarrow> worker list" where
  "wake_worker i ws = (if i < length ws \<and> ws ! i = TakeAsleep then ws[i := InTake] else ws)"

fun woken :: "caller \<Rightarrow> caller" where
  "woken (RunAsleep t) = RunWoken t"
| "woken c = c"

fun is_asleep :: "caller \<Rightarrow> bool" where
  "is_asleep (RunAsleep t) \<longleftrightarrow> True"
| "is_asleep c \<longleftrightarrow> False"

definition wake_caller :: "nat \<Rightarrow> caller list \<Rightarrow> caller list" where
  "wake_caller i cs = (if i < length cs then cs[i := woken (cs ! i)] else cs)"

definition wake_all :: "worker list \<Rightarrow> worker list" where
  "wake_all ws = map (\<lambda>w. if w = TakeAsleep then InTake else w) ws"

section \<open>Operations under the mutex\<close>

definition IsFull :: "thread_pool \<Rightarrow> bool" where
  "IsFull p \<longleftrightarrow> 0 < maxQueueSize p \<and> length (taskQueue p) = maxQueueSize p"

text \<open>\<^verbatim>\<open>Take\<close> by worker \<open>w\<close>; \<open>j\<close> is the caller a notification would wake. Without a task and
  without \<^verbatim>\<open>running_\<close> it returns an empty task, and the worker is back at its loop.\<close>

definition Take :: "nat \<Rightarrow> nat \<Rightarrow> thread_pool \<Rightarrow> thread_pool" where
  "Take w j p = (case taskQueue p of
       [] \<Rightarrow> p\<lparr>workers := (workers p)[w := if tp_running p then TakeAsleep else AtLoop]\<rparr>
     | t # ts \<Rightarrow> p\<lparr>taskQueue := ts, begun := begun p @ [t], workers := (workers p)[w := Running t],
         callers := if 0 < maxQueueSize p \<and> length ts = maxQueueSize p - 1
           then wake_caller j (callers p) else callers p\<rparr>)"

text \<open>The part of \<^verbatim>\<open>Run\<close> after the wait; \<open>i\<close> is the worker a notification would wake.\<close>

definition Run_finish :: "nat \<Rightarrow> nat \<Rightarrow> thread_pool \<Rightarrow> thread_pool res" where
  "Run_finish i task p =
     (if \<not> tp_running p then Inr (p\<lparr>refused := refused p @ [task]\<rparr>)
      else ensure (\<not> IsFull p)
        (Inr (p\<lparr>taskQueue := taskQueue p @ [task], accepted := accepted p @ [task],
                workers := wake_worker i (workers p)\<rparr>)))"

definition Pool_Run :: "nat \<Rightarrow> nat \<Rightarrow> thread_pool \<Rightarrow> thread_pool res" where
  "Pool_Run i task p =
     (if workers p = [] then Inr (p\<lparr>executed := executed p @ [task]\<rparr>)
      else if IsFull p \<and> tp_running p then Inr (p\<lparr>callers := callers p @ [RunAsleep task]\<rparr>)
      else Run_finish i task p)"

definition Pool_Stop :: "thread_pool \<Rightarrow> thread_pool res" where
  "Pool_Stop p = ensure (tp_running p)
     (Inr (p\<lparr>tp_running := False, workers := wake_all (workers p), callers := map woken (callers p)\<rparr>))"

text \<open>The destructor.\<close>

definition Destruct_ThreadPool :: "thread_pool \<Rightarrow> thread_pool res" where
  "Destruct_ThreadPool p = (if tp_running p then Pool_Stop p else Inr p)"

definition TaskQueueSize :: "thread_pool \<Rightarrow> nat" where
  "TaskQueueSize p = length (taskQueue p)"

text \<open>The test of the loop of \<^verbatim>\<open>ThreadFunc\<close>, and the end of a task.\<close>

definition loop_test :: "nat \<Rightarrow> thread_pool \<Rightarrow> thread_pool" where
  "loop_test w p = p\<lparr>workers := (workers p)[w := if tp_running p then InTake else Exited]\<rparr>"

definition task_done :: "nat \<Rightarrow> nat \<Rightarrow> thread_pool \<Rightarrow> thread_pool" where
  "task_done w t p = p\<lparr>workers := (workers p)[w := AtLoop], executed := executed p @ [t]\<rparr>"

section \<open>Steps\<close>

inductive tp_step :: "thread_pool \<Rightarrow> thread_pool res \<Rightarrow> bool" where
  worker_loop: "w < length (workers p) \<Longrightarrow> workers p ! w = AtLoop \<Longrightarrow> tp_step p (Inr (loop_test w p))"
| worker_take: "w < length (workers p) \<Longrightarrow> workers p ! w = InTake \<Longrightarrow> sleeper j is_asleep (callers p) \<Longrightarrow>
    tp_step p (Inr (Take w j p))"
| worker_done: "w < length (workers p) \<Longrightarrow> workers p ! w = Running t \<Longrightarrow> tp_step p (Inr (task_done w t p))"
| worker_spurious: "w < length (workers p) \<Longrightarrow> workers p ! w = TakeAsleep \<Longrightarrow>
    tp_step p (Inr (p\<lparr>workers := wake_worker w (workers p)\<rparr>))"
| caller_run: "sleeper i (\<lambda>w. w = TakeAsleep) (workers p) \<Longrightarrow> tp_step p (Pool_Run i t p)"
| caller_resume: "k < length (callers p) \<Longrightarrow> callers p ! k = RunWoken t \<Longrightarrow>
    sleeper i (\<lambda>w. w = TakeAsleep) (workers p) \<Longrightarrow>
    tp_step p (Run_finish i t (p\<lparr>callers := (callers p)[k := RunDone]\<rparr>))"
| caller_spurious: "k < length (callers p) \<Longrightarrow> callers p ! k = RunAsleep t \<Longrightarrow>
    tp_step p (Inr (p\<lparr>callers := wake_caller k (callers p)\<rparr>))"
| stop: "tp_running p \<Longrightarrow> tp_step p (Pool_Stop p)"

inductive_cases tp_step_InrE: "tp_step p (Inr p')"

lemmas tp_stepE = tp_step_InrE [consumes 1, case_names worker_loop worker_take worker_done worker_spurious
  caller_run caller_resume caller_spurious stop]

inductive tp_reach :: "thread_pool \<Rightarrow> thread_pool \<Rightarrow> bool" for p0 where
  here: "tp_reach p0 p0"
| there: "tp_reach p0 p \<Longrightarrow> tp_step p (Inr p') \<Longrightarrow> tp_reach p0 p'"

lemma tp_reach_trans: "tp_reach a b \<Longrightarrow> tp_reach b c \<Longrightarrow> tp_reach a c"
  by (rotate_tac 1, induction rule: tp_reach.induct) (auto intro: tp_reach.intros)

section \<open>The invariant\<close>

definition running_tasks :: "worker list \<Rightarrow> nat list" where
  "running_tasks ws = concat (map (\<lambda>w. case w of Running t \<Rightarrow> [t] | _ \<Rightarrow> []) ws)"

definition tp_ok :: "thread_pool \<Rightarrow> bool" where
  "tp_ok p \<longleftrightarrow> workers p \<noteq> [] \<and> begun p @ taskQueue p = accepted p
     \<and> mset (executed p) + mset (running_tasks (workers p)) = mset (begun p)
     \<and> (0 < maxQueueSize p \<longrightarrow> length (taskQueue p) \<le> maxQueueSize p)
     \<and> (tp_running p \<longrightarrow> Exited \<notin> set (workers p))
     \<and> (tp_running p \<and> taskQueue p \<noteq> [] \<longrightarrow> (\<exists>w \<in> set (workers p). w \<noteq> TakeAsleep))"

lemma running_tasks_update:
  assumes "w < length ws"
  shows "mset (running_tasks (ws[w := x])) + mset (running_tasks [ws ! w])
    = mset (running_tasks ws) + mset (running_tasks [x])"
proof -
  have "ws = take w ws @ ws ! w # drop (Suc w) ws" using assms by (rule id_take_nth_drop)
  moreover have "ws[w := x] = take w ws @ x # drop (Suc w) ws" using assms by (rule upd_conv_take_nth_drop)
  ultimately have "mset (running_tasks ws) = mset (running_tasks (take w ws)) + mset (running_tasks [ws ! w])
      + mset (running_tasks (drop (Suc w) ws))"
    "mset (running_tasks (ws[w := x])) = mset (running_tasks (take w ws)) + mset (running_tasks [x])
      + mset (running_tasks (drop (Suc w) ws))"
    by (metis append_Cons append_Nil concat_append map_append mset_append running_tasks_def union_assoc)+
  then show ?thesis by simp
qed

lemma running_tasks_simps [simp]:
  "running_tasks [AtLoop] = []" "running_tasks [InTake] = []" "running_tasks [TakeAsleep] = []"
  "running_tasks [Exited] = []" "running_tasks [Running t] = [t]" "running_tasks (replicate n AtLoop) = []"
  by (simp_all add: running_tasks_def)

text \<open>Changing one worker that runs no task to another such state.\<close>

lemma running_tasks_idle:
  assumes "w < length ws" and "running_tasks [ws ! w] = []" and "running_tasks [x] = []"
  shows "mset (running_tasks (ws[w := x])) = mset (running_tasks ws)"
  using running_tasks_update [OF assms(1), of x] assms(2,3) by simp

lemma wake_worker_running: "mset (running_tasks (wake_worker i ws)) = mset (running_tasks ws)"
  by (simp add: wake_worker_def running_tasks_idle)

lemma wake_worker_length [simp]: "length (wake_worker i ws) = length ws" "wake_worker i ws = [] \<longleftrightarrow> ws = []"
  by (simp_all add: wake_worker_def)

lemma wake_worker_Exited: "Exited \<in> set (wake_worker i ws) \<Longrightarrow> Exited \<in> set ws"
  by (auto simp: wake_worker_def dest!: set_update_subset_insert [THEN subsetD] split: if_splits)

lemma wake_all_running: "running_tasks (wake_all ws) = running_tasks ws"
  unfolding running_tasks_def wake_all_def map_map comp_def
  by (rule arg_cong [where f = concat], rule map_cong) simp_all

lemma wake_all_Nil [simp]: "wake_all ws = [] \<longleftrightarrow> ws = []"
  by (simp add: wake_all_def)

text \<open>A notification leaves a worker that is awake, whoever was.\<close>

lemma wake_worker_awake:
  assumes "sleeper i (\<lambda>w. w = TakeAsleep) ws" and "ws \<noteq> []"
  shows "\<exists>w \<in> set (wake_worker i ws). w \<noteq> TakeAsleep"
proof (cases "i < length ws")
  case True
  then have "wake_worker i ws ! i = InTake" "i < length (wake_worker i ws)"
    using assms by (simp_all add: sleeper_def wake_worker_def)
  then show ?thesis by (metis nth_mem worker.distinct(9))
next
  case False
  then have "\<forall>x \<in> set ws. x \<noteq> TakeAsleep" "wake_worker i ws = ws" using assms(1) by (auto simp: sleeper_def wake_worker_def)
  with assms(2) show ?thesis by (metis list.set_intros(1) neq_Nil_conv)
qed

lemma sleeper_exists: "\<exists>i. sleeper i P xs"
proof (cases "\<exists>x \<in> set xs. P x")
  case True
  then obtain i where "i < length xs" "P (xs ! i)" by (auto simp: in_set_conv_nth)
  then show ?thesis by (auto simp: sleeper_def intro: exI [of _ i])
next
  case False
  then show ?thesis by (auto simp: sleeper_def intro: exI [of _ "length xs"])
qed

lemma tp_ok_workers:
  assumes ok: "tp_ok p" and w: "w < length (workers p)" and idle: "running_tasks [workers p ! w] = []"
    and x: "running_tasks [x] = []" "x = Exited \<longrightarrow> \<not> tp_running p" "x = TakeAsleep \<longrightarrow> \<not> tp_running p \<or> taskQueue p = []"
  shows "tp_ok (p\<lparr>workers := (workers p)[w := x]\<rparr>)"
proof -
  have "Exited \<notin> set ((workers p)[w := x])" if "tp_running p"
    using ok x(2) that by (auto simp: tp_ok_def dest!: set_update_subset_insert [THEN subsetD])
  moreover have "\<exists>v \<in> set ((workers p)[w := x]). v \<noteq> TakeAsleep" if "tp_running p" "taskQueue p \<noteq> []"
    using x(3) that set_update_memI [OF w, of x] by auto
  moreover have "workers p \<noteq> []" using ok by (simp add: tp_ok_def)
  ultimately show ?thesis using ok running_tasks_idle [OF w idle x(1)] by (simp add: tp_ok_def)
qed

lemma tp_ok_Take:
  assumes ok: "tp_ok p" and w: "w < length (workers p)" "workers p ! w = InTake"
  shows "tp_ok (Take w j p)"
proof (cases "taskQueue p")
  case Nil
  then have "Take w j p = p\<lparr>workers := (workers p)[w := if tp_running p then TakeAsleep else AtLoop]\<rparr>"
    by (simp add: Take_def)
  with tp_ok_workers [OF ok w(1)] w(2) Nil show ?thesis by simp
next
  case (Cons t ts)
  have "mset (running_tasks ((workers p)[w := Running t])) = add_mset t (mset (running_tasks (workers p)))"
    using running_tasks_update [OF w(1), of "Running t"] w(2) by simp
  moreover have "Running t \<in> set ((workers p)[w := Running t])" by (rule set_update_memI [OF w(1)])
  moreover have "Exited \<notin> set ((workers p)[w := Running t])" if "tp_running p"
    using ok that by (auto simp: tp_ok_def dest!: set_update_subset_insert [THEN subsetD])
  ultimately show ?thesis using ok Cons by (auto simp: tp_ok_def Take_def)
qed

lemma tp_ok_Run_finish:
  assumes ok: "tp_ok p" and s: "sleeper i (\<lambda>w. w = TakeAsleep) (workers p)" and r: "Run_finish i t p = Inr p'"
  shows "tp_ok p'"
proof (cases "tp_running p")
  case True
  then have p': "p' = p\<lparr>taskQueue := taskQueue p @ [t], accepted := accepted p @ [t],
      workers := wake_worker i (workers p)\<rparr>" and nf: "\<not> IsFull p"
    using r by (auto simp: Run_finish_def ensure_Inr_iff)
  have "\<exists>w \<in> set (wake_worker i (workers p)). w \<noteq> TakeAsleep"
    using ok by (intro wake_worker_awake [OF s]) (simp add: tp_ok_def)
  then show ?thesis using ok nf True wake_worker_Exited
    by (auto simp: p' tp_ok_def IsFull_def wake_worker_running)
qed (use ok r in \<open>auto simp: Run_finish_def tp_ok_def\<close>)

lemma tp_ok_cong:
  "tp_ok p \<Longrightarrow> workers p' = workers p \<Longrightarrow> taskQueue p' = taskQueue p \<Longrightarrow> begun p' = begun p \<Longrightarrow>
   executed p' = executed p \<Longrightarrow> accepted p' = accepted p \<Longrightarrow> tp_running p' = tp_running p \<Longrightarrow>
   maxQueueSize p' = maxQueueSize p \<Longrightarrow> tp_ok p'"
  by (simp add: tp_ok_def)

lemma tp_ok_step:
  assumes "tp_step p (Inr p')" and ok: "tp_ok p"
  shows "tp_ok p'"
  using assms(1)
proof (cases rule: tp_stepE)
  case (worker_loop w)
  then show ?thesis using tp_ok_workers [OF ok worker_loop(2)] by (simp add: loop_test_def)
next
  case (worker_take w j)
  then show ?thesis using tp_ok_Take [OF ok] by simp
next
  case (worker_done w t)
  have "add_mset t (mset (running_tasks ((workers p)[w := AtLoop]))) = mset (running_tasks (workers p))"
    using running_tasks_update [OF worker_done(2), of AtLoop] worker_done(3) by simp
  moreover have "mset (executed p) + mset (running_tasks (workers p)) = mset (begun p)" using ok by (simp add: tp_ok_def)
  ultimately have "add_mset t (mset (executed p) + mset (running_tasks ((workers p)[w := AtLoop]))) = mset (begun p)"
    by (metis union_mset_add_mset_right)
  moreover have "AtLoop \<in> set ((workers p)[w := AtLoop])" by (rule set_update_memI [OF worker_done(2)])
  moreover have "Exited \<notin> set ((workers p)[w := AtLoop])" if "tp_running p"
    using ok that by (auto simp: tp_ok_def dest!: set_update_subset_insert [THEN subsetD])
  ultimately show ?thesis using ok worker_done(1) by (auto simp: tp_ok_def task_done_def)
next
  case (worker_spurious w)
  then show ?thesis using tp_ok_workers [OF ok worker_spurious(2), of InTake] by (simp add: wake_worker_def)
next
  case (caller_run i t)
  have ne: "workers p \<noteq> []" using ok by (simp add: tp_ok_def)
  show ?thesis
  proof (cases "IsFull p \<and> tp_running p")
    case True
    with caller_run ne have "p' = p\<lparr>callers := callers p @ [RunAsleep t]\<rparr>" by (simp add: Pool_Run_def)
    then show ?thesis by (intro tp_ok_cong [OF ok]) simp_all
  next
    case False
    with caller_run ne have "Run_finish i t p = Inr p'" by (simp add: Pool_Run_def)
    with tp_ok_Run_finish [OF ok] caller_run show ?thesis by blast
  qed
next
  case (caller_resume k t i)
  have "tp_ok (p\<lparr>callers := (callers p)[k := RunDone]\<rparr>)" by (rule tp_ok_cong [OF ok]) simp_all
  with tp_ok_Run_finish caller_resume show ?thesis by simp
next
  case (caller_spurious k t)
  then show ?thesis by (intro tp_ok_cong [OF ok]) simp_all
next
  case stop
  then show ?thesis using ok
    by (auto simp: Pool_Stop_def tp_ok_def wake_all_running ensure_Inr_iff)
qed

lemma tp_ok_reach: "tp_reach p0 p \<Longrightarrow> tp_ok p0 \<Longrightarrow> tp_ok p"
  by (induction rule: tp_reach.induct) (auto intro: tp_ok_step)

lemma tp_ok_start:
  assumes "0 < n" and "Pool_Start n (new_ThreadPool m) = Inr p"
  shows "tp_ok p \<and> tp_running p \<and> maxQueueSize p = m"
  using assms by (auto simp: Pool_Start_def new_ThreadPool_def tp_ok_def)

text \<open>A worker that is awake gets to the first task.\<close>

lemma take_begins:
  assumes "w < length (workers p)" and "workers p ! w = InTake" and "taskQueue p = t # ts"
  shows "\<exists>p'. tp_step p (Inr p') \<and> begun p' = begun p @ [t] \<and> taskQueue p' = ts"
proof -
  obtain j where "sleeper j is_asleep (callers p)" using sleeper_exists by blast
  with assms worker_take have "tp_step p (Inr (Take w j p))" by blast
  moreover have "begun (Take w j p) = begun p @ [t]" "taskQueue (Take w j p) = ts"
    using assms(3) by (simp_all add: Take_def)
  ultimately show ?thesis by blast
qed

lemma loop_begins:
  assumes "w < length (workers p)" and "workers p ! w = AtLoop" and "tp_running p" and "taskQueue p = t # ts"
  shows "\<exists>p'. tp_reach p p' \<and> begun p' = begun p @ [t] \<and> taskQueue p' = ts"
proof -
  have s: "tp_step p (Inr (loop_test w p))" using assms(1,2) by (rule worker_loop)
  have "\<exists>p'. tp_step (loop_test w p) (Inr p') \<and> begun p' = begun (loop_test w p) @ [t] \<and> taskQueue p' = ts"
    by (rule take_begins [of w]) (use assms in \<open>simp_all add: loop_test_def\<close>)
  with there [OF there [OF here s]] show ?thesis by (auto simp: loop_test_def)
qed

lemma backlog_begins:
  assumes ok: "tp_ok p" and run: "tp_running p" and q: "taskQueue p = t # ts"
  shows "\<exists>p'. tp_reach p p' \<and> begun p' = begun p @ [t] \<and> taskQueue p' = ts"
proof -
  obtain w where w: "w < length (workers p)" "workers p ! w \<noteq> TakeAsleep"
    using ok run q by (auto simp: tp_ok_def in_set_conv_nth)
  have "workers p ! w \<noteq> Exited" using ok run w(1) by (metis nth_mem tp_ok_def)
  with w(2) consider "workers p ! w = AtLoop" | "workers p ! w = InTake" | u where "workers p ! w = Running u"
    by (cases "workers p ! w") auto
  then show ?thesis
  proof cases
    case 1
    then show ?thesis by (rule loop_begins [OF w(1) _ run q])
  next
    case 2
    then show ?thesis using take_begins [OF w(1) _ q] there [OF here] by blast
  next
    case 3
    then have s: "tp_step p (Inr (task_done w u p))" by (rule worker_done [OF w(1)])
    have "\<exists>p'. tp_reach (task_done w u p) p' \<and> begun p' = begun (task_done w u p) @ [t] \<and> taskQueue p' = ts"
      by (rule loop_begins [of w]) (use w(1) run q in \<open>simp_all add: task_done_def\<close>)
    with tp_reach_trans [OF there [OF here s]] show ?thesis by (auto simp: task_done_def)
  qed
qed

section \<open>Schedules\<close>

text \<open>A schedule names the steps; it is run by a function.\<close>

datatype tp_action = DoLoop nat | DoTake nat nat | DoDone nat | DoRun nat nat | DoResume nat nat

definition guarded :: "bool \<Rightarrow> 'a res \<Rightarrow> 'a res option" where
  "guarded c r = (if c then Some r else None)"

fun tp_exec :: "tp_action \<Rightarrow> thread_pool \<Rightarrow> thread_pool res option" where
  "tp_exec (DoLoop w) p = guarded (w < length (workers p) \<and> workers p ! w = AtLoop) (Inr (loop_test w p))"
| "tp_exec (DoTake w j) p = guarded (w < length (workers p) \<and> workers p ! w = InTake \<and> sleeper j is_asleep (callers p))
     (Inr (Take w j p))"
| "tp_exec (DoDone w) p = (if w < length (workers p)
     then (case workers p ! w of Running t \<Rightarrow> Some (Inr (task_done w t p)) | _ \<Rightarrow> None) else None)"
| "tp_exec (DoRun i t) p = guarded (sleeper i (\<lambda>w. w = TakeAsleep) (workers p)) (Pool_Run i t p)"
| "tp_exec (DoResume k i) p = (if k < length (callers p) \<and> sleeper i (\<lambda>w. w = TakeAsleep) (workers p)
     then (case callers p ! k of RunWoken t \<Rightarrow> Some (Run_finish i t (p\<lparr>callers := (callers p)[k := RunDone]\<rparr>)) | _ \<Rightarrow> None)
     else None)"

fun tp_schedule :: "tp_action list \<Rightarrow> thread_pool \<Rightarrow> thread_pool option" where
  "tp_schedule [] p = Some p"
| "tp_schedule (a # as) p = (case tp_exec a p of Some (Inr p') \<Rightarrow> tp_schedule as p' | _ \<Rightarrow> None)"

lemma tp_exec_step: "tp_exec a p = Some r \<Longrightarrow> tp_step p r"
  by (cases a) (auto simp: guarded_def intro: tp_step.intros split: if_splits worker.splits caller.splits)

lemma tp_schedule_reach: "tp_schedule as p = Some p' \<Longrightarrow> tp_reach p p'"
proof (induction as arbitrary: p)
  case (Cons a as)
  then obtain q where "tp_exec a p = Some (Inr q)" "tp_schedule as q = Some p'"
    by (auto split: option.splits sum.splits)
  with Cons.IH tp_exec_step tp_reach_trans [OF there [OF here]] show ?case by blast
qed (simp add: here)

definition demo_pool :: "nat \<Rightarrow> thread_pool" where
  "demo_pool m = (new_ThreadPool m)\<lparr>tp_running := True, workers := [AtLoop]\<rparr>"

lemma demo_pool_start: "Pool_Start 1 (new_ThreadPool m) = Inr (demo_pool m)"
  by (simp add: Pool_Start_def demo_pool_def new_ThreadPool_def)

text \<open>One worker, a queue of two: the callers of tasks 3 and 4 find it full.\<close>

definition forgotten_schedule :: "tp_action list" where
  "forgotten_schedule = [DoRun 9 1, DoRun 9 2, DoRun 9 3, DoRun 9 4,
     DoLoop 0, DoTake 0 0, DoDone 0, DoLoop 0, DoTake 0 1, DoDone 0, DoResume 0 9,
     DoLoop 0, DoTake 0 1, DoDone 0, DoLoop 0, DoTake 0 1]"

text \<open>A queue of one: task 3 is put in before the woken caller of task 2 comes round.\<close>

definition overtaken_schedule :: "tp_action list" where
  "overtaken_schedule = [DoRun 9 1, DoRun 9 2, DoLoop 0, DoTake 0 0, DoRun 9 3]"

lemma forgotten_run: "\<exists>p. tp_schedule forgotten_schedule (demo_pool 2) = Some p
  \<and> tp_running p \<and> taskQueue p = [] \<and> workers p = [TakeAsleep] \<and> callers p = [RunDone, RunAsleep 4] \<and> executed p = [1, 2, 3]"
  by (simp add: forgotten_schedule_def demo_pool_def new_ThreadPool_def guarded_def sleeper_def Pool_Run_def IsFull_def
      Run_finish_def wake_worker_def loop_test_def Take_def task_done_def wake_caller_def)

lemma overtaken_run: "\<exists>p. tp_schedule overtaken_schedule (demo_pool 1) = Some p
  \<and> tp_exec (DoResume 0 9) p = Some (Inl AssertFail)"
  by (simp add: overtaken_schedule_def demo_pool_def new_ThreadPool_def guarded_def sleeper_def Pool_Run_def IsFull_def
      Run_finish_def wake_worker_def loop_test_def Take_def task_done_def wake_caller_def)

section \<open>Properties\<close>

text \<open>C18. Tasks go through the pool in order and none is lost: in every state a started pool with
  workers reaches, the tasks begun followed by the tasks waiting are the tasks accepted, in
  order; every task begun is being run by exactly one worker or has been executed once; and a
  bounded queue keeps its bound.\<close>

theorem pool_fifo:
  assumes "0 < n" and "Pool_Start n (new_ThreadPool m) = Inr p0" and "tp_reach p0 p"
  shows "begun p @ taskQueue p = accepted p
    \<and> mset (executed p) + mset (running_tasks (workers p)) = mset (begun p)
    \<and> (0 < maxQueueSize p \<longrightarrow> length (taskQueue p) \<le> maxQueueSize p)"
proof -
  have "tp_ok p" using tp_ok_reach [OF assms(3)] tp_ok_start [OF assms(1,2)] by blast
  then show ?thesis by (simp add: tp_ok_def)
qed

theorem pool_fifo_witness:
  "\<exists>p. tp_reach (demo_pool 2) p \<and> accepted p = [1, 2, 3] \<and> executed p = [1, 2, 3]"
proof -
  from forgotten_run obtain p where p: "tp_schedule forgotten_schedule (demo_pool 2) = Some p"
    "taskQueue p = []" "workers p = [TakeAsleep]" "executed p = [1, 2, 3]" by blast
  have r: "tp_reach (demo_pool 2) p" by (rule tp_schedule_reach [OF p(1)])
  from p(1) have "begun p = [1, 2, 3]"
    by (auto simp: forgotten_schedule_def demo_pool_def new_ThreadPool_def guarded_def sleeper_def Pool_Run_def IsFull_def
      Run_finish_def wake_worker_def loop_test_def Take_def task_done_def wake_caller_def)
  with pool_fifo [OF _ demo_pool_start r] p r show ?thesis by auto
qed

text \<open>C34. No waiting task is forgotten: in every state a running pool with workers reaches in which
  tasks wait, some worker is awake, and the first task can be begun from there by steps of that
  worker alone.\<close>

theorem pool_progress:
  assumes "0 < n" and "Pool_Start n (new_ThreadPool m) = Inr p0" and "tp_reach p0 p"
    and "tp_running p" and "taskQueue p = t # ts"
  shows "(\<exists>w \<in> set (workers p). w \<noteq> TakeAsleep \<and> w \<noteq> Exited)
    \<and> (\<exists>p'. tp_reach p p' \<and> begun p' = begun p @ [t] \<and> taskQueue p' = ts)"
proof -
  have ok: "tp_ok p" using tp_ok_reach [OF assms(3)] tp_ok_start [OF assms(1,2)] by blast
  with assms(4,5) have "\<exists>w \<in> set (workers p). w \<noteq> TakeAsleep \<and> w \<noteq> Exited" by (auto simp: tp_ok_def)
  with backlog_begins [OF ok assms(4,5)] show ?thesis by blast
qed

theorem pool_progress_witness:
  "\<exists>p p'. tp_reach (demo_pool 0) p \<and> taskQueue p = [7] \<and> tp_reach p p' \<and> begun p' = [7]"
proof -
  let ?p = "(demo_pool 0)\<lparr>taskQueue := [7], accepted := [7]\<rparr>"
  have "tp_schedule [DoRun 9 7] (demo_pool 0) = Some ?p"
    by (simp add: demo_pool_def new_ThreadPool_def guarded_def sleeper_def Pool_Run_def IsFull_def Run_finish_def wake_worker_def)
  then have r: "tp_reach (demo_pool 0) ?p" by (rule tp_schedule_reach)
  have "tp_running ?p" "taskQueue ?p = 7 # []" "begun ?p = []" by (simp_all add: demo_pool_def new_ThreadPool_def)
  with pool_progress [OF _ demo_pool_start r, of 7 "[]"] r show ?thesis by auto
qed

text \<open>Callers blocked on a full queue are badly served. With a queue of two a running pool can
  reach a state in which the queue is empty and the only worker sleeps while a caller still
  sleeps on the full queue: its notification was skipped. With a queue of one, a caller that was
  woken can find the queue full again, and the assertion after the wait fails.\<close>

lemma blocked_callers:
  "(\<exists>p. tp_reach (demo_pool 2) p \<and> tp_running p \<and> taskQueue p = [] \<and> workers p = [TakeAsleep]
      \<and> RunAsleep 4 \<in> set (callers p))
   \<and> (\<exists>p. tp_reach (demo_pool 1) p \<and> tp_step p (Inl AssertFail))"
proof
  from forgotten_run obtain p where p: "tp_schedule forgotten_schedule (demo_pool 2) = Some p" "tp_running p"
    "taskQueue p = []" "workers p = [TakeAsleep]" "callers p = [RunDone, RunAsleep 4]" by blast
  from tp_schedule_reach [OF p(1)] p(2-5) show "\<exists>p. tp_reach (demo_pool 2) p \<and> tp_running p \<and> taskQueue p = []
      \<and> workers p = [TakeAsleep] \<and> RunAsleep 4 \<in> set (callers p)" by (intro exI [of _ p]) simp
  from overtaken_run obtain q where "tp_schedule overtaken_schedule (demo_pool 1) = Some q"
    "tp_exec (DoResume 0 9) q = Some (Inl AssertFail)" by blast
  with tp_schedule_reach tp_exec_step show "\<exists>p. tp_reach (demo_pool 1) p \<and> tp_step p (Inl AssertFail)" by blast
qed

end
