(* ===== verification/TcpClient.thy ===== *)
theory TcpClient
  imports Connector TcpServer LogStream
begin

text \<open>
  The class \<^verbatim>\<open>TcpClient\<close> of \<^verbatim>\<open>TcpClient.cpp\<close> over the models of \<^verbatim>\<open>Connector\<close> and of the life
  of a connection. A run interleaves the calls of the user, from any thread, with the tasks, timers
  and events of the loop. User callbacks other than their being called are left out. Shown: in every run that connects
  only from rest and does not destroy the client between a shutdown and the close of the peer, no
  assertion fails, at most one connection is alive and it is the one the client holds; with retry enabled
  a lost connection is replaced. The two restrictions are needed, and a shutdown during an attempt
  leaves nothing that can stop it.
\<close>

section \<open>State\<close>

record client_conn =
  cc_name :: string
  cc_fd :: int
  cc_life :: conn_life
  cc_ups :: nat
  cc_downs :: nat

text \<open>\<open>cc_objs\<close> is the connections ever made, a connection is its position there; \<open>force_closes\<close>
  the tasks the destructor queues; \<open>fds_closed\<close> the descriptors closed because the client was gone.\<close>

record client =
  con :: connector
  clientName :: string
  doConnect :: bool
  retry_on :: bool
  nextConnId :: "32 word"
  connection :: "nat option"
  client_alive :: bool
  cc_objs :: "client_conn list"
  force_closes :: "nat list"
  fds_closed :: "int list"

definition new_TcpClient :: "string \<Rightarrow> client" where
  "new_TcpClient nm = \<lparr>con = new_Connector, clientName = nm, doConnect = False, retry_on = False,
     nextConnId = 1, connection = None, client_alive = True, cc_objs = [], force_closes = [], fds_closed = []\<rparr>"

definition conn_up :: "nat \<Rightarrow> client \<Rightarrow> client" where
  "conn_up n c = c\<lparr>cc_objs := (cc_objs c)[n := (cc_objs c ! n)\<lparr>cc_ups := cc_ups (cc_objs c ! n) + 1\<rparr>]\<rparr>"

definition conn_down :: "nat \<Rightarrow> client \<Rightarrow> client" where
  "conn_down n c = c\<lparr>cc_objs := (cc_objs c)[n := (cc_objs c ! n)\<lparr>cc_downs := cc_downs (cc_objs c ! n) + 1\<rparr>]\<rparr>"

definition on_conn :: "(conn_life \<Rightarrow> conn_life res) \<Rightarrow> nat \<Rightarrow> client \<Rightarrow> client res" where
  "on_conn f n c = mapR (\<lambda>l. c\<lparr>cc_objs := (cc_objs c)[n := (cc_objs c ! n)\<lparr>cc_life := l\<rparr>]\<rparr>) (f (cc_life (cc_objs c ! n)))"

section \<open>Operations\<close>

definition Connect :: "bool \<Rightarrow> int \<times> int \<Rightarrow> client \<Rightarrow> client res" where
  "Connect inl k c = mapR (\<lambda>g. c\<lparr>doConnect := True, con := g\<rparr>) (Connector.Start inl k (con c))"

definition Shutdown :: "client \<Rightarrow> client res" where
  "Shutdown c =
     (if doConnect c
      then let c1 = c\<lparr>doConnect := False\<rparr>
           in case connection c1 of None \<Rightarrow> Inr c1 | Some n \<Rightarrow> on_conn life_shutdown n c1
      else Inr c)"

definition Stop :: "client \<Rightarrow> client" where
  "Stop c = (if doConnect c then c\<lparr>doConnect := False, con := Connector.Stop (con c)\<rparr> else c)"

definition EnableRetry :: "client \<Rightarrow> client" where
  "EnableRetry c = c\<lparr>retry_on := True\<rparr>"

text \<open>\<^verbatim>\<open>snprintf\<close> into 32 bytes keeps 31 characters, and \<^verbatim>\<open>%d\<close> reads the counter as signed.\<close>

definition client_conn_name :: "string \<Rightarrow> client \<Rightarrow> string" where
  "client_conn_name ipport c = clientName c @ take 31 ('':'' @ ipport @ ''#'' @ int_to_string (sint (nextConnId c)))"

definition HandleConnectSuccessfully :: "bool \<Rightarrow> int \<Rightarrow> string \<Rightarrow> client \<Rightarrow> client res" where
  "HandleConnectSuccessfully inl sockfd ipport c = loop_only inl
     (let n = length (cc_objs c);
          c1 = c\<lparr>nextConnId := nextConnId c + 1, connection := Some n, cc_objs := cc_objs c @
            [\<lparr>cc_name = client_conn_name ipport c, cc_fd = sockfd, cc_life = new_life, cc_ups = 0, cc_downs = 0\<rparr>]\<rparr>
      in mapR (conn_up n) (on_conn life_establish n c1))"

text \<open>The callback \<^verbatim>\<open>CreateTcpClient\<close> gives to the connector.\<close>

definition connected_cb :: "bool \<Rightarrow> int \<Rightarrow> string \<Rightarrow> client \<Rightarrow> client res" where
  "connected_cb inl sockfd ipport c =
     (if client_alive c then HandleConnectSuccessfully inl sockfd ipport c
      else Inr (c\<lparr>fds_closed := fds_closed c @ [sockfd]\<rparr>))"

definition connector_writable :: "bool \<Rightarrow> int \<Rightarrow> string \<Rightarrow> client \<Rightarrow> client res" where
  "connector_writable inl err ipport c = bindR (Connector.HandleWrite inl err (con c)) (\<lambda>g.
     let c1 = c\<lparr>con := g\<rparr>
     in if length (handed_over (con c)) < length (handed_over g)
        then connected_cb inl (last (handed_over g)) ipport c1 else Inr c1)"

definition destroy_conn :: "nat \<Rightarrow> client \<Rightarrow> client res" where
  "destroy_conn n c = mapR (conn_down n) (on_conn life_destroy n c)"

definition HandleRemoveConnection :: "bool \<Rightarrow> nat \<Rightarrow> int \<times> int \<Rightarrow> client \<Rightarrow> client res" where
  "HandleRemoveConnection inl n k c = loop_only inl (ensure (connection c = Some n)
     (bindR (destroy_conn n (c\<lparr>connection := None\<rparr>)) (\<lambda>c1.
        if doConnect c1 \<and> retry_on c1
        then mapR (\<lambda>g. c1\<lparr>con := g\<rparr>) (Connector.Restart inl k (con c1))
        else Inr c1)))"

text \<open>\<^verbatim>\<open>TcpConnection::HandleClose\<close> with the close callback the client has set; when it is over, the
  last reference goes and \<^verbatim>\<open>~TcpConnection\<close> runs.\<close>

definition drop_conn :: "nat \<Rightarrow> client \<Rightarrow> client res" where
  "drop_conn n c = ensure (lf_state (cc_life (cc_objs c ! n)) = Disconnected) (Inr c)"

definition on_close :: "bool \<Rightarrow> nat \<Rightarrow> int \<times> int \<Rightarrow> client \<Rightarrow> client res" where
  "on_close inl n k c = (if client_alive c then HandleRemoveConnection inl n k c else destroy_conn n c)"

definition close_conn :: "bool \<Rightarrow> nat \<Rightarrow> int \<times> int \<Rightarrow> client \<Rightarrow> client res" where
  "close_conn inl n k c = loop_only inl (bindR (on_conn life_close n c) (on_close inl n k))"

text \<open>The task of the destructor, and the destructor; a member shared pointer is released.\<close>

definition force_close :: "bool \<Rightarrow> nat \<Rightarrow> int \<times> int \<Rightarrow> client \<Rightarrow> client res" where
  "force_close inl n k c =
     bindR (if lf_state (cc_life (cc_objs c ! n)) \<in> {Connected, Connecting} then close_conn inl n k c else Inr c)
       (drop_conn n)"

definition Destruct_TcpClient :: "client \<Rightarrow> client" where
  "Destruct_TcpClient c = (case connection c of
       Some n \<Rightarrow> c\<lparr>force_closes := force_closes c @ [n], connection := None, client_alive := False\<rparr>
     | None \<Rightarrow> (Stop c)\<lparr>client_alive := False\<rparr>)"

section \<open>Runs\<close>

datatype client_event = ClConnect bool "int \<times> int" | ClShutdown | ClStop | ClEnableRetry | ClDestroy
  | ClStartTask "int \<times> int" | ClTimer "int \<times> int" | ClWritable int string | ClError | ClResetTask
  | ClPeerClosed nat "int \<times> int" | ClForceClose "int \<times> int"

text \<open>Timers and events of a channel come in a later round of the loop than the one that made them,
  so after the task that deletes the channel of the connector.\<close>

fun client_step :: "client_event \<Rightarrow> client \<Rightarrow> client res" where
  "client_step (ClConnect inl k) c = Connect inl k c"
| "client_step ClShutdown c = Shutdown c"
| "client_step ClStop c = Inr (Stop c)"
| "client_step ClEnableRetry c = Inr (EnableRetry c)"
| "client_step ClDestroy c = Inr (Destruct_TcpClient c)"
| "client_step (ClStartTask k) c =
     (if 0 < start_tasks (con c)
      then mapR (\<lambda>g. c\<lparr>con := g\<rparr>) (StartInLoop True k ((con c)\<lparr>start_tasks := start_tasks (con c) - 1\<rparr>)) else Inr c)"
| "client_step (ClTimer k) c =
     (if chan_resets (con c) = 0 then mapR (\<lambda>g. c\<lparr>con := g\<rparr>) (con_step (EvTimer k) (con c)) else Inr c)"
| "client_step (ClWritable err ipport) c = connector_writable True err ipport c"
| "client_step ClError c = mapR (\<lambda>g. c\<lparr>con := g\<rparr>) (HandleAsyncError True (con c))"
| "client_step ClResetTask c = mapR (\<lambda>g. c\<lparr>con := g\<rparr>) (con_step EvReset (con c))"
| "client_step (ClPeerClosed n k) c =
     (if n < length (cc_objs c) \<and> lf_watch (cc_life (cc_objs c ! n)) \<and> chan_resets (con c) = 0
      then bindR (close_conn True n k c) (drop_conn n) else Inr c)"
| "client_step (ClForceClose k) c = (case force_closes c of
       [] \<Rightarrow> Inr c
     | n # ns \<Rightarrow> force_close True n k (c\<lparr>force_closes := ns\<rparr>))"

fun client_run :: "client_event list \<Rightarrow> client \<Rightarrow> client res" where
  "client_run [] c = Inr c"
| "client_run (e # es) c = bindR (client_step e c) (client_run es)"

text \<open>At rest: no attempt, no retry and no task of the connector is under way.\<close>

definition con_idle :: "connector \<Rightarrow> bool" where
  "con_idle g \<longleftrightarrow> opState g = kDisconnected \<and> retry_timers g = [] \<and> start_tasks g = 0 \<and> chan_resets g = 0"

definition half_closed :: "client \<Rightarrow> bool" where
  "half_closed c \<longleftrightarrow> (case connection c of None \<Rightarrow> False | Some n \<Rightarrow> lf_state (cc_life (cc_objs c ! n)) = Disconnecting)"

fun client_legal :: "client_event \<Rightarrow> client \<Rightarrow> bool" where
  "client_legal (ClConnect inl k) c \<longleftrightarrow> client_alive c \<and> con_idle (con c) \<and> 0 \<le> fst k"
| "client_legal ClShutdown c \<longleftrightarrow> client_alive c"
| "client_legal ClStop c \<longleftrightarrow> client_alive c"
| "client_legal ClEnableRetry c \<longleftrightarrow> client_alive c"
| "client_legal ClDestroy c \<longleftrightarrow> client_alive c \<and> \<not> half_closed c"
| "client_legal (ClStartTask k) c \<longleftrightarrow> 0 \<le> fst k"
| "client_legal (ClTimer k) c \<longleftrightarrow> 0 \<le> fst k"
| "client_legal (ClPeerClosed n k) c \<longleftrightarrow> 0 \<le> fst k"
| "client_legal e c \<longleftrightarrow> True"

fun client_legal_run :: "client_event list \<Rightarrow> client \<Rightarrow> bool" where
  "client_legal_run [] c \<longleftrightarrow> True"
| "client_legal_run (e # es) c \<longleftrightarrow> client_legal e c
     \<and> (case client_step e c of Inl f \<Rightarrow> True | Inr c' \<Rightarrow> client_legal_run es c')"

section \<open>The invariant\<close>

text \<open>What a connector keeps beyond \<open>con_ok\<close> when it is used by a client: at most one timer or
  task, none while an attempt or a connection is under way.\<close>

definition con_quiet :: "connector \<Rightarrow> bool" where
  "con_quiet g \<longleftrightarrow> con_ok g \<and> length (retry_timers g) + start_tasks g \<le> 1
     \<and> (opState g \<noteq> kDisconnected \<longrightarrow> retry_timers g = [] \<and> start_tasks g = 0)
     \<and> (0 < start_tasks g \<longrightarrow> chan_resets g = 0)"

text \<open>A connection that is up, and one that is gone.\<close>

definition conn_live :: "client_conn \<Rightarrow> bool" where
  "conn_live x \<longleftrightarrow> lf_state (cc_life x) \<in> {Connected, Disconnecting} \<and> lf_watch (cc_life x) \<and> lf_added (cc_life x)
     \<and> cc_ups x = 1 \<and> cc_downs x = 0"

definition conn_gone :: "client_conn \<Rightarrow> bool" where
  "conn_gone x \<longleftrightarrow> cc_life x = \<lparr>lf_state = Disconnected, lf_watch = False, lf_added = False\<rparr>
     \<and> cc_ups x = 1 \<and> cc_downs x = 1"

text \<open>The connection that is neither, but owned: by the client, or by its destructor's task.\<close>

definition owned :: "client \<Rightarrow> nat option" where
  "owned c = (if client_alive c then connection c else case force_closes c of [] \<Rightarrow> None | n # ns \<Rightarrow> Some n)"

definition objs_ok :: "bool \<Rightarrow> nat option \<Rightarrow> client_conn list \<Rightarrow> bool" where
  "objs_ok al own xs \<longleftrightarrow> (\<forall>n. own = Some n \<longrightarrow> n < length xs \<and> (conn_live (xs ! n) \<or> \<not> al \<and> conn_gone (xs ! n)))
     \<and> (\<forall>n < length xs. own \<noteq> Some n \<longrightarrow> conn_gone (xs ! n))"

definition client_ok :: "client \<Rightarrow> bool" where
  "client_ok c \<longleftrightarrow> con_quiet (con c) \<and> objs_ok (client_alive c) (owned c) (cc_objs c)
     \<and> (client_alive c \<longrightarrow> force_closes c = [] \<and> (connection c \<noteq> None \<longrightarrow> opState (con c) = kConnected))
     \<and> (\<not> client_alive c \<longrightarrow> connection c = None \<and> length (force_closes c) \<le> 1
          \<and> (\<forall>n \<in> set (force_closes c). lf_state (cc_life (cc_objs c ! n)) \<noteq> Disconnecting))"

lemma owned_simps [simp]:
  "owned (c\<lparr>con := g\<rparr>) = owned c" "owned (c\<lparr>doConnect := b\<rparr>) = owned c" "owned (c\<lparr>retry_on := b\<rparr>) = owned c"
  "owned (c\<lparr>cc_objs := xs\<rparr>) = owned c" "owned (c\<lparr>fds_closed := fds\<rparr>) = owned c" "owned (c\<lparr>nextConnId := i\<rparr>) = owned c"
  by (simp_all add: owned_def)

lemma owned_alive: "client_alive c \<Longrightarrow> owned c = connection c"
  by (simp add: owned_def)

lemma client_ok_new [simp]: "client_ok (new_TcpClient nm)"
  by (simp add: client_ok_def new_TcpClient_def owned_def objs_ok_def con_quiet_def) (simp add: new_Connector_def)

section \<open>The connector under a client\<close>

lemma idle_chan: "con_ok g \<Longrightarrow> con_idle g \<Longrightarrow> con_chan g = None \<and> \<not> watching g"
  unfolding con_ok_def con_idle_def by (metis op_state.distinct(1) zero_neq_one)

lemma idle_StartInLoop:
  assumes "con_ok g" and "con_idle g" and "0 \<le> fst k"
  shows "\<exists>g'. StartInLoop True k g = Inr g' \<and> con_quiet g' \<and> opState g' \<noteq> kConnected \<and> handed_over g' = handed_over g"
proof -
  have g: "con_chan g = None" "opState g = kDisconnected" "\<not> watching g" "retry_timers g = []"
    "start_tasks g = 0" "chan_resets g = 0"
    using idle_chan [OF assms(1,2)] assms(2) by (simp_all add: con_idle_def)
  obtain sockfd e where k: "k = (sockfd, e)" by (cases k)
  have "\<exists>g'. StartInLoop True k g = Inr g' \<and> opState g' \<noteq> kConnected \<and> handed_over g' = handed_over g
      \<and> length (retry_timers g') + start_tasks g' \<le> 1 \<and> chan_resets g' = 0
      \<and> (opState g' \<noteq> kDisconnected \<longrightarrow> retry_timers g' = [] \<and> start_tasks g' = 0)"
    using g assms(3) unfolding k
    by (simp add: StartInLoop_def DoConnect_def InitConnectOp_def open_fd_def close_fd_def Retry_def Let_def)
  with con_ok_StartInLoop [OF assms(1), of k] show ?thesis by (fastforce simp: con_quiet_def)
qed

lemma quiet_connect_flag: "con_quiet g \<Longrightarrow> con_quiet (g\<lparr>connect_flag := b\<rparr>)"
  by (simp add: con_quiet_def con_ok_def)

lemma quiet_idle_Start:
  assumes "con_quiet g" and "con_idle g" and "0 \<le> fst k"
  shows "\<exists>g'. Connector.Start inl k g = Inr g' \<and> con_quiet g' \<and> opState g' \<noteq> kConnected \<and> handed_over g' = handed_over g"
proof (cases inl)
  case True
  have "con_ok (g\<lparr>connect_flag := True\<rparr>)"
    by (rule con_ok_cong) (use assms(1) in \<open>simp_all add: con_quiet_def\<close>)
  moreover have "con_idle (g\<lparr>connect_flag := True\<rparr>)" using assms(2) by (simp add: con_idle_def)
  ultimately show ?thesis
    using idle_StartInLoop [OF _ _ assms(3), of "g\<lparr>connect_flag := True\<rparr>"] True by (simp add: Connector.Start_def Let_def)
next
  case False
  with assms show ?thesis by (auto simp: Connector.Start_def Let_def con_quiet_def con_idle_def con_ok_def)
qed

lemma quiet_timer:
  assumes "con_quiet g" and "chan_resets g = 0" and "0 \<le> fst k"
  shows "\<exists>g'. con_step (EvTimer k) g = Inr g' \<and> con_quiet g' \<and> (opState g' = kConnected \<longleftrightarrow> opState g = kConnected)
    \<and> handed_over g' = handed_over g"
proof (cases "retry_timers g")
  case (Cons t ts)
  have "con_ok (g\<lparr>retry_timers := ts\<rparr>)" by (rule con_ok_cong) (use assms(1) in \<open>simp_all add: con_quiet_def\<close>)
  moreover have "con_idle (g\<lparr>retry_timers := ts\<rparr>)" "opState g = kDisconnected"
    using assms(1,2) Cons by (auto simp: con_quiet_def con_idle_def)
  ultimately show ?thesis using idle_StartInLoop [OF _ _ assms(3)] Cons by fastforce
qed (use assms in simp)

lemma quiet_start_task:
  assumes "con_quiet g" and "0 < start_tasks g" and "0 \<le> fst k"
  shows "\<exists>g'. StartInLoop True k (g\<lparr>start_tasks := start_tasks g - 1\<rparr>) = Inr g' \<and> con_quiet g'
    \<and> opState g' \<noteq> kConnected \<and> opState g = kDisconnected \<and> handed_over g' = handed_over g"
proof -
  let ?g = "g\<lparr>start_tasks := start_tasks g - 1\<rparr>"
  have "con_ok ?g" by (rule con_ok_cong) (use assms(1) in \<open>simp_all add: con_quiet_def\<close>)
  moreover have "con_idle ?g" "opState g = kDisconnected" using assms(1,2) by (cases "retry_timers g"; force simp: con_quiet_def con_idle_def)+
  ultimately show ?thesis using idle_StartInLoop [OF _ _ assms(3), of ?g] by auto
qed

lemma quiet_Restart:
  assumes "con_quiet g" and "opState g = kConnected" and "chan_resets g = 0" and "0 \<le> fst k"
  shows "\<exists>g'. Connector.Restart True k g = Inr g' \<and> con_quiet g' \<and> handed_over g' = handed_over g"
proof -
  have "con_ok (restarted g)" using assms(1,2) by (intro con_ok_restarted) (simp_all add: con_quiet_def)
  moreover have "con_idle (restarted g)" using assms(1-3) by (simp add: con_quiet_def con_idle_def)
  ultimately show ?thesis using idle_StartInLoop [OF _ _ assms(4), of "restarted g"] by (auto simp: Restart_def)
qed

text \<open>A writable channel: the attempt is over, and a descriptor is handed over or not.\<close>

lemma quiet_HandleWrite:
  assumes "con_quiet g"
  shows "\<exists>g'. Connector.HandleWrite True err g = Inr g' \<and> con_quiet g'
    \<and> (handed_over g' = handed_over g \<and> (opState g' = kConnected \<longleftrightarrow> opState g = kConnected)
       \<or> opState g = kConnecting \<and> opState g' = kConnected \<and> handed_over g' = handed_over g @ [the (con_chan g)])"
proof (cases "opState g = kConnecting")
  case True
  have ok: "con_ok g" using assms by (simp add: con_quiet_def)
  obtain fd where fd: "con_chan g = Some fd" "chan_resets g = 0" "retry_timers g = []" "start_tasks g = 0"
    using assms True by (auto simp: con_quiet_def con_ok_def)
  have ex: "\<exists>g'. Connector.HandleWrite True err g = Inr g'
      \<and> (handed_over g' = handed_over g \<and> opState g' = kDisconnected
       \<or> opState g' = kConnected \<and> handed_over g' = handed_over g @ [fd] \<and> retry_timers g' = [])
      \<and> length (retry_timers g') \<le> 1 \<and> start_tasks g' = 0"
    using True fd by (simp add: Connector.HandleWrite_def RemoveAndResetChannel_def close_fd_def hand_over_def Retry_def Let_def)
  then obtain g' where g': "Connector.HandleWrite True err g = Inr g'" "start_tasks g' = 0" "length (retry_timers g') \<le> 1"
    "handed_over g' = handed_over g \<and> opState g' = kDisconnected
       \<or> opState g' = kConnected \<and> handed_over g' = handed_over g @ [fd] \<and> retry_timers g' = []" by blast
  have "con_quiet g'" using con_ok_HandleWrite [OF ok g'(1)] g'(2-4) by (auto simp: con_quiet_def)
  with g' True fd(1) show ?thesis by auto
qed (use assms in \<open>simp add: Connector.HandleWrite_def\<close>)

lemma quiet_HandleAsyncError:
  assumes "con_quiet g"
  shows "\<exists>g'. HandleAsyncError True g = Inr g' \<and> con_quiet g' \<and> handed_over g' = handed_over g
    \<and> (opState g' = kConnected \<longleftrightarrow> opState g = kConnected)"
proof -
  have e: "HandleAsyncError True g = Connector.HandleWrite True 1 g"
    using assms HandleAsyncError_eq by (simp add: con_quiet_def)
  have no: "handed_over g' = handed_over g" if "HandleAsyncError True g = Inr g'" for g'
    using that by (auto simp: HandleAsyncError_def RemoveAndResetChannel_def close_fd_def Retry_def Let_def
        res_iffs split: if_splits option.splits)
  from quiet_HandleWrite [OF assms, of 1] obtain g' where "HandleAsyncError True g = Inr g'" "con_quiet g'"
    "handed_over g' = handed_over g \<and> (opState g' = kConnected \<longleftrightarrow> opState g = kConnected)
       \<or> handed_over g' = handed_over g @ [the (con_chan g)]" unfolding e by blast
  with no show ?thesis by (auto simp: e)
qed

lemma quiet_reset:
  assumes "con_quiet g"
  shows "\<exists>g'. con_step EvReset g = Inr g' \<and> con_quiet g' \<and> opState g' = opState g \<and> handed_over g' = handed_over g"
  using assms by (auto simp: con_quiet_def con_ok_def reset_chan_def)

section \<open>Every step keeps the invariant\<close>

lemma client_ok_con:
  assumes "client_ok c" and "con_quiet g" and "opState (con c) = kConnected \<longrightarrow> opState g = kConnected"
  shows "client_ok (c\<lparr>con := g\<rparr>)"
  using assms by (auto simp: client_ok_def)

lemma client_ok_flags: "client_ok c \<Longrightarrow> client_ok (c\<lparr>doConnect := b\<rparr>)" "client_ok c \<Longrightarrow> client_ok (c\<lparr>retry_on := b\<rparr>)"
  "client_ok c \<Longrightarrow> client_ok (c\<lparr>fds_closed := fds\<rparr>)"
  by (simp_all add: client_ok_def)

text \<open>A new connection that is up, the owned one gone, and the owned one given up.\<close>

lemma objs_ok_new: "objs_ok al None xs \<Longrightarrow> conn_live x \<Longrightarrow> objs_ok al (Some (length xs)) (xs @ [x])"
  by (auto simp: objs_ok_def nth_append less_Suc_eq)

lemma objs_ok_release: "objs_ok al (Some n) xs \<Longrightarrow> conn_gone x \<Longrightarrow> objs_ok al' None (xs[n := x])"
  by (auto simp: objs_ok_def nth_list_update)

lemma objs_ok_closed: "objs_ok False (Some n) xs \<Longrightarrow> conn_gone x \<Longrightarrow> objs_ok False (Some n) (xs[n := x])"
  by (auto simp: objs_ok_def nth_list_update)

lemma objs_ok_kept: "objs_ok al (Some n) xs \<Longrightarrow> conn_live x \<Longrightarrow> objs_ok al (Some n) (xs[n := x])"
  by (auto simp: objs_ok_def nth_list_update)

lemma objs_ok_owned: "objs_ok True (Some n) xs \<Longrightarrow> n < length xs \<and> conn_live (xs ! n)"
  by (simp add: objs_ok_def)

lemma watch_owned:
  assumes "client_ok c" and "n < length (cc_objs c)" and "lf_watch (cc_life (cc_objs c ! n))"
  shows "owned c = Some n \<and> conn_live (cc_objs c ! n)"
proof -
  have "\<not> conn_gone (cc_objs c ! n)"
  proof
    assume "conn_gone (cc_objs c ! n)"
    with assms(3) show False by (simp add: conn_gone_def)
  qed
  with assms(1,2) show ?thesis unfolding client_ok_def objs_ok_def by blast
qed

lemma handed_client_ok:
  assumes ok: "client_ok c" and "client_alive c" and "connection c = None" and "opState (con c) = kConnected"
  shows "\<exists>c'. HandleConnectSuccessfully True fd ipport c = Inr c' \<and> client_ok c'
    \<and> connection c' = Some (length (cc_objs c)) \<and> con c' = con c \<and> cc_objs c' = cc_objs c @ [
        \<lparr>cc_name = client_conn_name ipport c, cc_fd = fd,
         cc_life = \<lparr>lf_state = Connected, lf_watch = True, lf_added = True\<rparr>, cc_ups = 1, cc_downs = 0\<rparr>]"
proof -
  let ?x = "\<lparr>cc_name = client_conn_name ipport c, cc_fd = fd,
         cc_life = \<lparr>lf_state = Connected, lf_watch = True, lf_added = True\<rparr>, cc_ups = 1, cc_downs = 0\<rparr>"
  let ?c = "c\<lparr>nextConnId := nextConnId c + 1, connection := Some (length (cc_objs c)), cc_objs := cc_objs c @ [?x]\<rparr>"
  have r: "HandleConnectSuccessfully True fd ipport c = Inr ?c"
    by (simp add: HandleConnectSuccessfully_def on_conn_def conn_up_def life_establish_def new_life_def Let_def)
  have "conn_live ?x" by (simp add: conn_live_def)
  with assms have "client_ok ?c" by (simp add: client_ok_def owned_alive objs_ok_new)
  with r show ?thesis by simp
qed

text \<open>Closing an owned connection that is up: it is gone afterwards.\<close>

definition gone_of :: "client_conn \<Rightarrow> client_conn" where
  "gone_of x = x\<lparr>cc_life := \<lparr>lf_state = Disconnected, lf_watch = False, lf_added = False\<rparr>, cc_downs := cc_downs x + 1\<rparr>"

lemma gone_of: "conn_live x \<Longrightarrow> conn_gone (gone_of x)"
  by (simp add: conn_live_def conn_gone_def gone_of_def)

lemma close_destroy:
  assumes "conn_live (cc_objs c ! n)" and "n < length (cc_objs c)"
  shows "\<exists>c1. on_conn life_close n c = Inr c1 \<and> connection c1 = connection c \<and> client_alive c1 = client_alive c
    \<and> destroy_conn n c1 = Inr (c\<lparr>cc_objs := (cc_objs c)[n := gone_of (cc_objs c ! n)]\<rparr>)
    \<and> destroy_conn n (c1\<lparr>connection := None\<rparr>)
        = Inr (c\<lparr>connection := None, cc_objs := (cc_objs c)[n := gone_of (cc_objs c ! n)]\<rparr>)"
proof -
  obtain x where x: "cc_objs c ! n = x" by simp
  have l: "lf_state (cc_life x) = Connected \<or> lf_state (cc_life x) = Disconnecting" "lf_added (cc_life x)"
    using assms(1) unfolding x by (auto simp: conn_live_def)
  have "life_close (cc_life x) = Inr ((cc_life x)\<lparr>lf_state := Disconnected, lf_watch := False\<rparr>)"
    "life_destroy ((cc_life x)\<lparr>lf_state := Disconnected, lf_watch := False\<rparr>)
       = Inr \<lparr>lf_state = Disconnected, lf_watch = False, lf_added = False\<rparr>"
    using l by (simp_all add: life_close_def life_destroy_def)
  then show ?thesis using assms(2)
    by (simp add: on_conn_def destroy_conn_def conn_down_def gone_of_def x)
qed

lemma close_alive_ok:
  assumes ok: "client_ok c" and "client_alive c" and "connection c = Some n"
    and "chan_resets (con c) = 0" and "0 \<le> fst k"
  shows "\<exists>g c'. close_conn True n k c = Inr c' \<and> client_ok c' \<and> connection c' = None
    \<and> c' = c\<lparr>con := g, connection := None, cc_objs := (cc_objs c)[n := gone_of (cc_objs c ! n)]\<rparr>
    \<and> (if doConnect c \<and> retry_on c then Connector.Restart True k (con c) = Inr g else g = con c)"
proof -
  have n: "n < length (cc_objs c)" "conn_live (cc_objs c ! n)" "owned c = Some n"
    and q: "con_quiet (con c)" "opState (con c) = kConnected"
    using assms(1-3) objs_ok_owned [of n "cc_objs c"] by (auto simp: client_ok_def owned_alive)
  let ?c = "c\<lparr>connection := None, cc_objs := (cc_objs c)[n := gone_of (cc_objs c ! n)]\<rparr>"
  have gone: "conn_gone (gone_of (cc_objs c ! n))" by (rule gone_of [OF n(2)])
  have ok': "client_ok (?c\<lparr>con := g\<rparr>)" if "con_quiet g" for g
    using ok that objs_ok_release [OF _ gone, of True n "cc_objs c" True] assms(2,3) by (simp add: client_ok_def owned_alive)
  from close_destroy [OF n(2,1)] obtain c1 where "on_conn life_close n c = Inr c1" "client_alive c1"
    "connection c1 = Some n" "destroy_conn n (c1\<lparr>connection := None\<rparr>) = Inr ?c" using assms(2,3) by auto
  then have r: "close_conn True n k c = (if doConnect c \<and> retry_on c
      then mapR (\<lambda>g. ?c\<lparr>con := g\<rparr>) (Connector.Restart True k (con c)) else Inr ?c)"
    by (simp add: close_conn_def on_close_def HandleRemoveConnection_def)
  show ?thesis
  proof (cases "doConnect c \<and> retry_on c")
    case True
    from quiet_Restart [OF q assms(4,5)] obtain g where g: "Connector.Restart True k (con c) = Inr g" "con_quiet g" by blast
    with True r have "close_conn True n k c = Inr (?c\<lparr>con := g\<rparr>)" by simp
    with ok' [OF g(2)] True g(1) show ?thesis by (intro exI [of _ g] exI [of _ "?c\<lparr>con := g\<rparr>"]) simp
  next
    case False
    then have "close_conn True n k c = Inr (?c\<lparr>con := con c\<rparr>)" using r by (auto simp: if_not_P)
    with ok' [OF q(1)] False show ?thesis by (intro exI [of _ "con c"] exI [of _ "?c\<lparr>con := con c\<rparr>"]) auto
  qed
qed

lemma close_dead_ok:
  assumes ok: "client_ok c" and "\<not> client_alive c" and "owned c = Some n" and "conn_live (cc_objs c ! n)"
  shows "close_conn True n k c = Inr (c\<lparr>cc_objs := (cc_objs c)[n := gone_of (cc_objs c ! n)]\<rparr>)
    \<and> client_ok (c\<lparr>cc_objs := (cc_objs c)[n := gone_of (cc_objs c ! n)]\<rparr>)"
proof -
  have n: "n < length (cc_objs c)" using ok assms(3) by (simp add: client_ok_def objs_ok_def)
  have gone: "conn_gone (gone_of (cc_objs c ! n))" by (rule gone_of [OF assms(4)])
  have "client_ok (c\<lparr>cc_objs := (cc_objs c)[n := gone_of (cc_objs c ! n)]\<rparr>)"
    using ok objs_ok_closed [OF _ gone] n assms(2,3) by (auto simp: client_ok_def nth_list_update gone_of_def)
  then show ?thesis using close_destroy [OF assms(4) n] assms(2)
    by (auto simp: close_conn_def on_close_def)
qed

lemma drop_gone: "n < length xs \<Longrightarrow> cc_objs c = xs[n := gone_of x] \<Longrightarrow> drop_conn n c = Inr c"
  by (simp add: drop_conn_def gone_of_def)

lemma peer_closed_ok:
  assumes "client_ok c" and "0 \<le> fst k"
  shows "\<exists>c'. client_step (ClPeerClosed n k) c = Inr c' \<and> client_ok c'"
proof (cases "n < length (cc_objs c) \<and> lf_watch (cc_life (cc_objs c ! n)) \<and> chan_resets (con c) = 0")
  case True
  then have o: "owned c = Some n" "conn_live (cc_objs c ! n)" using watch_owned [OF assms(1)] by auto
  show ?thesis
  proof (cases "client_alive c")
    case al: True
    with o(1) have "connection c = Some n" "chan_resets (con c) = 0" using True by (simp_all add: owned_alive)
    from close_alive_ok [OF assms(1) al this assms(2)] obtain g c'
      where "close_conn True n k c = Inr c'" "client_ok c'"
        "c' = c\<lparr>con := g, connection := None, cc_objs := (cc_objs c)[n := gone_of (cc_objs c ! n)]\<rparr>" by blast
    then show ?thesis using True drop_gone [of n "cc_objs c" c'] by simp
  next
    case False
    from close_dead_ok [OF assms(1) False o] True drop_gone [of n "cc_objs c"] show ?thesis by simp
  qed
qed (use assms(1) in auto)

lemma force_close_ok:
  assumes ok: "client_ok c"
  shows "\<exists>c'. client_step (ClForceClose k) c = Inr c' \<and> client_ok c'"
proof (cases "force_closes c")
  case (Cons n ns)
  then have dead: "\<not> client_alive c" using ok by (auto simp: client_ok_def)
  with ok Cons have ns: "ns = []" "connection c = None" "owned c = Some n" by (auto simp: client_ok_def owned_def)
  have n: "n < length (cc_objs c)" "conn_live (cc_objs c ! n) \<or> conn_gone (cc_objs c ! n)"
    and st: "lf_state (cc_life (cc_objs c ! n)) \<noteq> Disconnecting"
    using ok dead Cons ns(3) by (auto simp: client_ok_def objs_ok_def)
  let ?c = "c\<lparr>force_closes := []\<rparr>"
  have rel: "client_ok (?c\<lparr>cc_objs := (cc_objs c)[n := x]\<rparr>)" if "conn_gone x" for x
    using ok dead that objs_ok_release [of False n "cc_objs c" x False] ns by (simp add: client_ok_def) (simp add: owned_def)
  show ?thesis
  proof (cases "conn_gone (cc_objs c ! n)")
    case True
    then have "lf_state (cc_life (cc_objs c ! n)) = Disconnected" by (simp add: conn_gone_def)
    then have "client_step (ClForceClose k) c = Inr ?c" using Cons ns(1) by (simp add: force_close_def drop_conn_def)
    moreover have "?c = ?c\<lparr>cc_objs := (cc_objs c)[n := cc_objs c ! n]\<rparr>" by simp
    ultimately show ?thesis using rel [OF True] by metis
  next
    case False
    with n have live: "conn_live (cc_objs c ! n)" by simp
    with st have "lf_state (cc_life (cc_objs c ! n)) = Connected" by (auto simp: conn_live_def)
    moreover have "close_conn True n k ?c = Inr (?c\<lparr>cc_objs := (cc_objs c)[n := gone_of (cc_objs c ! n)]\<rparr>)"
      using close_destroy [of ?c n] live n(1) dead by (auto simp: close_conn_def on_close_def)
    ultimately have "client_step (ClForceClose k) c = Inr (?c\<lparr>cc_objs := (cc_objs c)[n := gone_of (cc_objs c ! n)]\<rparr>)"
      using Cons ns(1) n(1) drop_gone [of n "cc_objs c"] by (simp add: force_close_def)
    with rel [OF gone_of [OF live]] show ?thesis by blast
  qed
qed (use ok in simp)

lemma client_Shutdown_ok:
  assumes ok: "client_ok c" and "client_alive c"
  shows "\<exists>c'. Shutdown c = Inr c' \<and> client_ok c' \<and> con c' = con c"
proof (cases "doConnect c \<and> connection c \<noteq> None")
  case True
  then obtain n where n: "connection c = Some n" by auto
  with assms have live: "n < length (cc_objs c)" "conn_live (cc_objs c ! n)" and o: "objs_ok True (Some n) (cc_objs c)"
    using objs_ok_owned [of n "cc_objs c"] by (auto simp: client_ok_def owned_alive)
  obtain l where l: "life_shutdown (cc_life (cc_objs c ! n)) = Inr l" "conn_live ((cc_objs c ! n)\<lparr>cc_life := l\<rparr>)"
    using live(2) by (auto simp: life_shutdown_def conn_live_def)
  let ?c = "c\<lparr>doConnect := False, cc_objs := (cc_objs c)[n := (cc_objs c ! n)\<lparr>cc_life := l\<rparr>]\<rparr>"
  have "Shutdown c = Inr ?c" using True n l(1) by (simp add: Shutdown_def on_conn_def)
  moreover have "client_ok ?c"
    using assms n objs_ok_kept [OF o l(2)] by (simp add: client_ok_def owned_alive)
  ultimately show ?thesis by simp
next
  case False
  then have "Shutdown c = Inr (c\<lparr>doConnect := False\<rparr>)" by (auto simp: Shutdown_def)
  with client_ok_flags(1) [OF ok] show ?thesis by simp
qed

lemma Stop_ok: "client_ok c \<Longrightarrow> client_ok (Stop c)"
  using client_ok_con [OF client_ok_flags(1), of c "Connector.Stop (con c)" False] quiet_connect_flag [of "con c" False]
  by (simp add: Stop_def Connector.Stop_def client_ok_def)

lemma Destruct_ok:
  assumes ok: "client_ok c" and "client_alive c" and "\<not> half_closed c"
  shows "client_ok (Destruct_TcpClient c)"
proof (cases "connection c")
  case None
  have "client_ok (Stop c)" "connection (Stop c) = None" "client_alive (Stop c)"
    using Stop_ok [OF ok] None assms(2) by (simp_all add: Stop_def)
  then have "client_ok ((Stop c)\<lparr>client_alive := False\<rparr>)"
    by (simp add: client_ok_def owned_alive) (simp add: owned_def objs_ok_def)
  with None show ?thesis by (simp add: Destruct_TcpClient_def)
next
  case (Some n)
  have "objs_ok False (Some n) (cc_objs c)" "force_closes c = []" "con_quiet (con c)"
    using ok assms(2) Some by (auto simp: client_ok_def owned_alive objs_ok_def)
  moreover have "lf_state (cc_life (cc_objs c ! n)) \<noteq> Disconnecting" using assms(3) Some by (simp add: half_closed_def)
  ultimately show ?thesis using Some by (simp add: Destruct_TcpClient_def client_ok_def owned_def)
qed

lemma writable_ok:
  assumes ok: "client_ok c"
  shows "\<exists>c'. client_step (ClWritable err ipport) c = Inr c' \<and> client_ok c'"
proof -
  have q: "con_quiet (con c)" using ok by (simp add: client_ok_def)
  from quiet_HandleWrite [OF q, of err] obtain g where
    g: "Connector.HandleWrite True err (con c) = Inr g" "con_quiet g"
    and cases: "handed_over g = handed_over (con c) \<and> (opState g = kConnected \<longleftrightarrow> opState (con c) = kConnected)
       \<or> opState (con c) = kConnecting \<and> opState g = kConnected
         \<and> handed_over g = handed_over (con c) @ [the (con_chan (con c))]" by blast
  from cases show ?thesis
  proof
    assume h: "handed_over g = handed_over (con c) \<and> (opState g = kConnected \<longleftrightarrow> opState (con c) = kConnected)"
    with g have "client_step (ClWritable err ipport) c = Inr (c\<lparr>con := g\<rparr>)" by (simp add: connector_writable_def)
    moreover have "client_ok (c\<lparr>con := g\<rparr>)" by (rule client_ok_con [OF ok g(2)]) (use h in simp)
    ultimately show ?thesis by blast
  next
    assume h: "opState (con c) = kConnecting \<and> opState g = kConnected
         \<and> handed_over g = handed_over (con c) @ [the (con_chan (con c))]"
    have ok': "client_ok (c\<lparr>con := g\<rparr>)" by (rule client_ok_con [OF ok g(2)]) (use h in simp)
    have s: "client_step (ClWritable err ipport) c = connected_cb True (the (con_chan (con c))) ipport (c\<lparr>con := g\<rparr>)"
      using g h by (simp add: connector_writable_def)
    show ?thesis
    proof (cases "client_alive c")
      case True
      then have "connection c = None" using ok h by (auto simp: client_ok_def)
      from handed_client_ok [of "c\<lparr>con := g\<rparr>", OF ok'] this True h obtain c'
        where "HandleConnectSuccessfully True (the (con_chan (con c))) ipport (c\<lparr>con := g\<rparr>) = Inr c'" "client_ok c'"
        by fastforce
      with s True show ?thesis by (simp add: connected_cb_def)
    next
      case False
      with s have "client_step (ClWritable err ipport) c
        = Inr (c\<lparr>con := g, fds_closed := fds_closed c @ [the (con_chan (con c))]\<rparr>)" by (simp add: connected_cb_def)
      with client_ok_flags(3) [OF ok'] show ?thesis by fastforce
    qed
  qed
qed

lemma client_step_ok:
  assumes ok: "client_ok c" and legal: "client_legal e c"
  shows "\<exists>c'. client_step e c = Inr c' \<and> client_ok c'"
proof -
  have q: "con_quiet (con c)" using ok by (simp add: client_ok_def)
  note con = client_ok_con [OF ok]
  show ?thesis
  proof (cases e)
    case (ClConnect inl k)
    with legal have i: "con_idle (con c)" "0 \<le> fst k" by simp_all
    from quiet_idle_Start [OF q i] obtain g where g: "Connector.Start inl k (con c) = Inr g" "con_quiet g" by blast
    have "client_ok (c\<lparr>doConnect := True, con := g\<rparr>)"
      by (rule client_ok_con [OF client_ok_flags(1) [OF ok] g(2)]) (use i in \<open>simp add: con_idle_def\<close>)
    with g ClConnect show ?thesis by (simp add: Connect_def)
  next
    case (ClStartTask k)
    show ?thesis
    proof (cases "0 < start_tasks (con c)")
      case True
      have "0 \<le> fst k" using legal ClStartTask by simp
      from quiet_start_task [OF q True this] obtain g
        where g: "StartInLoop True k ((con c)\<lparr>start_tasks := start_tasks (con c) - 1\<rparr>) = Inr g" "con_quiet g"
          "opState (con c) = kDisconnected" by blast
      with con [OF g(2)] True ClStartTask show ?thesis by simp
    qed (use ok ClStartTask in simp)
  next
    case (ClTimer k)
    show ?thesis
    proof (cases "chan_resets (con c) = 0")
      case True
      have "0 \<le> fst k" using legal ClTimer by simp
      from quiet_timer [OF q True this] obtain g where g: "con_step (EvTimer k) (con c) = Inr g" "con_quiet g"
          "opState g = kConnected \<longleftrightarrow> opState (con c) = kConnected" by blast
      with con [OF g(2)] True ClTimer show ?thesis by (simp del: con_step.simps)
    qed (use ok ClTimer in simp)
  next
    case ClError
    with quiet_HandleAsyncError [OF q] con show ?thesis by auto
  next
    case ClResetTask
    from quiet_reset [OF q] obtain g where "con_step EvReset (con c) = Inr g" "con_quiet g" "opState g = opState (con c)" by blast
    with con [of g] ClResetTask show ?thesis by (simp del: con_step.simps)
  next
    case ClShutdown
    with client_Shutdown_ok [OF ok] legal show ?thesis by auto
  next
    case ClDestroy
    with Destruct_ok [OF ok] legal show ?thesis by simp
  qed (use ok legal Stop_ok client_ok_flags peer_closed_ok force_close_ok writable_ok in \<open>simp_all add: EnableRetry_def del: client_step.simps(8,11,12)\<close>)
qed

lemma client_run_ok:
  "client_ok c \<Longrightarrow> client_legal_run es c \<Longrightarrow> \<exists>c'. client_run es c = Inr c' \<and> client_ok c'"
proof (induction es arbitrary: c)
  case (Cons e es)
  from client_step_ok [OF Cons.prems(1)] Cons.prems(2) obtain c1 where "client_step e c = Inr c1" "client_ok c1" by auto
  with Cons.IH [of c1] Cons.prems(2) show ?case by simp
qed simp

text \<open>With retry enabled the close of the peer starts the next attempt, and its success gives the
  client the next connection.\<close>

lemma reconnect_started:
  assumes "client_ok c" and "client_alive c" and "connection c = Some n" and "doConnect c" and "retry_on c"
    and "chan_resets (con c) = 0" and "0 \<le> fd"
  shows "\<exists>c1. client_step (ClPeerClosed n (fd, EINPROGRESS)) c = Inr c1 \<and> client_ok c1 \<and> client_alive c1
    \<and> opState (con c1) = kConnecting \<and> con_chan (con c1) = Some fd \<and> connect_flag (con c1)
    \<and> cc_objs c1 = (cc_objs c)[n := gone_of (cc_objs c ! n)]"
proof -
  have n: "n < length (cc_objs c)" "conn_live (cc_objs c ! n)" and st: "opState (con c) = kConnected"
    and q: "con_quiet (con c)"
    using assms(1-3) objs_ok_owned [of n "cc_objs c"] by (auto simp: client_ok_def owned_alive)
  have w: "con_chan (con c) = None" "lf_watch (cc_life (cc_objs c ! n))"
    using q st assms(6) n(2) by (auto simp: con_quiet_def con_ok_def conn_live_def)
  from close_alive_ok [OF assms(1-3,6), of "(fd, EINPROGRESS)"] assms(4,5,7) obtain g c1 where
    close: "close_conn True n (fd, EINPROGRESS) c = Inr c1" "client_ok c1"
    and c1: "c1 = c\<lparr>con := g, connection := None, cc_objs := (cc_objs c)[n := gone_of (cc_objs c ! n)]\<rparr>"
    and g: "Connector.Restart True (fd, EINPROGRESS) (con c) = Inr g" by auto
  have "client_step (ClPeerClosed n (fd, EINPROGRESS)) c = Inr c1"
    using n(1) w(2) assms(6) close(1) drop_gone [of n "cc_objs c" c1] c1 by simp
  moreover have "opState g = kConnecting \<and> con_chan g = Some fd \<and> connect_flag g"
    using g w(1) assms(6,7) by (auto simp: Restart_def StartInLoop_def DoConnect_def InitConnectOp_def open_fd_def
        ensure_def Let_def)
  ultimately show ?thesis using close(2) assms(2) by (auto simp: c1)
qed

lemma writable_handed:
  assumes ok: "client_ok c" and "client_alive c" and g: "opState (con c) = kConnecting" "con_chan (con c) = Some fd"
    "connect_flag (con c)"
  shows "\<exists>c'. client_step (ClWritable 0 ipport) c = Inr c' \<and> client_ok c' \<and> connection c' = Some (length (cc_objs c))
    \<and> chan_resets (con c') = 1 \<and> cc_objs c' = cc_objs c @
      [\<lparr>cc_name = client_conn_name ipport c, cc_fd = fd,
        cc_life = \<lparr>lf_state = Connected, lf_watch = True, lf_added = True\<rparr>, cc_ups = 1, cc_downs = 0\<rparr>]"
proof -
  have q: "con_quiet (con c)" "chan_resets (con c) = 0" and none: "connection c = None"
    using ok g assms(2) by (auto simp: client_ok_def con_quiet_def con_ok_def)
  let ?h = "(hand_over fd ((con c)\<lparr>watching := False, chan_resets := 1\<rparr>))\<lparr>opState := kConnected\<rparr>"
  have h: "Connector.HandleWrite True 0 (con c) = Inr ?h" "handed_over ?h = handed_over (con c) @ [fd]"
    "opState ?h = kConnected" "chan_resets ?h = 1"
    using g q(2) by (simp_all add: Connector.HandleWrite_def RemoveAndResetChannel_def hand_over_def close_fd_def)
  have "con_quiet ?h" using quiet_HandleWrite [OF q(1), of 0] h(1) by auto
  then have ok': "client_ok (c\<lparr>con := ?h\<rparr>)" by (rule client_ok_con [OF ok]) simp
  have "client_conn_name ipport (c\<lparr>con := ?h\<rparr>) = client_conn_name ipport c" by (simp add: client_conn_name_def)
  with handed_client_ok [OF ok', of fd ipport] none assms(2) h(3) obtain c' where
    "HandleConnectSuccessfully True fd ipport (c\<lparr>con := ?h\<rparr>) = Inr c'" "client_ok c'"
    "connection c' = Some (length (cc_objs c))" "con c' = ?h" "cc_objs c' = cc_objs c @
      [\<lparr>cc_name = client_conn_name ipport c, cc_fd = fd,
        cc_life = \<lparr>lf_state = Connected, lf_watch = True, lf_added = True\<rparr>, cc_ups = 1, cc_downs = 0\<rparr>]" by auto
  moreover from this(1) have "client_step (ClWritable 0 ipport) c = Inr c'"
    using h(1,2) assms(2) by (simp add: connector_writable_def connected_cb_def)
  ultimately show ?thesis using h(4) by auto
qed

section \<open>What goes wrong outside the discipline\<close>

definition ip0 :: string where "ip0 = ''10.0.0.1:80''"

text \<open>Connecting again after a connection has ended without retry: the connector still says
  connected, and the assertion of \<^verbatim>\<open>StartInLoop\<close> fails.\<close>

lemma connect_again_fails:
  "client_run [ClConnect True (5, EINPROGRESS), ClWritable 0 ip0, ClResetTask, ClPeerClosed 0 (6, 0),
     ClConnect True (7, EINPROGRESS)] (new_TcpClient ''c'') = Inl AssertFail"
  by code_simp

text \<open>A client destroyed while its connection is half closed: the task of the destructor leaves a
  connection in state disconnecting alone and drops the last reference, so the assertion of
  \<^verbatim>\<open>~TcpConnection\<close> fails, the channel being still registered.\<close>

lemma destroy_after_shutdown:
  "client_run [ClConnect True (5, EINPROGRESS), ClWritable 0 ip0, ClResetTask, ClShutdown, ClDestroy,
     ClForceClose (6, 0)] (new_TcpClient ''c'') = Inl AssertFail"
  by code_simp

text \<open>A shutdown during an attempt clears the flag that \<^verbatim>\<open>Stop\<close> asks for, so a later stop does
  nothing and the connection is established.\<close>

lemma shutdown_disarms_stop:
  "mapR connection (client_run [ClConnect True (5, EINPROGRESS), ClShutdown, ClStop, ClWritable 0 ip0]
     (new_TcpClient ''c'')) = Inr (Some 0)
   \<and> mapR connection (client_run [ClConnect True (5, EINPROGRESS), ClStop, ClWritable 0 ip0]
     (new_TcpClient ''c'')) = Inr None"
  by (intro conjI; code_simp)

section \<open>Properties\<close>

text \<open>C19. A client that connects only from rest and is not destroyed half closed: in every run of
  calls, tasks, timers and events no assertion fails, every connection but the owned one is gone, up and
  down announced once each, and the connection the client holds is up, with the connector
  in state connected.\<close>

theorem client_sound:
  assumes "client_legal_run es (new_TcpClient nm)"
  shows "\<exists>c. client_run es (new_TcpClient nm) = Inr c
    \<and> (\<forall>n < length (cc_objs c). owned c \<noteq> Some n \<longrightarrow> conn_gone (cc_objs c ! n))
    \<and> (\<forall>n. connection c = Some n \<longrightarrow>
         n < length (cc_objs c) \<and> conn_live (cc_objs c ! n) \<and> opState (con c) = kConnected)"
proof -
  from client_run_ok [OF client_ok_new assms] obtain c where
    c: "client_run es (new_TcpClient nm) = Inr c" "client_ok c" by blast
  have "n < length (cc_objs c) \<and> conn_live (cc_objs c ! n) \<and> opState (con c) = kConnected"
    if "connection c = Some n" for n
  proof -
    have "client_alive c" using c(2) that by (auto simp: client_ok_def)
    with c(2) that show ?thesis using objs_ok_owned [of n "cc_objs c"] by (simp add: client_ok_def owned_alive)
  qed
  with c show ?thesis by (auto simp: client_ok_def objs_ok_def)
qed

definition demo_events :: "client_event list" where
  "demo_events = [ClConnect False (0, 0), ClStartTask (5, EINPROGRESS), ClWritable 0 ip0, ClResetTask, ClDestroy,
     ClForceClose (6, 0)]"

theorem client_sound_witness:
  "\<exists>c. client_run demo_events (new_TcpClient ''c'') = Inr c \<and> length (cc_objs c) = 1 \<and> conn_gone (cc_objs c ! 0)"
proof -
  have "client_legal_run demo_events (new_TcpClient ''c'')" by code_simp
  from client_sound [OF this] obtain c where c: "client_run demo_events (new_TcpClient ''c'') = Inr c"
    "\<forall>n < length (cc_objs c). owned c \<noteq> Some n \<longrightarrow> conn_gone (cc_objs c ! n)" by blast
  moreover have "mapR (\<lambda>c. (length (cc_objs c), owned c)) (client_run demo_events (new_TcpClient ''c'')) = Inr (1, None)"
    by code_simp
  ultimately show ?thesis by simp
qed

text \<open>C32. A client with retry enabled replaces a lost connection: when the peer closes, the
  connector starts again, and once the new socket is writable without an error, the client holds a new connection
  over it, while the old one is gone.\<close>

theorem client_reconnects:
  assumes "client_ok c" and "client_alive c" and "connection c = Some n" and "doConnect c" and "retry_on c"
    and "chan_resets (con c) = 0" and "0 \<le> fd"
  shows "\<exists>c'. client_run [ClPeerClosed n (fd, EINPROGRESS), ClWritable 0 ipport, ClResetTask] c = Inr c'
    \<and> client_ok c' \<and> conn_gone (cc_objs c' ! n)
    \<and> connection c' = Some (length (cc_objs c)) \<and> cc_fd (cc_objs c' ! length (cc_objs c)) = fd
    \<and> lf_state (cc_life (cc_objs c' ! length (cc_objs c))) = Connected \<and> chan_resets (con c') = 0"
proof -
  have n: "n < length (cc_objs c)" "conn_live (cc_objs c ! n)"
    using assms(1-3) objs_ok_owned [of n "cc_objs c"] by (auto simp: client_ok_def owned_alive)
  from reconnect_started [OF assms] obtain c1 where
    s1: "client_step (ClPeerClosed n (fd, EINPROGRESS)) c = Inr c1" and c1: "client_ok c1" "client_alive c1"
    "opState (con c1) = kConnecting" "con_chan (con c1) = Some fd" "connect_flag (con c1)"
    "cc_objs c1 = (cc_objs c)[n := gone_of (cc_objs c ! n)]" by blast
  from writable_handed [OF c1(1-5)] obtain c2 where
    s2: "client_step (ClWritable 0 ipport) c1 = Inr c2" and c2: "client_ok c2" "connection c2 = Some (length (cc_objs c1))"
    "chan_resets (con c2) = 1" "cc_objs c2 = cc_objs c1 @
      [\<lparr>cc_name = client_conn_name ipport c1, cc_fd = fd,
        cc_life = \<lparr>lf_state = Connected, lf_watch = True, lf_added = True\<rparr>, cc_ups = 1, cc_downs = 0\<rparr>]" by blast
  let ?c = "c2\<lparr>con := reset_chan (con c2)\<rparr>"
  have s3: "client_step ClResetTask c2 = Inr ?c" using c2(3) by simp
  have "con_quiet (reset_chan (con c2))" using quiet_reset [of "con c2"] c2(1,3) by (simp add: client_ok_def)
  then have "client_ok ?c" by (rule client_ok_con [OF c2(1)]) (simp add: reset_chan_def)
  moreover have "conn_gone (gone_of (cc_objs c ! n))" by (rule gone_of [OF n(2)])
  moreover have "client_run [ClPeerClosed n (fd, EINPROGRESS), ClWritable 0 ipport, ClResetTask] c = Inr ?c"
    by (simp only: client_run.simps s1 s2 s3 bindR_simps)
  ultimately show ?thesis using c2 n(1) c1(6)
    by (intro exI [of _ ?c]) (simp add: nth_append reset_chan_def)
qed

theorem client_reconnects_witness:
  "\<exists>c c'. client_run [ClEnableRetry, ClConnect True (5, EINPROGRESS), ClWritable 0 ip0, ClResetTask] (new_TcpClient ''c'') = Inr c
     \<and> client_run [ClPeerClosed 0 (6, EINPROGRESS), ClWritable 0 ip0, ClResetTask] c = Inr c' \<and> connection c' = Some 1"
proof -
  let ?es = "[ClEnableRetry, ClConnect True (5, EINPROGRESS), ClWritable 0 ip0, ClResetTask]"
  have "client_legal_run ?es (new_TcpClient ''c'')" by code_simp
  from client_run_ok [OF client_ok_new this] obtain c where
    c: "client_run ?es (new_TcpClient ''c'') = Inr c" "client_ok c" by blast
  have "mapR (\<lambda>c. (client_alive c, connection c, doConnect c, retry_on c, chan_resets (con c), length (cc_objs c)))
      (client_run ?es (new_TcpClient ''c'')) = Inr (True, Some 0, True, True, 0, 1)" by code_simp
  with c(1) have "client_alive c" "connection c = Some 0" "doConnect c" "retry_on c" "chan_resets (con c) = 0"
    "length (cc_objs c) = 1" by simp_all
  with client_reconnects [OF c(2), of 0 6 ip0] c(1) show ?thesis by auto
qed

end
