(* ===== verification/LoopLife.thy ===== *)
theory LoopLife
  imports Reactor
begin

unbundle bit_operations_syntax

text \<open>
  The life of an event loop: its constructor, which builds the poller, the \<^verbatim>\<open>Watcher\<close> of the
  timerfd and the \<^verbatim>\<open>Bridge\<close> of the eventfd and registers the channels of both, the loop until it is told to
  quit, and its destructor, which takes them apart in the reverse order. The channels
  the loop owns are the numbers 0 and 1 of the store. Shown: every such life ends well.
\<close>

section \<open>Construction\<close>

definition watcher_chan :: nat where "watcher_chan = 0"
definition bridge_chan :: nat where "bridge_chan = 1"

text \<open>Their read callbacks, by number.\<close>

definition cb_HandleExpiredTimers :: nat where "cb_HandleExpiredTimers = 0"
definition cb_HandleWakeUpFdRead :: nat where "cb_HandleWakeUpFdRead = 1"

text \<open>The result of \<^verbatim>\<open>timerfd_create\<close> and of \<^verbatim>\<open>eventfd\<close>.\<close>

definition CreateTimerfd :: "int \<Rightarrow> int res" where
  "CreateTimerfd fd = (if fd = -1 then Inl FatalLog else Inr fd)"

definition CreateEventFd :: "int \<Rightarrow> int res" where
  "CreateEventFd ret = (if ret = -1 then Inl FatalLog else Inr ret)"

definition new_PollPoller :: "(nat \<Rightarrow> channel) \<Rightarrow> poll_state" where
  "new_PollPoller st = \<lparr>pollfds = [], channels = Map.empty, chan = st\<rparr>"

definition SetReadCallback :: "nat \<Rightarrow> channel \<Rightarrow> channel" where
  "SetReadCallback cb ch = ch\<lparr>readCb := Some cb\<rparr>"

definition new_Watcher :: "int \<Rightarrow> poll_state \<Rightarrow> poll_state res" where
  "new_Watcher ret p = bindR (CreateTimerfd ret) (\<lambda>fd.
     bindR (EnableReading True watcher_chan (upd_chan watcher_chan (\<lambda>x. new_Channel fd) p)) (\<lambda>p1.
     Inr (upd_chan watcher_chan (SetReadCallback cb_HandleExpiredTimers) p1)))"

definition new_Bridge :: "int \<Rightarrow> poll_state \<Rightarrow> poll_state res" where
  "new_Bridge ret p = bindR (CreateEventFd ret) (\<lambda>fd.
     bindR (EnableReading True bridge_chan (upd_chan bridge_chan (\<lambda>x. new_Channel fd) p)) (\<lambda>p1.
     Inr (upd_chan bridge_chan (SetReadCallback cb_HandleWakeUpFdRead) p1)))"

text \<open>The members are built in the order of their declaration, then the thread is checked; the
  result holds the loop and the new value of the thread's pointer.\<close>

definition new_loop :: "nat \<Rightarrow> nat option \<Rightarrow> int \<Rightarrow> int \<Rightarrow> (nat \<Rightarrow> channel) \<Rightarrow> (reactor \<times> nat option) res" where
  "new_loop this loop_inThisThread tfd efd st =
     bindR (new_Watcher tfd (new_PollPoller st)) (\<lambda>p1.
     bindR (new_Bridge efd p1) (\<lambda>p2.
     bindR (new_EventLoop loop_inThisThread) (\<lambda>l.
     Inr (event_loop.extend l (reactor.fields p2 False [] []), Some this))))"

section \<open>Destruction\<close>

text \<open>Both owners end alike; the result has the descriptor they close.\<close>

definition drop_channel :: "nat \<Rightarrow> poll_state \<Rightarrow> (poll_state \<times> int) res" where
  "drop_channel c p = bindR (disableAllEvents True c p) (\<lambda>p1.
     bindR (Channel_Remove True c p1) (\<lambda>p2.
     mapR (\<lambda>u. (p2, ch_fd (chan p2 c))) (Destruct_Channel (chan p2 c))))"

definition Destruct_Watcher :: "poll_state \<Rightarrow> (poll_state \<times> int) res" where
  "Destruct_Watcher p = drop_channel watcher_chan p"

definition Destruct_Bridge :: "poll_state \<Rightarrow> (poll_state \<times> int) res" where
  "Destruct_Bridge p = drop_channel bridge_chan p"

text \<open>What is left of the poller, the descriptors closed, in order, and the thread's pointer.\<close>

definition Destruct_EventLoop :: "bool \<Rightarrow> reactor \<Rightarrow> (poll_state \<times> int list \<times> nat option) res" where
  "Destruct_EventLoop inl s = loop_only inl
     (bindR (Destruct_Bridge (r_poll s)) (\<lambda>(p1, fd1).
      bindR (Destruct_Watcher p1) (\<lambda>(p2, fd2). Inr (p2, [fd1, fd2], None))))"

section \<open>Lemmas\<close>

lemmas owner_defs = watcher_chan_def bridge_chan_def cb_HandleExpiredTimers_def cb_HandleWakeUpFdRead_def

text \<open>A loop that owns its two channels.\<close>

definition owns :: "int \<Rightarrow> int \<Rightarrow> poll_state \<Rightarrow> bool" where
  "owns tfd efd p \<longleftrightarrow> channels p = [tfd \<mapsto> watcher_chan, efd \<mapsto> bridge_chan]
     \<and> ch_fd (chan p watcher_chan) = tfd \<and> ch_fd (chan p bridge_chan) = efd \<and> tfd \<noteq> efd"

lemma empty_poller_ok: "poller_ok (new_PollPoller st)"
  by (simp add: poller_ok_def new_PollPoller_def)

lemma UpdateChannel_new_chan:
  assumes "ch_index (chan p c) < 0" and "UpdateChannel True c p = Inr p'"
  shows "channels p' = (channels p)(ch_fd (chan p c) \<mapsto> c)"
    and "chan p' = (chan p)(c := (chan p c)\<lparr>ch_index := int (length (pollfds p))\<rparr>)"
  using assms by (auto simp: UpdateChannel_def Let_def res_iffs)

text \<open>A fresh channel is registered for reading.\<close>

definition input_channel :: "int \<Rightarrow> int \<Rightarrow> nat \<Rightarrow> channel" where
  "input_channel fd i cb = (new_Channel fd)\<lparr>ch_events := kReadEvent, ch_index := i, readCb := Some cb\<rparr>"

lemma add_channel:
  assumes ok: "poller_ok p" and fd: "0 \<le> fd" and free: "channels p fd = None"
    and c: "\<And>fd. channels p fd \<noteq> Some c"
  shows "\<exists>p'. EnableReading True c (upd_chan c (\<lambda>x. new_Channel fd) p) = Inr p'
    \<and> poller_ok (upd_chan c (SetReadCallback cb) p')
    \<and> channels p' = (channels p)(fd \<mapsto> c)
    \<and> chan (upd_chan c (SetReadCallback cb) p') = (chan p)(c := input_channel fd (int (length (pollfds p))) cb)
    \<and> (\<exists>ev. interest (upd_chan c (SetReadCallback cb) p') = (interest p)(fd \<mapsto> (True, ev)))"
proof -
  let ?ch = "(new_Channel fd)\<lparr>ch_events := kNoneEvent OR kReadEvent\<rparr>"
  let ?p = "upd_chan c (\<lambda>x. ?ch) p"
  have "poller_ok ?p"
    using ok c by (auto simp: poller_ok_def at_index_def) metis
  with UpdateChannel_new [of ?p c] obtain p' where
    p': "UpdateChannel True c ?p = Inr p'" "poller_ok p'" and int: "\<exists>ev. interest p' = (interest p)(fd \<mapsto> (True, ev))"
    using fd free interest_unregistered [OF c] by (auto simp: new_Channel_def)
  have "EnableReading True c (upd_chan c (\<lambda>x. new_Channel fd) p) = Inr p'"
    using p'(1) by (simp add: EnableReading_def upd_chan_def new_Channel_def)
  moreover have "channels p' = (channels p)(fd \<mapsto> c)"
    "chan p' = (chan p)(c := ?ch\<lparr>ch_index := int (length (pollfds p))\<rparr>)"
    using UpdateChannel_new_chan [OF _ p'(1)] by (simp_all add: new_Channel_def)
  moreover have "poller_ok (upd_chan c (SetReadCallback cb) p')" "interest (upd_chan c (SetReadCallback cb) p') = interest p'"
    using p'(2) upd_chan_frame(1,2) [of "SetReadCallback cb" c p'] by (simp_all add: SetReadCallback_def)
  ultimately show ?thesis using int by (simp add: SetReadCallback_def input_channel_def kNoneEvent_def)
qed

lemma RemoveChannel_fields:
  assumes "RemoveChannel True c p = Inr p'"
  shows "channels p' = (channels p)(ch_fd (chan p c) := None)"
    and "ch_fd (chan p' d) = ch_fd (chan p d)" and "eventHandling (chan p' d) = eventHandling (chan p d)"
  using assms by (auto simp: RemoveChannel_def Let_def res_iffs split: if_splits option.splits)

lemma drop_channel_ok:
  assumes ok: "poller_ok p" and reg: "registered p c" and idle: "\<not> eventHandling (chan p c)"
  shows "\<exists>p'. drop_channel c p = Inr (p', ch_fd (chan p c)) \<and> poller_ok p'
    \<and> channels p' = (channels p)(ch_fd (chan p c) := None)
    \<and> (\<forall>d. ch_fd (chan p' d) = ch_fd (chan p d) \<and> eventHandling (chan p' d) = eventHandling (chan p d))"
proof -
  let ?f = "\<lambda>ch. ch\<lparr>ch_events := kNoneEvent\<rparr>"
  from set_events_ok [OF ok reg, of ?f] obtain p1 where
    p1: "disableAllEvents True c p = Inr p1" "poller_ok p1" "registered p1 c" "chan p1 = (chan p)(c := ?f (chan p c))"
      "\<not> fst (the (interest p1 (ch_fd (chan p c))))"
    by (auto simp: disableAllEvents_def IsNoneEvent_def)
  have "poller_ok (upd_chan c ?f p)" "registered (upd_chan c ?f p) c"
    using ok reg upd_chan_frame [of ?f] by simp_all
  from UpdateChannel_channels [OF this] p1(1) have ch1: "channels p1 = channels p" by (simp add: disableAllEvents_def)
  have none: "IsNoneEvent (chan p1 c)" and fd: "ch_fd (chan p1 d) = ch_fd (chan p d)"
    "eventHandling (chan p1 d) = eventHandling (chan p d)" for d
    using p1(4) by (auto simp: IsNoneEvent_def)
  from RemoveChannel_ok [OF p1(2,3) none] p1(5) obtain p2 where p2: "RemoveChannel True c p1 = Inr p2" "poller_ok p2"
    by (auto simp: fd)
  note f = RemoveChannel_fields [OF p2(1)]
  have "drop_channel c p = Inr (p2, ch_fd (chan p c))"
    using p1(1) none p2(1) idle f(2,3) fd by (simp add: drop_channel_def Channel_Remove_def Destruct_Channel_def)
  then show ?thesis using p2(2) f ch1 fd by simp
qed

lemma poller_emptied: "poller_ok p \<Longrightarrow> channels p = Map.empty \<Longrightarrow> pollfds p = []"
  by (cases "pollfds p") (auto simp: poller_ok_def)

lemma new_loop_ok:
  assumes "0 \<le> tfd" "0 \<le> efd" "tfd \<noteq> efd" and idle: "\<forall>c. \<not> eventHandling (st c)"
  shows "\<exists>s. new_loop this None tfd efd st = Inr (s, Some this) \<and> reactor_ok s \<and> owns tfd efd (r_poll s) \<and> \<not> looping s
    \<and> pendingCbs s = [] \<and> r_trace s = []
    \<and> chan (r_poll s) = st(watcher_chan := input_channel tfd 0 cb_HandleExpiredTimers,
        bridge_chan := input_channel efd 1 cb_HandleWakeUpFdRead)
    \<and> (\<exists>ev ev'. interest (r_poll s) tfd = Some (True, ev) \<and> interest (r_poll s) efd = Some (True, ev'))"
proof -
  have fds: "tfd \<noteq> -1" "efd \<noteq> -1" using assms(1,2) by auto
  from add_channel [OF empty_poller_ok assms(1), of st watcher_chan cb_HandleExpiredTimers] obtain p1 where
    p1: "new_Watcher tfd (new_PollPoller st) = Inr p1" "poller_ok p1" "channels p1 = [tfd \<mapsto> watcher_chan]"
      "chan p1 = st(watcher_chan := input_channel tfd 0 cb_HandleExpiredTimers)" "\<exists>ev. interest p1 tfd = Some (True, ev)"
    using fds by (auto simp: new_Watcher_def CreateTimerfd_def new_PollPoller_def)
  have "length (pollfds p1) = 1"
    using p1(1) by (auto simp: new_Watcher_def CreateTimerfd_def new_PollPoller_def EnableReading_def
        UpdateChannel_def Let_def res_iffs new_Channel_def split: if_splits)
  moreover have "channels p1 efd = None" "\<And>fd. channels p1 fd \<noteq> Some bridge_chan"
    using p1(3) assms(3) by (auto simp: owner_defs split: if_splits)
  ultimately obtain p2 where
    p2: "new_Bridge efd p1 = Inr p2" "poller_ok p2" "channels p2 = [tfd \<mapsto> watcher_chan, efd \<mapsto> bridge_chan]"
      "chan p2 = (chan p1)(bridge_chan := input_channel efd 1 cb_HandleWakeUpFdRead)"
      "interest p2 tfd = interest p1 tfd" "\<exists>ev. interest p2 efd = Some (True, ev)"
    using add_channel [OF p1(2) assms(2), of bridge_chan cb_HandleWakeUpFdRead] p1(3) fds assms(3)
    by (auto simp: new_Bridge_def CreateEventFd_def)
  let ?s = "event_loop.extend new_event_loop (reactor.fields p2 False [] [])"
  have s: "r_poll ?s = p2" "\<not> r_eventHandling ?s" "r_trace ?s = []" "\<not> callingPendingCbs ?s" "pendingCbs ?s = []" "\<not> looping ?s"
    by (simp_all add: new_event_loop_def event_loop.defs reactor.defs)
  have "new_loop this None tfd efd st = Inr (?s, Some this)"
    using p1(1) p2(1) by (simp add: new_loop_def new_EventLoop_def)
  moreover have "reactor_ok ?s"
    using p2(2,4) p1(4) s idle by (simp add: reactor_ok_def input_channel_def new_Channel_def)
  moreover have "owns tfd efd p2"
    using p2(3,4) p1(4) assms(3) by (simp add: owns_def owner_defs input_channel_def new_Channel_def)
  moreover have "\<exists>ev ev'. interest p2 tfd = Some (True, ev) \<and> interest p2 efd = Some (True, ev')"
    using p1(5) p2(5,6) by simp
  ultimately show ?thesis using s(1-6) p2(4) p1(4) by simp
qed

section \<open>The loop until it is told to quit\<close>

text \<open>The answers \<open>ks\<close> of the kernel are proper, in each round at most one callback asks to quit, and
  one does before they are used up.\<close>

definition round_calls :: "bool \<Rightarrow> (nat \<Rightarrow> bool) \<Rightarrow> int \<times> int \<times> 16 word list \<Rightarrow> reactor \<Rightarrow> (nat \<times> cb_call) list" where
  "round_calls mempool alive k s = (case k of (t, n, rs) \<Rightarrow>
     calls_of alive t (as_reported (r_poll s) rs) (reported mempool (r_poll s) rs))"

fun good_run :: "bool \<Rightarrow> (nat \<Rightarrow> bool) \<Rightarrow> (nat \<Rightarrow> cb_call \<Rightarrow> loop_op list) \<Rightarrow> (nat \<Rightarrow> nat list) \<Rightarrow>
    (int \<times> int \<times> 16 word list) list \<Rightarrow> reactor \<Rightarrow> bool" where
  "good_run mempool alive act spawn [] s \<longleftrightarrow> quit_flag s"
| "good_run mempool alive act spawn (k # ks) s \<longleftrightarrow> quit_flag s
     \<or> poll_contract (pollfds (r_poll s)) (fst (snd k)) (snd (snd k)) \<and> quits_of act (round_calls mempool alive k s) \<le> 1
       \<and> (case loop_round mempool alive act spawn k s of Inl e \<Rightarrow> True | Inr s' \<Rightarrow> good_run mempool alive act spawn ks s')"

lemma loop_rounds_ok:
  "reactor_ok s \<Longrightarrow> good_run mempool alive act spawn ks s \<Longrightarrow>
   \<exists>s'. loop_rounds mempool alive act spawn ks s = Inr s' \<and> reactor_ok s' \<and> quit_flag s' \<and> \<not> looping s'
     \<and> channels (r_poll s') = channels (r_poll s) \<and> (\<forall>c. same_wiring (chan (r_poll s) c) (chan (r_poll s') c))"
proof (induction ks arbitrary: s)
  case Nil
  then show ?case by (simp add: reactor_ok_def)
next
  case (Cons k ks)
  obtain t n rs where k: "k = (t, n, rs)" by (cases k)
  show ?case
  proof (cases "quit_flag s")
    case True
    with Cons.prems(1) show ?thesis by (simp add: reactor_ok_def)
  next
    case False
    then have g: "poll_contract (pollfds (r_poll s)) n rs" "quits_of act (round_calls mempool alive k s) \<le> 1"
      using Cons.prems(2) by (simp_all add: k)
    from round_ok [OF Cons.prems(1) g(1) refl _ refl, of act alive t mempool spawn] g(2) False obtain s1 where
      s1: "loop_round mempool alive act spawn k s = Inr s1" "reactor_ok s1" "channels (r_poll s1) = channels (r_poll s)"
        "\<forall>c. same_wiring (chan (r_poll s) c) (chan (r_poll s1) c)"
      unfolding k round_calls_def asked_def by auto
    with Cons.prems(2) False have "good_run mempool alive act spawn ks s1" by simp
    from Cons.IH [OF s1(2) this] obtain s' where
      s': "loop_rounds mempool alive act spawn ks s1 = Inr s'" "reactor_ok s'" "quit_flag s'" "\<not> looping s'"
        "channels (r_poll s') = channels (r_poll s1)" "\<forall>c. same_wiring (chan (r_poll s1) c) (chan (r_poll s') c)" by blast
    have "same_wiring (chan (r_poll s) c) (chan (r_poll s') c)" for c
      using s1(4) s'(6) same_wiring_trans by blast
    with s1(1,3) s' False show ?thesis by simp
  qed
qed

lemma Loop_ok:
  assumes "reactor_ok s" and "\<not> looping s"
    and "good_run mempool alive act spawn ks (s\<lparr>looping := True, quit_flag := False\<rparr>)"
  shows "\<exists>s'. Loop True mempool alive act spawn ks s = Inr s' \<and> reactor_ok s' \<and> quit_flag s' \<and> \<not> looping s'
     \<and> channels (r_poll s') = channels (r_poll s) \<and> (\<forall>c. same_wiring (chan (r_poll s) c) (chan (r_poll s') c))"
proof -
  have "reactor_ok (s\<lparr>looping := True, quit_flag := False\<rparr>)" using assms(1) by (simp add: reactor_ok_def)
  from loop_rounds_ok [OF this assms(3)] assms(1,2) show ?thesis by (auto simp: Loop_def reactor_ok_def)
qed

lemma Destruct_EventLoop_ok:
  assumes ok: "reactor_ok s" and own: "owns tfd efd (r_poll s)"
  shows "\<exists>p. Destruct_EventLoop True s = Inr (p, [efd, tfd], None) \<and> poller_ok p \<and> channels p = Map.empty"
proof -
  have p: "poller_ok (r_poll s)" "\<And>c. \<not> eventHandling (chan (r_poll s) c)" using ok by (simp_all add: reactor_ok_def)
  have reg: "registered (r_poll s) bridge_chan" using own by (simp add: owns_def registered_def)
  from drop_channel_ok [OF p(1) reg p(2)] own obtain p1 where
    p1: "drop_channel bridge_chan (r_poll s) = Inr (p1, efd)" "poller_ok p1" "channels p1 = [tfd \<mapsto> watcher_chan]"
      "ch_fd (chan p1 watcher_chan) = tfd" "\<not> eventHandling (chan p1 watcher_chan)"
    using p(2) by (auto simp: owns_def fun_upd_twist)
  have "registered p1 watcher_chan" using p1(3,4) by (simp add: registered_def)
  from drop_channel_ok [OF p1(2) this p1(5)] p1(3,4) obtain p2 where
    "drop_channel watcher_chan p1 = Inr (p2, tfd)" "poller_ok p2" "channels p2 = Map.empty" by auto
  with p1(1) show ?thesis by (simp add: Destruct_EventLoop_def Destruct_Bridge_def Destruct_Watcher_def)
qed

section \<open>Properties\<close>

text \<open>C20. The life of a loop. In a thread without one, and with two distinct descriptors from the system,
  the constructor succeeds: the channels of the timerfd and of the eventfd are registered
  for reading with their callbacks, and the loop is ready for its first round. Whatever its
  callbacks then do, if the answers of the kernel are proper and some round has the one
  request to quit, \<^verbatim>\<open>Loop\<close> returns; the destructor then fails no assertion, closes the eventfd and then the timerfd,
  leaves nothing in the poller, and the thread may have another loop.\<close>

theorem loop_life:
  assumes "0 \<le> tfd" and "0 \<le> efd" and "tfd \<noteq> efd" and "\<forall>c. \<not> eventHandling (st c)"
  shows "\<exists>s. new_loop this None tfd efd st = Inr (s, Some this) \<and> reactor_ok s
    \<and> channels (r_poll s) = [tfd \<mapsto> watcher_chan, efd \<mapsto> bridge_chan]
    \<and> chan (r_poll s) watcher_chan = input_channel tfd 0 cb_HandleExpiredTimers
    \<and> chan (r_poll s) bridge_chan = input_channel efd 1 cb_HandleWakeUpFdRead
    \<and> (\<forall>mempool alive act spawn ks. good_run mempool alive act spawn ks (s\<lparr>looping := True, quit_flag := False\<rparr>) \<longrightarrow>
         (\<exists>s' p. Loop True mempool alive act spawn ks s = Inr s'
            \<and> Destruct_EventLoop True s' = Inr (p, [efd, tfd], None) \<and> pollfds p = [] \<and> channels p = Map.empty))"
proof -
  from new_loop_ok [OF assms, of this] obtain s where
    s: "new_loop this None tfd efd st = Inr (s, Some this)" "reactor_ok s" "owns tfd efd (r_poll s)" "\<not> looping s"
      "chan (r_poll s) = st(watcher_chan := input_channel tfd 0 cb_HandleExpiredTimers,
        bridge_chan := input_channel efd 1 cb_HandleWakeUpFdRead)" by blast
  have "\<exists>s' p. Loop True mempool alive act spawn ks s = Inr s'
      \<and> Destruct_EventLoop True s' = Inr (p, [efd, tfd], None) \<and> pollfds p = [] \<and> channels p = Map.empty"
    if g: "good_run mempool alive act spawn ks (s\<lparr>looping := True, quit_flag := False\<rparr>)" for mempool alive act spawn ks
  proof -
    from Loop_ok [OF s(2,4) g] obtain s' where
      s': "Loop True mempool alive act spawn ks s = Inr s'" "reactor_ok s'" "channels (r_poll s') = channels (r_poll s)"
        "\<forall>c. same_wiring (chan (r_poll s) c) (chan (r_poll s') c)" by blast
    have "owns tfd efd (r_poll s')" using s(3) s'(3,4) same_wiring_fields(1) unfolding owns_def by metis
    from Destruct_EventLoop_ok [OF s'(2) this] s'(1) poller_emptied show ?thesis by blast
  qed
  moreover have "chan (r_poll s) watcher_chan = input_channel tfd 0 cb_HandleExpiredTimers"
    "chan (r_poll s) bridge_chan = input_channel efd 1 cb_HandleWakeUpFdRead"
    using s(5) by (simp_all add: owner_defs)
  moreover have "channels (r_poll s) = [tfd \<mapsto> watcher_chan, efd \<mapsto> bridge_chan]" using s(3) by (simp add: owns_def)
  ultimately show ?thesis using s(1,2) by blast
qed

text \<open>A loop whose timer enqueues a task; then another thread wakes the loop, whose callback asks it to quit.\<close>

definition life_act :: "nat \<Rightarrow> cb_call \<Rightarrow> loop_op list" where
  "life_act c k = (if c = watcher_chan then [OpEnqueue 50] else [OpQuit])"

definition life_answers :: "(int \<times> int \<times> 16 word list) list" where
  "life_answers = [(70, 1, [1, 0]), (80, 0, [0, 0]), (90, 1, [0, 1])]"

definition life_start :: reactor where
  "life_start = (case new_loop 9 None 3 4 (\<lambda>c. new_Channel 0) of Inr (s, this) \<Rightarrow> s)"

lemma life_good: "good_run True (\<lambda>obj. True) life_act (\<lambda>cb. []) life_answers (life_start\<lparr>looping := True, quit_flag := False\<rparr>)"
  by code_simp

theorem loop_life_witness:
  "\<exists>s' p. Loop True True (\<lambda>obj. True) life_act (\<lambda>cb. []) life_answers life_start = Inr s'
    \<and> Destruct_EventLoop True s' = Inr (p, [4, 3], None) \<and> pollfds p = []"
proof -
  from loop_life [of 3 4 "\<lambda>c. new_Channel 0" 9] obtain s where
    s: "new_loop 9 None 3 4 (\<lambda>c. new_Channel 0) = Inr (s, Some 9)"
      "\<forall>mempool alive act spawn ks. good_run mempool alive act spawn ks (s\<lparr>looping := True, quit_flag := False\<rparr>) \<longrightarrow>
         (\<exists>s' p. Loop True mempool alive act spawn ks s = Inr s'
            \<and> Destruct_EventLoop True s' = Inr (p, [4, 3], None) \<and> pollfds p = [] \<and> channels p = Map.empty)"
    by (auto simp: new_Channel_def)
  have "life_start = s" by (simp add: life_start_def s(1))
  with s(2) life_good show ?thesis by blast
qed

end
