(* ===== verification/LoopSystem.thy ===== *)
theory LoopSystem
  imports LoopLife TimerLoop ConnLoop
begin

text \<open>
  A whole event loop: the queue of pending callbacks and the eventfd of \<^verbatim>\<open>EventLoop\<close>, the timers of
  \<^verbatim>\<open>TimerLoop\<close> and the connections of \<^verbatim>\<open>ConnLoop\<close> over one poller, in which the channels of the watcher
  and of the bridge are registered too. The steps of the relation \<open>sys_step\<close> are those of the loop's thread and
  those of other threads, in any order; what a call of the operating system answers, and what the user's callbacks
  do, is left open as far as the manuals and the interfaces allow. Its parameter says whether the users are
  careful with the timers (\<open>user_kind\<close> of \<^verbatim>\<open>TimerLoop\<close>); the code checks nothing of the kind, and with careless
  ones it can fail (\<open>careless_cancel_fails\<close>). Messages fit into what a buffer can grow to. Shown for careful users: no step fails an
  assertion, uses an object that is gone or hangs, and every run of the whole is, for each of the three
  parts, a run of that part, so that what is shown of the parts holds for the whole.
\<close>

section \<open>State and operations\<close>

record system =
  sy_loop :: event_loop
  sy_conns :: conn_loop
  sy_timed :: timed_loop
  sy_active :: "nat list"

text \<open>The functions in the queue of the loop: number \<open>0\<close> runs the next task of the timers, \<open>Suc k\<close> that of
  connection \<open>k\<close>. The weak pointer of a channel can be locked while the connection it names exists.\<close>

definition timer_code :: nat where "timer_code = 0"

definition alive_in :: "conn_loop \<Rightarrow> nat \<Rightarrow> bool" where
  "alive_in cl obj \<longleftrightarrow> cl_conns cl obj \<noteq> None"

definition enqueue_codes :: "bool \<Rightarrow> nat \<Rightarrow> nat \<Rightarrow> system \<Rightarrow> system" where
  "enqueue_codes inl n cb s = s\<lparr>sy_loop := fold (EnqueueEventLoop inl) (replicate n cb) (sy_loop s)\<rparr>"

text \<open>An operation on connection \<open>k\<close>; the tasks it queues go to the loop.\<close>

definition on_connection :: "bool \<Rightarrow> nat \<Rightarrow> (tcp_conn \<Rightarrow> tcp_conn res) \<Rightarrow> system \<Rightarrow> system res" where
  "on_connection inl k f s = (case cl_conns (sy_conns s) k of
       None \<Rightarrow> Inl UseAfterFree
     | Some c \<Rightarrow> mapR (\<lambda>c'. enqueue_codes inl (length (queued c') - length (queued c)) (Suc k)
             (s\<lparr>sy_conns := put_conn k c' (sy_conns s)\<rparr>))
         (f (conn_in (cl_poll (sy_conns s)) c)))"

definition on_timers :: "(system \<Rightarrow> system) \<Rightarrow> timed_loop res option \<Rightarrow> system \<Rightarrow> system res option" where
  "on_timers post r s = map_option (mapR (\<lambda>l. post (s\<lparr>sy_timed := l\<rparr>))) r"

text \<open>A task handed in by another thread is put into the queue of the loop.\<close>

definition submitted_by :: "bool \<Rightarrow> system \<Rightarrow> system" where
  "submitted_by inl s = (if inl then s else enqueue_codes False 1 timer_code s)"

definition new_timer :: "timer_queue \<Rightarrow> int \<Rightarrow> int \<Rightarrow> nat \<Rightarrow> timer" where
  "new_timer q when itv cb = \<lparr>timer_cb = cb, expiration = when, interval = itv, timer_id = nextTimerId q\<rparr>"

definition sys_AddTimer :: "bool \<Rightarrow> int \<Rightarrow> int \<Rightarrow> nat \<Rightarrow> system \<Rightarrow> system res option" where
  "sys_AddTimer inl when itv cb s = (let l = sy_timed s in on_timers (submitted_by inl)
     (Some (mapR (\<lambda>(tid, q). l\<lparr>tl_q := q, tl_asked := add_mset (new_timer (tl_q l) when itv cb) (tl_asked l)\<rparr>)
       (AddTimer inl when itv cb (tl_q l)))) s)"

definition sys_CancelTimer :: "bool \<Rightarrow> timer_id \<Rightarrow> system \<Rightarrow> system res option" where
  "sys_CancelTimer inl tid s = (let l = sy_timed s in on_timers (submitted_by inl)
     (Some (mapR (\<lambda>q. if inl then l\<lparr>tl_q := q, tl_dropped := tl_dropped l + with_id tid l\<rparr> else l\<lparr>tl_q := q\<rparr>)
       (CancelTimer inl tid (tl_q l)))) s)"

text \<open>\<^verbatim>\<open>TcpServer::HandleNewConnection\<close> in the loop of the connection: the object is made, its callbacks are set,
  and it is established. What the connection callback does is left to the steps that follow.\<close>

definition sys_connect :: "int \<Rightarrow> nat \<Rightarrow> bool \<Rightarrow> nat \<Rightarrow> bool \<Rightarrow> system \<Rightarrow> system res" where
  "sys_connect fd k wc hwm hw s = mapR (\<lambda>c. s\<lparr>sy_conns := put_conn k c (sy_conns s)\<rparr>)
     (StepIntoEstablished True quiet ((new_TcpConnection fd k k (cl_poll (sy_conns s)))
        \<lparr>has_writeComplete := wc, highWaterMark := hwm, has_highWater := hw\<rparr>))"

text \<open>\<^verbatim>\<open>PollPoller::Poll\<close> fills the list of active channels; what becomes readable is noted.\<close>

definition sys_poll :: "bool \<Rightarrow> int \<Rightarrow> 16 word list \<Rightarrow> system \<Rightarrow> system res" where
  "sys_poll mempool numReady rs s = mapR (\<lambda>(p, active).
     s\<lparr>sy_loop := (sy_loop s)\<lparr>pc := AtActive, woken := (bridge_chan \<in> set active)\<rparr>,
       sy_conns := (sy_conns s)\<lparr>cl_poll := p\<rparr>, sy_active := active,
       sy_timed := (if watcher_chan \<in> set active then (sy_timed s)\<lparr>tl_ready := True\<rparr> else sy_timed s)\<rparr>)
     (Poll mempool numReady rs (cl_poll (sy_conns s)))"

text \<open>The channels the loop owns: \<^verbatim>\<open>Channel::HandleEvents\<close> calls back, and its owner acts on the calls.\<close>

definition owner_calls :: "int \<Rightarrow> nat \<Rightarrow> system \<Rightarrow> (cb_call list \<times> system) res" where
  "owner_calls t k s = mapR (\<lambda>(ch, calls). (calls,
       s\<lparr>sy_conns := (sy_conns s)\<lparr>cl_poll := upd_chan k (\<lambda>x. ch) (cl_poll (sy_conns s))\<rparr>\<rparr>))
     (HandleEvents (alive_in (sy_conns s)) (\<lambda>call (ch, calls). Inr (ch, calls @ [call])) t (chan (cl_poll (sy_conns s)) k, []))"

fun watcher_acts :: "(nat \<Rightarrow> int) \<Rightarrow> cb_call list \<Rightarrow> timed_loop \<Rightarrow> timed_loop res option" where
  "watcher_acts clk [] l = Some (Inr l)"
| "watcher_acts clk (OnRead cb t # ks) l = (case Watcher_HandleExpiredTimers True clk l of
       Some (Inr l') \<Rightarrow> watcher_acts clk ks l' | r \<Rightarrow> r)"
| "watcher_acts clk (k # ks) l = watcher_acts clk ks l"

fun bridge_acts :: "cb_call list \<Rightarrow> event_loop \<Rightarrow> event_loop" where
  "bridge_acts [] l = l"
| "bridge_acts (OnRead cb t # ks) l = bridge_acts ks ((HandleWakeUpFdRead l)\<lparr>woken := False\<rparr>)"
| "bridge_acts (k # ks) l = bridge_acts ks l"

definition handle_watcher :: "int \<Rightarrow> (nat \<Rightarrow> int) \<Rightarrow> int \<Rightarrow> system \<Rightarrow> system res option" where
  "handle_watcher t clk now s = (case owner_calls t watcher_chan s of
       Inl e \<Rightarrow> Some (Inl e)
     | Inr (calls, s1) \<Rightarrow> on_timers (\<lambda>x. x) (watcher_acts clk calls ((sy_timed s1)\<lparr>tl_now := now\<rparr>)) s1)"

definition handle_bridge :: "int \<Rightarrow> system \<Rightarrow> system res" where
  "handle_bridge t s = mapR (\<lambda>(calls, s1). s1\<lparr>sy_loop := bridge_acts calls (sy_loop s1)\<rparr>) (owner_calls t bridge_chan s)"

text \<open>The loop takes the first of the functions it has swapped out, and runs it.\<close>

definition take_code :: "system \<Rightarrow> system" where
  "take_code s = s\<lparr>sy_loop := (sy_loop s)\<lparr>todo := tl (todo (sy_loop s)),
     executed := executed (sy_loop s) @ [hd (todo (sy_loop s))]\<rparr>\<rparr>"

definition run_timer_code :: "system \<Rightarrow> system res option" where
  "run_timer_code s = (let s1 = take_code s; l = sy_timed s1 in case tq_pending (tl_q l) of
       [] \<Rightarrow> Some (Inl UseAfterFree)
     | task # ts \<Rightarrow> on_timers (\<lambda>x. x) (Some (mapR (\<lambda>q. case task of TaskAdd t \<Rightarrow> l\<lparr>tl_q := q\<rparr>
           | TaskCancel tid \<Rightarrow> l\<lparr>tl_q := q, tl_dropped := tl_dropped l + with_id tid l\<rparr>)
         (run_task True task ((tl_q l)\<lparr>tq_pending := ts\<rparr>)))) s1)"

definition run_conn_code :: "nat \<Rightarrow> write_result \<Rightarrow> system \<Rightarrow> system res" where
  "run_conn_code k wres s = (let s1 = take_code s in case cl_conns (sy_conns s1) k of
       None \<Rightarrow> Inl UseAfterFree
     | Some c \<Rightarrow> (case queued c of
           [] \<Rightarrow> Inl UseAfterFree
         | t # ts \<Rightarrow> on_connection True k (run_conn_task True (\<lambda>t. Inr) wres t)
             (s1\<lparr>sy_conns := (sy_conns s1)\<lparr>cl_conns := (cl_conns (sy_conns s1))(k \<mapsto> c\<lparr>queued := ts\<rparr>)\<rparr>\<rparr>)))"

text \<open>\<^verbatim>\<open>TcpServer::RemoveConnectionInLoop\<close> hands \<^verbatim>\<open>StepIntoDestroyed\<close> to the loop of the connection, which is its own or another.\<close>

definition remove_conn :: "bool \<Rightarrow> tcp_conn \<Rightarrow> tcp_conn res" where
  "remove_conn inl c = (if inl then StepIntoDestroyed inl quiet c else Inr (enqueue DestroyedTask c))"

text \<open>A connection is destroyed with the last pointer to it. Every task of it in the queue holds one, the list of connections and
  the task \<^verbatim>\<open>StepIntoDestroyed\<close> hold one until its channel has left the poller.\<close>

definition sys_drop :: "nat \<Rightarrow> system \<Rightarrow> system res" where
  "sys_drop k s = (case cl_conns (sy_conns s) k of
       None \<Rightarrow> Inl UseAfterFree
     | Some c \<Rightarrow> bindR (Destruct_TcpConnection c) (\<lambda>u. mapR (\<lambda>u.
           s\<lparr>sy_conns := (sy_conns s)\<lparr>cl_conns := (cl_conns (sy_conns s))(k := None)\<rparr>\<rparr>)
         (Destruct_Channel (chan (cl_poll (sy_conns s)) k))))"

section \<open>The steps\<close>

definition owned :: "nat set" where "owned = {watcher_chan, bridge_chan}"

text \<open>The thread of the loop runs callbacks, so user code can act in it.\<close>

definition in_user :: "system \<Rightarrow> bool" where
  "in_user s \<longleftrightarrow> pc (sy_loop s) = AtActive \<or> pc (sy_loop s) = AtRun"

text \<open>What the manuals promise of \<^verbatim>\<open>poll(2)\<close>, of an eventfd and of a timerfd.\<close>

definition kernel_polls :: "int \<Rightarrow> 16 word list \<Rightarrow> system \<Rightarrow> bool" where
  "kernel_polls numReady rs s \<longleftrightarrow> (let p = cl_poll (sy_conns s) in
     poll_contract (pollfds p) numReady rs \<and> (\<forall>r \<in> set rs. linux_events (word_of_int (sint r)))
     \<and> (bridge_chan \<in> set (reported False p rs) \<longleftrightarrow> 0 < eventfd (sy_loop s))
     \<and> (watcher_chan \<in> set (reported False p rs) \<longleftrightarrow> timerfd_readable (tl_now (sy_timed s)) (timerfd (tl_q (sy_timed s))))
     \<and> (\<forall>i < length (pollfds p). channel_at p i \<in> owned \<and> rs ! i \<noteq> 0 \<longrightarrow> rs ! i = 1))"

text \<open>What it promises of \<^verbatim>\<open>write(2)\<close>; the message fits into what a buffer can grow to.\<close>

definition send_fits :: "write_result \<Rightarrow> byte list \<Rightarrow> nat \<Rightarrow> system \<Rightarrow> bool" where
  "send_fits wres buf k s \<longleftrightarrow> (\<forall>c. cl_conns (sy_conns s) k = Some c \<longrightarrow> conn_ok (conn_in (cl_poll (sy_conns s)) c) \<longrightarrow>
     write_contract wres (length buf) (conn_in (cl_poll (sy_conns s)) c) \<and> length buf \<le> room (outputBuffer c))"

definition task_fits :: "write_result \<Rightarrow> nat \<Rightarrow> system \<Rightarrow> bool" where
  "task_fits wres k s \<longleftrightarrow> (\<forall>c buf ts. cl_conns (sy_conns s) k = Some c \<longrightarrow> queued c = SendTask buf # ts \<longrightarrow> send_fits wres buf k s)"

text \<open>As in \<open>tl_step\<close>, what the timers ask of their users is asked of \<open>Careful\<close> ones only.\<close>

inductive sys_step :: "user_kind \<Rightarrow> system \<Rightarrow> system res option \<Rightarrow> bool" for u where
  start: "pc (sy_loop s) = Outside \<Longrightarrow> \<not> looping (sy_loop s) \<Longrightarrow>
    sys_step u s (Some (Inr (s\<lparr>sy_loop := (sy_loop s)\<lparr>pc := AtCheck, looping := True, quit_flag := False\<rparr>\<rparr>)))"
| leave: "pc (sy_loop s) = AtCheck \<Longrightarrow> quit_flag (sy_loop s) \<Longrightarrow>
    sys_step u s (Some (Inr (s\<lparr>sy_loop := (sy_loop s)\<lparr>pc := Outside, looping := False\<rparr>\<rparr>)))"
| go: "pc (sy_loop s) = AtCheck \<Longrightarrow> \<not> quit_flag (sy_loop s) \<Longrightarrow>
    sys_step u s (Some (Inr (s\<lparr>sy_loop := (sy_loop s)\<lparr>pc := AtPoll\<rparr>\<rparr>)))"
| poll: "pc (sy_loop s) = AtPoll \<Longrightarrow> kernel_polls numReady rs s \<Longrightarrow> sys_step u s (Some (sys_poll mempool numReady rs s))"
| watcher: "pc (sy_loop s) = AtActive \<Longrightarrow> sy_active s = watcher_chan # ks \<Longrightarrow> tl_running (sy_timed s) = [] \<Longrightarrow>
    phase_clock clk now \<Longrightarrow> tl_now (sy_timed s) \<le> clk 0 \<Longrightarrow>
    (u = Careful \<longrightarrow> slow_repeats clk now (queued_timers (tl_q (sy_timed s)))) \<Longrightarrow>
    (u = Careful \<longrightarrow> repeats_fit now (queued_timers (tl_q (sy_timed s)))) \<Longrightarrow>
    sys_step u s (handle_watcher t clk now (s\<lparr>sy_active := ks\<rparr>))"
| timer_runs: "tl_running (sy_timed s) = t # ts \<Longrightarrow>
    sys_step u s (Some (Inr (s\<lparr>sy_timed := (sy_timed s)\<lparr>tl_running := ts, tl_ran := tl_ran (sy_timed s) @ [(t, tl_now (sy_timed s))]\<rparr>\<rparr>)))"
| bridge: "pc (sy_loop s) = AtActive \<Longrightarrow> sy_active s = bridge_chan # ks \<Longrightarrow> tl_running (sy_timed s) = [] \<Longrightarrow>
    sys_step u s (Some (handle_bridge t (s\<lparr>sy_active := ks\<rparr>)))"
| connection: "pc (sy_loop s) = AtActive \<Longrightarrow> sy_active s = k # ks \<Longrightarrow> k \<notin> owned \<Longrightarrow> tl_running (sy_timed s) = [] \<Longrightarrow>
    good_user user \<Longrightarrow> good_kernel kr kw \<Longrightarrow>
    sys_step u s (Some (on_connection True k (conn_HandleEvents (alive_in (sy_conns s)) (conn_cb user kr kw) t) (s\<lparr>sy_active := ks\<rparr>)))"
| pending: "pc (sy_loop s) = AtActive \<Longrightarrow> sy_active s = [] \<Longrightarrow> tl_running (sy_timed s) = [] \<Longrightarrow>
    sys_step u s (Some (Inr (s\<lparr>sy_loop := (sy_loop s)\<lparr>pc := AtSwap, callingPendingCbs := True\<rparr>\<rparr>)))"
| swap: "pc (sy_loop s) = AtSwap \<Longrightarrow> sys_step u s (Some (Inr (s\<lparr>sy_loop := (swap_pending (sy_loop s))\<lparr>pc := AtRun\<rparr>\<rparr>)))"
| timer_task: "pc (sy_loop s) = AtRun \<Longrightarrow> todo (sy_loop s) = timer_code # cs \<Longrightarrow>
    (u = Careful \<longrightarrow> (\<forall>tid ts. tq_pending (tl_q (sy_timed s)) = TaskCancel tid # ts \<longrightarrow> may_cancel tid (sy_timed s))) \<Longrightarrow>
    sys_step u s (run_timer_code s)"
| conn_task: "pc (sy_loop s) = AtRun \<Longrightarrow> todo (sy_loop s) = Suc k # cs \<Longrightarrow> task_fits wres k s \<Longrightarrow>
    sys_step u s (Some (run_conn_code k wres s))"
| remove: "(inl \<longrightarrow> in_user s) \<Longrightarrow> cl_conns (sy_conns s) k = Some c \<Longrightarrow> state c = Disconnected \<Longrightarrow>
    registered (cl_poll (sy_conns s)) k \<Longrightarrow> DestroyedTask \<notin> set (queued c) \<Longrightarrow>
    sys_step u s (Some (on_connection inl k (remove_conn inl) s))"
| drop: "cl_conns (sy_conns s) k = Some c \<Longrightarrow> \<not> registered (cl_poll (sy_conns s)) k \<Longrightarrow> queued c = [] \<Longrightarrow>
    sys_step u s (Some (sys_drop k s))"
| finish: "pc (sy_loop s) = AtRun \<Longrightarrow> todo (sy_loop s) = [] \<Longrightarrow>
    sys_step u s (Some (Inr (s\<lparr>sy_loop := (sy_loop s)\<lparr>pc := AtCheck, callingPendingCbs := False\<rparr>\<rparr>)))"
| tick: "tl_now (sy_timed s) \<le> now \<Longrightarrow> sys_step u s (Some (Inr (s\<lparr>sy_timed := (sy_timed s)\<lparr>tl_now := now\<rparr>\<rparr>)))"
| quit: "(inl \<longrightarrow> in_user s) \<Longrightarrow> \<not> quit_flag (sy_loop s) \<Longrightarrow>
    sys_step u s (Some (mapR (\<lambda>l. s\<lparr>sy_loop := l\<rparr>) (Quit inl (sy_loop s))))"
| add_timer: "(inl \<longrightarrow> in_user s) \<Longrightarrow> (u = Careful \<longrightarrow> 0 < when) \<Longrightarrow> (u = Careful \<longrightarrow> when < TimePoint_max) \<Longrightarrow>
    (u = Careful \<longrightarrow> 0 \<le> itv) \<Longrightarrow> (u = Careful \<longrightarrow> fresh_id (tl_q (sy_timed s))) \<Longrightarrow>
    sys_step u s (sys_AddTimer inl when itv cb s)"
| cancel_timer: "(inl \<longrightarrow> in_user s) \<Longrightarrow> (u = Careful \<longrightarrow> inl \<longrightarrow> may_cancel tid (sy_timed s)) \<Longrightarrow> sys_step u s (sys_CancelTimer inl tid s)"
| send: "(inl \<longrightarrow> in_user s) \<Longrightarrow> cl_conns (sy_conns s) k \<noteq> None \<Longrightarrow> (inl \<longrightarrow> send_fits wres buf k s) \<Longrightarrow>
    sys_step u s (Some (on_connection inl k (Send inl wres buf) s))"
| shutdown: "(inl \<longrightarrow> in_user s) \<Longrightarrow> cl_conns (sy_conns s) k \<noteq> None \<Longrightarrow>
    sys_step u s (Some (on_connection inl k (Shutdown inl) s))"
| connect: "in_user s \<Longrightarrow> cl_conns (sy_conns s) k = None \<Longrightarrow> k \<notin> owned \<Longrightarrow> 0 \<le> fd \<Longrightarrow>
    channels (cl_poll (sy_conns s)) fd = None \<Longrightarrow> sys_step u s (Some (sys_connect fd k wc hwm hw s))"

lemmas sys_watcher = sys_step.watcher [where u = Careful, unfolded careful_guard]
lemmas sys_timer_task = sys_step.timer_task [where u = Careful, unfolded careful_guard]
lemmas sys_add_timer = sys_step.add_timer [where u = Careful, unfolded careful_guard]
lemmas sys_cancel_timer = sys_step.cancel_timer [where u = Careful, unfolded careful_guard]

inductive sys_reach :: "user_kind \<Rightarrow> system \<Rightarrow> system \<Rightarrow> bool" for u s0 where
  here: "sys_reach u s0 s0"
| there: "sys_reach u s0 s \<Longrightarrow> sys_step u s (Some (Inr s')) \<Longrightarrow> sys_reach u s0 s'"

section \<open>The invariant\<close>

definition owner_channel :: "nat \<Rightarrow> channel \<Rightarrow> bool" where
  "owner_channel cb ch \<longleftrightarrow> readCb ch = Some cb \<and> writeCb ch = None \<and> closeCb ch = None \<and> errorCb ch = None \<and> tie ch = None"

text \<open>The codes in the queue of the loop stand for the tasks the parts have waiting.\<close>

definition codes :: "system \<Rightarrow> nat list" where
  "codes s = todo (sy_loop s) @ pendingCbs (sy_loop s)"

definition codes_ok :: "system \<Rightarrow> bool" where
  "codes_ok s \<longleftrightarrow> count_list (codes s) timer_code = length (tq_pending (tl_q (sy_timed s)))
     \<and> (\<forall>k. count_list (codes s) (Suc k) = (case cl_conns (sy_conns s) k of None \<Rightarrow> 0 | Some c \<Rightarrow> length (queued c)))"

text \<open>An active channel: the loop's own report what the manuals say, a connection is up.\<close>

definition active_chan_ok :: "conn_loop \<Rightarrow> nat \<Rightarrow> bool" where
  "active_chan_ok cl k \<longleftrightarrow> (if k \<in> owned then revents (chan (cl_poll cl) k) = POLLIN
     else linux_events (revents (chan (cl_poll cl) k)) \<and> (\<exists>c. cl_conns cl k = Some c \<and> conn_ok (conn_in (cl_poll cl) c)))"

definition active_ok :: "system \<Rightarrow> bool" where
  "active_ok s \<longleftrightarrow> distinct (sy_active s)
     \<and> (pc (sy_loop s) \<noteq> AtActive \<longrightarrow> sy_active s = [] \<and> tl_running (sy_timed s) = [])
     \<and> (\<forall>k \<in> set (sy_active s). active_chan_ok (sy_conns s) k)
     \<and> (woken (sy_loop s) \<longleftrightarrow> bridge_chan \<in> set (sy_active s))
     \<and> (tl_ready (sy_timed s) \<longleftrightarrow> watcher_chan \<in> set (sy_active s))"

text \<open>A channel is tied to its own connection only.\<close>

definition ties_own :: "conn_loop \<Rightarrow> bool" where
  "ties_own cl \<longleftrightarrow> (\<forall>k. cl_conns cl k \<noteq> None \<longrightarrow> tie (chan (cl_poll cl) k) \<in> {None, Some k})"

text \<open>The task that takes a connection out of the poller is there once at most, for one that is closed and still in it.\<close>

definition removal_ok :: "conn_loop \<Rightarrow> bool" where
  "removal_ok cl \<longleftrightarrow> (\<forall>k c. cl_conns cl k = Some c \<longrightarrow> count_list (queued c) DestroyedTask \<le> 1
     \<and> (DestroyedTask \<in> set (queued c) \<longrightarrow> state c = Disconnected \<and> registered (cl_poll cl) k))"

definition sys_ok :: "int \<Rightarrow> system \<Rightarrow> bool" where
  "sys_ok now0 s \<longleftrightarrow> loop_run {ByLoop, ByOther} (sy_loop s) \<and> tl_reach Careful (new_timed_loop now0) (sy_timed s)
     \<and> conns_ok (alive_in (sy_conns s)) owned (sy_conns s)
     \<and> owner_channel cb_HandleExpiredTimers (chan (cl_poll (sy_conns s)) watcher_chan)
     \<and> owner_channel cb_HandleWakeUpFdRead (chan (cl_poll (sy_conns s)) bridge_chan)
     \<and> codes_ok s \<and> active_ok s
     \<and> (\<forall>k c. cl_conns (sy_conns s) k = Some c \<longrightarrow> ShutdownTask \<in> set (queued c) \<longrightarrow> state c \<noteq> Connected)
     \<and> ties_own (sy_conns s) \<and> removal_ok (sy_conns s)"

section \<open>The loop\<close>

lemma sys_okD:
  assumes "sys_ok now0 s"
  shows "loop_run {ByLoop, ByOther} (sy_loop s)" "tl_reach Careful (new_timed_loop now0) (sy_timed s)"
    "conns_ok (alive_in (sy_conns s)) owned (sy_conns s)"
    "owner_channel cb_HandleExpiredTimers (chan (cl_poll (sy_conns s)) watcher_chan)"
    "owner_channel cb_HandleWakeUpFdRead (chan (cl_poll (sy_conns s)) bridge_chan)"
    "codes_ok s" "active_ok s"
    "\<And>k c. cl_conns (sy_conns s) k = Some c \<Longrightarrow> ShutdownTask \<in> set (queued c) \<Longrightarrow> state c \<noteq> Connected"
    "ties_own (sy_conns s)" "removal_ok (sy_conns s)"
  using assms unfolding sys_ok_def by blast+

lemma alive_in_same [simp]: "alive_in (cl\<lparr>cl_poll := p\<rparr>) = alive_in cl"
    "cl_conns cl k = Some c \<Longrightarrow> alive_in (put_conn k c' cl) = alive_in cl"
    "cl_conns cl k = Some c \<Longrightarrow> alive_in (cl\<lparr>cl_conns := (cl_conns cl)(k \<mapsto> c')\<rparr>) = alive_in cl"
  by (auto simp: alive_in_def fun_eq_iff)

lemma owned_iff: "k \<in> owned \<longleftrightarrow> k = watcher_chan \<or> k = bridge_chan"
  by (auto simp: owned_def)

text \<open>The three parts change independently.\<close>

lemma sys_ok_loop_timed:
  assumes "sys_ok now0 s" and "loop_run {ByLoop, ByOther} l" and "tl_reach Careful (new_timed_loop now0) t"
    and "codes_ok (s\<lparr>sy_loop := l, sy_timed := t\<rparr>)" and "active_ok (s\<lparr>sy_loop := l, sy_timed := t\<rparr>)"
  shows "sys_ok now0 (s\<lparr>sy_loop := l, sy_timed := t\<rparr>)"
  using assms unfolding sys_ok_def by simp

lemma sys_ok_loop:
  assumes ok: "sys_ok now0 s" and l: "loop_run {ByLoop, ByOther} l"
    and "codes_ok (s\<lparr>sy_loop := l\<rparr>)" and "active_ok (s\<lparr>sy_loop := l\<rparr>)"
  shows "sys_ok now0 (s\<lparr>sy_loop := l\<rparr>)"
  using assms unfolding sys_ok_def by simp

lemma loop_more: "loop_run {ByLoop, ByOther} l \<Longrightarrow> loop_step a l l' \<Longrightarrow> a \<noteq> BeforeLoop \<Longrightarrow> loop_run {ByLoop, ByOther} l'"
  by (cases a) (auto intro: loop_run.step)

lemma Enqueue_rest [simp]: "woken (EnqueueEventLoop inl cb l) = woken l" "looping (EnqueueEventLoop inl cb l) = looping l"
  by (simp_all add: EnqueueEventLoop_def Enqueue_wake_def Enqueue_push_def)

lemma Enqueue_run:
  assumes l: "loop_run {ByLoop, ByOther} l" and who: "inl \<longrightarrow> pc l = AtActive \<or> pc l = AtRun"
  shows "loop_run {ByLoop, ByOther} (EnqueueEventLoop inl cb l)"
proof (cases inl)
  case True
  with who have "loop_step ByLoop l (EnqueueEventLoop True cb l)" by (auto intro: loop_step.active_enqueue loop_step.run_enqueue)
  with loop_more [OF l this] True show ?thesis by simp
next
  case False
  let ?l1 = "(Enqueue_push cb l)\<lparr>wakes := wakes l + 1\<rparr>"
  have 1: "loop_run {ByLoop, ByOther} ?l1" by (rule loop_more [OF l loop_step.other_push]) simp
  have "loop_step ByOther ?l1 ((Enqueue_wake False ?l1)\<lparr>wakes := wakes ?l1 - 1\<rparr>)" by (rule loop_step.other_wake) simp
  moreover have "(Enqueue_wake False ?l1)\<lparr>wakes := wakes ?l1 - 1\<rparr> = EnqueueEventLoop False cb l"
    by (simp add: EnqueueEventLoop_def Enqueue_wake_def Enqueue_push_def WakeUp_def)
  ultimately show ?thesis using loop_more [OF 1] False by simp
qed

lemma fold_Enqueue_run:
  "loop_run {ByLoop, ByOther} l \<Longrightarrow> inl \<longrightarrow> pc l = AtActive \<or> pc l = AtRun \<Longrightarrow>
   (let l' = fold (EnqueueEventLoop inl) (replicate n cb) l
    in loop_run {ByLoop, ByOther} l' \<and> pc l' = pc l \<and> todo l' = todo l \<and> woken l' = woken l
       \<and> pendingCbs l' = pendingCbs l @ replicate n cb)"
proof (induction n arbitrary: l)
  case (Suc n)
  from Suc.IH [OF Enqueue_run [OF Suc.prems]] Suc.prems(2) show ?case by (simp add: Let_def)
qed simp

lemma codes_enqueue:
  assumes "loop_run {ByLoop, ByOther} (sy_loop s)" and "inl \<longrightarrow> in_user s"
  shows "loop_run {ByLoop, ByOther} (sy_loop (enqueue_codes inl n cb s))"
    and "pc (sy_loop (enqueue_codes inl n cb s)) = pc (sy_loop s)"
    and "woken (sy_loop (enqueue_codes inl n cb s)) = woken (sy_loop s)"
    and "codes (enqueue_codes inl n cb s) = codes s @ replicate n cb"
    and "enqueue_codes inl n cb s = s\<lparr>sy_loop := sy_loop (enqueue_codes inl n cb s)\<rparr>"
  using fold_Enqueue_run [of "sy_loop s" inl n cb] assms by (simp_all add: enqueue_codes_def codes_def Let_def in_user_def)

section \<open>Operations on a connection\<close>

definition output_grows :: "tcp_conn \<Rightarrow> tcp_conn \<Rightarrow> bool" where
  "output_grows c c' \<longleftrightarrow> (\<exists>d. wire c' @ outdata c' = wire c @ outdata c @ d)"

definition sys_grows :: "system \<Rightarrow> system \<Rightarrow> bool" where
  "sys_grows s s' \<longleftrightarrow> (\<forall>k c. cl_conns (sy_conns s) k = Some c \<longrightarrow>
     (\<exists>c'. cl_conns (sy_conns s') k = Some c' \<and> output_grows c c'))"

text \<open>Over a step, a connection goes on like this, or it was over and is gone.\<close>

definition sys_evolves :: "system \<Rightarrow> system \<Rightarrow> bool" where
  "sys_evolves s s' \<longleftrightarrow> (\<forall>k c. cl_conns (sy_conns s) k = Some c \<longrightarrow> (case cl_conns (sy_conns s') k of
       Some c' \<Rightarrow> output_grows c c'
     | None \<Rightarrow> state c = Disconnected \<and> \<not> registered (cl_poll (sy_conns s)) k \<and> queued c = []))"

lemma sys_grows_evolves: "sys_grows s s' \<Longrightarrow> sys_evolves s s'"
  by (fastforce simp: sys_grows_def sys_evolves_def)

lemma output_grows_refl [simp]: "output_grows c c"
  by (simp add: output_grows_def)

lemma output_grows_trans: "output_grows a b \<Longrightarrow> output_grows b c \<Longrightarrow> output_grows a c"
  unfolding output_grows_def by (metis append_assoc)

lemma extends_grows: "extends c c' \<Longrightarrow> output_grows c c'"
  by (simp add: extends_def output_grows_def)

lemma sys_grows_same: "cl_conns (sy_conns s') = cl_conns (sy_conns s) \<Longrightarrow> sys_grows s s'"
  by (auto simp: sys_grows_def)

lemma sys_grows_trans: "sys_grows a b \<Longrightarrow> sys_grows b c \<Longrightarrow> sys_grows a c"
  unfolding sys_grows_def using output_grows_trans by metis

text \<open>The result of an operation, seen from the loop.\<close>

lemma put_queued_ok:
  assumes ok: "sys_ok now0 s" and c: "cl_conns (sy_conns s) k = Some c"
    and out: "conn_ok c' \<or> conn_down c'" "conn_kept (conn_in (cl_poll (sy_conns s)) c) c'" and grows: "output_grows c c'"
    and ts: "queued c' = queued c @ ts" "ShutdownTask \<in> set ts \<longrightarrow> state c' \<noteq> Connected" "state c \<noteq> Connected \<longrightarrow> state c' \<noteq> Connected"
    and "where": "registered (cl_poll (sy_conns s)) k \<or> poll c' = cl_poll (sy_conns s)"
    and who: "inl \<longrightarrow> in_user s"
    and act: "k \<in> set (sy_active s) \<Longrightarrow> conn_ok c' \<and> revents (chan (poll c') k) = revents (chan (cl_poll (sy_conns s)) k)"
    and rem: "DestroyedTask \<in> set (queued c') \<Longrightarrow> count_list (queued c') DestroyedTask = 1 \<and> state c' = Disconnected
      \<and> registered (poll c') k"
  shows "sys_ok now0 (enqueue_codes inl (length (queued c') - length (queued c)) (Suc k)
      (s\<lparr>sy_conns := put_conn k c' (sy_conns s)\<rparr>))" (is "sys_ok now0 ?s'")
    and "sys_grows s (enqueue_codes inl (length (queued c') - length (queued c)) (Suc k)
      (s\<lparr>sy_conns := put_conn k c' (sy_conns s)\<rparr>))"
proof -
  note o = sys_okD [OF ok]
  let ?p = "cl_poll (sy_conns s)" and ?s1 = "s\<lparr>sy_conns := put_conn k c' (sy_conns s)\<rparr>"
  have ck: "conn_chan c = k" using o(3) c by (simp add: conns_ok_def conn_fine_def)
  note put = put_conn_ok [OF o(3) c out "where"]
  have kept: "others_kept k ?p (poll c')" using out(2) ck by (simp add: conn_kept_def)
  have n: "length (queued c') - length (queued c) = length ts" by (simp add: ts(1))
  have who1: "inl \<longrightarrow> in_user ?s1" using who by (simp add: in_user_def)
  have run1: "loop_run {ByLoop, ByOther} (sy_loop ?s1)" using o(1) by simp
  note enq = codes_enqueue [OF run1 who1, of "length ts" "Suc k"]
  have parts: "sy_conns ?s' = put_conn k c' (sy_conns s)" "sy_timed ?s' = sy_timed s" "sy_active ?s' = sy_active s"
    by (simp_all add: enqueue_codes_def)
  have none: "cl_conns (sy_conns s) d = None" if "d \<in> owned" for d using o(3) that by (auto simp: conns_ok_def)
  have dk: "d \<noteq> k" if "d \<in> owned" for d using none [OF that] c by auto
  have owner: "owner_channel cb (chan (poll c') d)" if "d \<in> owned" "owner_channel cb (chan ?p d)" for d cb
    using that(2) put(3) [OF dk [OF that(1)]] kept_channel(4) [OF kept dk [OF that(1)]]
    by (simp add: owner_channel_def same_dispatch_def)
  have ties: "ties_own (put_conn k c' (sy_conns s))"
    using o(9) kept_channel(4) [OF kept] kept c unfolding ties_own_def by (auto simp: others_kept_def)
  have removal: "removal_ok (put_conn k c' (sy_conns s))"
  proof -
    have "registered (poll c') d \<longleftrightarrow> registered ?p d" if "d \<noteq> k" for d
      using kept_registered(1) [OF kept that] "where" by auto
    moreover have "count_list (queued c') DestroyedTask \<le> 1" using rem by (cases "DestroyedTask \<in> set (queued c')") simp_all
    ultimately show ?thesis using o(10) rem by (auto simp: removal_ok_def)
  qed
  have "codes ?s' = codes s @ replicate (length ts) (Suc k)" using enq(4) unfolding n by (simp add: codes_def)
  moreover have "count_list (replicate m (Suc k)) (Suc d) = (if d = k then m else 0)" "count_list (replicate m (Suc k)) timer_code = 0"
    for m d by (induction m) (auto simp: timer_code_def)
  ultimately have codes: "codes_ok ?s'"
    using o(6) c unfolding codes_ok_def parts by (simp add: ts(1))
  have active: "active_ok ?s'"
  proof -
    have "active_chan_ok (put_conn k c' (sy_conns s)) d" if d: "d \<in> set (sy_active s)" for d
    proof -
      have h: "active_chan_ok (sy_conns s) d" using o(7) d by (simp add: active_ok_def)
      show ?thesis
      proof (cases "d = k")
        case True
        with dk have "k \<notin> owned" by blast
        with h True act d show ?thesis by (simp add: active_chan_ok_def)
      next
        case False
        have "revents (chan (poll c') d) = revents (chan ?p d)" using put(3) [OF False] by (simp add: same_dispatch_def)
        with h put(2) [OF False] False show ?thesis by (auto simp: active_chan_ok_def)
      qed
    qed
    moreover have "pc (sy_loop ?s') = pc (sy_loop s)" "woken (sy_loop ?s') = woken (sy_loop s)"
      using enq(2,3) unfolding n by simp_all
    ultimately show ?thesis using o(7) by (simp add: active_ok_def parts)
  qed
  have shut: "state d \<noteq> Connected" if "((cl_conns (sy_conns s))(k \<mapsto> c')) j = Some d" "ShutdownTask \<in> set (queued d)" for j d
    using that o(8) c ts by (cases "j = k") auto
  have run: "loop_run {ByLoop, ByOther} (sy_loop ?s')" using enq(1) unfolding n .
  show "sys_ok now0 ?s'"
    unfolding sys_ok_def parts
    using run o(2) put(1) codes active shut owner o(4,5) ties removal c by (simp add: owned_iff parts)
  show "sys_grows s ?s'"
    using c grows unfolding sys_grows_def parts by simp
qed

lemma removal_down:
  assumes ok: "sys_ok now0 s" and c: "cl_conns (sy_conns s) k = Some c" "DestroyedTask \<in> set (queued c)"
  shows "conn_down (conn_in (cl_poll (sy_conns s)) c)" and "registered (cl_poll (sy_conns s)) k"
    and "count_list (queued c) DestroyedTask = 1"
proof -
  from sys_okD(10) [OF ok] c have r: "state c = Disconnected" "registered (cl_poll (sy_conns s)) k" "count_list (queued c) DestroyedTask \<le> 1"
    by (auto simp: removal_ok_def)
  then have "\<not> conn_ok (conn_in (cl_poll (sy_conns s)) c)" by (auto simp: conn_ok_def conn_live_def)
  with sys_okD(3) [OF ok] c(1) show "conn_down (conn_in (cl_poll (sy_conns s)) c)" by (auto simp: conns_ok_def conn_fine_def)
  show "registered (cl_poll (sy_conns s)) k" by (rule r(2))
  show "count_list (queued c) DestroyedTask = 1" using r(3) c(2) count_list_0_iff [of "queued c" DestroyedTask] by linarith
qed

lemma put_connection_ok:
  assumes ok: "sys_ok now0 s" and c: "cl_conns (sy_conns s) k = Some c"
    and out: "outcome (conn_in (cl_poll (sy_conns s)) c) c'"
    and "where": "registered (cl_poll (sy_conns s)) k \<or> poll c' = cl_poll (sy_conns s)"
    and who: "inl \<longrightarrow> in_user s"
    and act: "k \<in> set (sy_active s) \<Longrightarrow> conn_ok c' \<and> revents (chan (poll c') k) = revents (chan (cl_poll (sy_conns s)) k)"
    and rem: "DestroyedTask \<in> set (queued c) \<Longrightarrow> conn_down c' \<and> poll c' = cl_poll (sy_conns s)"
  shows "sys_ok now0 (enqueue_codes inl (length (queued c') - length (queued c)) (Suc k)
      (s\<lparr>sy_conns := put_conn k c' (sy_conns s)\<rparr>)) \<and> sys_grows s (enqueue_codes inl (length (queued c') - length (queued c)) (Suc k)
      (s\<lparr>sy_conns := put_conn k c' (sy_conns s)\<rparr>))"
proof -
  have ext: "extends c c'" using out by (simp add: outcome_def)
  then obtain ts where ts: "queued c' = queued c @ ts" "ShutdownTask \<in> set ts \<longrightarrow> state c' \<noteq> Connected"
    "state c \<noteq> Connected \<longrightarrow> state c' \<noteq> Connected" "DestroyedTask \<notin> set ts" by (auto simp: extends_def more_tasks_def)
  have o: "conn_ok c' \<or> conn_down c'" "conn_kept (conn_in (cl_poll (sy_conns s)) c) c'" using out by (simp_all add: outcome_def)
  have "count_list (queued c') DestroyedTask = 1 \<and> state c' = Disconnected \<and> registered (poll c') k"
    if "DestroyedTask \<in> set (queued c')"
    using that ts(1,4) rem removal_down [OF ok c] count_notin [of DestroyedTask ts] by (simp add: conn_down_def)
  with put_queued_ok [OF ok c o extends_grows [OF ext] ts(1-3) "where" who act] show ?thesis by blast
qed

text \<open>What the operations do to the connection itself.\<close>

definition conn_moves :: "tcp_conn \<Rightarrow> tcp_conn \<Rightarrow> bool" where
  "conn_moves c c' \<longleftrightarrow> outcome c c' \<and> (conn_ok c \<longrightarrow> conn_ok c') \<and> (conn_down c \<longrightarrow> conn_down c') \<and> same_dispatch (conn_ch c) (chan (poll c') (conn_chan c))
     \<and> (registered (poll c) (conn_chan c) \<or> poll c' = poll c)
     \<and> (conn_down c \<and> DestroyedTask \<in> set (queued c) \<longrightarrow> poll c' = poll c)"

lemma ok_not_down: "conn_ok c \<Longrightarrow> \<not> conn_down c"
  by (auto simp: conn_ok_def conn_live_def conn_down_def)

text \<open>Changes that leave the poller alone.\<close>

lemma conn_moves_quiet:
  assumes fine: "conn_ok c \<or> conn_down c" and ok: "conn_ok c \<Longrightarrow> conn_ok c'" and down: "conn_down c \<Longrightarrow> conn_down c'"
    and same: "poll c' = poll c" "conn_chan c' = conn_chan c" "conn_self c' = conn_self c" and ext: "extends c c'"
  shows "conn_moves c c'"
  using assms by (auto simp: conn_moves_def outcome_def conn_kept_def same_dispatch_def)

lemma conn_moves_update:
  assumes ok: "conn_ok c" "conn_ok c'" and upd: "one_update c c'" and ext: "extends c c'"
  shows "conn_moves c c'"
proof -
  have "same_dispatch (conn_ch c) (chan (poll c') (conn_chan c))"
    using one_update_keeps [OF upd] unfolding keeps_conn_def by metis
  moreover have "registered (poll c) (conn_chan c)" using ok(1) by (simp add: conn_ok_def)
  ultimately show ?thesis using ok ext one_update_kept [OF upd ok(1)] ok_not_down [OF ok(1)] by (simp add: conn_moves_def outcome_def)
qed

lemma queue_moves:
  assumes "conn_ok c \<or> conn_down c" and "t = ShutdownTask \<longrightarrow> state c \<noteq> Connected" and "t \<noteq> DestroyedTask"
  shows "conn_moves c (enqueue t c)"
  using assms by (intro conn_moves_quiet)
    (auto simp: enqueue_def conn_ok_def conn_live_def conn_down_def extends_def more_tasks_def)

lemma SendInLoop_moves:
  assumes fine: "conn_ok c \<or> conn_down c"
    and fits: "conn_ok c \<Longrightarrow> write_contract wres (length buf) c \<and> length buf \<le> room (outputBuffer c)"
  shows "\<exists>c'. SendInLoop True wres buf c = Inr c' \<and> conn_moves c c'"
proof (cases "conn_ok c")
  case True
  with SendInLoop_ok [OF True, of wres buf] fits obtain c' where
    c': "SendInLoop True wres buf c = Inr c'" "conn_ok c'"
      "wire c' @ outdata c' = wire c @ outdata c @ (if dropped wres c then [] else buf)" by blast
  have "extends c c'" using c'(3) SendInLoop_tasks [OF c'(1)] by (auto simp: extends_def)
  with conn_moves_update [OF True c'(2) SendInLoop_update [OF c'(1)]] c'(1) show ?thesis by blast
next
  case False
  with fine have "conn_down c" by blast
  moreover from this have "SendInLoop True wres buf c = Inr c" by (simp add: SendInLoop_def conn_down_def)
  moreover have "conn_moves c c" by (rule conn_moves_quiet [OF fine]) simp_all
  ultimately show ?thesis by blast
qed

lemma Send_moves:
  assumes fine: "conn_ok c \<or> conn_down c"
    and fits: "inl \<Longrightarrow> conn_ok c \<Longrightarrow> write_contract wres (length buf) c \<and> length buf \<le> room (outputBuffer c)"
  shows "\<exists>c'. Send inl wres buf c = Inr c' \<and> conn_moves c c'"
proof -
  have "conn_moves c c" by (rule conn_moves_quiet [OF fine]) simp_all
  moreover have "conn_moves c (enqueue (SendTask buf) c)" by (rule queue_moves [OF fine]) simp_all
  ultimately show ?thesis
    using SendInLoop_moves [OF fine, of wres buf] fits by (cases inl) (auto simp: Send_def)
qed

lemma ShutdownInLoop_moves:
  assumes fine: "conn_ok c \<or> conn_down c" and st: "state c \<noteq> Connected"
  shows "\<exists>c'. ShutdownInLoop True c = Inr c' \<and> conn_moves c c'"
proof -
  let ?c = "if \<not> chan_IsWriting c then c\<lparr>wr_shutdown := True\<rparr> else c"
  have "conn_ok ?c" if "conn_ok c"
  proof -
    have "state c = Disconnecting" using that st by (auto simp: conn_ok_def conn_live_def)
    with ShutdownInLoop_ok [OF that] show ?thesis by (auto simp: ShutdownInLoop_def)
  qed
  then have "conn_moves c ?c"
    by (intro conn_moves_quiet [OF fine]) (auto simp: conn_down_def extends_def more_tasks_def)
  then show ?thesis by (simp add: ShutdownInLoop_def)
qed

lemma conn_moves_down:
  assumes live: "conn_ok c" "state c = Connected" and m: "conn_moves (c\<lparr>state := Disconnecting\<rparr>) c'"
  shows "conn_moves c c'"
proof -
  let ?c = "c\<lparr>state := Disconnecting\<rparr>"
  have "conn_ok ?c" using live by (simp add: conn_ok_def conn_live_def)
  moreover have "conn_kept c c' = conn_kept ?c c'" by (simp add: conn_kept_def)
  moreover have "extends c ?c" using live(2) by (simp add: extends_def more_tasks_def)
  ultimately show ?thesis using m live(1) ok_not_down [OF live(1)] extends_trans by (auto simp: conn_moves_def outcome_def)
qed

lemma Shutdown_moves:
  assumes fine: "conn_ok c \<or> conn_down c"
  shows "\<exists>c'. Shutdown inl c = Inr c' \<and> conn_moves c c'"
proof (cases "state c = Connected")
  case True
  then have live: "conn_ok c" using fine by (auto simp: conn_down_def)
  let ?c = "c\<lparr>state := Disconnecting\<rparr>"
  have ok: "conn_ok ?c" using live by (simp add: conn_ok_def conn_live_def)
  from ShutdownInLoop_moves [of ?c] ok obtain c' where
    c': "ShutdownInLoop True ?c = Inr c'" "conn_moves ?c c'" by auto
  have q: "conn_moves ?c (enqueue ShutdownTask ?c)" by (rule queue_moves) (use ok in simp_all)
  show ?thesis
    using c'(1) True conn_moves_down [OF live True c'(2)] conn_moves_down [OF live True q]
    by (cases inl) (simp_all add: Shutdown_def)
next
  case False
  have "conn_moves c c" by (rule conn_moves_quiet [OF fine]) simp_all
  with False show ?thesis by (simp add: Shutdown_def)
qed

lemma RemoveChannel_index:
  assumes "RemoveChannel True k p = Inr p'"
  shows "(chan p' d)\<lparr>ch_index := 0\<rparr> = (chan p d)\<lparr>ch_index := 0\<rparr>"
  using assms by (auto simp: RemoveChannel_def Let_def res_iffs upd_chan_def split: if_splits option.splits)

text \<open>\<^verbatim>\<open>StepIntoDestroyed\<close>, which the loop runs for a connection that has been closed.\<close>

lemma destroy_moves:
  assumes down: "conn_down c" and reg: "registered (poll c) (conn_chan c)" and once: "DestroyedTask \<notin> set (queued c)"
  shows "\<exists>c'. StepIntoDestroyed True quiet c = Inr c' \<and> conn_moves c c'"
proof -
  let ?k = "conn_chan c" and ?p = "poll c"
  from down reg obtain e where i: "interest ?p (ch_fd (conn_ch c)) = Some (False, e)" by (auto simp: conn_down_def)
  have d: "state c = Disconnected" "poller_ok ?p" "IsNoneEvent (conn_ch c)"
    using down by (simp_all add: conn_down_def IsNoneEvent_def)
  from on_Remove [OF d(2) reg d(3) i] obtain p where
    p: "on_chan (Channel_Remove True) c = Inr (c\<lparr>poll := p\<rparr>)" "poller_ok p"
      "interest p = (interest ?p)(ch_fd (conn_ch c) := None)" by blast
  then have rm: "RemoveChannel True ?k ?p = Inr p" by (auto simp: on_chan_def Channel_Remove_def res_iffs dest: arg_cong [of _ _ poll])
  note ix = RemoveChannel_index [OF rm] and ch = RemoveChannel_fields(1) [OF rm]
  have c: "ch_fd (chan p ?k) = ch_fd (conn_ch c)" "ch_events (chan p ?k) = ch_events (conn_ch c)"
    "tie (chan p ?k) = tie (conn_ch c)" "eventHandling (chan p ?k) = eventHandling (conn_ch c)"
    "same_dispatch (conn_ch c) (chan p ?k)"
    using arg_cong [OF ix [of ?k], of ch_fd] arg_cong [OF ix [of ?k], of ch_events] arg_cong [OF ix [of ?k], of tie]
      arg_cong [OF ix [of ?k], of eventHandling] arg_cong [OF ix [of ?k], of revents] arg_cong [OF ix [of ?k], of readCb]
      arg_cong [OF ix [of ?k], of writeCb] arg_cong [OF ix [of ?k], of closeCb] arg_cong [OF ix [of ?k], of errorCb]
    by (simp_all add: same_dispatch_def)
  have "others_kept ?k ?p p"
    unfolding others_kept_def using ix ch p(3) c by simp
  then have kept: "conn_kept c (c\<lparr>poll := p\<rparr>)" by (simp add: conn_kept_def)
  have "conn_down (c\<lparr>poll := p\<rparr>)"
    using d(1) down p(2) c ch by (simp add: conn_down_def registered_def)
  moreover have "extends c (c\<lparr>poll := p\<rparr>)" by (simp add: extends_def more_tasks_def)
  moreover have "\<not> conn_ok c" using d(1) by (auto simp: conn_ok_def conn_live_def)
  ultimately have "conn_moves c (c\<lparr>poll := p\<rparr>)" using kept reg c(5) once by (simp add: conn_moves_def outcome_def)
  moreover have "StepIntoDestroyed True quiet c = Inr (c\<lparr>poll := p\<rparr>)"
    using d(1) p(1) by (simp add: StepIntoDestroyed_def quiet_def)
  ultimately show ?thesis by blast
qed

lemma run_conn_task_moves:
  assumes fine: "conn_ok c \<or> conn_down c" and st: "t = ShutdownTask \<Longrightarrow> state c \<noteq> Connected"
    and rem: "t = DestroyedTask \<Longrightarrow> conn_down c \<and> registered (poll c) (conn_chan c) \<and> DestroyedTask \<notin> set (queued c)"
    and fits: "\<And>buf. t = SendTask buf \<Longrightarrow> conn_ok c \<Longrightarrow> write_contract wres (length buf) c \<and> length buf \<le> room (outputBuffer c)"
  shows "\<exists>c'. run_conn_task True (\<lambda>t. Inr) wres t c = Inr c' \<and> conn_moves c c'"
proof -
  have "conn_moves c c" by (rule conn_moves_quiet [OF fine]) simp_all
  moreover have "(\<lambda>call. Inr) = quiet" by (simp add: fun_eq_iff quiet_def)
  ultimately show ?thesis
    using SendInLoop_moves [OF fine] ShutdownInLoop_moves [OF fine] destroy_moves [of c] st fits rem
    by (cases t) (auto simp: run_conn_task_def)
qed

text \<open>An operation of the user, or of another thread.\<close>

lemma on_connection_ok:
  assumes ok: "sys_ok now0 s" and c: "cl_conns (sy_conns s) k = Some c" and who: "inl \<longrightarrow> in_user s"
    and f: "\<exists>c'. f (conn_in (cl_poll (sy_conns s)) c) = Inr c' \<and> conn_moves (conn_in (cl_poll (sy_conns s)) c) c'"
  shows "\<exists>s'. on_connection inl k f s = Inr s' \<and> sys_ok now0 s' \<and> sys_grows s s'"
proof -
  note o = sys_okD [OF ok]
  let ?p = "cl_poll (sy_conns s)"
  have ck: "conn_chan c = k" using o(3) c by (simp add: conns_ok_def conn_fine_def)
  from f obtain c' where c': "f (conn_in ?p c) = Inr c'" "conn_moves (conn_in ?p c) c'" by blast
  then have m: "outcome (conn_in ?p c) c'" "conn_ok (conn_in ?p c) \<Longrightarrow> conn_ok c'"
    "revents (chan (poll c') k) = revents (chan ?p k)" "registered ?p k \<or> poll c' = ?p"
    using ck by (auto simp: conn_moves_def same_dispatch_def)
  have act: "conn_ok c' \<and> revents (chan (poll c') k) = revents (chan ?p k)" if "k \<in> set (sy_active s)"
  proof -
    have "k \<notin> owned" using o(3) c by (auto simp: conns_ok_def)
    with o(7) that c have "conn_ok (conn_in ?p c)" by (auto simp: active_ok_def active_chan_ok_def)
    with m(2,3) show ?thesis by blast
  qed
  have rem: "conn_down c' \<and> poll c' = ?p" if "DestroyedTask \<in> set (queued c)"
    using removal_down(1) [OF ok c that] that c'(2) by (simp add: conn_moves_def)
  from put_connection_ok [OF ok c m(1) m(4) who act rem] c c'(1) show ?thesis by (simp add: on_connection_def)
qed

lemma sys_conn_fine: "sys_ok now0 s \<Longrightarrow> cl_conns (sy_conns s) k = Some c \<Longrightarrow>
    conn_ok (conn_in (cl_poll (sy_conns s)) c) \<or> conn_down (conn_in (cl_poll (sy_conns s)) c)"
  using sys_okD(3) by (auto simp: conns_ok_def conn_fine_def)

section \<open>The life of a connection\<close>

text \<open>A new connection, established.\<close>

lemma connect_ok:
  assumes ok: "conns_ok alive K s" and fd: "0 \<le> fd" "channels (cl_poll s) fd = None"
    and k: "cl_conns s k = None" "k \<notin> K" and alive: "alive k"
  shows "\<exists>c. StepIntoEstablished True quiet ((new_TcpConnection fd k k (cl_poll s))
        \<lparr>has_writeComplete := wc, highWaterMark := hwm, has_highWater := hw\<rparr>) = Inr c
    \<and> conns_ok alive K (put_conn k c s) \<and> queued c = [] \<and> tie (chan (poll c) k) = Some k
    \<and> (\<forall>d. d \<noteq> k \<longrightarrow> chan (poll c) d = chan (cl_poll s) d)
    \<and> (\<forall>d. d \<noteq> k \<longrightarrow> registered (poll c) d = registered (cl_poll s) d) \<and> state c = Connected \<and> conn_ok c
    \<and> (\<forall>d. d \<noteq> k \<and> registered (cl_poll s) d \<longrightarrow>
         interest (poll c) (ch_fd (chan (cl_poll s) d)) = interest (cl_poll s) (ch_fd (chan (cl_poll s) d)))
    \<and> (\<forall>d e. d \<noteq> k \<and> conn_ok (conn_in (cl_poll s) e) \<and> conn_chan e = d \<longrightarrow> conn_ok (conn_in (poll c) e))"
proof -
  let ?p = "cl_poll s"
  let ?new = "(new_TcpConnection fd k k ?p)\<lparr>has_writeComplete := wc, highWaterMark := hwm, has_highWater := hw\<rparr>"
  have p: "poller_ok ?p" using ok by (simp add: conns_ok_def)
  have unreg: "channels ?p x \<noteq> Some k" for x using ok k unfolding conns_ok_def by blast
  have "conn_fresh ?new" using new_conn_fresh [OF p fd unreg, of k] by (simp add: conn_fresh_def)
  note est = establish_ok [OF this]
  have c0: "conn_chan ?new = k" "conn_self ?new = k" "ch_fd (chan (poll ?new) k) = fd" "interest (poll ?new) = interest ?p"
    using interest_unregistered [OF unreg] by (simp_all add: new_TcpConnection_def new_Channel_def)
  from est obtain p' where
    e: "StepIntoEstablished True quiet ?new = Inr (?new\<lparr>state := Connected, poll := p'\<rparr>)"
      "conn_ok (?new\<lparr>state := Connected, poll := p'\<rparr>)" "ch_fd (chan p' k) = fd"
      "interest p' = (interest ?p)(fd \<mapsto> (True, 0x2003))"
      "UpdateChannel True k (upd_chan k (\<lambda>ch. ch\<lparr>ch_events := ch_events ch OR kReadEvent\<rparr>)
         (upd_chan k (Tie k) (poll ?new))) = Inr p'"
    unfolding c0 by blast
  let ?c = "?new\<lparr>state := Connected, poll := p'\<rparr>"
  define q where "q = upd_chan k (\<lambda>ch. ch\<lparr>ch_events := ch_events ch OR kReadEvent\<rparr>) (upd_chan k (Tie k) (poll ?new))"
  have q: "ch_fd (chan q k) = fd" "channels q = channels ?p" "\<And>d. d \<noteq> k \<Longrightarrow> chan q d = chan ?p d" "ch_index (chan q k) < 0"
    "eventHandling (chan q k) = False" "tie (chan q k) = Some k"
    by (simp_all add: q_def new_TcpConnection_def new_Channel_def Tie_def)
  note up = UpdateChannel_new_chan [OF q(4) e(5) [folded q_def]]
  have chs: "channels p' = (channels ?p)(fd \<mapsto> k)" and ch: "\<And>d. d \<noteq> k \<Longrightarrow> chan p' d = chan ?p d"
    using up q by simp_all
  have self: "eventHandling (chan p' k) = False" "tie (chan p' k) = Some k"
    using up(2) q(5,6) by simp_all
  have p': "poller_ok p'" using e(2) by (simp add: conn_ok_def)
  have reg: "registered p' d \<longleftrightarrow> registered ?p d" if "d \<noteq> k" for d
    using that fd(2) by (auto simp: registered_def ch chs)
  have int: "interest p' (ch_fd (chan ?p d)) = interest ?p (ch_fd (chan ?p d))" if "registered ?p d" for d
    using that fd(2) e(4) by (auto simp: registered_def)
  have keep_ok: "conn_ok (conn_in p' c)" if "conn_ok (conn_in ?p c)" "conn_chan c \<noteq> k" for c
    using that p' reg int ch by (simp add: conn_ok_def conn_live_def conn_in_def)
  have keep_down: "conn_down (conn_in p' c)" if "conn_down (conn_in ?p c)" "conn_chan c \<noteq> k" for c
    using that p' reg int ch by (simp add: conn_down_def)
  have fine: "conn_fine alive d (conn_in p' c)" if "conn_fine alive d (conn_in ?p c)" "d \<noteq> k" for d c
    using that keep_ok keep_down by (auto simp: conn_fine_def ch)
  have new: "conn_fine alive k ?c"
    using e(2) self alive by (simp add: conn_fine_def new_TcpConnection_def)
  have "conns_ok alive K (put_conn k ?c s)"
    unfolding conns_ok_def
  proof (intro conjI allI impI ballI)
    show "poller_ok (cl_poll (put_conn k ?c s))" using p' by simp
    show "cl_conns (put_conn k ?c s) d \<noteq> None \<or> d \<in> K" if "channels (cl_poll (put_conn k ?c s)) x = Some d" for x d
      using that ok chs by (auto simp: conns_ok_def split: if_splits)
    fix d assume d: "d \<in> K"
    then have "d \<noteq> k" using k(2) by blast
    then show "cl_conns (put_conn k ?c s) d = None" "registered (cl_poll (put_conn k ?c s)) d"
      "\<not> eventHandling (chan (cl_poll (put_conn k ?c s)) d)" "polled (cl_poll (put_conn k ?c s)) d"
      using ok d reg ch int by (auto simp: conns_ok_def polled_def)
  next
    fix d e assume "cl_conns (put_conn k ?c s) d = Some e"
    then show "conn_fine alive d (conn_in (cl_poll (put_conn k ?c s)) e)"
      using new ok fine by (cases "d = k") (auto simp: conns_ok_def)
  qed
  moreover have "queued ?c = []" by (simp add: new_TcpConnection_def)
  ultimately show ?thesis using e(1,2) ch keep_ok self(2) reg int by (intro exI [of _ ?c]) simp
qed

section \<open>The channels the loop owns\<close>

lemma owner_calls_eq:
  assumes ch: "owner_channel cb (chan (cl_poll (sy_conns s)) k)" and ev: "revents (chan (cl_poll (sy_conns s)) k) = POLLIN"
    and idle: "\<not> eventHandling (chan (cl_poll (sy_conns s)) k)"
  shows "owner_calls t k s = Inr ([OnRead cb t], s)"
proof -
  let ?ch = "chan (cl_poll (sy_conns s)) k"
  have "has_event POLLIN POLLIN" "\<not> has_event POLLIN POLLHUP" "\<not> has_event POLLIN (POLLERR OR POLLNVAL)"
    "has_event POLLIN (POLLIN OR POLLRDHUP OR POLLPRI)" "\<not> has_event POLLIN POLLOUT"
    by (simp_all add: has_event_def poll_flags)
  then have "HandleEvents (alive_in (sy_conns s)) (\<lambda>call (ch, calls). Inr (ch, calls @ [call])) t (?ch, []) = Inr (?ch, [OnRead cb t])"
    using ch ev idle by (simp add: HandleEvents_def HandleEventsWithGuard_def call_if_def owner_channel_def)
  moreover have "upd_chan k (\<lambda>x. ?ch) (cl_poll (sy_conns s)) = cl_poll (sy_conns s)" by (simp add: upd_chan_def)
  ultimately show ?thesis by (simp add: owner_calls_def)
qed

lemma owned_channel:
  assumes ok: "sys_ok now0 s" and k: "k \<in> owned" "k \<in> set (sy_active s)"
  shows "revents (chan (cl_poll (sy_conns s)) k) = POLLIN" and "\<not> eventHandling (chan (cl_poll (sy_conns s)) k)"
  using sys_okD(3,7) [OF ok] k by (auto simp: active_ok_def active_chan_ok_def conns_ok_def)

lemma active_only: "sys_ok now0 s \<Longrightarrow> sy_active s \<noteq> [] \<Longrightarrow> pc (sy_loop s) = AtActive"
  using sys_okD(7) by (auto simp: active_ok_def)

lemma handle_watcher_eq:
  assumes ok: "sys_ok now0 s" and act: "sy_active s = watcher_chan # ks"
  shows "handle_watcher t clk now (s\<lparr>sy_active := ks\<rparr>) = on_timers (\<lambda>x. x)
    (Watcher_HandleExpiredTimers True clk ((sy_timed s)\<lparr>tl_now := now\<rparr>)) (s\<lparr>sy_active := ks\<rparr>)"
proof -
  let ?s = "s\<lparr>sy_active := ks\<rparr>"
  have w: "watcher_chan \<in> owned" "watcher_chan \<in> set (sy_active s)" by (simp_all add: owned_def act)
  have "owner_calls t watcher_chan ?s = Inr ([OnRead cb_HandleExpiredTimers t], ?s)"
    by (rule owner_calls_eq) (use sys_okD(4) [OF ok] owned_channel [OF ok w] in simp_all)
  then show ?thesis
    by (simp add: handle_watcher_def on_timers_def split: option.splits sum.splits)
qed

lemma handle_bridge_eq:
  assumes ok: "sys_ok now0 s" and act: "sy_active s = bridge_chan # ks"
  shows "handle_bridge t (s\<lparr>sy_active := ks\<rparr>)
    = Inr (s\<lparr>sy_active := ks, sy_loop := (HandleWakeUpFdRead (sy_loop s))\<lparr>woken := False\<rparr>\<rparr>)"
proof -
  let ?s = "s\<lparr>sy_active := ks\<rparr>"
  have b: "bridge_chan \<in> owned" "bridge_chan \<in> set (sy_active s)" by (simp_all add: owned_def act)
  have "owner_calls t bridge_chan ?s = Inr ([OnRead cb_HandleWakeUpFdRead t], ?s)"
    by (rule owner_calls_eq) (use sys_okD(5) [OF ok] owned_channel [OF ok b] in simp_all)
  then show ?thesis by (simp add: handle_bridge_def)
qed

lemma watcher_ok:
  assumes ok: "sys_ok now0 s" and act: "sy_active s = watcher_chan # ks" and idle: "tl_running (sy_timed s) = []"
    and now0: "0 \<le> now0" and clk: "phase_clock clk now" "tl_now (sy_timed s) \<le> clk 0"
    "slow_repeats clk now (queued_timers (tl_q (sy_timed s)))" "repeats_fit now (queued_timers (tl_q (sy_timed s)))"
  shows "\<exists>s'. handle_watcher t clk now (s\<lparr>sy_active := ks\<rparr>) = Some (Inr s') \<and> sys_ok now0 s' \<and> sys_grows s s'"
proof -
  note o = sys_okD [OF ok]
  let ?l = "sy_timed s" and ?s = "s\<lparr>sy_active := ks\<rparr>"
  have tl: "tl_ok ?l" by (rule tl_reach_ok [OF o(2) new_timed_loop_ok [OF now0]])
  have ready: "tl_ready ?l" using o(7) act by (simp add: active_ok_def)
  from step_handle [OF tl ready idle clk] obtain fired q where
    h: "Watcher_HandleExpiredTimers True clk (?l\<lparr>tl_now := now\<rparr>)
        = Some (Inr (?l\<lparr>tl_now := now, tl_q := q, tl_ready := False, tl_running := fired\<rparr>))"
      "tq_pending q = tq_pending (tl_q ?l)" by blast
  let ?l' = "?l\<lparr>tl_now := now, tl_q := q, tl_ready := False, tl_running := fired\<rparr>"
  let ?s' = "?s\<lparr>sy_timed := ?l'\<rparr>"
  have "tl_step Careful ?l (Some (Inr ?l'))" using tl_handle [OF ready idle clk] by (simp only: h(1))
  with o(2) have reach: "tl_reach Careful (new_timed_loop now0) ?l'" by (rule tl_reach.there)
  have "handle_watcher t clk now ?s = Some (Inr ?s')" by (simp add: handle_watcher_eq [OF ok act] on_timers_def h(1))
  moreover have "sys_ok now0 ?s'"
    using o reach h(2) act active_only [OF ok] unfolding sys_ok_def codes_ok_def active_ok_def codes_def
    by (simp add: owner_defs)
  moreover have "sys_grows s ?s'" by (rule sys_grows_same) simp
  ultimately show ?thesis by blast
qed

lemma bridge_ok:
  assumes ok: "sys_ok now0 s" and act: "sy_active s = bridge_chan # ks"
  shows "\<exists>s'. handle_bridge t (s\<lparr>sy_active := ks\<rparr>) = Inr s' \<and> sys_ok now0 s' \<and> sys_grows s s'"
proof -
  note o = sys_okD [OF ok]
  let ?s = "s\<lparr>sy_active := ks\<rparr>" and ?l = "(HandleWakeUpFdRead (sy_loop s))\<lparr>woken := False\<rparr>"
  let ?s' = "?s\<lparr>sy_loop := ?l\<rparr>"
  have pc: "pc (sy_loop s) = AtActive" by (rule active_only [OF ok]) (simp add: act)
  have "woken (sy_loop s)" using o(7) act by (simp add: active_ok_def)
  then have run: "loop_run {ByLoop, ByOther} ?l" using loop_more [OF o(1) loop_step.wake_read [OF pc]] by simp
  have "handle_bridge t ?s = Inr ?s'" by (rule handle_bridge_eq [OF ok act])
  moreover have "sys_ok now0 ?s'"
    using o run act pc unfolding sys_ok_def codes_ok_def active_ok_def codes_def
    by (simp add: owner_defs HandleWakeUpFdRead_def)
  moreover have "sys_grows s ?s'" by (rule sys_grows_same) simp
  ultimately show ?thesis by blast
qed

text \<open>A connection with events.\<close>

lemma connection_ok:
  assumes ok: "sys_ok now0 s" and act: "sy_active s = k # ks" and k: "k \<notin> owned"
    and user: "good_user user" and kernel: "good_kernel kr kw"
  shows "\<exists>s'. on_connection True k (conn_HandleEvents (alive_in (sy_conns s)) (conn_cb user kr kw) t) (s\<lparr>sy_active := ks\<rparr>) = Inr s'
    \<and> sys_ok now0 s' \<and> sys_grows s s'"
proof -
  note o = sys_okD [OF ok]
  let ?s = "s\<lparr>sy_active := ks\<rparr>" and ?p = "cl_poll (sy_conns s)"
  have pc: "pc (sy_loop s) = AtActive" by (rule active_only [OF ok]) (simp add: act)
  have ok0: "sys_ok now0 ?s"
    using o act k unfolding sys_ok_def codes_ok_def active_ok_def codes_def by (auto simp: owned_iff)
  from o(7) act k obtain c where c: "cl_conns (sy_conns s) k = Some c" "conn_ok (conn_in ?p c)" "linux_events (revents (chan ?p k))"
    by (auto simp: active_ok_def active_chan_ok_def)
  from handle_conn_ok [where kr = "\<lambda>k. kr" and kw = "\<lambda>k. kw" and t = t, OF o(3) c user kernel] obtain c' where
    c': "conn_HandleEvents (alive_in (sy_conns s)) (conn_cb user kr kw) t (conn_in ?p c) = Inr c'" "outcome (conn_in ?p c) c'" by blast
  have ck: "conn_chan c = k" using o(3) c(1) by (simp add: conns_ok_def conn_fine_def)
  have reg: "registered (cl_poll (sy_conns ?s)) k" using c(2) ck by (simp add: conn_ok_def)
  have gone: "k \<notin> set (sy_active ?s)" using o(7) act by (simp add: active_ok_def)
  have c0: "cl_conns (sy_conns ?s) k = Some c" "outcome (conn_in (cl_poll (sy_conns ?s)) c) c'" using c(1) c'(2) by simp_all
  have who: "True \<longrightarrow> in_user ?s" using pc by (simp add: in_user_def)
  have once: "DestroyedTask \<notin> set (queued c)" using removal_down(1) [OF ok c(1)] ok_not_down [OF c(2)] by blast
  note put = put_connection_ok [OF ok0 c0 disjI1 [OF reg] who, OF notE [OF gone] notE [OF once]]
  have "sys_grows s s'" if "sys_grows ?s s'" for s' using that by (simp add: sys_grows_def)
  with put c(1) c'(1) show ?thesis by (simp add: on_connection_def)
qed

section \<open>The timers\<close>

lemma enqueue_none [simp]: "enqueue_codes inl 0 cb s = s"
  by (simp add: enqueue_codes_def)

lemma submitted_by_eq: "submitted_by inl s = enqueue_codes False (if inl then 0 else 1) timer_code s"
  by (simp add: submitted_by_def)

text \<open>A step of the timers that may have left a task in the queue.\<close>

lemma timed_step_ok:
  assumes ok: "sys_ok now0 s" and step: "tl_step Careful (sy_timed s) (Some (Inr l))"
    and same: "tl_ready l = tl_ready (sy_timed s)" "tl_running l = [] \<or> tl_running l = tl_running (sy_timed s)
      \<or> tl_running (sy_timed s) \<noteq> []"
    and n: "length (tq_pending (tl_q l)) = length (tq_pending (tl_q (sy_timed s))) + n"
  shows "sys_ok now0 (enqueue_codes False n timer_code (s\<lparr>sy_timed := l\<rparr>))"
    and "sys_grows s (enqueue_codes False n timer_code (s\<lparr>sy_timed := l\<rparr>))"
proof -
  note o = sys_okD [OF ok]
  let ?s = "s\<lparr>sy_timed := l\<rparr>" and ?s' = "enqueue_codes False n timer_code (s\<lparr>sy_timed := l\<rparr>)"
  have "loop_run {ByLoop, ByOther} (sy_loop ?s)" using o(1) by simp
  note enq = codes_enqueue [OF this, of False n timer_code, simplified]
  have parts: "sy_conns ?s' = sy_conns s" "sy_timed ?s' = l" "sy_active ?s' = sy_active s"
    by (simp_all add: enqueue_codes_def)
  have reach: "tl_reach Careful (new_timed_loop now0) l" by (rule tl_reach.there [OF o(2) step])
  have "count_list (replicate m timer_code) (Suc d) = 0" "count_list (replicate m timer_code) timer_code = m" for m d
    by (induction m) (auto simp: timer_code_def)
  moreover have "codes ?s' = codes s @ replicate n timer_code" using enq(4) by (simp add: codes_def)
  ultimately have "codes_ok ?s'" using o(6) n unfolding codes_ok_def parts by simp
  moreover have "active_ok ?s'"
    using o(7) same enq(2,3) unfolding active_ok_def parts by auto
  ultimately show "sys_ok now0 ?s'" using o reach enq(1) unfolding sys_ok_def parts by simp
  show "sys_grows s ?s'" by (rule sys_grows_same) (simp add: parts)
qed

lemma AddTimer_pending:
  assumes "AddTimer inl when itv cb q = Inr (tid, q')"
  shows "length (tq_pending q') = length (tq_pending q) + (if inl then 0 else 1)"
  using assms AddTimerInLoop_pending by (auto simp: AddTimer_def submit_def Let_def res_iffs split: if_splits)

lemma CancelTimer_pending:
  assumes "CancelTimer inl tid q = Inr q'"
  shows "length (tq_pending q') = length (tq_pending q) + (if inl then 0 else 1)"
  using assms CancelTimerInLoop_pending by (auto simp: CancelTimer_def submit_def split: if_splits)

lemma add_timer_ok:
  assumes ok: "sys_ok now0 s" and now0: "0 \<le> now0" and "0 < when" "when < TimePoint_max" "0 \<le> itv" "fresh_id (tl_q (sy_timed s))"
  shows "\<exists>s'. sys_AddTimer inl when itv cb s = Some (Inr s') \<and> sys_ok now0 s' \<and> sys_grows s s'"
proof -
  note o = sys_okD [OF ok]
  let ?l = "sy_timed s"
  let ?up = "\<lambda>q. ?l\<lparr>tl_q := q, tl_asked := add_mset (new_timer (tl_q ?l) when itv cb) (tl_asked ?l)\<rparr>"
  have tl: "tl_ok ?l" by (rule tl_reach_ok [OF o(2) new_timed_loop_ok [OF now0]])
  from step_add [where inl = inl and cb = cb, OF tl assms(3-6) refl] obtain tid q where
    q: "AddTimer inl when itv cb (tl_q ?l) = Inr (tid, q)" by blast
  have "tl_step Careful ?l (Some (mapR (\<lambda>(tid, q). ?up q) (AddTimer inl when itv cb (tl_q ?l))))"
    by (rule tl_add) (use assms(3-6) in \<open>simp_all add: new_timer_def\<close>)
  then have step: "tl_step Careful ?l (Some (Inr (?up q)))" by (simp add: q)
  have "tl_ready (?up q) = tl_ready ?l" "tl_running (?up q) = [] \<or> tl_running (?up q) = tl_running ?l \<or> tl_running ?l \<noteq> []"
    "length (tq_pending (tl_q (?up q))) = length (tq_pending (tl_q ?l)) + (if inl then 0 else 1)"
    using AddTimer_pending [OF q] by simp_all
  from timed_step_ok [OF ok step this] q show ?thesis
    by (simp add: sys_AddTimer_def on_timers_def submitted_by_eq Let_def)
qed

lemma cancel_timer_ok:
  assumes ok: "sys_ok now0 s" and now0: "0 \<le> now0" and may: "inl \<longrightarrow> may_cancel tid (sy_timed s)"
  shows "\<exists>s'. sys_CancelTimer inl tid s = Some (Inr s') \<and> sys_ok now0 s' \<and> sys_grows s s'"
proof -
  note o = sys_okD [OF ok]
  let ?l = "sy_timed s"
  let ?up = "\<lambda>q. if inl then ?l\<lparr>tl_q := q, tl_dropped := tl_dropped ?l + with_id tid ?l\<rparr> else ?l\<lparr>tl_q := q\<rparr>"
  have tl: "tl_ok ?l" by (rule tl_reach_ok [OF o(2) new_timed_loop_ok [OF now0]])
  have st: "tl_step Careful ?l (Some (mapR ?up (CancelTimer inl tid (tl_q ?l))))"
    using tl_cancel_here [of tid ?l] tl_step.cancel_there [of Careful ?l tid] may by (cases inl) simp_all
  from tl_step_ok [OF st tl] obtain q where q: "CancelTimer inl tid (tl_q ?l) = Inr q" by (auto simp: res_iffs)
  from st have step: "tl_step Careful ?l (Some (Inr (?up q)))" by (simp add: q)
  have "tl_ready (?up q) = tl_ready ?l" "tl_running (?up q) = [] \<or> tl_running (?up q) = tl_running ?l \<or> tl_running ?l \<noteq> []"
    "length (tq_pending (tl_q (?up q))) = length (tq_pending (tl_q ?l)) + (if inl then 0 else 1)"
    using CancelTimer_pending [OF q] by simp_all
  from timed_step_ok [OF ok step this] q show ?thesis
    by (simp add: sys_CancelTimer_def on_timers_def submitted_by_eq Let_def)
qed

text \<open>The loop runs a task of the timers.\<close>

lemma take_code_run:
  assumes "loop_run {ByLoop, ByOther} (sy_loop s)" and "pc (sy_loop s) = AtRun" and "todo (sy_loop s) = cb # cs"
  shows "loop_run {ByLoop, ByOther} (sy_loop (take_code s))" and "codes s = cb # codes (take_code s)"
    and "take_code s = s\<lparr>sy_loop := (sy_loop s)\<lparr>todo := cs, executed := executed (sy_loop s) @ [cb]\<rparr>\<rparr>"
  using loop_more [OF assms(1) loop_step.run [OF assms(2,3)]] assms(3) by (simp_all add: take_code_def codes_def)

lemma run_task_pending: "run_task True task q = Inr q' \<Longrightarrow> tq_pending q' = tq_pending q"
  using AddTimerInLoop_pending CancelTimerInLoop_pending by (cases task) auto

lemma timer_task_ok:
  assumes ok: "sys_ok now0 s" and now0: "0 \<le> now0" and pc: "pc (sy_loop s) = AtRun" and todo: "todo (sy_loop s) = timer_code # cs"
    and may: "\<forall>tid ts. tq_pending (tl_q (sy_timed s)) = TaskCancel tid # ts \<longrightarrow> may_cancel tid (sy_timed s)"
  shows "\<exists>s'. run_timer_code s = Some (Inr s') \<and> sys_ok now0 s' \<and> sys_grows s s'"
proof -
  note o = sys_okD [OF ok]
  let ?l = "sy_timed s" and ?s1 = "take_code s"
  note take = take_code_run [OF o(1) pc todo]
  have tl: "tl_ok ?l" by (rule tl_reach_ok [OF o(2) new_timed_loop_ok [OF now0]])
  have cnt: "count_list (codes s) timer_code = Suc (count_list (codes ?s1) timer_code)"
    "\<And>k. count_list (codes s) (Suc k) = count_list (codes ?s1) (Suc k)"
    unfolding take(2) by (simp_all add: timer_code_def)
  then have "tq_pending (tl_q ?l) \<noteq> []" using o(6) by (auto simp: codes_ok_def)
  then obtain task ts where t: "tq_pending (tl_q ?l) = task # ts" by (cases "tq_pending (tl_q ?l)") auto
  let ?up = "\<lambda>q. case task of TaskAdd t \<Rightarrow> ?l\<lparr>tl_q := q\<rparr>
    | TaskCancel tid \<Rightarrow> ?l\<lparr>tl_q := q, tl_dropped := tl_dropped ?l + with_id tid ?l\<rparr>"
  have st: "tl_step Careful ?l (Some (mapR ?up (run_task True task ((tl_q ?l)\<lparr>tq_pending := ts\<rparr>))))"
    using tl_step.task_add [of ?l _ ts Careful] tl_task_cancel [of ?l _ ts] t may by (cases task) simp_all
  from tl_step_ok [OF st tl] obtain q where q: "run_task True task ((tl_q ?l)\<lparr>tq_pending := ts\<rparr>) = Inr q" by (auto simp: res_iffs)
  from st have reach: "tl_reach Careful (new_timed_loop now0) (?up q)" using tl_reach.there [OF o(2)] by (simp add: q)
  have up: "tl_ready (?up q) = tl_ready ?l" "tl_running (?up q) = tl_running ?l" "tl_q (?up q) = q"
    by (cases task; simp)+
  let ?s' = "?s1\<lparr>sy_timed := ?up q\<rparr>"
  have "run_timer_code s = Some (Inr ?s')" using t q
    by (cases task) (simp_all add: run_timer_code_def on_timers_def take(3) Let_def)
  moreover have "sys_ok now0 ?s'"
  proof -
    have "codes_ok ?s'"
      using o(6) cnt run_task_pending [OF q] t unfolding codes_ok_def by (simp add: up(3) codes_def take(3))
    moreover have "active_ok ?s'" using o(7) up unfolding active_ok_def by (simp add: take(3))
    ultimately show ?thesis using o take(1) reach unfolding sys_ok_def by (simp add: take(3))
  qed
  moreover have "sys_grows s ?s'" by (rule sys_grows_same) (simp add: take(3))
  ultimately show ?thesis by blast
qed

text \<open>The loop runs a task of a connection.\<close>

text \<open>The head of the queue of a connection is a task it can carry out.\<close>

lemma unqueued: "conn_ok (conn_in p (c\<lparr>queued := ts\<rparr>)) = conn_ok (conn_in p c)"
    "conn_down (conn_in p (c\<lparr>queued := ts\<rparr>)) = conn_down (conn_in p c)"
  by (simp_all add: conn_ok_def conn_live_def conn_down_def conn_in_def)

lemma head_fits:
  assumes fits: "task_fits wres k s" and c: "cl_conns (sy_conns s) k = Some c" and t: "queued c = SendTask buf # ts"
    and up: "conn_ok (conn_in (cl_poll (sy_conns s)) (c\<lparr>queued := ts\<rparr>))" (is "conn_ok ?c")
  shows "write_contract wres (length buf) ?c \<and> length buf \<le> room (outputBuffer ?c)"
proof -
  have "write_contract wres (length buf) (conn_in (cl_poll (sy_conns s)) c) \<and> length buf \<le> room (outputBuffer c)"
    using fits c t up unfolding unqueued by (simp add: task_fits_def send_fits_def)
  then show ?thesis by (simp add: write_contract_def split: write_result.splits)
qed

lemma head_task_moves:
  assumes ok: "sys_ok now0 s" and c: "cl_conns (sy_conns s) k = Some c" and t: "queued c = t # ts" and fits: "task_fits wres k s"
  shows "\<exists>c'. run_conn_task True (\<lambda>t. Inr) wres t (conn_in (cl_poll (sy_conns s)) (c\<lparr>queued := ts\<rparr>)) = Inr c'
    \<and> conn_moves (conn_in (cl_poll (sy_conns s)) (c\<lparr>queued := ts\<rparr>)) c'"
proof -
  let ?p = "cl_poll (sy_conns s)" and ?c = "c\<lparr>queued := ts\<rparr>"
  have ck: "conn_chan c = k" using sys_okD(3) [OF ok] c by (simp add: conns_ok_def conn_fine_def)
  have "t = ShutdownTask \<Longrightarrow> state c \<noteq> Connected" using sys_okD(8) [OF ok c] t by simp
  moreover have "conn_down (conn_in ?p ?c) \<and> registered ?p k \<and> DestroyedTask \<notin> set ts" if "t = DestroyedTask"
    using removal_down [OF ok c] t that count_list_0_iff [of ts DestroyedTask] unfolding unqueued by simp
  ultimately show ?thesis
    using run_conn_task_moves [of "conn_in ?p ?c" t wres] sys_conn_fine [OF ok c] head_fits [OF fits c, of _ ts] t ck
    by (simp add: unqueued)
qed

lemma conn_task_ok:
  assumes ok: "sys_ok now0 s" and pc: "pc (sy_loop s) = AtRun" and todo: "todo (sy_loop s) = Suc k # cs"
    and fits: "task_fits wres k s"
  shows "\<exists>s'. run_conn_code k wres s = Inr s' \<and> sys_ok now0 s' \<and> sys_grows s s'"
proof -
  note o = sys_okD [OF ok]
  let ?s1 = "take_code s" and ?p = "cl_poll (sy_conns s)"
  note take = take_code_run [OF o(1) pc todo]
  have cnt: "count_list (codes s) timer_code = count_list (codes ?s1) timer_code"
    "\<And>d. count_list (codes s) (Suc d) = count_list (codes ?s1) (Suc d) + (if d = k then 1 else 0)"
    unfolding take(2) by (simp_all add: timer_code_def)
  have "0 < count_list (codes s) (Suc k)" unfolding take(2) by simp
  then obtain c where c: "cl_conns (sy_conns s) k = Some c" "queued c \<noteq> []"
    using o(6) by (auto simp: codes_ok_def split: option.splits)
  then obtain t ts where t: "queued c = t # ts" by (cases "queued c") auto
  let ?c = "c\<lparr>queued := ts\<rparr>"
  let ?s2 = "?s1\<lparr>sy_conns := (sy_conns ?s1)\<lparr>cl_conns := (cl_conns (sy_conns ?s1))(k \<mapsto> ?c)\<rparr>\<rparr>"
  have rest: "sy_conns ?s1 = sy_conns s" "sy_timed ?s1 = sy_timed s" "sy_active ?s1 = sy_active s"
    "pc (sy_loop ?s1) = pc (sy_loop s)" "woken (sy_loop ?s1) = woken (sy_loop s)" by (simp_all add: take(3))
  have none: "sy_active s = []" using o(7) pc by (simp add: active_ok_def)
  have fine: "conn_fine (alive_in (sy_conns s)) k (conn_in ?p c)" using o(3) c(1) by (simp add: conns_ok_def)
  have ok2: "sys_ok now0 ?s2"
  proof -
    have "conn_fine (alive_in (sy_conns s)) k (conn_in ?p ?c)" using fine by (simp add: conn_fine_def unqueued)
    then have "conns_ok (alive_in (sy_conns ?s2)) owned (sy_conns ?s2)"
      using o(3) c(1) unfolding rest by (auto simp: conns_ok_def)
    moreover have "codes_ok ?s2"
    proof -
      have "codes ?s2 = codes ?s1" by (simp add: codes_def)
      moreover have "count_list (codes ?s1) (Suc d) = (case cl_conns (sy_conns ?s2) d of None \<Rightarrow> 0 | Some e \<Rightarrow> length (queued e))" for d
        using o(6) [unfolded codes_ok_def, THEN conjunct2, rule_format, of d] cnt(2) [of d] c(1) t
        by (cases "d = k") (simp_all add: rest)
      ultimately show ?thesis using o(6) cnt(1) by (simp add: codes_ok_def rest)
    qed
    moreover have "active_ok ?s2" using o(7) none unfolding active_ok_def by (simp add: rest)
    moreover have "\<forall>d e. cl_conns (sy_conns ?s2) d = Some e \<longrightarrow> ShutdownTask \<in> set (queued e) \<longrightarrow> state e \<noteq> Connected"
      using o(8) c(1) t by (auto simp: rest)
    moreover have "ties_own (sy_conns ?s2)" using o(9) c(1) by (auto simp: ties_own_def rest)
    moreover have "count_list (queued c) DestroyedTask \<le> 1" using o(10) c(1) unfolding removal_ok_def by blast
    then have "count_list ts DestroyedTask \<le> 1" by (simp add: t split: if_splits)
    with o(10) c(1) t have "removal_ok (sy_conns ?s2)" by (auto simp: removal_ok_def rest)
    ultimately show ?thesis using o(2,4,5) take(1) unfolding sys_ok_def by (simp add: rest)
  qed
  have c2: "cl_conns (sy_conns ?s2) k = Some ?c" by simp
  have "\<exists>c'. run_conn_task True (\<lambda>t. Inr) wres t (conn_in (cl_poll (sy_conns ?s2)) ?c) = Inr c'
      \<and> conn_moves (conn_in (cl_poll (sy_conns ?s2)) ?c) c'"
    using head_task_moves [OF ok c(1) t fits] by (simp add: rest)
  moreover have "True \<longrightarrow> in_user ?s2" using pc by (simp add: in_user_def rest)
  ultimately obtain s' where
    s': "on_connection True k (run_conn_task True (\<lambda>t. Inr) wres t) ?s2 = Inr s'" "sys_ok now0 s'" "sys_grows ?s2 s'"
    using on_connection_ok [where f = "run_conn_task True (\<lambda>t. Inr) wres t", OF ok2 c2] by blast
  have "sys_grows s ?s2" using c(1) by (auto simp: sys_grows_def rest output_grows_def)
  with s' sys_grows_trans c(1) t show ?thesis by (fastforce simp: run_conn_code_def rest Let_def)
qed

section \<open>Polling and the rest of the loop\<close>

lemma reported_set: "set (reported mempool p rs) = set (reported False p rs)"
  by (simp add: reported_def Let_def)

lemma sys_poll_ok:
  assumes ok: "sys_ok now0 s" and pc: "pc (sy_loop s) = AtPoll" and k: "kernel_polls n rs s"
  shows "\<exists>s'. sys_poll mempool n rs s = Inr s' \<and> sys_ok now0 s' \<and> sys_grows s s'"
proof -
  note o = sys_okD [OF ok]
  let ?p = "cl_poll (sy_conns s)"
  have kernel: "poll_contract (pollfds ?p) n rs" and lin: "\<forall>r \<in> set rs. linux_events (word_of_int (sint r))"
    and fd: "bridge_chan \<in> set (reported False ?p rs) \<longleftrightarrow> 0 < eventfd (sy_loop s)"
    "watcher_chan \<in> set (reported False ?p rs) \<longleftrightarrow> timerfd_readable (tl_now (sy_timed s)) (timerfd (tl_q (sy_timed s)))"
    and own: "\<And>i. i < length (pollfds ?p) \<Longrightarrow> channel_at ?p i \<in> owned \<Longrightarrow> rs ! i \<noteq> 0 \<Longrightarrow> rs ! i = 1"
    using k by (auto simp: kernel_polls_def Let_def)
  have p: "poller_ok ?p" using o(3) by (simp add: conns_ok_def)
  from Poll_ready [OF p kernel, of mempool] obtain p' active where
    r: "Poll mempool n rs ?p = Inr (p', active)" "poller_ok p'" "interest p' = interest ?p" "distinct active"
      "(if mempool then rev active else active) = map (channel_at ?p) (filter (\<lambda>i. rs ! i \<noteq> 0) [0..<length (pollfds ?p)])"
    and ev: "\<forall>i < length (pollfds ?p). rs ! i \<noteq> 0 \<longrightarrow> revents (chan p' (channel_at ?p i)) = word_of_int (sint (rs ! i))" by blast
  have "active = reported mempool ?p rs" unfolding reported_def Let_def r(5) [symmetric] by simp
  then have act: "set active = set (reported False ?p rs)" by (simp add: reported_set [of mempool])
  have len: "length rs = length (pollfds ?p)" using kernel by (simp add: poll_contract_def)
  let ?cl = "(sy_conns s)\<lparr>cl_poll := p'\<rparr>"
  note conns = polled_conn(3) [OF r(2,1,3) o(3) refl]
  have ready: "active_chan_ok ?cl d" if "d \<in> set active" for d
  proof -
    from that obtain i where i: "i < length (pollfds ?p)" "rs ! i \<noteq> 0" "d = channel_at ?p i"
      unfolding act by (auto simp: reported_def Let_def)
    have rev: "revents (chan p' d) = word_of_int (sint (rs ! i))" using ev i by simp
    show ?thesis
    proof (cases "d \<in> owned")
      case True
      with own i have "rs ! i = 1" by simp
      with rev True show ?thesis by (simp add: active_chan_ok_def POLLIN_def)
    next
      case False
      have "rs ! i \<in> set rs" using i(1) len by simp
      with lin rev have "linux_events (revents (chan p' d))" by simp
      moreover from reported_conn_ok [OF o(3) kernel i(1,2)] False i(3) obtain c where
        "cl_conns (sy_conns s) d = Some c" "conn_ok (conn_in ?p c)" by auto
      ultimately show ?thesis using polled_conn(1) [OF r(2,1,3)] False by (auto simp: active_chan_ok_def)
    qed
  qed
  let ?l = "(sy_loop s)\<lparr>pc := AtActive, woken := (bridge_chan \<in> set active)\<rparr>"
    and ?t = "if watcher_chan \<in> set active then (sy_timed s)\<lparr>tl_ready := True\<rparr> else sy_timed s"
  let ?s' = "s\<lparr>sy_loop := ?l, sy_conns := ?cl, sy_active := active, sy_timed := ?t\<rparr>"
  have none: "sy_active s = []" "tl_running (sy_timed s) = []" using o(7) pc by (auto simp: active_ok_def)
  have "\<not> tl_ready (sy_timed s)" using o(7) none by (simp add: active_ok_def)
  then have t: "tl_ready ?t \<longleftrightarrow> watcher_chan \<in> set active" "tl_running ?t = []" "tl_q ?t = tl_q (sy_timed s)"
    using none by simp_all
  have "loop_step ByLoop (sy_loop s) ?l" using loop_step.poll [OF pc] by (simp add: act fd(1))
  with loop_more [OF o(1)] have run: "loop_run {ByLoop, ByOther} ?l" by simp
  have reach: "tl_reach Careful (new_timed_loop now0) ?t"
  proof (cases "watcher_chan \<in> set active")
    case True
    with act fd(2) have "timerfd_readable (tl_now (sy_timed s)) (timerfd (tl_q (sy_timed s)))" by blast
    from tl_reach.there [OF o(2) tl_step.poll [OF this none(2)]] True show ?thesis by simp
  qed (use o(2) in simp)
  have "owner_channel cb (chan p' d) = owner_channel cb (chan ?p d)" for cb d
    by (subst Poll_chan [OF r(1)]) (simp add: owner_channel_def)
  moreover have "tie (chan p' d) = tie (chan ?p d)" for d by (subst Poll_chan [OF r(1)]) simp
  then have "ties_own ?cl" using o(9) by (simp add: ties_own_def)
  moreover have "ch_fd (chan p' d) = ch_fd (chan ?p d)" for d by (subst Poll_chan [OF r(1)]) simp
  then have "removal_ok ?cl" using o(10) by (simp add: removal_ok_def registered_def Poll_channels [OF r(1)])
  moreover have "codes_ok ?s'" using o(6) unfolding codes_ok_def codes_def by (simp add: t(3))
  moreover have "active_ok ?s'" using ready r(4) t unfolding active_ok_def by simp
  ultimately have "sys_ok now0 ?s'" using o run reach conns unfolding sys_ok_def by simp
  moreover have "sys_poll mempool n rs s = Inr ?s'" by (simp add: sys_poll_def r(1))
  moreover have "sys_grows s ?s'" by (rule sys_grows_same) simp
  ultimately show ?thesis by blast
qed

lemma connect_step_ok:
  assumes ok: "sys_ok now0 s" and user: "in_user s" and k: "cl_conns (sy_conns s) k = None" "k \<notin> owned"
    and fd: "0 \<le> fd" "channels (cl_poll (sy_conns s)) fd = None"
  shows "\<exists>s'. sys_connect fd k wc hwm hw s = Inr s' \<and> sys_ok now0 s' \<and> sys_grows s s'"
proof -
  note o = sys_okD [OF ok]
  let ?alive = "(alive_in (sy_conns s))(k := True)"
  have "conns_ok ?alive owned (sy_conns s)" using o(3) by (auto simp: conns_ok_def conn_fine_def)
  from connect_ok [where wc = wc and hwm = hwm and hw = hw, OF this fd k] obtain c where
    c: "StepIntoEstablished True quiet ((new_TcpConnection fd k k (cl_poll (sy_conns s)))
        \<lparr>has_writeComplete := wc, highWaterMark := hwm, has_highWater := hw\<rparr>) = Inr c"
      "conns_ok ?alive owned (put_conn k c (sy_conns s))" "queued c = []" "tie (chan (poll c) k) = Some k"
      "\<And>d. d \<noteq> k \<Longrightarrow> chan (poll c) d = chan (cl_poll (sy_conns s)) d"
      "\<And>e. conn_chan e \<noteq> k \<Longrightarrow> conn_ok (conn_in (cl_poll (sy_conns s)) e) \<Longrightarrow> conn_ok (conn_in (poll c) e)"
      "\<And>d. d \<noteq> k \<Longrightarrow> registered (poll c) d = registered (cl_poll (sy_conns s)) d"
    by auto
  let ?s' = "s\<lparr>sy_conns := put_conn k c (sy_conns s)\<rparr>"
  have alive: "?alive = alive_in (put_conn k c (sy_conns s))" by (auto simp: alive_in_def fun_eq_iff)
  have own: "watcher_chan \<noteq> k" "bridge_chan \<noteq> k" using k(2) by (auto simp: owned_def)
  have "active_chan_ok (put_conn k c (sy_conns s)) d" if d: "d \<in> set (sy_active s)" for d
  proof -
    have h: "active_chan_ok (sy_conns s) d" using o(7) d by (simp add: active_ok_def)
    then have dk: "d \<noteq> k" using k by (auto simp: active_chan_ok_def)
    have "conn_chan e = d" if "cl_conns (sy_conns s) d = Some e" for e
      using o(3) that by (simp add: conns_ok_def conn_fine_def)
    with h c(5) [OF dk] c(6) dk show ?thesis by (auto simp: active_chan_ok_def)
  qed
  then have "active_ok ?s'" using o(7) by (simp add: active_ok_def)
  moreover have "count_list (codes s) (Suc k) = 0" using o(6) k(1) by (simp add: codes_ok_def)
  then have "codes_ok ?s'" using o(6) c(3) k(1) unfolding codes_ok_def codes_def by simp
  moreover have "ties_own (put_conn k c (sy_conns s))" using o(9) c(4,5) by (auto simp: ties_own_def)
  moreover have "removal_ok (put_conn k c (sy_conns s))" using o(10) c(3,7) by (auto simp: removal_ok_def split: if_splits)
  ultimately have "sys_ok now0 ?s'" using o c(2,3,5) own unfolding sys_ok_def alive by simp
  moreover have "sys_grows s ?s'" using k(1) by (auto simp: sys_grows_def)
  moreover have "sys_connect fd k wc hwm hw s = Inr ?s'" by (simp add: sys_connect_def c(1))
  ultimately show ?thesis by blast
qed

text \<open>The removal of a closed connection, done at once or handed to the loop.\<close>

lemma removal_step_ok:
  assumes ok: "sys_ok now0 s" and who: "inl \<longrightarrow> in_user s" and c: "cl_conns (sy_conns s) k = Some c" "state c = Disconnected"
    "registered (cl_poll (sy_conns s)) k" "DestroyedTask \<notin> set (queued c)"
  shows "\<exists>s'. on_connection inl k (remove_conn inl) s = Inr s' \<and> sys_ok now0 s' \<and> sys_grows s s'"
proof -
  let ?p = "cl_poll (sy_conns s)"
  have ck: "conn_chan c = k" using sys_okD(3) [OF ok] c(1) by (simp add: conns_ok_def conn_fine_def)
  have up: "\<not> conn_ok (conn_in ?p c)" using c(2) by (auto simp: conn_ok_def conn_live_def)
  then have down: "conn_down (conn_in ?p c)" using sys_conn_fine [OF ok c(1)] by blast
  show ?thesis
  proof (cases inl)
    case True
    have "\<exists>c'. remove_conn True (conn_in ?p c) = Inr c' \<and> conn_moves (conn_in ?p c) c'"
      using destroy_moves [OF down] c(3,4) ck by (simp add: remove_conn_def)
    with on_connection_ok [where f = "remove_conn True", OF ok c(1), of True] who True show ?thesis by simp
  next
    case False
    let ?c' = "enqueue DestroyedTask (conn_in ?p c)"
    have "conn_ok ?c' \<or> conn_down ?c'" using down by (simp add: enqueue_def conn_down_def)
    moreover have "conn_kept (conn_in ?p c) ?c'" by (simp add: conn_kept_def enqueue_def)
    moreover have "output_grows c ?c'" by (simp add: output_grows_def enqueue_def)
    moreover have "k \<notin> set (sy_active s)"
    proof
      assume act: "k \<in> set (sy_active s)"
      have "k \<notin> owned" using sys_okD(3) [OF ok] c(1) by (auto simp: conns_ok_def)
      with sys_okD(7) [OF ok] act c(1) up show False by (auto simp: active_ok_def active_chan_ok_def)
    qed
    ultimately show ?thesis
      using put_queued_ok [OF ok c(1), of ?c' "[DestroyedTask]" False] c False
      by (simp add: on_connection_def remove_conn_def enqueue_def)
  qed
qed

text \<open>A connection that is over is destroyed: its assertions hold, and nothing in the loop refers to it.\<close>

lemma drop_ok:
  assumes ok: "sys_ok now0 s" and c: "cl_conns (sy_conns s) k = Some c" "\<not> registered (cl_poll (sy_conns s)) k" "queued c = []"
  shows "\<exists>s'. sys_drop k s = Inr s' \<and> sys_ok now0 s' \<and> sys_evolves s s'"
proof -
  note o = sys_okD [OF ok]
  let ?p = "cl_poll (sy_conns s)" and ?cl = "(sy_conns s)\<lparr>cl_conns := (cl_conns (sy_conns s))(k := None)\<rparr>"
  let ?s' = "s\<lparr>sy_conns := ?cl\<rparr>"
  have fine: "conn_chan c = k" "\<not> eventHandling (chan ?p k)" using o(3) c(1) by (auto simp: conns_ok_def conn_fine_def)
  have "\<not> conn_ok (conn_in ?p c)" using c(2) fine by (simp add: conn_ok_def)
  then have down: "conn_down (conn_in ?p c)" using sys_conn_fine [OF ok c(1)] by blast
  then have st: "state c = Disconnected" by (simp add: conn_down_def)
  have unreg: "channels ?p fd \<noteq> Some k" for fd
    using o(3) c(2) by (auto simp: conns_ok_def registered_def poller_ok_def at_index_def)
  have "conn_fine (alive_in ?cl) d (conn_in ?p e)" if "cl_conns ?cl d = Some e" for d e
    using that o(3,9) by (auto simp: conns_ok_def conn_fine_def ties_own_def alive_in_def split: if_splits)
  then have "conns_ok (alive_in ?cl) owned ?cl" using o(3) unreg unfolding conns_ok_def by simp
  moreover have "codes_ok ?s'" using o(6) c(1,3) by (simp add: codes_ok_def codes_def)
  moreover have "active_chan_ok ?cl d" if "active_chan_ok (sy_conns s) d" for d
    using that c(1) \<open>\<not> conn_ok (conn_in ?p c)\<close> by (auto simp: active_chan_ok_def split: if_splits)
  then have "active_ok ?s'" using o(7) by (simp add: active_ok_def)
  moreover have "ties_own ?cl" "removal_ok ?cl" using o(9,10) by (simp_all add: ties_own_def removal_ok_def)
  ultimately have "sys_ok now0 ?s'" using o unfolding sys_ok_def by simp
  moreover have "sys_drop k s = Inr ?s'" using c(1) st fine(2)
    by (simp add: sys_drop_def Destruct_TcpConnection_def Destruct_Channel_def)
  moreover have "sys_evolves s ?s'" using c st by (auto simp: sys_evolves_def)
  ultimately show ?thesis by blast
qed

text \<open>Steps of the loop that touch nothing else.\<close>

lemma loop_step_only:
  assumes ok: "sys_ok now0 s" and step: "loop_step a (sy_loop s) l" "a \<noteq> BeforeLoop"
    and codes: "todo l @ pendingCbs l = codes s" and woken: "woken l = woken (sy_loop s)"
    and pc: "pc l = pc (sy_loop s) \<or> pc l = AtActive \<or> sy_active s = [] \<and> tl_running (sy_timed s) = []"
  shows "sys_ok now0 (s\<lparr>sy_loop := l\<rparr>) \<and> sys_grows s (s\<lparr>sy_loop := l\<rparr>)"
proof
  note o = sys_okD [OF ok]
  show "sys_ok now0 (s\<lparr>sy_loop := l\<rparr>)"
  proof (rule sys_ok_loop [OF ok loop_more [OF o(1) step]])
    show "codes_ok (s\<lparr>sy_loop := l\<rparr>)" using o(6) codes by (simp add: codes_ok_def codes_def)
    show "active_ok (s\<lparr>sy_loop := l\<rparr>)" using o(7) woken pc by (auto simp: active_ok_def)
  qed
  show "sys_grows s (s\<lparr>sy_loop := l\<rparr>)" by (rule sys_grows_same) simp
qed

lemma quit_ok:
  assumes ok: "sys_ok now0 s" and who: "inl \<longrightarrow> in_user s" and q: "\<not> quit_flag (sy_loop s)"
  shows "\<exists>l. Quit inl (sy_loop s) = Inr l \<and> sys_ok now0 (s\<lparr>sy_loop := l\<rparr>) \<and> sys_grows s (s\<lparr>sy_loop := l\<rparr>)"
proof -
  note o = sys_okD [OF ok]
  let ?q = "(sy_loop s)\<lparr>quit_flag := True\<rparr>"
  let ?l = "if inl then ?q else WakeUp ?q"
  have st: "Quit_store (sy_loop s) = Inr ?q" using q by (simp add: Quit_store_def)
  have Q: "Quit inl (sy_loop s) = Inr ?l" by (simp add: Quit_def st)
  have run: "loop_run {ByLoop, ByOther} ?l"
  proof (cases inl)
    case True
    with who Q have "loop_step ByLoop (sy_loop s) ?q" by (auto simp: in_user_def intro: loop_step.active_quit loop_step.run_quit)
    with loop_more [OF o(1)] True show ?thesis by simp
  next
    case False
    let ?l1 = "?q\<lparr>wakes := wakes (sy_loop s) + 1\<rparr>"
    have 1: "loop_run {ByLoop, ByOther} ?l1" by (rule loop_more [OF o(1) loop_step.other_quit [OF st]]) simp
    have "loop_step ByOther ?l1 ((Enqueue_wake False ?l1)\<lparr>wakes := wakes ?l1 - 1\<rparr>)" by (rule loop_step.other_wake) simp
    moreover have "(Enqueue_wake False ?l1)\<lparr>wakes := wakes ?l1 - 1\<rparr> = WakeUp ?q"
      by (simp add: Enqueue_wake_def WakeUp_def)
    ultimately show ?thesis using loop_more [OF 1] False by simp
  qed
  have "codes_ok (s\<lparr>sy_loop := ?l\<rparr>)" using o(6) by (simp add: codes_ok_def codes_def)
  moreover have "active_ok (s\<lparr>sy_loop := ?l\<rparr>)" using o(7) by (simp add: active_ok_def)
  ultimately have "sys_ok now0 (s\<lparr>sy_loop := ?l\<rparr>)" by (rule sys_ok_loop [OF ok run])
  moreover have "sys_grows s (s\<lparr>sy_loop := ?l\<rparr>)" by (rule sys_grows_same) simp
  ultimately show ?thesis using Q by blast
qed

section \<open>Every step\<close>

lemma timer_runs_ok:
  assumes ok: "sys_ok now0 s" and t: "tl_running (sy_timed s) = t # ts"
  shows "sys_ok now0 (s\<lparr>sy_timed := (sy_timed s)\<lparr>tl_running := ts, tl_ran := tl_ran (sy_timed s) @ [(t, tl_now (sy_timed s))]\<rparr>\<rparr>)"
    and "sys_grows s (s\<lparr>sy_timed := (sy_timed s)\<lparr>tl_running := ts, tl_ran := tl_ran (sy_timed s) @ [(t, tl_now (sy_timed s))]\<rparr>\<rparr>)"
  using timed_step_ok [OF ok tl_step.run [OF t], of 0] t by simp_all

lemma tick_ok:
  assumes ok: "sys_ok now0 s" and "tl_now (sy_timed s) \<le> now"
  shows "sys_ok now0 (s\<lparr>sy_timed := (sy_timed s)\<lparr>tl_now := now\<rparr>\<rparr>)"
    and "sys_grows s (s\<lparr>sy_timed := (sy_timed s)\<lparr>tl_now := now\<rparr>\<rparr>)"
  using timed_step_ok [OF ok tl_step.tick [OF assms(2)], of 0] by simp_all

lemma idle_queue: "loop_run {ByLoop, ByOther} l \<Longrightarrow> pc l \<noteq> AtRun \<Longrightarrow> todo l = []"
  using fifo_inv by blast

lemma outside_AtActive: "sys_ok now0 s \<Longrightarrow> pc (sy_loop s) \<noteq> AtActive \<Longrightarrow> sy_active s = [] \<and> tl_running (sy_timed s) = []"
  using sys_okD(7) by (simp add: active_ok_def)

lemma control_ok:
  assumes ok: "sys_ok now0 s"
  shows "pc (sy_loop s) = Outside \<Longrightarrow> \<not> looping (sy_loop s) \<Longrightarrow>
      sys_ok now0 (s\<lparr>sy_loop := (sy_loop s)\<lparr>pc := AtCheck, looping := True, quit_flag := False\<rparr>\<rparr>)
      \<and> sys_grows s (s\<lparr>sy_loop := (sy_loop s)\<lparr>pc := AtCheck, looping := True, quit_flag := False\<rparr>\<rparr>)"
    and "pc (sy_loop s) = AtCheck \<Longrightarrow> quit_flag (sy_loop s) \<Longrightarrow>
      sys_ok now0 (s\<lparr>sy_loop := (sy_loop s)\<lparr>pc := Outside, looping := False\<rparr>\<rparr>)
      \<and> sys_grows s (s\<lparr>sy_loop := (sy_loop s)\<lparr>pc := Outside, looping := False\<rparr>\<rparr>)"
    and "pc (sy_loop s) = AtCheck \<Longrightarrow> \<not> quit_flag (sy_loop s) \<Longrightarrow>
      sys_ok now0 (s\<lparr>sy_loop := (sy_loop s)\<lparr>pc := AtPoll\<rparr>\<rparr>) \<and> sys_grows s (s\<lparr>sy_loop := (sy_loop s)\<lparr>pc := AtPoll\<rparr>\<rparr>)"
    and "pc (sy_loop s) = AtActive \<Longrightarrow> sy_active s = [] \<Longrightarrow> tl_running (sy_timed s) = [] \<Longrightarrow>
      sys_ok now0 (s\<lparr>sy_loop := (sy_loop s)\<lparr>pc := AtSwap, callingPendingCbs := True\<rparr>\<rparr>)
      \<and> sys_grows s (s\<lparr>sy_loop := (sy_loop s)\<lparr>pc := AtSwap, callingPendingCbs := True\<rparr>\<rparr>)"
    and "pc (sy_loop s) = AtSwap \<Longrightarrow>
      sys_ok now0 (s\<lparr>sy_loop := (swap_pending (sy_loop s))\<lparr>pc := AtRun\<rparr>\<rparr>)
      \<and> sys_grows s (s\<lparr>sy_loop := (swap_pending (sy_loop s))\<lparr>pc := AtRun\<rparr>\<rparr>)"
    and "pc (sy_loop s) = AtRun \<Longrightarrow> todo (sy_loop s) = [] \<Longrightarrow>
      sys_ok now0 (s\<lparr>sy_loop := (sy_loop s)\<lparr>pc := AtCheck, callingPendingCbs := False\<rparr>\<rparr>)
      \<and> sys_grows s (s\<lparr>sy_loop := (sy_loop s)\<lparr>pc := AtCheck, callingPendingCbs := False\<rparr>\<rparr>)"
proof -
  note o = sys_okD [OF ok]
  show "pc (sy_loop s) = Outside \<Longrightarrow> \<not> looping (sy_loop s) \<Longrightarrow>
      sys_ok now0 (s\<lparr>sy_loop := (sy_loop s)\<lparr>pc := AtCheck, looping := True, quit_flag := False\<rparr>\<rparr>)
      \<and> sys_grows s (s\<lparr>sy_loop := (sy_loop s)\<lparr>pc := AtCheck, looping := True, quit_flag := False\<rparr>\<rparr>)"
    by (rule loop_step_only [OF ok loop_step.start]) (use outside_AtActive [OF ok] in \<open>simp_all add: codes_def\<close>)
  show "pc (sy_loop s) = AtCheck \<Longrightarrow> quit_flag (sy_loop s) \<Longrightarrow>
      sys_ok now0 (s\<lparr>sy_loop := (sy_loop s)\<lparr>pc := Outside, looping := False\<rparr>\<rparr>)
      \<and> sys_grows s (s\<lparr>sy_loop := (sy_loop s)\<lparr>pc := Outside, looping := False\<rparr>\<rparr>)"
    by (rule loop_step_only [OF ok loop_step.check_quit]) (use outside_AtActive [OF ok] in \<open>simp_all add: codes_def\<close>)
  show "pc (sy_loop s) = AtCheck \<Longrightarrow> \<not> quit_flag (sy_loop s) \<Longrightarrow>
      sys_ok now0 (s\<lparr>sy_loop := (sy_loop s)\<lparr>pc := AtPoll\<rparr>\<rparr>) \<and> sys_grows s (s\<lparr>sy_loop := (sy_loop s)\<lparr>pc := AtPoll\<rparr>\<rparr>)"
    by (rule loop_step_only [OF ok loop_step.check_go]) (use outside_AtActive [OF ok] in \<open>simp_all add: codes_def\<close>)
  show "pc (sy_loop s) = AtActive \<Longrightarrow> sy_active s = [] \<Longrightarrow> tl_running (sy_timed s) = [] \<Longrightarrow>
      sys_ok now0 (s\<lparr>sy_loop := (sy_loop s)\<lparr>pc := AtSwap, callingPendingCbs := True\<rparr>\<rparr>)
      \<and> sys_grows s (s\<lparr>sy_loop := (sy_loop s)\<lparr>pc := AtSwap, callingPendingCbs := True\<rparr>\<rparr>)"
    by (rule loop_step_only [OF ok loop_step.pending]) (use o(7) in \<open>simp_all add: codes_def active_ok_def\<close>)
  show "pc (sy_loop s) = AtSwap \<Longrightarrow>
      sys_ok now0 (s\<lparr>sy_loop := (swap_pending (sy_loop s))\<lparr>pc := AtRun\<rparr>\<rparr>)
      \<and> sys_grows s (s\<lparr>sy_loop := (swap_pending (sy_loop s))\<lparr>pc := AtRun\<rparr>\<rparr>)"
    by (rule loop_step_only [OF ok loop_step.swap])
      (use outside_AtActive [OF ok] idle_queue [OF o(1)] in \<open>simp_all add: codes_def swap_pending_def\<close>)
  show "pc (sy_loop s) = AtRun \<Longrightarrow> todo (sy_loop s) = [] \<Longrightarrow>
      sys_ok now0 (s\<lparr>sy_loop := (sy_loop s)\<lparr>pc := AtCheck, callingPendingCbs := False\<rparr>\<rparr>)
      \<and> sys_grows s (s\<lparr>sy_loop := (sy_loop s)\<lparr>pc := AtCheck, callingPendingCbs := False\<rparr>\<rparr>)"
    by (rule loop_step_only [OF ok loop_step.finish]) (use outside_AtActive [OF ok] in \<open>simp_all add: codes_def\<close>)
qed

lemma sys_step_ok:
  assumes step: "sys_step Careful s r" and ok: "sys_ok now0 s" and now0: "0 \<le> now0"
  shows "\<exists>s'. r = Some (Inr s') \<and> sys_ok now0 s' \<and> sys_evolves s s'"
proof -
  have grow: ?thesis if "\<exists>s'. r = Some (Inr s') \<and> sys_ok now0 s' \<and> sys_grows s s'"
    using that sys_grows_evolves by blast
  from step show ?thesis
  proof cases
    case start
    then show ?thesis using control_ok(1) [OF ok] by (intro grow) simp
  next
    case leave
    then show ?thesis using control_ok(2) [OF ok] by (intro grow) simp
  next
    case go
    then show ?thesis using control_ok(3) [OF ok] by (intro grow) simp
  next
    case (poll n rs mempool)
    then show ?thesis using sys_poll_ok [OF ok poll(2,3), of mempool] by (intro grow) auto
  next
    case (watcher ks clk now t)
    then show ?thesis using watcher_ok [OF ok watcher(3,4) now0 watcher(5-8) [unfolded careful_guard], of t] by (intro grow) auto
  next
    case (timer_runs t ts)
    then show ?thesis using timer_runs_ok [OF ok timer_runs(2)] by (intro grow) simp
  next
    case (bridge ks t)
    then show ?thesis using bridge_ok [OF ok bridge(3), of t] by (intro grow) auto
  next
    case (connection k ks user kr kw t)
    then show ?thesis using connection_ok [OF ok connection(3,4,6,7), of t] by (intro grow) auto
  next
    case pending
    then show ?thesis using control_ok(4) [OF ok] by (intro grow) simp
  next
    case swap
    then show ?thesis using control_ok(5) [OF ok] by (intro grow) simp
  next
    case (timer_task cs)
    then show ?thesis using timer_task_ok [OF ok now0 timer_task(2-4) [unfolded careful_guard]] by (intro grow) auto
  next
    case (conn_task k cs wres)
    then show ?thesis using conn_task_ok [OF ok conn_task(2-4)] by (intro grow) auto
  next
    case (remove inl k c)
    then show ?thesis using removal_step_ok [OF ok remove(2-6)] by (intro grow) auto
  next
    case (drop k c)
    then show ?thesis using drop_ok [OF ok drop(2-4)] by auto
  next
    case finish
    then show ?thesis using control_ok(6) [OF ok] by (intro grow) simp
  next
    case (tick now)
    then show ?thesis using tick_ok [OF ok tick(2)] by (intro grow) simp
  next
    case (quit inl)
    then show ?thesis using quit_ok [OF ok quit(2,3)] by (intro grow) auto
  next
    case (add_timer inl "when" itv cb)
    then show ?thesis using add_timer_ok [OF ok now0 add_timer(3-6) [unfolded careful_guard], of inl cb] by (intro grow) auto
  next
    case (cancel_timer inl tid)
    then have "inl \<longrightarrow> may_cancel tid (sy_timed s)" by blast
    with cancel_timer_ok [OF ok now0 this] cancel_timer(1) show ?thesis by (intro grow) auto
  next
    case (send inl k wres buf)
    then obtain c where c: "cl_conns (sy_conns s) k = Some c" by auto
    have "\<exists>c'. Send inl wres buf (conn_in (cl_poll (sy_conns s)) c) = Inr c' \<and> conn_moves (conn_in (cl_poll (sy_conns s)) c) c'"
      by (rule Send_moves [OF sys_conn_fine [OF ok c]]) (use send(4) c in \<open>simp add: send_fits_def\<close>)
    from on_connection_ok [where f = "Send inl wres buf", OF ok c send(2) this] send(1) show ?thesis by (intro grow) auto
  next
    case (shutdown inl k)
    then obtain c where c: "cl_conns (sy_conns s) k = Some c" by auto
    from on_connection_ok [where f = "Shutdown inl", OF ok c shutdown(2) Shutdown_moves [OF sys_conn_fine [OF ok c]]] shutdown(1)
    show ?thesis by (intro grow) auto
  next
    case (connect k fd wc hwm hw)
    then show ?thesis using connect_step_ok [OF ok connect(2-6), of wc hwm hw] by (intro grow) auto
  qed
qed

lemma sys_reach_ok:
  assumes "sys_reach Careful s0 s" and "sys_ok now0 s0" and now0: "0 \<le> now0"
  shows "sys_ok now0 s"
  using assms(1)
proof induction
  case (there s s')
  with sys_step_ok [OF there.hyps(2) _ now0] show ?case by fastforce
qed (rule assms(2))

section \<open>The system as it is built\<close>

text \<open>A loop fresh from its constructor, with no timers and no connections.\<close>

definition new_system :: "int \<Rightarrow> reactor \<Rightarrow> system" where
  "new_system now r = \<lparr>sy_loop = event_loop.truncate r, sy_conns = \<lparr>cl_poll = r_poll r, cl_conns = Map.empty\<rparr>,
     sy_timed = new_timed_loop now, sy_active = []\<rparr>"

lemma new_system_ok:
  assumes fds: "0 \<le> tfd" "0 \<le> efd" "tfd \<noteq> efd" and idle: "\<forall>c. \<not> eventHandling (st c)"
    and r: "new_loop this None tfd efd st = Inr (r, x)"
  shows "sys_ok now (new_system now r)"
proof -
  from new_loop_ok [OF fds idle, of this] r have
    l: "reactor_ok r" "owns tfd efd (r_poll r)"
      "chan (r_poll r) = st(watcher_chan := input_channel tfd 0 cb_HandleExpiredTimers,
        bridge_chan := input_channel efd 1 cb_HandleWakeUpFdRead)"
    and int: "\<exists>ev. interest (r_poll r) tfd = Some (True, ev)" "\<exists>ev. interest (r_poll r) efd = Some (True, ev)" by auto
  from r obtain p where "r = event_loop.extend new_event_loop (reactor.fields p False [] [])"
    by (auto simp: new_loop_def new_EventLoop_def res_iffs)
  then have el: "event_loop.truncate r = new_event_loop"
    by (simp add: event_loop.defs reactor.defs new_event_loop_def)
  have p: "poller_ok (r_poll r)" "\<And>c. \<not> eventHandling (chan (r_poll r) c)" using l(1) by (simp_all add: reactor_ok_def)
  have reg: "registered (r_poll r) watcher_chan" "registered (r_poll r) bridge_chan"
    and only: "\<And>fd k. channels (r_poll r) fd = Some k \<Longrightarrow> k \<in> owned"
    using l(2) fds(3) by (auto simp: owns_def registered_def owned_def split: if_splits)
  let ?s = "new_system now r"
  have "polled (r_poll r) watcher_chan" "polled (r_poll r) bridge_chan" using l(2) int by (simp_all add: owns_def polled_def)
  then have "conns_ok (alive_in (sy_conns ?s)) owned (sy_conns ?s)"
    using p reg only by (auto simp: conns_ok_def new_system_def owned_iff)
  moreover have "owner_channel cb_HandleExpiredTimers (chan (r_poll r) watcher_chan)"
    "owner_channel cb_HandleWakeUpFdRead (chan (r_poll r) bridge_chan)"
    by (simp_all add: l(3) owner_channel_def input_channel_def new_Channel_def owner_defs)
  moreover have "codes_ok ?s" "active_ok ?s"
    by (simp_all add: codes_ok_def codes_def active_ok_def new_system_def el new_event_loop_def new_timed_loop_def new_TimerQueue_def)
  moreover have "ties_own (sy_conns ?s)" "removal_ok (sy_conns ?s)" by (simp_all add: ties_own_def removal_ok_def new_system_def)
  ultimately show ?thesis
    by (simp add: sys_ok_def new_system_def el loop_run.init tl_reach.here)
qed

section \<open>Properties\<close>


text \<open>C3. The whole refines its parts, with careful users as in C2: the queue of functions has gone through a run of \<open>loop_step\<close>, the timers through
  one of \<open>tl_step\<close>, and the connections are in order or over; so functions run in the order of submission, the loop does not
  sleep on work, no timer has run early, and none is lost.\<close>

theorem system_refines_parts:
  assumes "0 \<le> tfd" and "0 \<le> efd" and "tfd \<noteq> efd" and "\<forall>c. \<not> eventHandling (st c)" and "0 \<le> now"
    and "new_loop this None tfd efd st = Inr (r, x)" and "sys_reach Careful (new_system now r) s"
  shows "loop_run {ByLoop, ByOther} (sy_loop s) \<and> tl_reach Careful (new_timed_loop now) (sy_timed s)
    \<and> conns_ok (alive_in (sy_conns s)) owned (sy_conns s)
    \<and> submitted (sy_loop s) = executed (sy_loop s) @ codes s
    \<and> (pc (sy_loop s) = AtPoll \<and> codes s \<noteq> [] \<longrightarrow> 0 < eventfd (sy_loop s) \<or> 0 < wakes (sy_loop s))
    \<and> (\<forall>(t, at) \<in> set (tl_ran (sy_timed s)). expiration t \<le> at)
    \<and> repeats_of (tl_asked (sy_timed s)) = repeats_of (waiting (sy_timed s) + tl_dropped (sy_timed s))"
proof -
  have "sys_ok now s" using sys_reach_ok [OF assms(7) new_system_ok [OF assms(1-4,6)] assms(5)] by blast
  note o = sys_okD(1-3) [OF this]
  have tl: "tl_ok (sy_timed s)" by (rule tl_reach_ok [OF o(2) new_timed_loop_ok [OF assms(5)]])
  have "submitted (sy_loop s) = executed (sy_loop s) @ codes s" using fifo_inv [OF o(1)] by (simp add: codes_def)
  moreover have "pc (sy_loop s) = AtPoll \<and> codes s \<noteq> [] \<longrightarrow> 0 < eventfd (sy_loop s) \<or> 0 < wakes (sy_loop s)"
    using wake_inv_run [OF o(1)] by (auto simp: wake_inv_def signalled_def codes_def)
  ultimately show ?thesis using tl_okD(8,10) [OF tl] by (intro conjI o)
qed

text \<open>C21. The parts fit together in every state that is reachable with careful users (see C2): the functions in the queue of the loop are
  exactly the tasks its timers and connections have waiting, one for each; while the active channels are
  handled, each of them is registered and belongs to the loop or to a connection that is up; outside of that no
  channel is active and no timer is being run.\<close>

theorem system_well_formed:
  assumes "0 \<le> tfd" and "0 \<le> efd" and "tfd \<noteq> efd" and "\<forall>c. \<not> eventHandling (st c)" and "0 \<le> now"
    and "new_loop this None tfd efd st = Inr (r, x)" and "sys_reach Careful (new_system now r) s"
  shows "count_list (codes s) timer_code = length (tq_pending (tl_q (sy_timed s)))
    \<and> (\<forall>k. count_list (codes s) (Suc k) = (case cl_conns (sy_conns s) k of None \<Rightarrow> 0 | Some c \<Rightarrow> length (queued c)))
    \<and> distinct (sy_active s) \<and> (\<forall>k \<in> set (sy_active s). registered (cl_poll (sy_conns s)) k
         \<and> (k \<in> owned \<or> (\<exists>c. cl_conns (sy_conns s) k = Some c \<and> conn_ok (conn_in (cl_poll (sy_conns s)) c))))
    \<and> (pc (sy_loop s) \<noteq> AtActive \<longrightarrow> sy_active s = [] \<and> tl_running (sy_timed s) = [])"
proof -
  have ok: "sys_ok now s" using sys_reach_ok [OF assms(7) new_system_ok [OF assms(1-4,6)] assms(5)] by blast
  note o = sys_okD(3,6,7) [OF this]
  have act: "active_chan_ok (sy_conns s) k" if "k \<in> set (sy_active s)" for k
    using o(3) that by (simp add: active_ok_def)
  have reg: "registered (cl_poll (sy_conns s)) k" if "k \<in> set (sy_active s)" for k
  proof (cases "k \<in> owned")
    case True
    then show ?thesis using o(1) by (simp add: conns_ok_def)
  next
    case False
    with act [OF that] obtain c where c: "cl_conns (sy_conns s) k = Some c" "conn_ok (conn_in (cl_poll (sy_conns s)) c)"
      by (auto simp: active_chan_ok_def)
    with o(1) show ?thesis by (auto simp: conns_ok_def conn_fine_def conn_ok_def)
  qed
  have "k \<in> owned \<or> (\<exists>c. cl_conns (sy_conns s) k = Some c \<and> conn_ok (conn_in (cl_poll (sy_conns s)) c))"
    if "k \<in> set (sy_active s)" for k
    using act [OF that] by (auto simp: active_chan_ok_def split: if_splits)
  with reg o(2,3) show ?thesis unfolding codes_ok_def active_ok_def by blast
qed

text \<open>A loop that has been entered and for which another thread has asked for a timer.\<close>

lemma demo_system:
  "\<exists>r s. new_loop 1 None 3 4 (\<lambda>c. new_Channel 0) = Inr (r, Some 1) \<and> sys_reach Careful (new_system 5 r) s
    \<and> pc (sy_loop s) = AtPoll \<and> codes s = [timer_code]"
proof -
  from new_loop_ok [of 3 4 "\<lambda>c. new_Channel 0" 1] obtain r where
    r: "new_loop 1 None 3 4 (\<lambda>c. new_Channel 0) = Inr (r, Some 1)" by (auto simp: new_Channel_def)
  have ok: "sys_ok 5 (new_system 5 r)" by (rule new_system_ok [OF _ _ _ _ r]) (simp_all add: new_Channel_def)
  from r obtain p where "r = event_loop.extend new_event_loop (reactor.fields p False [] [])"
    by (auto simp: new_loop_def new_EventLoop_def res_iffs)
  then have el: "sy_loop (new_system 5 r) = new_event_loop"
    by (simp add: new_system_def event_loop.defs reactor.defs new_event_loop_def)
  let ?s0 = "new_system 5 r"
  let ?s1 = "?s0\<lparr>sy_loop := (sy_loop ?s0)\<lparr>pc := AtCheck, looping := True, quit_flag := False\<rparr>\<rparr>"
  let ?s2 = "?s1\<lparr>sy_loop := (sy_loop ?s1)\<lparr>pc := AtPoll\<rparr>\<rparr>"
  have "sys_step Careful ?s0 (Some (Inr ?s1))" by (rule sys_step.start) (simp_all add: el new_event_loop_def)
  moreover have "sys_step Careful ?s1 (Some (Inr ?s2))" by (rule sys_step.go) simp_all
  ultimately have reach: "sys_reach Careful ?s0 ?s2" using sys_reach.there [OF sys_reach.there [OF sys_reach.here]] by blast
  have step: "sys_step Careful ?s2 (sys_AddTimer False 9 0 7 ?s2)"
    by (rule sys_add_timer)
      (simp_all add: TimePoint_max_def fresh_id_def new_system_def new_timed_loop_def new_TimerQueue_def new_TimerMinHeap_def
        heap_timers_def pending_adds_def)
  then obtain s where s: "sys_AddTimer False 9 0 7 ?s2 = Some (Inr s)"
    using sys_step_ok [OF step] sys_reach_ok [OF reach ok] by fastforce
  then have "pc (sy_loop s) = AtPoll" "codes s = [timer_code]"
    by (auto simp: sys_AddTimer_def on_timers_def submitted_by_eq enqueue_codes_def codes_def el new_event_loop_def res_iffs Let_def)
  with r sys_reach.there [OF reach] step s show ?thesis by auto
qed


theorem system_refines_parts_witness:
  "\<exists>r s. sys_reach Careful (new_system 5 r) s \<and> submitted (sy_loop s) = executed (sy_loop s) @ [timer_code]
    \<and> (0 < eventfd (sy_loop s) \<or> 0 < wakes (sy_loop s))"
proof -
  from demo_system obtain r s where
    d: "new_loop 1 None 3 4 (\<lambda>c. new_Channel 0) = Inr (r, Some 1)" "sys_reach Careful (new_system 5 r) s" "pc (sy_loop s) = AtPoll"
      "codes s = [timer_code]" by blast
  from system_refines_parts [OF _ _ _ _ _ d(1,2)] d(2-4) show ?thesis by (auto simp: new_Channel_def)
qed

theorem system_well_formed_witness:
  "\<exists>r s. sys_reach Careful (new_system 5 r) s \<and> length (tq_pending (tl_q (sy_timed s))) = 1"
proof -
  from demo_system obtain r s where
    d: "new_loop 1 None 3 4 (\<lambda>c. new_Channel 0) = Inr (r, Some 1)" "sys_reach Careful (new_system 5 r) s" "codes s = [timer_code]" by blast
  from system_well_formed [OF _ _ _ _ _ d(1,2)] d(2,3) show ?thesis by (auto simp: new_Channel_def)
qed

end
