(* ===== verification/LoopProgress.thy ===== *)
theory LoopProgress
  imports LoopSystem
begin

text \<open>
  What the loop of \<^verbatim>\<open>LoopSystem\<close> brings about. Its thread has a control: where it stands in \<^verbatim>\<open>EventLoop::Loop\<close> and
  what is left of the lists it goes through; a step changes the control exactly when that thread takes it.
  Over an infinite run with careful users in which the thread goes on, every function handed in runs, and every timer
  that is due runs unless it is cancelled, whatever other threads do meanwhile; and the thread can always go on.
\<close>

section \<open>Infinite runs\<close>

definition control :: "system \<Rightarrow> loop_pc \<times> nat list \<times> timer list \<times> nat list" where
  "control s = (pc (sy_loop s), sy_active s, tl_running (sy_timed s), todo (sy_loop s))"

definition sys_run :: "user_kind \<Rightarrow> (nat \<Rightarrow> system) \<Rightarrow> bool" where
  "sys_run u \<sigma> \<longleftrightarrow> (\<forall>i. sys_step u (\<sigma> i) (Some (Inr (\<sigma> (Suc i)))))"

definition keeps_moving :: "(nat \<Rightarrow> system) \<Rightarrow> bool" where
  "keeps_moving \<sigma> \<longleftrightarrow> (\<forall>i. \<exists>j \<ge> i. control (\<sigma> (Suc j)) \<noteq> control (\<sigma> j))"

text \<open>A measure that no step raises, and that every step of a kind taken again and again lowers.\<close>

lemma eventually_goal:
  fixes m :: "nat \<Rightarrow> 'm"
  assumes "wf r" and often: "\<And>i. \<exists>j \<ge> i. \<not> same j" and start: "P i"
    and step: "\<And>j. P j \<Longrightarrow> \<not> goal j \<Longrightarrow> goal (Suc j) \<or> P (Suc j) \<and> ((m (Suc j), m j) \<in> r \<or> m (Suc j) = m j \<and> same j)"
  shows "\<exists>j \<ge> i. goal j"
proof -
  have "P i \<longrightarrow> m i = x \<longrightarrow> (\<exists>j \<ge> i. goal j)" for x i
    using \<open>wf r\<close>
  proof (induction x arbitrary: i rule: wf_induct_rule)
    case (less x)
    have "\<exists>k \<ge> i. P k \<and> (m k, m i) \<in> r" if i: "P i" "m i = x" and no: "\<not> (\<exists>j \<ge> i. goal j)"
    proof (rule ccontr)
      assume none: "\<not> (\<exists>k \<ge> i. P k \<and> (m k, m i) \<in> r)"
      have kept: "P (i + n) \<and> m (i + n) = m i" for n
      proof (induction n)
        case (Suc n)
        with step [of "i + n"] no none show ?case by (metis add_Suc_right le_add1)
      qed (use i in simp)
      obtain j where j: "i \<le> j" "\<not> same j" using often by blast
      with kept [of "j - i"] have "P j" "m j = m i" by simp_all
      with step [of j] j no none show False by (metis le_Suc_eq)
    qed
    with less.IH show ?case by (metis order_trans)
  qed
  with start show ?thesis by blast
qed

section \<open>How a step moves the loop\<close>

definition queue :: "system \<Rightarrow> nat list \<times> nat list" where
  "queue s = (executed (sy_loop s), pendingCbs (sy_loop s))"

inductive moves :: "system \<Rightarrow> system \<Rightarrow> bool" where
  stays: "control s' = control s \<Longrightarrow> queue s = (es, ps) \<Longrightarrow> queue s' = (es, ps @ d) \<Longrightarrow> moves s s'"
| enters: "control s = (Outside, [], [], []) \<Longrightarrow> control s' = (AtCheck, [], [], []) \<Longrightarrow> queue s' = queue s \<Longrightarrow> moves s s'"
| leaves: "control s = (AtCheck, [], [], []) \<Longrightarrow> quit_flag (sy_loop s) \<Longrightarrow> control s' = (Outside, [], [], []) \<Longrightarrow>
    queue s' = queue s \<Longrightarrow> moves s s'"
| goes: "control s = (AtCheck, [], [], []) \<Longrightarrow> control s' = (AtPoll, [], [], []) \<Longrightarrow> queue s' = queue s \<Longrightarrow> moves s s'"
| polls: "control s = (AtPoll, [], [], []) \<Longrightarrow> control s' = (AtActive, ks, [], []) \<Longrightarrow> queue s' = queue s \<Longrightarrow>
    (timerfd_readable (tl_now (sy_timed s)) (timerfd (tl_q (sy_timed s))) \<longrightarrow> watcher_chan \<in> set ks) \<Longrightarrow> moves s s'"
| handles: "control s = (AtActive, k # ks, [], []) \<Longrightarrow> control s' = (AtActive, ks, ts, []) \<Longrightarrow> queue s = (es, ps) \<Longrightarrow>
    queue s' = (es, ps @ d) \<Longrightarrow> moves s s'"
| fires: "control s = (AtActive, ks, t # ts, []) \<Longrightarrow> control s' = (AtActive, ks, ts, []) \<Longrightarrow> queue s' = queue s \<Longrightarrow> moves s s'"
| turns: "control s = (AtActive, [], [], []) \<Longrightarrow> control s' = (AtSwap, [], [], []) \<Longrightarrow> queue s' = queue s \<Longrightarrow> moves s s'"
| swaps: "control s = (AtSwap, [], [], []) \<Longrightarrow> queue s = (es, ps) \<Longrightarrow> control s' = (AtRun, [], [], ps) \<Longrightarrow>
    queue s' = (es, []) \<Longrightarrow> moves s s'"
| runs: "control s = (AtRun, [], [], c # cs) \<Longrightarrow> control s' = (AtRun, [], [], cs) \<Longrightarrow> queue s = (es, ps) \<Longrightarrow>
    queue s' = (es @ [c], ps @ d) \<Longrightarrow> moves s s'"
| ends: "control s = (AtRun, [], [], []) \<Longrightarrow> control s' = (AtCheck, [], [], []) \<Longrightarrow> queue s' = queue s \<Longrightarrow> moves s s'"

lemma Enqueue_frame [simp]: "quit_flag (EnqueueEventLoop inl cb l) = quit_flag l"
  "executed (EnqueueEventLoop inl cb l) = executed l"
  by (simp_all add: EnqueueEventLoop_def Enqueue_wake_def Enqueue_push_def WakeUp_def)

lemma fold_Enqueue_frame:
  "let l' = fold (EnqueueEventLoop inl) (replicate n cb) l in pc l' = pc l \<and> todo l' = todo l \<and> quit_flag l' = quit_flag l
     \<and> executed l' = executed l \<and> pendingCbs l' = pendingCbs l @ replicate n cb"
  by (induction n arbitrary: l) (simp_all add: Let_def)

lemma enqueue_moves:
  "control (enqueue_codes inl n cb s) = control s"
  "queue (enqueue_codes inl n cb s) = (executed (sy_loop s), pendingCbs (sy_loop s) @ replicate n cb)"
  "sy_timed (enqueue_codes inl n cb s) = sy_timed s" "sy_conns (enqueue_codes inl n cb s) = sy_conns s"
  "quit_flag (sy_loop (enqueue_codes inl n cb s)) = quit_flag (sy_loop s)" "sy_active (enqueue_codes inl n cb s) = sy_active s"
  using fold_Enqueue_frame [of inl n cb "sy_loop s"] by (simp_all add: enqueue_codes_def control_def queue_def Let_def)

lemma control_frame [simp]: "control (s\<lparr>sy_conns := x\<rparr>) = control s" "queue (s\<lparr>sy_conns := x\<rparr>) = queue s"
  "queue (s\<lparr>sy_timed := l\<rparr>) = queue s" "queue (s\<lparr>sy_active := ks\<rparr>) = queue s"
  "tl_running l = tl_running (sy_timed s) \<Longrightarrow> control (s\<lparr>sy_timed := l\<rparr>) = control s"
  by (simp_all add: control_def queue_def)

lemma on_connection_moves:
  assumes "on_connection inl k f s = Inr s'"
  shows "control s' = control s" "\<exists>d. queue s' = (executed (sy_loop s), pendingCbs (sy_loop s) @ d)" "sy_timed s' = sy_timed s"
proof -
  from assms obtain c n where s': "s' = enqueue_codes inl n (Suc k) (s\<lparr>sy_conns := put_conn k c (sy_conns s)\<rparr>)"
    by (auto simp: on_connection_def res_iffs split: option.splits)
  show "control s' = control s" "\<exists>d. queue s' = (executed (sy_loop s), pendingCbs (sy_loop s) @ d)" "sy_timed s' = sy_timed s"
    unfolding s' enqueue_moves by simp_all
qed

text \<open>What happens to the timers is a step of \<open>tl_step\<close>, or nothing.\<close>

definition timers_step :: "timed_loop \<Rightarrow> timed_loop \<Rightarrow> bool" where
  "timers_step l l' \<longleftrightarrow> l' = l \<or> tl_step Careful l (Some (Inr l'))"

lemma submitted_moves:
  assumes "on_timers (submitted_by inl) r s = Some (Inr s')"
  shows "\<exists>l. r = Some (Inr l) \<and> sy_timed s' = l \<and> (tl_running l = tl_running (sy_timed s) \<longrightarrow> control s' = control s)
    \<and> (\<exists>d. queue s' = (executed (sy_loop s), pendingCbs (sy_loop s) @ d))"
proof -
  from assms obtain l where l: "r = Some (Inr l)" "s' = submitted_by inl (s\<lparr>sy_timed := l\<rparr>)"
    by (auto simp: on_timers_def res_iffs)
  then show ?thesis unfolding submitted_by_eq by (auto simp: enqueue_moves)
qed

lemma add_timer_moves:
  assumes "sys_AddTimer inl when itv cb s = Some (Inr s')"
    and "0 < when" "when < TimePoint_max" "0 \<le> itv" "fresh_id (tl_q (sy_timed s))"
  shows "moves s s' \<and> timers_step (sy_timed s) (sy_timed s')"
proof -
  let ?l = "sy_timed s"
  let ?r = "mapR (\<lambda>(tid, q). ?l\<lparr>tl_q := q, tl_asked := add_mset (new_timer (tl_q ?l) when itv cb) (tl_asked ?l)\<rparr>)
    (AddTimer inl when itv cb (tl_q ?l))"
  from submitted_moves [OF assms(1) [unfolded sys_AddTimer_def Let_def]] obtain l d where
    l: "?r = Inr l" "sy_timed s' = l" "tl_running l = tl_running ?l \<longrightarrow> control s' = control s"
      "queue s' = (executed (sy_loop s), pendingCbs (sy_loop s) @ d)" by auto
  have "tl_step Careful ?l (Some ?r)" by (rule tl_add) (use assms(2-5) in \<open>simp_all add: new_timer_def\<close>)
  moreover have "tl_running l = tl_running ?l" using l(1) by (auto simp: res_iffs)
  ultimately show ?thesis using l by (auto simp: timers_step_def queue_def intro: moves.stays)
qed

lemma cancel_timer_moves:
  assumes "sys_CancelTimer inl tid s = Some (Inr s')" and may: "inl \<longrightarrow> may_cancel tid (sy_timed s)"
  shows "moves s s' \<and> timers_step (sy_timed s) (sy_timed s')"
proof -
  let ?l = "sy_timed s"
  let ?r = "mapR (\<lambda>q. if inl then ?l\<lparr>tl_q := q, tl_dropped := tl_dropped ?l + with_id tid ?l\<rparr> else ?l\<lparr>tl_q := q\<rparr>)
    (CancelTimer inl tid (tl_q ?l))"
  from submitted_moves [OF assms(1) [unfolded sys_CancelTimer_def Let_def]] obtain l d where
    l: "?r = Inr l" "sy_timed s' = l" "tl_running l = tl_running ?l \<longrightarrow> control s' = control s"
      "queue s' = (executed (sy_loop s), pendingCbs (sy_loop s) @ d)" by auto
  have "tl_step Careful ?l (Some ?r)"
    using tl_cancel_here [of tid ?l] tl_step.cancel_there [of Careful ?l tid] may by (cases inl) simp_all
  moreover have "tl_running l = tl_running ?l" using l(1) by (auto simp: res_iffs)
  ultimately show ?thesis using l by (auto simp: timers_step_def queue_def intro: moves.stays)
qed

lemma timer_task_moves:
  assumes "run_timer_code s = Some (Inr s')" and pc: "pc (sy_loop s) = AtRun" and todo: "todo (sy_loop s) = c # cs"
    and quiet: "sy_active s = []" "tl_running (sy_timed s) = []"
    and may: "\<forall>tid ts. tq_pending (tl_q (sy_timed s)) = TaskCancel tid # ts \<longrightarrow> may_cancel tid (sy_timed s)"
  shows "moves s s' \<and> timers_step (sy_timed s) (sy_timed s')"
proof -
  let ?l = "sy_timed s" and ?s1 = "take_code s"
  have take: "sy_timed ?s1 = ?l" by (simp add: take_code_def)
  with assms(1) obtain task ts where t: "tq_pending (tl_q ?l) = task # ts"
    by (cases "tq_pending (tl_q ?l)") (simp_all add: run_timer_code_def Let_def)
  let ?r = "mapR (\<lambda>q. case task of TaskAdd t \<Rightarrow> ?l\<lparr>tl_q := q\<rparr>
    | TaskCancel tid \<Rightarrow> ?l\<lparr>tl_q := q, tl_dropped := tl_dropped ?l + with_id tid ?l\<rparr>)
    (run_task True task ((tl_q ?l)\<lparr>tq_pending := ts\<rparr>))"
  have "mapR (\<lambda>l. ?s1\<lparr>sy_timed := l\<rparr>) ?r = Inr s'"
    using assms(1) t by (cases task) (simp_all add: run_timer_code_def on_timers_def Let_def take)
  then obtain l where l: "?r = Inr l" "s' = ?s1\<lparr>sy_timed := l\<rparr>" unfolding mapR_Inr_iff by blast
  have "tl_step Careful ?l (Some ?r)"
    using tl_step.task_add [of ?l _ ts Careful] tl_task_cancel [of ?l _ ts] t may by (cases task) simp_all
  then have "timers_step ?l (sy_timed s')" unfolding l(1) by (simp add: timers_step_def l(2))
  moreover have "tl_running l = []" using l(1) quiet(2) by (cases task) (auto simp: res_iffs)
  then have "moves s s'"
    using pc todo quiet by (intro moves.runs [where d = "[]"]) (simp_all add: control_def queue_def l(2) take_code_def)
  ultimately show ?thesis by blast
qed

lemma conn_task_moves:
  assumes "run_conn_code k wres s = Inr s'" and pc: "pc (sy_loop s) = AtRun" and todo: "todo (sy_loop s) = c # cs"
    and quiet: "sy_active s = []" "tl_running (sy_timed s) = []"
  shows "moves s s' \<and> timers_step (sy_timed s) (sy_timed s')"
proof -
  from assms(1) obtain f x where f: "on_connection True k f ((take_code s)\<lparr>sy_conns := x\<rparr>) = Inr s'"
    by (auto simp: run_conn_code_def Let_def split: option.splits list.splits)
  note m = on_connection_moves [OF f]
  have "moves s s'"
    using m(1,2) pc todo quiet by (auto simp: control_def queue_def take_code_def intro!: moves.runs)
  moreover have "sy_timed s' = sy_timed s" using m(3) by (simp add: take_code_def)
  ultimately show ?thesis by (simp add: timers_step_def)
qed

lemma Poll_set:
  assumes ok: "poller_ok p" and kernel: "poll_contract (pollfds p) n rs" and "Poll mempool n rs p = Inr (p', active)"
  shows "set active = set (reported False p rs)"
  using Poll_handover [OF ok kernel, of mempool] assms(3) reported_set [of mempool p rs] by auto

lemma step_moves:
  assumes step: "sys_step Careful s (Some (Inr s'))" and ok: "sys_ok now0 s" and now0: "0 \<le> now0"
  shows "moves s s' \<and> timers_step (sy_timed s) (sy_timed s')"
proof -
  note o = sys_okD [OF ok]
  have todo: "todo (sy_loop s) = []" if "pc (sy_loop s) \<noteq> AtRun" using idle_queue [OF o(1)] that by blast
  have rest: "sy_active s = []" "tl_running (sy_timed s) = []" if "pc (sy_loop s) \<noteq> AtActive"
    using outside_AtActive [OF ok] that by blast+
  have none: "timers_step l l" for l by (simp add: timers_step_def)
  note cq = control_def queue_def
  from step show ?thesis
  proof cases
    case start
    with todo rest show ?thesis by (auto simp: cq none intro!: moves.enters)
  next
    case leave
    with todo rest show ?thesis by (auto simp: cq none intro!: moves.leaves)
  next
    case go
    with todo rest show ?thesis by (auto simp: cq none intro!: moves.goes)
  next
    case (poll n rs mempool)
    let ?p = "cl_poll (sy_conns s)"
    from poll(1) have "sys_poll mempool n rs s = Inr s'" by simp
    then obtain p active where p: "Poll mempool n rs ?p = Inr (p, active)"
      "pc (sy_loop s') = AtActive" "todo (sy_loop s') = todo (sy_loop s)" "queue s' = queue s" "sy_active s' = active"
      "sy_timed s' = (if watcher_chan \<in> set active then (sy_timed s)\<lparr>tl_ready := True\<rparr> else sy_timed s)"
      by (auto simp: sys_poll_def res_iffs queue_def)
    have "set active = set (reported False ?p rs)"
      using Poll_set [OF _ _ p(1)] o(3) poll(3) by (simp add: conns_ok_def kernel_polls_def Let_def)
    then have w: "watcher_chan \<in> set active \<longleftrightarrow> timerfd_readable (tl_now (sy_timed s)) (timerfd (tl_q (sy_timed s)))"
      using poll(3) by (simp add: kernel_polls_def Let_def)
    then have "timers_step (sy_timed s) (sy_timed s')"
      using tl_step.poll [of "sy_timed s"] rest(2) poll(2) p(6) by (simp add: timers_step_def)
    moreover have "moves s s'"
      using p(2-6) poll(2) todo rest w by (intro moves.polls [of _ _ active]) (simp_all add: control_def)
    ultimately show ?thesis by blast
  next
    case (watcher ks clk now t)
    let ?r = "Watcher_HandleExpiredTimers True clk ((sy_timed s)\<lparr>tl_now := now\<rparr>)"
    have ready: "tl_ready (sy_timed s)" using o(7) watcher(3) by (simp add: active_ok_def)
    from watcher(1) have "handle_watcher t clk now (s\<lparr>sy_active := ks\<rparr>) = Some (Inr s')" by simp
    then obtain l where l: "?r = Some (Inr l)" "s' = s\<lparr>sy_active := ks, sy_timed := l\<rparr>"
      by (auto simp: handle_watcher_eq [OF ok watcher(3)] on_timers_def res_iffs)
    with tl_handle [OF ready watcher(4-8) [unfolded careful_guard]] have "timers_step (sy_timed s) (sy_timed s')" by (simp add: timers_step_def)
    moreover have "moves s s'"
      using watcher(2-4) todo l(2) by (intro moves.handles [where d = "[]"]) (simp_all add: control_def queue_def)
    ultimately show ?thesis by blast
  next
    case (timer_runs t ts)
    then have "pc (sy_loop s) = AtActive" using rest(2) by auto
    with timer_runs todo tl_step.run [OF timer_runs(2)] show ?thesis
      by (auto simp: cq timers_step_def intro!: moves.fires)
  next
    case (bridge ks t)
    then have "s' = s\<lparr>sy_active := ks, sy_loop := (HandleWakeUpFdRead (sy_loop s))\<lparr>woken := False\<rparr>\<rparr>"
      by (simp add: handle_bridge_eq [OF ok bridge(3)])
    with bridge(2-4) todo show ?thesis
      by (auto simp: cq none HandleWakeUpFdRead_def intro!: moves.handles [where d = "[]"])
  next
    case (connection k ks user kr kw t)
    then have "on_connection True k (conn_HandleEvents (alive_in (sy_conns s)) (conn_cb user kr kw) t) (s\<lparr>sy_active := ks\<rparr>) = Inr s'" by simp
    from on_connection_moves [OF this] connection(2,3,5) todo show ?thesis
      by (auto simp: cq none intro!: moves.handles)
  next
    case pending
    with todo show ?thesis by (auto simp: cq none intro!: moves.turns)
  next
    case swap
    with todo rest show ?thesis by (auto simp: cq none swap_pending_def intro!: moves.swaps)
  next
    case (timer_task cs)
    with rest show ?thesis by (intro timer_task_moves) auto
  next
    case (conn_task k cs wres)
    with rest show ?thesis by (intro conn_task_moves) auto
  next
    case (remove inl k c)
    then have "on_connection inl k (remove_conn inl) s = Inr s'" by simp
    from on_connection_moves [OF this] show ?thesis by (auto simp: none queue_def intro: moves.stays)
  next
    case (drop k c)
    then have "sys_drop k s = Inr s'" by simp
    then obtain cl where "s' = s\<lparr>sy_conns := cl\<rparr>" by (auto simp: sys_drop_def res_iffs split: option.splits)
    then show ?thesis by (auto simp: none queue_def intro: moves.stays)
  next
    case finish
    with rest show ?thesis by (auto simp: cq none intro!: moves.ends)
  next
    case (tick now)
    with tl_step.tick [OF tick(2)] show ?thesis by (auto simp: cq timers_step_def intro!: moves.stays [where d = "[]"])
  next
    case (quit inl)
    then have "mapR (\<lambda>l. s\<lparr>sy_loop := l\<rparr>) (Quit inl (sy_loop s)) = Inr s'" by simp
    then obtain l where "Quit inl (sy_loop s) = Inr l" "s' = s\<lparr>sy_loop := l\<rparr>" unfolding mapR_Inr_iff by blast
    then show ?thesis
      by (auto simp: cq none Quit_def Quit_store_def WakeUp_def res_iffs split: if_splits intro!: moves.stays [where d = "[]"])
  next
    case (add_timer inl "when" itv cb)
    then show ?thesis by (intro add_timer_moves) auto
  next
    case (cancel_timer inl tid)
    then show ?thesis by (intro cancel_timer_moves) auto
  next
    case (send inl k wres buf)
    then have "on_connection inl k (Send inl wres buf) s = Inr s'" by simp
    from on_connection_moves [OF this] show ?thesis by (auto simp: none queue_def intro: moves.stays)
  next
    case (shutdown inl k)
    then have "on_connection inl k (Shutdown inl) s = Inr s'" by simp
    from on_connection_moves [OF this] show ?thesis by (auto simp: none queue_def intro: moves.stays)
  next
    case (connect k fd wc hwm hw)
    then have "sys_connect fd k wc hwm hw s = Inr s'" by simp
    then obtain c where "s' = s\<lparr>sy_conns := put_conn k c (sy_conns s)\<rparr>" unfolding sys_connect_def mapR_Inr_iff by blast
    then show ?thesis by (auto simp: none queue_def intro: moves.stays)
  qed
qed

section \<open>Every function handed in runs\<close>

definition handed :: "system \<Rightarrow> nat list" where
  "handed s = executed (sy_loop s) @ codes s"

lemma moves_handed: "moves s s' \<Longrightarrow> \<exists>d. handed s' = handed s @ d"
  by (cases rule: moves.cases) (auto simp: control_def queue_def handed_def codes_def)

text \<open>How far the loop is from having run the first \<open>N\<close> functions: it has to come round to taking them over, and then
  to go through those it has taken.\<close>

fun pc_rank :: "loop_pc \<Rightarrow> nat" where
  "pc_rank AtSwap = 1" | "pc_rank AtActive = 2" | "pc_rank AtPoll = 3" | "pc_rank AtCheck = 4"
| "pc_rank AtRun = 5" | "pc_rank Outside = 6"

definition serve_left :: "nat \<Rightarrow> system \<Rightarrow> nat \<times> nat \<times> nat" where
  "serve_left N s = (if N \<le> length (executed (sy_loop s)) + length (todo (sy_loop s)) then 0 else pc_rank (pc (sy_loop s)),
     length (sy_active s), length (tl_running (sy_timed s)) + length (todo (sy_loop s)))"

abbreviation lex3 :: "((nat \<times> nat \<times> nat) \<times> (nat \<times> nat \<times> nat)) set" where
  "lex3 \<equiv> less_than <*lex*> less_than <*lex*> less_than"

lemma serve_step:
  assumes "moves s s'" and "\<not> quit_flag (sy_loop s)" and "N \<le> length (handed s)" and "length (executed (sy_loop s)) < N"
  shows "N \<le> length (executed (sy_loop s')) \<or> (serve_left N s', serve_left N s) \<in> lex3
    \<or> serve_left N s' = serve_left N s \<and> control s' = control s"
  using assms
  by (cases rule: moves.cases) (auto simp: control_def queue_def handed_def codes_def serve_left_def)

text \<open>What is known of every state of a run.\<close>

lemma run_ok:
  assumes "sys_run Careful \<sigma>" and "sys_ok now0 (\<sigma> 0)" and "0 \<le> now0"
  shows "sys_ok now0 (\<sigma> i)"
proof (induction i)
  case (Suc i)
  with assms sys_step_ok [of "\<sigma> i"] show ?case by (fastforce simp: sys_run_def)
qed (use assms in simp)

lemma run_moves:
  assumes "sys_run Careful \<sigma>" and "sys_ok now0 (\<sigma> 0)" and "0 \<le> now0"
  shows "moves (\<sigma> i) (\<sigma> (Suc i))" and "timers_step (sy_timed (\<sigma> i)) (sy_timed (\<sigma> (Suc i)))"
  using step_moves [OF _ run_ok [OF assms] assms(3)] assms(1) by (auto simp: sys_run_def)

lemma run_handed:
  assumes "sys_run Careful \<sigma>" and "sys_ok now0 (\<sigma> 0)" and "0 \<le> now0"
  shows "\<exists>d. handed (\<sigma> (i + n)) = handed (\<sigma> i) @ d"
proof (induction n)
  case (Suc n)
  with moves_handed [OF run_moves(1) [OF assms, of "i + n"]] show ?case by auto
qed simp

lemma served:
  assumes run: "sys_run Careful \<sigma>" "sys_ok now0 (\<sigma> 0)" "0 \<le> now0" and moving: "keeps_moving \<sigma>"
    and on: "\<forall>i. \<not> quit_flag (sy_loop (\<sigma> i))"
  shows "\<exists>j \<ge> i. \<exists>d. executed (sy_loop (\<sigma> j)) = handed (\<sigma> i) @ d"
proof -
  let ?N = "length (handed (\<sigma> i))"
  have "\<exists>j \<ge> i. ?N \<le> length (executed (sy_loop (\<sigma> j)))"
  proof (rule eventually_goal [where m = "\<lambda>j. serve_left ?N (\<sigma> j)" and P = "\<lambda>j. ?N \<le> length (handed (\<sigma> j))"])
    show "wf lex3" by (intro wf_lex_prod wf_less_than)
    show "\<exists>j \<ge> i. \<not> control (\<sigma> (Suc j)) = control (\<sigma> j)" for i using moving by (simp add: keeps_moving_def)
    fix j assume j: "?N \<le> length (handed (\<sigma> j))" and no: "\<not> ?N \<le> length (executed (sy_loop (\<sigma> j)))"
    have m: "moves (\<sigma> j) (\<sigma> (Suc j))" by (rule run_moves(1) [OF run])
    from moves_handed [OF this] j have "?N \<le> length (handed (\<sigma> (Suc j)))" by auto
    with serve_step [OF m _ j] on no show "?N \<le> length (executed (sy_loop (\<sigma> (Suc j))))
        \<or> ?N \<le> length (handed (\<sigma> (Suc j))) \<and> ((serve_left ?N (\<sigma> (Suc j)), serve_left ?N (\<sigma> j)) \<in> lex3
          \<or> serve_left ?N (\<sigma> (Suc j)) = serve_left ?N (\<sigma> j) \<and> control (\<sigma> (Suc j)) = control (\<sigma> j))"
      by (meson not_le)
  qed simp
  then obtain j where j: "i \<le> j" "?N \<le> length (executed (sy_loop (\<sigma> j)))" by blast
  with run_handed [OF run, of i "j - i"] obtain d where "executed (sy_loop (\<sigma> j)) @ codes (\<sigma> j) = handed (\<sigma> i) @ d"
    by (auto simp: handed_def)
  from arg_cong [OF this, of "take ?N"] j(2) have "take ?N (executed (sy_loop (\<sigma> j))) = handed (\<sigma> i)" by simp
  with j(1) show ?thesis by (metis append_take_drop_id)
qed

section \<open>Every timer that is due runs\<close>

definition grows_to :: "timed_loop \<Rightarrow> timed_loop \<Rightarrow> bool" where
  "grows_to l l' \<longleftrightarrow> tl_dropped l \<subseteq># tl_dropped l' \<and> (\<exists>d. tl_ran l' = tl_ran l @ d)"

lemma settled_later: "grows_to l0 l \<Longrightarrow> settled t l l' \<Longrightarrow> settled t l0 l'"
proof -
  assume g: "grows_to l0 l" and s: "settled t l l'"
  then have "length (tl_ran l0) \<le> length (tl_ran l)" "count (tl_dropped l0) t \<le> count (tl_dropped l) t"
    by (auto simp: grows_to_def mset_subset_eq_count)
  with s show ?thesis
    unfolding settled_def by (meson in_mono le_less_trans set_drop_subset_set_drop)
qed

text \<open>How far the loop is from having run the timer \<open>t\<close>: it has to come round to polling, to handle the watcher, and
  then to run the timers before \<open>t\<close>.\<close>

fun fire_rank :: "loop_pc \<Rightarrow> nat" where
  "fire_rank AtPoll = 2" | "fire_rank AtCheck = 3" | "fire_rank AtRun = 4" | "fire_rank AtSwap = 5"
| "fire_rank AtActive = 6" | "fire_rank Outside = 7"

definition fire_left :: "timer \<Rightarrow> system \<Rightarrow> nat \<times> nat \<times> nat" where
  "fire_left t s = (if t \<in> set (tl_running (sy_timed s)) then (0, 0, length (tl_running (sy_timed s)))
     else (if watcher_chan \<in> set (sy_active s) then 1 else fire_rank (pc (sy_loop s)),
       length (sy_active s), length (tl_running (sy_timed s)) + length (todo (sy_loop s))))"

definition coming :: "timer \<Rightarrow> system \<Rightarrow> bool" where
  "coming t s \<longleftrightarrow> t \<in> set (tl_running (sy_timed s))
     \<or> t \<in># queued_timers (tl_q (sy_timed s)) \<and> expiration t \<le> tl_now (sy_timed s)"

lemma coming_step:
  assumes ts: "timers_step (sy_timed s) (sy_timed s')" and tl: "tl_ok (sy_timed s)" and c: "coming t s"
    and no: "\<not> settled t (sy_timed s) (sy_timed s')"
  shows "t \<in> set (tl_running (sy_timed s)) \<Longrightarrow> t \<in> set (tl_running (sy_timed s'))"
    and "coming t s'"
    and "t \<notin> set (tl_running (sy_timed s')) \<Longrightarrow> tl_ready (sy_timed s) \<Longrightarrow> tl_ready (sy_timed s')"
proof -
  show r: "t \<in> set (tl_running (sy_timed s'))" if "t \<in> set (tl_running (sy_timed s))"
    using ts no tl_step_running [OF _ that] that by (auto simp: timers_step_def)
  have q: "t \<in># queued_timers (tl_q (sy_timed s')) \<and> (tl_ready (sy_timed s) \<longrightarrow> tl_ready (sy_timed s'))
      \<or> t \<in> set (tl_running (sy_timed s'))"
    if "t \<in># queued_timers (tl_q (sy_timed s))" "expiration t \<le> tl_now (sy_timed s)"
    using ts no tl_step_fate [OF _ tl that] that by (auto simp: timers_step_def)
  have "tl_now (sy_timed s) \<le> tl_now (sy_timed s')" using ts tl_step_grows by (auto simp: timers_step_def)
  with c q r show "coming t s'" by (auto simp: coming_def)
  show "t \<notin> set (tl_running (sy_timed s')) \<Longrightarrow> tl_ready (sy_timed s) \<Longrightarrow> tl_ready (sy_timed s')"
    using c q r by (auto simp: coming_def)
qed

lemma fire_step:
  assumes m: "moves s s'" and ts: "timers_step (sy_timed s) (sy_timed s')" and tl: "tl_ok (sy_timed s)"
    and act: "active_ok s" "active_ok s'" and on: "\<not> quit_flag (sy_loop s)" and c: "coming t s"
    and no: "\<not> settled t (sy_timed s) (sy_timed s')"
  shows "coming t s' \<and> ((fire_left t s', fire_left t s) \<in> lex3 \<or> fire_left t s' = fire_left t s \<and> control s' = control s)"
proof
  note cs = coming_step [OF ts tl c no]
  show "coming t s'" by (rule cs(2))
  have keeps: "watcher_chan \<in> set (sy_active s')" if "t \<notin> set (tl_running (sy_timed s'))" "watcher_chan \<in> set (sy_active s)"
    using cs(3) that act by (auto simp: active_ok_def)
  have dist: "distinct (sy_active s)" using act(1) by (simp add: active_ok_def)
  have due: "timerfd_readable (tl_now (sy_timed s)) (timerfd (tl_q (sy_timed s)))" if "t \<notin> set (tl_running (sy_timed s))"
    using due_readable [OF tl] c that by (auto simp: coming_def)
  from m show "(fire_left t s', fire_left t s) \<in> lex3 \<or> fire_left t s' = fire_left t s \<and> control s' = control s"
  proof cases
    case stays
    then show ?thesis by (simp add: control_def fire_left_def)
  next
    case leaves
    with on show ?thesis by simp
  next
    case (polls ks)
    then show ?thesis using due by (auto simp: control_def fire_left_def)
  next
    case (handles k ks ts es ps d)
    then show ?thesis using keeps dist by (auto simp: control_def fire_left_def)
  next
    case (fires ks u ts)
    then show ?thesis using cs(1) keeps by (auto simp: control_def fire_left_def)
  qed (auto simp: control_def fire_left_def)
qed

lemma run_grows:
  assumes "sys_run Careful \<sigma>" and "sys_ok now0 (\<sigma> 0)" and "0 \<le> now0"
  shows "grows_to (sy_timed (\<sigma> i)) (sy_timed (\<sigma> (i + n)))"
proof (induction n)
  case (Suc n)
  have "grows_to (sy_timed (\<sigma> (i + n))) (sy_timed (\<sigma> (Suc (i + n))))"
    using run_moves(2) [OF assms, of "i + n"] tl_step_grows by (auto simp: timers_step_def grows_to_def)
  with Suc show ?case unfolding grows_to_def by (auto intro: subset_mset.order_trans)
qed (simp add: grows_to_def)

lemma fired:
  assumes run: "sys_run Careful \<sigma>" "sys_ok now0 (\<sigma> 0)" "0 \<le> now0" and moving: "keeps_moving \<sigma>"
    and on: "\<forall>i. \<not> quit_flag (sy_loop (\<sigma> i))" and c: "coming t (\<sigma> i)"
  shows "\<exists>j \<ge> i. settled t (sy_timed (\<sigma> i)) (sy_timed (\<sigma> j))"
proof (rule eventually_goal [where m = "\<lambda>j. fire_left t (\<sigma> j)" and P = "\<lambda>j. i \<le> j \<and> coming t (\<sigma> j)"])
  show "wf lex3" by (intro wf_lex_prod wf_less_than)
  show "\<exists>j \<ge> i. \<not> control (\<sigma> (Suc j)) = control (\<sigma> j)" for i using moving by (simp add: keeps_moving_def)
  fix j assume j: "i \<le> j \<and> coming t (\<sigma> j)" and no: "\<not> settled t (sy_timed (\<sigma> i)) (sy_timed (\<sigma> j))"
  have ok: "sys_ok now0 (\<sigma> k)" for k by (rule run_ok [OF run])
  have tl: "tl_ok (sy_timed (\<sigma> j))" by (rule tl_reach_ok [OF sys_okD(2) [OF ok] new_timed_loop_ok [OF run(3)]])
  show "settled t (sy_timed (\<sigma> i)) (sy_timed (\<sigma> (Suc j))) \<or> (i \<le> Suc j \<and> coming t (\<sigma> (Suc j)))
    \<and> ((fire_left t (\<sigma> (Suc j)), fire_left t (\<sigma> j)) \<in> lex3
      \<or> fire_left t (\<sigma> (Suc j)) = fire_left t (\<sigma> j) \<and> control (\<sigma> (Suc j)) = control (\<sigma> j))"
  proof (cases "settled t (sy_timed (\<sigma> j)) (sy_timed (\<sigma> (Suc j)))")
    case True
    with settled_later run_grows [OF run, of i "j - i"] j show ?thesis by auto
  next
    case False
    with fire_step [OF run_moves [OF run] tl sys_okD(7) [OF ok] sys_okD(7) [OF ok]] on j show ?thesis by auto
  qed
qed (use c in simp)

section \<open>The loop can always go on\<close>

text \<open>The clock and the buffers have room for what the loop does next.\<close>

definition has_room :: "system \<Rightarrow> bool" where
  "has_room s \<longleftrightarrow> repeats_fit (tl_now (sy_timed s)) (queued_timers (tl_q (sy_timed s)))
     \<and> (\<forall>k c buf ts. cl_conns (sy_conns s) k = Some c \<longrightarrow> queued c = SendTask buf # ts \<longrightarrow> length buf \<le> room (outputBuffer c))"

definition next_cancel_harmless :: "system \<Rightarrow> bool" where
  "next_cancel_harmless s \<longleftrightarrow> (\<forall>tid ts. tq_pending (tl_q (sy_timed s)) = TaskCancel tid # ts \<longrightarrow> may_cancel tid (sy_timed s))"

text \<open>What the thread of the loop leaves as it is.\<close>

definition same_demands :: "system \<Rightarrow> system \<Rightarrow> bool" where
  "same_demands s s' \<longleftrightarrow> dom (cl_conns (sy_conns s')) = dom (cl_conns (sy_conns s)) \<and> tl_asked (sy_timed s') = tl_asked (sy_timed s)
     \<and> set (tq_pending (tl_q (sy_timed s'))) \<subseteq> set (tq_pending (tl_q (sy_timed s))) \<and> (quit_flag (sy_loop s') \<longrightarrow> quit_flag (sy_loop s))
     \<and> (set (sy_active s) \<subseteq> owned \<longrightarrow> set (sy_active s') \<subseteq> owned)"

definition goes_to :: "system \<Rightarrow> system \<Rightarrow> bool" where
  "goes_to s s' \<longleftrightarrow> sys_step Careful s (Some (Inr s')) \<and> control s' \<noteq> control s \<and> same_demands s s'"

lemma looping_pc: "loop_run A l \<Longrightarrow> looping l \<longleftrightarrow> pc l \<noteq> Outside"
proof (induction rule: loop_run.induct)
  case (step l a l')
  from step(3,4) show ?case by (induction rule: loop_step.induct) (auto simp: loop_ops WakeUp_def)
qed (simp add: new_event_loop_def)

lemma channel_at_owner:
  assumes ok: "poller_ok p" and reg: "registered p k"
  shows "\<exists>i < length (pollfds p). channel_at p i = k"
proof -
  from poller_okD [OF ok] reg have "at_index p (ch_fd (chan p k)) k" by (simp add: registered_def)
  with reg show ?thesis
    by (intro exI [of _ "nat (ch_index (chan p k))"]) (auto simp: at_index_def channel_at_def registered_def nat_less_iff)
qed

text \<open>An answer of the kernel that reports the channels of the loop and nothing else.\<close>

definition own_events :: "system \<Rightarrow> nat \<Rightarrow> bool" where
  "own_events s k \<longleftrightarrow> k = bridge_chan \<and> 0 < eventfd (sy_loop s)
     \<or> k = watcher_chan \<and> timerfd_readable (tl_now (sy_timed s)) (timerfd (tl_q (sy_timed s)))"

lemma kernel_answers:
  assumes ok: "conns_ok (alive_in (sy_conns s)) owned (sy_conns s)"
  shows "\<exists>n rs. kernel_polls n rs s \<and> set (reported False (cl_poll (sy_conns s)) rs) \<subseteq> owned"
proof -
  let ?p = "cl_poll (sy_conns s)"
  let ?rs = "map (\<lambda>i. if own_events s (channel_at ?p i) then 1 else 0 :: 16 word) [0..<length (pollfds ?p)]"
  have p: "poller_ok ?p" using ok by (simp add: conns_ok_def)
  have own: "own_events s k \<Longrightarrow> k \<in> owned" for k by (auto simp: own_events_def owned_def)
  have fd: "0 \<le> pfd_fd (pollfds ?p ! i)" if i: "i < length (pollfds ?p)" "channel_at ?p i \<in> owned" for i
  proof -
    note at = channel_at_registered [OF p i(1)]
    from ok i(2) have "polled ?p (channel_at ?p i)" by (simp add: conns_ok_def)
    then show ?thesis using at by (simp add: polled_def interest_def registered_def Let_def)
  qed
  have all: "set (reported False ?p ?rs) = {channel_at ?p j |j. j < length (pollfds ?p) \<and> own_events s (channel_at ?p j)}"
    by (auto simp: reported_def Let_def split: if_splits)
  have "poll_contract (pollfds ?p) (int (length (filter (\<lambda>r. r \<noteq> 0) ?rs))) ?rs"
    using fd own by (simp add: poll_contract_def)
  moreover have "linux_events (word_of_int (sint (1 :: 16 word)))" "linux_events (word_of_int (sint (0 :: 16 word)))"
    by (simp_all add: linux_events_def has_event_def poll_flags)
  then have "\<forall>r \<in> set ?rs. linux_events (word_of_int (sint r))" by auto
  moreover have rep: "k \<in> set (reported False ?p ?rs) \<longleftrightarrow> own_events s k" if k: "k \<in> owned" for k
  proof -
    from ok k have "registered ?p k" by (simp add: conns_ok_def)
    from channel_at_owner [OF p this] obtain i where "i < length (pollfds ?p)" "channel_at ?p i = k" by blast
    with all show ?thesis by auto
  qed
  then have "bridge_chan \<in> set (reported False ?p ?rs) \<longleftrightarrow> 0 < eventfd (sy_loop s)"
    "watcher_chan \<in> set (reported False ?p ?rs) \<longleftrightarrow> timerfd_readable (tl_now (sy_timed s)) (timerfd (tl_q (sy_timed s)))"
    using rep [of bridge_chan] rep [of watcher_chan] by (auto simp: owned_def own_events_def owner_defs)
  moreover have "\<forall>i < length (pollfds ?p). channel_at ?p i \<in> owned \<and> ?rs ! i \<noteq> 0 \<longrightarrow> ?rs ! i = 1" by simp
  ultimately have "kernel_polls (int (length (filter (\<lambda>r. r \<noteq> 0) ?rs))) ?rs s"
    unfolding kernel_polls_def Let_def by (intro conjI)
  moreover have "set (reported False ?p ?rs) \<subseteq> owned" using all own by auto
  ultimately show ?thesis by blast
qed

lemma own_poll:
  assumes ok: "sys_ok now0 s" and now0: "0 \<le> now0" and pc: "pc (sy_loop s) = AtPoll"
  shows "\<exists>s'. goes_to s s'"
proof -
  from kernel_answers [OF sys_okD(3) [OF ok]] obtain n rs where
    k: "kernel_polls n rs s" "set (reported False (cl_poll (sy_conns s)) rs) \<subseteq> owned" by blast
  have step: "sys_step Careful s (Some (sys_poll False n rs s))" by (rule sys_step.poll [OF pc k(1)])
  from sys_step_ok [OF step ok now0] obtain s' where s': "sys_poll False n rs s = Inr s'" by auto
  have "poller_ok (cl_poll (sy_conns s))" "poll_contract (pollfds (cl_poll (sy_conns s))) n rs"
    using sys_okD(3) [OF ok] k(1) by (simp_all add: conns_ok_def kernel_polls_def Let_def)
  with s' k(2) have "set (sy_active s') \<subseteq> owned" using Poll_set by (fastforce simp: sys_poll_def res_iffs)
  with s' have "pc (sy_loop s') = AtActive" "same_demands s s'" "set (sy_active s') \<subseteq> owned"
    by (auto simp: sys_poll_def res_iffs same_demands_def split: if_splits)
  with step s' pc show ?thesis by (auto simp: goes_to_def control_def)
qed

lemma own_watcher:
  assumes ok: "sys_ok now0 s" and now0: "0 \<le> now0" and act: "sy_active s = watcher_chan # ks" and idle: "tl_running (sy_timed s) = []"
    and fit: "repeats_fit (tl_now (sy_timed s)) (queued_timers (tl_q (sy_timed s)))"
  shows "\<exists>s'. goes_to s s'"
proof -
  let ?l = "sy_timed s" and ?clk = "\<lambda>k :: nat. tl_now (sy_timed s)" and ?s = "s\<lparr>sy_active := ks\<rparr>"
  have tl: "tl_ok ?l" by (rule tl_reach_ok [OF sys_okD(2) [OF ok] new_timed_loop_ok [OF now0]])
  have ready: "tl_ready ?l" using sys_okD(7) [OF ok] act by (simp add: active_ok_def)
  have clk: "phase_clock ?clk (tl_now ?l)" by (simp add: phase_clock_def)
  have pc: "pc (sy_loop s) = AtActive" by (rule active_only [OF ok]) (simp add: act)
  note args = clk order_refl still_slow [OF tl] fit
  from step_handle [OF tl ready idle args] obtain fired q where
    h: "Watcher_HandleExpiredTimers True ?clk (?l\<lparr>tl_now := tl_now ?l\<rparr>)
        = Some (Inr (?l\<lparr>tl_now := tl_now ?l, tl_q := q, tl_ready := False, tl_running := fired\<rparr>))"
      "tq_pending q = tq_pending (tl_q ?l)" by blast
  let ?s' = "?s\<lparr>sy_timed := ?l\<lparr>tl_now := tl_now ?l, tl_q := q, tl_ready := False, tl_running := fired\<rparr>\<rparr>"
  have step: "sys_step Careful s (handle_watcher 0 ?clk (tl_now ?l) ?s)" by (rule sys_watcher [OF pc act idle args])
  have "handle_watcher 0 ?clk (tl_now ?l) ?s = Some (Inr ?s')"
    unfolding handle_watcher_eq [OF ok act] on_timers_def h(1) by simp
  with step have "sys_step Careful s (Some (Inr ?s'))" by (simp only:)
  moreover have "control ?s' \<noteq> control s" "same_demands s ?s'" using act h(2) by (simp_all add: control_def same_demands_def)
  ultimately show ?thesis unfolding goes_to_def by blast
qed

lemma on_connection_demands:
  assumes "on_connection inl k f s = Inr s'"
  shows "same_demands s s'"
proof -
  from assms obtain c0 c n where c: "cl_conns (sy_conns s) k = Some c0"
    "s' = enqueue_codes inl n (Suc k) (s\<lparr>sy_conns := put_conn k c (sy_conns s)\<rparr>)"
    by (auto simp: on_connection_def res_iffs split: option.splits)
  then show ?thesis by (auto simp: same_demands_def enqueue_moves)
qed

lemma own_connection:
  assumes ok: "sys_ok now0 s" and now0: "0 \<le> now0" and act: "sy_active s = k # ks" "k \<notin> owned" and idle: "tl_running (sy_timed s) = []"
  shows "\<exists>s'. goes_to s s'"
proof -
  let ?s = "s\<lparr>sy_active := ks\<rparr>"
  let ?f = "conn_HandleEvents (alive_in (sy_conns s)) (conn_cb echo (echo_read 0) (\<lambda>c. echo_write (outdata c) c)) 0"
  have pc: "pc (sy_loop s) = AtActive" by (rule active_only [OF ok]) (simp add: act)
  have step: "sys_step Careful s (Some (on_connection True k ?f ?s))"
    by (rule sys_step.connection [OF pc act idle echo_good echo_kernel])
  from sys_step_ok [OF step ok now0] obtain s' where s': "on_connection True k ?f ?s = Inr s'" by auto
  have "same_demands s s'" using on_connection_demands [OF s'] by (auto simp: same_demands_def act(1))
  moreover have "control s' \<noteq> control s" using on_connection_moves(1) [OF s'] act by (auto simp: control_def)
  ultimately show ?thesis using step s' by (auto simp: goes_to_def)
qed

lemma own_timer_task:
  assumes ok: "sys_ok now0 s" and now0: "0 \<le> now0" and pc: "pc (sy_loop s) = AtRun" and todo: "todo (sy_loop s) = timer_code # cs"
    and may: "\<forall>tid ts. tq_pending (tl_q (sy_timed s)) = TaskCancel tid # ts \<longrightarrow> may_cancel tid (sy_timed s)"
  shows "\<exists>s'. goes_to s s'"
proof -
  have step: "sys_step Careful s (run_timer_code s)" by (rule sys_timer_task [OF pc todo may])
  from sys_step_ok [OF step ok now0] obtain s' where s': "run_timer_code s = Some (Inr s')" by auto
  have take: "sy_timed (take_code s) = sy_timed s" by (simp add: take_code_def)
  with s' obtain task ts where t: "tq_pending (tl_q (sy_timed s)) = task # ts"
    by (cases "tq_pending (tl_q (sy_timed s))") (simp_all add: run_timer_code_def Let_def)
  from s' t take obtain l q where q: "s' = (take_code s)\<lparr>sy_timed := l\<rparr>" "tl_q l = q" "tl_asked l = tl_asked (sy_timed s)"
    "run_task True task ((tl_q (sy_timed s))\<lparr>tq_pending := ts\<rparr>) = Inr q"
    by (cases task) (auto simp: run_timer_code_def on_timers_def Let_def res_iffs)
  have "tq_pending q = ts" using run_task_pending [OF q(4)] by simp
  then have "same_demands s s'" using t by (auto simp: same_demands_def q(1-3) take_code_def)
  moreover have "control s' \<noteq> control s" using todo by (simp add: control_def q(1) take_code_def)
  ultimately show ?thesis using step s' by (auto simp: goes_to_def)
qed

lemma own_conn_task:
  assumes ok: "sys_ok now0 s" and now0: "0 \<le> now0" and pc: "pc (sy_loop s) = AtRun" and todo: "todo (sy_loop s) = Suc k # cs"
    and fit: "\<forall>k c buf ts. cl_conns (sy_conns s) k = Some c \<longrightarrow> queued c = SendTask buf # ts \<longrightarrow> length buf \<le> room (outputBuffer c)"
  shows "\<exists>s'. goes_to s s'"
proof -
  have "task_fits (WriteErr EPIPE) k s" using fit by (auto simp: task_fits_def send_fits_def write_contract_def)
  then have step: "sys_step Careful s (Some (run_conn_code k (WriteErr EPIPE) s))" by (rule sys_step.conn_task [OF pc todo])
  from sys_step_ok [OF step ok now0] obtain s' where s': "run_conn_code k (WriteErr EPIPE) s = Inr s'" by auto
  from s' obtain c f ts where f: "cl_conns (sy_conns s) k = Some c"
    "on_connection True k f ((take_code s)\<lparr>sy_conns := (sy_conns s)\<lparr>cl_conns := (cl_conns (sy_conns s))(k \<mapsto> c\<lparr>queued := ts\<rparr>)\<rparr>\<rparr>) = Inr s'"
    by (auto simp: run_conn_code_def Let_def take_code_def split: option.splits list.splits)
  have "same_demands s s'"
    using on_connection_demands [OF f(2)] f(1) by (auto simp: same_demands_def take_code_def insert_absorb)
  moreover have "control s' \<noteq> control s" using on_connection_moves(1) [OF f(2)] todo by (simp add: control_def take_code_def)
  ultimately show ?thesis using step s' by (auto simp: goes_to_def)
qed

lemma loop_goes_on:
  assumes ok: "sys_ok now0 s" and now0: "0 \<le> now0" and room: "has_room s"
    and harmless: "pc (sy_loop s) = AtRun \<longrightarrow> todo (sy_loop s) \<noteq> [] \<longrightarrow> hd (todo (sy_loop s)) = timer_code \<longrightarrow> next_cancel_harmless s"
  shows "\<exists>s'. goes_to s s'"
proof -
  note o = sys_okD [OF ok] and r = room [unfolded has_room_def]
  have quiet: "tl_running (sy_timed s) = []" if "pc (sy_loop s) \<noteq> AtActive" using outside_AtActive [OF ok that] by blast
  have known: "goes_to s s'" if "sys_step Careful s (Some (Inr s'))" "control s' \<noteq> control s" "sy_conns s' = sy_conns s"
    "tl_asked (sy_timed s') = tl_asked (sy_timed s)" "tl_q (sy_timed s') = tl_q (sy_timed s)"
    "quit_flag (sy_loop s') \<longrightarrow> quit_flag (sy_loop s)" "sy_active s' = sy_active s \<or> (\<exists>k. sy_active s = k # sy_active s')" for s'
    using that by (auto simp: goes_to_def same_demands_def)
  show ?thesis
  proof (cases "pc (sy_loop s)")
    case Outside
    then have "\<not> looping (sy_loop s)" using looping_pc [OF o(1)] by simp
    from known [OF sys_step.start [OF Outside this]] Outside show ?thesis by (auto simp: control_def)
  next
    case AtCheck
    show ?thesis
    proof (cases "quit_flag (sy_loop s)")
      case True
      from known [OF sys_step.leave [OF AtCheck True]] AtCheck show ?thesis by (auto simp: control_def)
    next
      case False
      from known [OF sys_step.go [OF AtCheck False]] AtCheck show ?thesis by (auto simp: control_def)
    qed
  next
    case AtPoll
    then show ?thesis by (rule own_poll [OF ok now0])
  next
    case AtActive
    show ?thesis
    proof (cases "tl_running (sy_timed s)")
      case (Cons t ts)
      from known [OF sys_step.timer_runs [OF Cons]] Cons show ?thesis by (auto simp: control_def)
    next
      case idle: Nil
      show ?thesis
      proof (cases "sy_active s")
        case Nil
        from known [OF sys_step.pending [OF AtActive Nil idle]] AtActive show ?thesis by (auto simp: control_def)
      next
        case (Cons k ks)
        consider "k = watcher_chan" | "k = bridge_chan" | "k \<notin> owned" by (auto simp: owned_def)
        then show ?thesis
        proof cases
          case 1
          with own_watcher [OF ok now0 _ idle] Cons r show ?thesis by blast
        next
          case 2
          with Cons have act: "sy_active s = bridge_chan # ks" by simp
          from sys_step.bridge [OF AtActive act idle, of Careful 0] known act show ?thesis
            unfolding handle_bridge_eq [OF ok act] by (fastforce simp: control_def HandleWakeUpFdRead_def)
        next
          case 3
          with own_connection [OF ok now0 Cons _ idle] show ?thesis by blast
        qed
      qed
    qed
  next
    case AtSwap
    from known [OF sys_step.swap [OF AtSwap]] AtSwap show ?thesis by (auto simp: control_def swap_pending_def)
  next
    case AtRun
    show ?thesis
    proof (cases "todo (sy_loop s)")
      case Nil
      from known [OF sys_step.finish [OF AtRun Nil]] AtRun show ?thesis by (auto simp: control_def)
    next
      case (Cons c cs)
      show ?thesis
      proof (cases c)
        case 0
        with own_timer_task [OF ok now0 AtRun] Cons harmless AtRun show ?thesis
          by (auto simp: timer_code_def next_cancel_harmless_def)
      next
        case (Suc k)
        with own_conn_task [OF ok now0 AtRun] Cons r show ?thesis by blast
      qed
    qed
  qed
qed

text \<open>Whoever the users are, the loop has a step that succeeds: a cancel always returns, what it leaves of the heap aside.\<close>

lemma careful_any: "sys_step Careful s r \<Longrightarrow> sys_step AnyUser s r"
  by (induction rule: sys_step.induct) (blast intro: sys_step.intros)+

lemma any_timer_task:
  assumes ok: "sys_ok now0 s" and pc: "pc (sy_loop s) = AtRun" and todo: "todo (sy_loop s) = timer_code # cs"
    and cancel: "tq_pending (tl_q (sy_timed s)) = TaskCancel tid # ts"
  shows "\<exists>s'. sys_step AnyUser s (Some (Inr s')) \<and> control s' \<noteq> control s"
proof -
  have take: "sy_timed (take_code s) = sy_timed s" by (simp add: take_code_def)
  obtain q where "CancelTimerInLoop True tid ((tl_q (sy_timed s))\<lparr>tq_pending := ts\<rparr>) = Inr q"
    by (cases "Heap_Del tid (tq_heap (tl_q (sy_timed s)))") (simp add: CancelTimerInLoop_def Let_def)
  then obtain l where l: "run_timer_code s = Some (Inr ((take_code s)\<lparr>sy_timed := l\<rparr>))"
    using cancel by (simp add: run_timer_code_def on_timers_def take Let_def)
  have "sys_step AnyUser s (run_timer_code s)" by (rule sys_step.timer_task [OF pc todo]) simp
  moreover have "control ((take_code s)\<lparr>sy_timed := l\<rparr>) \<noteq> control s" using todo by (simp add: control_def take_code_def)
  ultimately show ?thesis unfolding l by blast
qed

lemma loop_can_go_on:
  assumes ok: "sys_ok now0 s" and now0: "0 \<le> now0" and room: "has_room s"
  shows "\<exists>s'. sys_step AnyUser s (Some (Inr s')) \<and> control s' \<noteq> control s"
proof (cases "pc (sy_loop s) = AtRun \<and> (\<exists>cs. todo (sy_loop s) = timer_code # cs) \<and> \<not> next_cancel_harmless s")
  case True
  then obtain cs tid ts where "pc (sy_loop s) = AtRun" "todo (sy_loop s) = timer_code # cs"
    "tq_pending (tl_q (sy_timed s)) = TaskCancel tid # ts" by (auto simp: next_cancel_harmless_def)
  then show ?thesis by (rule any_timer_task [OF ok])
next
  case False
  then have "\<exists>s'. goes_to s s'" by (intro loop_goes_on [OF ok now0 room] impI) (metis list.collapse)
  then show ?thesis using careful_any by (auto simp: goes_to_def)
qed

section \<open>A loop that is left alone\<close>

definition calm :: "system \<Rightarrow> bool" where
  "calm s \<longleftrightarrow> dom (cl_conns (sy_conns s)) = {} \<and> (\<forall>t \<in># tl_asked (sy_timed s). \<not> Repeat t)
     \<and> (\<forall>task \<in> set (tq_pending (tl_q (sy_timed s))). \<exists>t. task = TaskAdd t) \<and> \<not> quit_flag (sy_loop s)"

lemma room_for_rest:
  assumes ok: "sys_ok now0 s" and now0: "0 \<le> now0" and once: "\<forall>t \<in># tl_asked (sy_timed s). \<not> Repeat t"
    and adds: "\<forall>task \<in> set (tq_pending (tl_q (sy_timed s))). \<exists>t. task = TaskAdd t"
    and sends: "\<And>k c buf. cl_conns (sy_conns s) k = Some c \<Longrightarrow> SendTask buf \<notin> set (queued c)"
  shows "has_room s \<and> next_cancel_harmless s"
proof -
  have tl: "tl_ok (sy_timed s)" by (rule tl_reach_ok [OF sys_okD(2) [OF ok] new_timed_loop_ok [OF now0]])
  have "repeats_of (tl_asked (sy_timed s)) = {#}" using once by (auto simp: repeats_of_def)
  with tl_okD(10) [OF tl] have "repeats_of (queued_timers (tl_q (sy_timed s))) = {#}" by (simp add: waiting_def)
  moreover have "t\<lparr>expiration := 0\<rparr> \<in># repeats_of M" if "t \<in># M" "Repeat t" for t M
    using that by (auto simp: repeats_of_def)
  ultimately have "\<forall>t \<in># queued_timers (tl_q (sy_timed s)). \<not> Repeat t" by (metis empty_iff set_mset_empty)
  moreover have "tq_pending (tl_q (sy_timed s)) \<noteq> TaskCancel tid # ts" for tid ts using adds by auto
  moreover have "queued c \<noteq> SendTask buf # ts" if "cl_conns (sy_conns s) k = Some c" for k c buf ts
    using sends [OF that, of buf] by auto
  ultimately show ?thesis by (auto simp: has_room_def next_cancel_harmless_def repeats_fit_def)
qed

lemma calm_room:
  assumes "sys_ok now0 s" and "0 \<le> now0" and "calm s"
  shows "has_room s \<and> next_cancel_harmless s"
  by (rule room_for_rest [OF assms(1,2)]) (use assms(3) in \<open>auto simp: calm_def\<close>)

lemma calm_goes_on:
  assumes "sys_ok now0 s \<and> calm s" and now0: "0 \<le> now0"
  shows "\<exists>s'. (sys_ok now0 s' \<and> calm s') \<and> goes_to s s'"
proof -
  from loop_goes_on [OF _ now0] calm_room [OF _ now0] assms(1) obtain s' where s': "goes_to s s'" by blast
  then have "calm s'" using assms(1) by (auto simp: goes_to_def same_demands_def calm_def)
  moreover have "sys_ok now0 s'" using sys_step_ok [OF _ _ now0] s' assms(1) by (fastforce simp: goes_to_def)
  ultimately show ?thesis using s' by blast
qed

text \<open>A run of the loop's own steps.\<close>

lemma left_alone_run:
  assumes more: "\<And>s. P s \<Longrightarrow> \<exists>s'. P s' \<and> goes_to s s'" and on: "\<And>s. P s \<Longrightarrow> \<not> quit_flag (sy_loop s)" and s: "P s"
  shows "\<exists>\<sigma>. \<sigma> 0 = s \<and> sys_run Careful \<sigma> \<and> keeps_moving \<sigma> \<and> (\<forall>i. \<not> quit_flag (sy_loop (\<sigma> i)))"
proof -
  have "\<exists>\<sigma>. \<forall>i :: nat. (P (\<sigma> i) \<and> (i = 0 \<longrightarrow> \<sigma> i = s)) \<and> goes_to (\<sigma> i) (\<sigma> (Suc i))"
    by (rule dependent_nat_choice) (use s more in auto)
  then obtain \<sigma> where \<sigma>: "\<And>i :: nat. (P (\<sigma> i) \<and> (i = 0 \<longrightarrow> \<sigma> i = s)) \<and> goes_to (\<sigma> i) (\<sigma> (Suc i))" by blast
  with on show ?thesis by (intro exI [of _ \<sigma>]) (auto simp: sys_run_def keeps_moving_def goes_to_def)
qed

lemma calm_run:
  assumes "sys_ok now0 s" and "calm s" and "0 \<le> now0"
  shows "\<exists>\<sigma>. \<sigma> 0 = s \<and> sys_run Careful \<sigma> \<and> keeps_moving \<sigma> \<and> (\<forall>i. \<not> quit_flag (sy_loop (\<sigma> i)))"
  by (rule left_alone_run [where P = "\<lambda>s. sys_ok now0 s \<and> calm s"]) (use assms calm_goes_on in \<open>auto simp: calm_def\<close>)

lemma reach_ok:
  assumes "0 \<le> tfd" and "0 \<le> efd" and "tfd \<noteq> efd" and "\<forall>c. \<not> eventHandling (st c)" and "0 \<le> now"
    and "new_loop this None tfd efd st = Inr (r, x)" and "sys_reach Careful (new_system now r) s"
  shows "sys_ok now s"
  using sys_reach_ok [OF assms(7) new_system_ok [OF assms(1-4,6)] assms(5)] by blast

section \<open>Properties\<close>

text \<open>C22. The thread of the loop is never stuck: in every state that a loop with careful users can reach and in which the clock
  and the buffers have room for what it does next, it has a step of its own that succeeds, even when nothing else happens, whatever
  other threads have asked for, a harmful cancel included.\<close>

theorem system_not_stuck:
  assumes "0 \<le> tfd" and "0 \<le> efd" and "tfd \<noteq> efd" and "\<forall>c. \<not> eventHandling (st c)" and "0 \<le> now"
    and "new_loop this None tfd efd st = Inr (r, x)" and "sys_reach Careful (new_system now r) s" and "has_room s"
  shows "\<exists>s'. sys_step AnyUser s (Some (Inr s')) \<and> control s' \<noteq> control s"
  using loop_can_go_on [OF reach_ok [OF assms(1-7)] assms(5,8)] .

text \<open>C4. Every function handed in runs: in an infinite run with careful users (see C2) in which the thread of the loop goes on and nobody asks it to quit,
  whatever is in the queue at some time will have been run, in order and after what was run before, whatever
  other threads hand in or ask for meanwhile.\<close>

theorem system_serves:
  assumes "0 \<le> tfd" and "0 \<le> efd" and "tfd \<noteq> efd" and "\<forall>c. \<not> eventHandling (st c)" and "0 \<le> now"
    and "new_loop this None tfd efd st = Inr (r, x)" and "sys_reach Careful (new_system now r) (\<sigma> 0)"
    and "sys_run Careful \<sigma>" and "keeps_moving \<sigma>" and "\<forall>i. \<not> quit_flag (sy_loop (\<sigma> i))"
  shows "\<exists>j \<ge> i. \<exists>d. executed (sy_loop (\<sigma> j)) = executed (sy_loop (\<sigma> i)) @ codes (\<sigma> i) @ d"
  using served [OF assms(8) reach_ok [OF assms(1-7)] assms(5,9,10), of i] by (simp add: handed_def)

text \<open>C5. Every timer that is due runs: in such a run, a timer that is queued and whose time has come will be run, unless
  a cancel takes it out first.\<close>

theorem system_timers_fire:
  assumes "0 \<le> tfd" and "0 \<le> efd" and "tfd \<noteq> efd" and "\<forall>c. \<not> eventHandling (st c)" and "0 \<le> now"
    and "new_loop this None tfd efd st = Inr (r, x)" and "sys_reach Careful (new_system now r) (\<sigma> 0)"
    and "sys_run Careful \<sigma>" and "keeps_moving \<sigma>" and "\<forall>i. \<not> quit_flag (sy_loop (\<sigma> i))"
    and "t \<in># queued_timers (tl_q (sy_timed (\<sigma> i)))" and "expiration t \<le> tl_now (sy_timed (\<sigma> i))"
  shows "\<exists>j \<ge> i. (\<exists>at. (t, at) \<in> set (drop (length (tl_ran (sy_timed (\<sigma> i)))) (tl_ran (sy_timed (\<sigma> j)))))
    \<or> count (tl_dropped (sy_timed (\<sigma> i))) t < count (tl_dropped (sy_timed (\<sigma> j))) t"
  using fired [OF assms(8) reach_ok [OF assms(1-7)] assms(5,9,10), of t i] assms(11,12) by (simp add: settled_def coming_def)

text \<open>A loop for which another thread has asked for a timer, and one in which a timer is due.\<close>

lemma demo_calm:
  assumes "new_loop 1 None 3 4 (\<lambda>c. new_Channel 0) = Inr (r, Some 1)"
  shows "sys_ok 5 (new_system 5 r)" and "calm (new_system 5 r)" and "tl_asked (sy_timed (new_system 5 r)) = {#}"
    and "pc (sy_loop (new_system 5 r)) = Outside" and "codes (new_system 5 r) = []"
proof -
  show "sys_ok 5 (new_system 5 r)" by (rule new_system_ok [OF _ _ _ _ assms]) (simp_all add: new_Channel_def)
  from assms obtain p where "r = event_loop.extend new_event_loop (reactor.fields p False [] [])"
    by (auto simp: new_loop_def new_EventLoop_def res_iffs)
  then have el: "sy_loop (new_system 5 r) = new_event_loop"
    by (simp add: new_system_def event_loop.defs reactor.defs new_event_loop_def)
  then show "calm (new_system 5 r)" "tl_asked (sy_timed (new_system 5 r)) = {#}" "pc (sy_loop (new_system 5 r)) = Outside"
    "codes (new_system 5 r) = []"
    by (simp_all add: calm_def new_event_loop_def codes_def) (simp_all add: new_system_def new_timed_loop_def new_TimerQueue_def)
qed

lemma nothing_asked:
  assumes ok: "sys_ok now0 s" and now0: "0 \<le> now0" and none: "tl_asked (sy_timed s) = {#}"
  shows "waiting (sy_timed s) = {#}" and "fresh_id (tl_q (sy_timed s))"
proof -
  have tl: "tl_ok (sy_timed s)" by (rule tl_reach_ok [OF sys_okD(2) [OF ok] new_timed_loop_ok [OF now0]])
  from tl_okD(9,10) [OF tl] none have "once_of (waiting (sy_timed s)) = {#}" "repeats_of (waiting (sy_timed s)) = {#}" by simp_all
  moreover have "t \<in># once_of M \<or> t\<lparr>expiration := 0\<rparr> \<in># repeats_of M" if "t \<in># M" for t M
    using that by (cases "Repeat t") (auto simp: once_of_def repeats_of_def)
  ultimately show w: "waiting (sy_timed s) = {#}" by (metis empty_iff multiset_nonemptyE set_mset_empty)
  then show "fresh_id (tl_q (sy_timed s))" by (simp add: waiting_def fresh_id_def)
qed

text \<open>Another thread asks for a timer in a quiet loop.\<close>

lemma demo_asked:
  assumes ok: "sys_ok 5 s" and calm: "calm s" and none: "tl_asked (sy_timed s) = {#}"
  shows "\<exists>s'. sys_step Careful s (Some (Inr s')) \<and> calm s' \<and> codes s' = codes s @ [timer_code]"
proof -
  have step: "sys_step Careful s (sys_AddTimer False 9 0 7 s)"
    by (rule sys_add_timer) (use nothing_asked(2) [OF ok _ none] in \<open>simp_all add: TimePoint_max_def\<close>)
  then obtain s' where s': "sys_AddTimer False 9 0 7 s = Some (Inr s')" using sys_step_ok [OF step ok] by auto
  let ?l = "sy_timed s" and ?t = "new_timer (tl_q (sy_timed s)) 9 0 7"
  let ?l' = "?l\<lparr>tl_q := (tl_q ?l)\<lparr>nextTimerId := nextTimerId (tl_q ?l) + 1, tq_pending := tq_pending (tl_q ?l) @ [TaskAdd ?t]\<rparr>,
    tl_asked := add_mset ?t (tl_asked ?l)\<rparr>"
  have "sys_AddTimer False 9 0 7 s = Some (Inr (enqueue_codes False 1 timer_code (s\<lparr>sy_timed := ?l'\<rparr>)))"
    by (simp add: sys_AddTimer_def on_timers_def submitted_by_eq AddTimer_def submit_def new_timer_def TimePoint_max_def Let_def)
  with s' have e: "s' = enqueue_codes False 1 timer_code (s\<lparr>sy_timed := ?l'\<rparr>)" by simp
  have "calm s'" using calm none by (auto simp: e calm_def enqueue_moves new_timer_def Repeat_def)
  moreover have "codes s' = codes s @ [timer_code]"
    using enqueue_moves(1,2) [of False 1 timer_code "s\<lparr>sy_timed := ?l'\<rparr>"] by (simp add: e codes_def control_def queue_def)
  ultimately show ?thesis using step s' by auto
qed

text \<open>The loop itself asks for a timer, whose time then comes.\<close>

lemma demo_due:
  assumes ok: "sys_ok 5 s" and calm: "calm s" and none: "tl_asked (sy_timed s) = {#}" and user: "in_user s"
  shows "\<exists>s' t. sys_reach Careful s s' \<and> calm s' \<and> t \<in># queued_timers (tl_q (sy_timed s')) \<and> expiration t \<le> tl_now (sy_timed s')"
proof -
  have fresh: "fresh_id (tl_q (sy_timed s))" and wait: "waiting (sy_timed s) = {#}" using nothing_asked [OF ok _ none] by simp_all
  have step: "sys_step Careful s (sys_AddTimer True 9 0 7 s)"
    by (rule sys_add_timer) (use user fresh in \<open>simp_all add: TimePoint_max_def\<close>)
  then obtain s1 where s1: "sys_AddTimer True 9 0 7 s = Some (Inr s1)" using sys_step_ok [OF step ok] by auto
  let ?l = "sy_timed s" and ?t = "new_timer (tl_q (sy_timed s)) 9 0 7"
  let ?q0 = "(tl_q ?l)\<lparr>nextTimerId := nextTimerId (tl_q ?l) + 1\<rparr>"
  have tl: "tl_ok ?l" by (rule tl_reach_ok [OF sys_okD(2) [OF ok] new_timed_loop_ok]) simp
  have "tq_ok ?q0" "timer_id ?t \<notin> timer_id ` set_mset (queued_timers ?q0)" using tl_okD(1) [OF tl] wait by (simp_all add: waiting_def)
  from AddTimerInLoop_ok [OF this] obtain q where
    q: "AddTimerInLoop True ?t ?q0 = Inr q" "queued_timers q = add_mset ?t (queued_timers (tl_q ?l))" by auto
  from AddTimerInLoop_pending [OF q(1)] have "tq_pending q = tq_pending (tl_q ?l)" by simp
  moreover have "s1 = s\<lparr>sy_timed := ?l\<lparr>tl_q := q, tl_asked := add_mset ?t (tl_asked ?l)\<rparr>\<rparr>"
    using s1 q(1) by (simp add: sys_AddTimer_def on_timers_def submitted_by_def AddTimer_def submit_def new_timer_def TimePoint_max_def Let_def)
  ultimately have c1: "calm s1" "?t \<in># queued_timers (tl_q (sy_timed s1))" "tl_now (sy_timed s1) = tl_now ?l"
    using calm none q(2) by (auto simp: calm_def new_timer_def Repeat_def)
  let ?s2 = "s1\<lparr>sy_timed := (sy_timed s1)\<lparr>tl_now := max 9 (tl_now ?l)\<rparr>\<rparr>"
  have "sys_step Careful s1 (Some (Inr ?s2))" by (rule sys_step.tick) (simp add: c1(3))
  with step s1 have "sys_reach Careful s ?s2" by (metis sys_reach.intros)
  moreover have "calm ?s2" "?t \<in># queued_timers (tl_q (sy_timed ?s2))" "expiration ?t \<le> tl_now (sy_timed ?s2)"
    using c1 by (simp_all add: calm_def new_timer_def)
  ultimately show ?thesis by blast
qed

lemma demo_entered:
  assumes r: "new_loop 1 None 3 4 (\<lambda>c. new_Channel 0) = Inr (r, Some 1)"
  shows "\<exists>s. sys_reach Careful (new_system 5 r) s \<and> sys_ok 5 s \<and> calm s \<and> tl_asked (sy_timed s) = {#} \<and> in_user s
    \<and> set (sy_active s) \<subseteq> owned"
proof -
  note d = demo_calm [OF r]
  let ?s0 = "new_system 5 r"
  let ?s1 = "?s0\<lparr>sy_loop := (sy_loop ?s0)\<lparr>pc := AtCheck, looping := True, quit_flag := False\<rparr>\<rparr>"
  let ?s2 = "?s1\<lparr>sy_loop := (sy_loop ?s1)\<lparr>pc := AtPoll\<rparr>\<rparr>"
  have "sys_step Careful ?s0 (Some (Inr ?s1))"
    by (rule sys_step.start) (use d(4) looping_pc [OF sys_okD(1) [OF d(1)]] in simp_all)
  moreover have "sys_step Careful ?s1 (Some (Inr ?s2))" by (rule sys_step.go) simp_all
  ultimately have reach: "sys_reach Careful ?s0 ?s2" using sys_reach.there [OF sys_reach.there [OF sys_reach.here]] by blast
  have ok: "sys_ok 5 ?s2" using sys_reach_ok [OF reach d(1)] by simp
  have calm: "calm ?s2" "tl_asked (sy_timed ?s2) = {#}" using d(2,3) by (simp_all add: calm_def)
  have pc: "pc (sy_loop ?s2) = AtPoll" by simp
  from own_poll [OF ok _ pc] obtain s where s: "goes_to ?s2 s" by auto
  have "moves ?s2 s" using step_moves [OF _ ok] s by (simp add: goes_to_def)
  then have "in_user s" using s pc by (cases rule: moves.cases) (auto simp: goes_to_def control_def in_user_def)
  moreover have "sy_active ?s2 = []" using outside_AtActive [OF ok] pc by simp
  then have "calm s" "tl_asked (sy_timed s) = {#}" "set (sy_active s) \<subseteq> owned" using s calm by (auto simp: goes_to_def same_demands_def calm_def)
  moreover have r': "sys_reach Careful ?s0 s" using sys_reach.there [OF reach] s by (simp add: goes_to_def)
  ultimately show ?thesis using sys_reach_ok [OF r' d(1)] by auto
qed

lemma demo_loop: "\<exists>r. new_loop 1 None 3 4 (\<lambda>c. new_Channel 0) = Inr (r, Some 1)"
  using new_loop_ok [of 3 4 "\<lambda>c. new_Channel 0" 1] by (auto simp: new_Channel_def)

lemma demo_handed:
  "\<exists>r s. new_loop 1 None 3 4 (\<lambda>c. new_Channel 0) = Inr (r, Some 1) \<and> sys_reach Careful (new_system 5 r) s \<and> sys_ok 5 s \<and> calm s
    \<and> codes s = [timer_code]"
proof -
  from demo_loop obtain r where r: "new_loop 1 None 3 4 (\<lambda>c. new_Channel 0) = Inr (r, Some 1)" by blast
  note d = demo_calm [OF r]
  from demo_asked [OF d(1-3)] obtain s where s: "sys_step Careful (new_system 5 r) (Some (Inr s))" "calm s" "codes s = [timer_code]"
    using d(5) by auto
  have reach: "sys_reach Careful (new_system 5 r) s" by (rule sys_reach.there [OF sys_reach.here s(1)])
  with r s sys_reach_ok [OF reach d(1)] show ?thesis by auto
qed

theorem system_not_stuck_witness:
  "\<exists>s s'. codes s = [timer_code] \<and> sys_step AnyUser s (Some (Inr s')) \<and> control s' \<noteq> control s"
proof -
  from demo_handed obtain r s where
    d: "new_loop 1 None 3 4 (\<lambda>c. new_Channel 0) = Inr (r, Some 1)" "sys_reach Careful (new_system 5 r) s" "sys_ok 5 s" "calm s"
      "codes s = [timer_code]" by blast
  from calm_room [OF d(3) _ d(4)] have "has_room s" by simp
  from system_not_stuck [OF _ _ _ _ _ d(1,2) this] d(5) show ?thesis by (auto simp: new_Channel_def)
qed

theorem system_serves_witness:
  "\<exists>\<sigma>. sys_run Careful \<sigma> \<and> codes (\<sigma> 0) = [timer_code] \<and> (\<exists>j. timer_code \<in> set (executed (sy_loop (\<sigma> j))))"
proof -
  from demo_handed obtain r s where
    d: "new_loop 1 None 3 4 (\<lambda>c. new_Channel 0) = Inr (r, Some 1)" "sys_reach Careful (new_system 5 r) s" "sys_ok 5 s" "calm s"
      "codes s = [timer_code]" by blast
  from calm_run [OF d(3,4)] obtain \<sigma> where
    \<sigma>: "\<sigma> 0 = s" "sys_run Careful \<sigma>" "keeps_moving \<sigma>" "\<forall>i. \<not> quit_flag (sy_loop (\<sigma> i))" by auto
  have "\<exists>j \<ge> 0. \<exists>e. executed (sy_loop (\<sigma> j)) = executed (sy_loop (\<sigma> 0)) @ codes (\<sigma> 0) @ e"
    by (rule system_serves [where now = 5, OF _ _ _ _ _ d(1) _ \<sigma>(2-4)]) (simp_all add: new_Channel_def \<sigma>(1) d(2))
  then obtain j e where "executed (sy_loop (\<sigma> j)) = executed (sy_loop s) @ [timer_code] @ e" by (auto simp: \<sigma>(1) d(5))
  with \<sigma>(1,2) d(5) show ?thesis by (intro exI [of _ \<sigma>]) (auto intro!: exI [of _ j])
qed

theorem system_timers_fire_witness:
  "\<exists>\<sigma> t. sys_run Careful \<sigma> \<and> t \<in># queued_timers (tl_q (sy_timed (\<sigma> 0))) \<and> (\<exists>j. (\<exists>at. (t, at) \<in> set (tl_ran (sy_timed (\<sigma> j))))
     \<or> t \<in># tl_dropped (sy_timed (\<sigma> j)))"
proof -
  from demo_loop obtain r where r: "new_loop 1 None 3 4 (\<lambda>c. new_Channel 0) = Inr (r, Some 1)" by blast
  from demo_entered [OF r] obtain s0 where
    d: "sys_reach Careful (new_system 5 r) s0" "sys_ok 5 s0" "calm s0" "tl_asked (sy_timed s0) = {#}" "in_user s0" by blast
  from demo_due [OF d(2-5)] obtain s t where
    s: "sys_reach Careful s0 s" "calm s" "t \<in># queued_timers (tl_q (sy_timed s))" "expiration t \<le> tl_now (sy_timed s)" by blast
  have reach: "sys_reach Careful (new_system 5 r) s" using s(1) d(1) by induction (auto intro: sys_reach.there)
  have "sys_ok 5 s" using sys_reach_ok [OF s(1) d(2)] by simp
  from calm_run [OF this s(2)] obtain \<sigma> where
    \<sigma>: "\<sigma> 0 = s" "sys_run Careful \<sigma>" "keeps_moving \<sigma>" "\<forall>i. \<not> quit_flag (sy_loop (\<sigma> i))" by auto
  have "\<exists>j \<ge> 0. (\<exists>at. (t, at) \<in> set (drop (length (tl_ran (sy_timed (\<sigma> 0)))) (tl_ran (sy_timed (\<sigma> j)))))
      \<or> count (tl_dropped (sy_timed (\<sigma> 0))) t < count (tl_dropped (sy_timed (\<sigma> j))) t"
    by (rule system_timers_fire [where now = 5, OF _ _ _ _ _ r _ \<sigma>(2-4)]) (simp_all add: new_Channel_def \<sigma>(1) reach s(3,4))
  then obtain j where "(\<exists>at. (t, at) \<in> set (drop (length (tl_ran (sy_timed (\<sigma> 0)))) (tl_ran (sy_timed (\<sigma> j)))))
      \<or> count (tl_dropped (sy_timed (\<sigma> 0))) t < count (tl_dropped (sy_timed (\<sigma> j))) t" by blast
  then have "(\<exists>at. (t, at) \<in> set (tl_ran (sy_timed (\<sigma> j)))) \<or> t \<in># tl_dropped (sy_timed (\<sigma> j))"
    using in_set_dropD by (metis count_greater_zero_iff gr_zeroI not_less0)
  with \<sigma>(1,2) s(3) show ?thesis by blast
qed

end
