(* ===== verification/SystemTasks.thy ===== *)
theory SystemTasks
  imports LoopProgress
begin

text \<open>
  What becomes of a task that is queued for a connection of the loop of \<^verbatim>\<open>LoopSystem\<close>: bytes another thread sends, a
  shutdown it asks for, the removal the server hands in. The queue of a connection only grows at its end and is
  only served at its head; over a run with careful users in which the loop goes on, every task comes to its head and is carried out.
\<close>

section \<open>The queue of a connection\<close>

text \<open>How many functions of connection \<open>k\<close> the loop has run.\<close>

definition conn_runs :: "nat \<Rightarrow> system \<Rightarrow> nat" where
  "conn_runs k s = count_list (executed (sy_loop s)) (Suc k)"

definition runs_task :: "nat \<Rightarrow> conn_task \<Rightarrow> system \<Rightarrow> system \<Rightarrow> bool" where
  "runs_task k t s s' \<longleftrightarrow> (\<exists>c ts wres. cl_conns (sy_conns s) k = Some c \<and> queued c = t # ts \<and> task_fits wres k s
     \<and> run_conn_code k wres s = Inr s')"

text \<open>A step appends to the queue, or runs its head.\<close>

definition queue_moves :: "nat \<Rightarrow> system \<Rightarrow> system \<Rightarrow> bool" where
  "queue_moves k s s' \<longleftrightarrow> (\<forall>c t ts. cl_conns (sy_conns s) k = Some c \<longrightarrow> queued c = t # ts \<longrightarrow>
     (\<exists>c' e. cl_conns (sy_conns s') k = Some c' \<and>
       (queued c' = t # ts @ e \<and> conn_runs k s' = conn_runs k s
         \<or> queued c' = ts @ e \<and> conn_runs k s' = Suc (conn_runs k s) \<and> runs_task k t s s')))"

definition queue_grows :: "nat \<Rightarrow> system \<Rightarrow> system \<Rightarrow> bool" where
  "queue_grows k s s' \<longleftrightarrow> executed (sy_loop s') = executed (sy_loop s)
     \<and> (\<forall>c. cl_conns (sy_conns s) k = Some c \<longrightarrow> (\<exists>c' e. cl_conns (sy_conns s') k = Some c' \<and> queued c' = queued c @ e))"

lemma queue_grows_moves: "queue_grows k s s' \<Longrightarrow> queue_moves k s s'"
  by (fastforce simp: queue_grows_def queue_moves_def conn_runs_def)

lemma queue_grows_same:
  "cl_conns (sy_conns s') k = cl_conns (sy_conns s) k \<Longrightarrow> executed (sy_loop s') = executed (sy_loop s) \<Longrightarrow> queue_grows k s s'"
  by (simp add: queue_grows_def)

lemmas queue_same = queue_grows_moves [OF queue_grows_same]

lemma on_connection_queue:
  assumes r: "on_connection inl m f s = Inr s'"
    and f: "\<And>c c'. cl_conns (sy_conns s) m = Some c \<Longrightarrow> f (conn_in (cl_poll (sy_conns s)) c) = Inr c' \<Longrightarrow>
      \<exists>e. queued c' = queued c @ e"
  shows "queue_grows k s s'"
proof -
  from r obtain c c' where c: "cl_conns (sy_conns s) m = Some c" "f (conn_in (cl_poll (sy_conns s)) c) = Inr c'"
      "sy_conns s' = put_conn m c' (sy_conns s)"
    by (auto simp: on_connection_def enqueue_codes_def res_iffs split: option.splits)
  have "executed (sy_loop s') = executed (sy_loop s)" using on_connection_moves(2) [OF r] by (auto simp: queue_def)
  with f [OF c(1,2)] c(1,3) show ?thesis by (cases "k = m") (auto simp: queue_grows_def)
qed

lemma outcome_tasks: "outcome (conn_in p c) c' \<Longrightarrow> \<exists>e. queued c' = queued c @ e"
  by (auto simp: outcome_def extends_def more_tasks_def)

lemma moves_tasks: "conn_moves (conn_in p c) c' \<Longrightarrow> \<exists>e. queued c' = queued c @ e"
  unfolding conn_moves_def using outcome_tasks by blast

lemma user_op_queue:
  assumes r: "on_connection inl m f s = Inr s'" and f: "\<And>c. cl_conns (sy_conns s) m = Some c \<Longrightarrow>
    \<exists>c'. f (conn_in (cl_poll (sy_conns s)) c) = Inr c' \<and> conn_moves (conn_in (cl_poll (sy_conns s)) c) c'"
  shows "queue_moves k s s'"
  by (rule queue_grows_moves, rule on_connection_queue [OF r]) (use f moves_tasks in fastforce)

text \<open>The head of the queue is run; it is a task the connection can carry out.\<close>

lemma run_conn_code_task:
  assumes ok: "sys_ok now0 s" and r: "run_conn_code k wres s = Inr s'" and fits: "task_fits wres k s"
  shows "\<exists>c t ts c'. cl_conns (sy_conns s) k = Some c \<and> queued c = t # ts
    \<and> run_conn_task True (\<lambda>t. Inr) wres t (conn_in (cl_poll (sy_conns s)) (c\<lparr>queued := ts\<rparr>)) = Inr c'
    \<and> conn_moves (conn_in (cl_poll (sy_conns s)) (c\<lparr>queued := ts\<rparr>)) c' \<and> sy_conns s' = put_conn k c' (sy_conns s)
    \<and> executed (sy_loop s') = executed (sy_loop s) @ [hd (todo (sy_loop s))]"
proof -
  let ?p = "cl_poll (sy_conns s)"
  have rest: "sy_conns (take_code s) = sy_conns s" by (simp add: take_code_def)
  from r obtain c t ts where c: "cl_conns (sy_conns s) k = Some c" "queued c = t # ts"
    and r': "on_connection True k (run_conn_task True (\<lambda>t. Inr) wres t) ((take_code s)\<lparr>sy_conns :=
      (sy_conns s)\<lparr>cl_conns := (cl_conns (sy_conns s))(k \<mapsto> c\<lparr>queued := ts\<rparr>)\<rparr>\<rparr>) = Inr s'" (is "on_connection _ _ _ ?s2 = _")
    by (auto simp: run_conn_code_def Let_def rest split: option.splits list.splits)
  from head_task_moves [OF ok c fits] obtain c' where
    c': "run_conn_task True (\<lambda>t. Inr) wres t (conn_in ?p (c\<lparr>queued := ts\<rparr>)) = Inr c'"
      "conn_moves (conn_in ?p (c\<lparr>queued := ts\<rparr>)) c'" by blast
  have "sy_conns s' = put_conn k c' (sy_conns s)"
    using r' c'(1) by (auto simp: on_connection_def enqueue_codes_def put_conn_def)
  moreover have "executed (sy_loop s') = executed (sy_loop s) @ [hd (todo (sy_loop s))]"
    using on_connection_moves(2) [OF r'] by (auto simp: queue_def take_code_def)
  ultimately show ?thesis using c c' by blast
qed

lemma executed_enqueue: "executed (sy_loop (enqueue_codes inl n cb s)) = executed (sy_loop s)"
  using enqueue_moves(2) [of inl n cb s] by (simp add: queue_def)

lemma conn_task_queue:
  assumes ok: "sys_ok now0 s" and r: "run_conn_code m wres s = Inr s'" and fits: "task_fits wres m s"
    and todo: "todo (sy_loop s) = Suc m # cs"
  shows "queue_moves k s s'"
proof -
  from run_conn_code_task [OF ok r fits] obtain c t ts c' where
    c: "cl_conns (sy_conns s) m = Some c" "queued c = t # ts" "conn_moves (conn_in (cl_poll (sy_conns s)) (c\<lparr>queued := ts\<rparr>)) c'"
      "sy_conns s' = put_conn m c' (sy_conns s)" "executed (sy_loop s') = executed (sy_loop s) @ [Suc m]"
    using todo by auto
  show ?thesis
  proof (cases "k = m")
    case True
    moreover have "runs_task m t s s'" using c(1,2) r fits by (auto simp: runs_task_def)
    moreover obtain e where "queued c' = ts @ e" using moves_tasks [OF c(3)] by auto
    ultimately show ?thesis using c by (auto simp: queue_moves_def conn_runs_def)
  next
    case False
    with c(4,5) show ?thesis by (auto simp: queue_moves_def conn_runs_def)
  qed
qed

lemma step_queue:
  assumes step: "sys_step Careful s (Some (Inr s'))" and ok: "sys_ok now0 s"
  shows "queue_moves k s s'"
  using step
proof cases
  case (poll n rs mempool)
  then show ?thesis by (intro queue_same) (auto simp: sys_poll_def Inr_mapR_iff)
next
  case (watcher ks clk now t)
  from watcher(1) have "handle_watcher t clk now (s\<lparr>sy_active := ks\<rparr>) = Some (Inr s')" by simp
  then show ?thesis by (intro queue_same) (auto simp: handle_watcher_eq [OF ok watcher(3)] on_timers_def res_iffs)
next
  case (bridge ks t)
  then show ?thesis by (intro queue_same) (simp_all add: handle_bridge_eq [OF ok bridge(3)] HandleWakeUpFdRead_def)
next
  case (connection m ks user kr kw t)
  note act = connection(3) and m = connection(4) and user = connection(6,7)
  let ?p = "cl_poll (sy_conns s)"
  from connection have r: "on_connection True m (conn_HandleEvents (alive_in (sy_conns s)) (conn_cb user kr kw) t) (s\<lparr>sy_active := ks\<rparr>) = Inr s'"
    by simp
  from sys_okD(7) [OF ok] act m obtain c where
    c: "cl_conns (sy_conns s) m = Some c" "conn_ok (conn_in ?p c)" "linux_events (revents (chan ?p m))"
    by (auto simp: active_ok_def active_chan_ok_def)
  from handle_conn_ok [where kr = "\<lambda>k. kr" and kw = "\<lambda>k. kw" and t = t, OF sys_okD(3) [OF ok] c user] obtain c' where
    c': "conn_HandleEvents (alive_in (sy_conns s)) (conn_cb user kr kw) t (conn_in ?p c) = Inr c'" "outcome (conn_in ?p c) c'" by blast
  then have "\<exists>e. queued c' = queued c @ e" using outcome_tasks by blast
  with c(1) c'(1) have "queue_grows k (s\<lparr>sy_active := ks\<rparr>) s'" by (intro on_connection_queue [OF r]) auto
  then show ?thesis by (intro queue_grows_moves) (simp add: queue_grows_def)
next
  case (timer_task cs)
  then have "conn_runs k s' = conn_runs k s" "sy_conns s' = sy_conns s"
    by (auto simp: run_timer_code_def on_timers_def take_code_def Let_def Inr_mapR_iff conn_runs_def timer_code_def split: list.splits)
  then show ?thesis by (simp add: queue_moves_def)
next
  case (conn_task m cs wres)
  then show ?thesis using conn_task_queue [OF ok] by auto
next
  case (remove inl m c)
  let ?p = "cl_poll (sy_conns s)"
  from remove have r: "on_connection inl m (remove_conn inl) s = Inr s'" by simp
  have "conn_chan c = m" using sys_okD(3) [OF ok] remove(3) by (simp add: conns_ok_def conn_fine_def)
  moreover have "\<not> conn_ok (conn_in ?p c)" using remove(4) by (auto simp: conn_ok_def conn_live_def)
  ultimately have "\<exists>c'. StepIntoDestroyed True quiet (conn_in ?p c) = Inr c' \<and> conn_moves (conn_in ?p c) c'"
    using destroy_moves [of "conn_in ?p c"] sys_conn_fine [OF ok remove(3)] remove(5,6) by simp
  then have "queue_grows k s s'"
    using remove(3) moves_tasks by (intro on_connection_queue [OF r]) (fastforce simp: remove_conn_def enqueue_def split: if_splits)
  then show ?thesis by (rule queue_grows_moves)
next
  case (drop m c)
  from drop(1) have "sys_drop m s = Inr s'" by simp
  then have "executed (sy_loop s') = executed (sy_loop s)" "sy_conns s' = (sy_conns s)\<lparr>cl_conns := (cl_conns (sy_conns s))(m := None)\<rparr>"
    by (auto simp: sys_drop_def res_iffs drop(2))
  then show ?thesis using drop(2,4) by (cases "k = m") (auto simp: queue_moves_def conn_runs_def)
next
  case (quit inl)
  then show ?thesis by (intro queue_same) (auto simp: Inr_mapR_iff Quit_def Quit_store_def WakeUp_def res_iffs)
next
  case (add_timer inl "when" itv cb)
  then show ?thesis by (intro queue_same)
    (auto simp: sys_AddTimer_def on_timers_def submitted_by_eq enqueue_moves executed_enqueue Let_def res_iffs Inr_mapR_iff)
next
  case (cancel_timer inl tid)
  then show ?thesis by (intro queue_same)
    (auto simp: sys_CancelTimer_def on_timers_def submitted_by_eq enqueue_moves executed_enqueue Let_def res_iffs Inr_mapR_iff)
next
  case (send inl m wres buf)
  then have r: "on_connection inl m (Send inl wres buf) s = Inr s'" by simp
  show ?thesis
    by (rule user_op_queue [OF r], rule Send_moves [OF sys_conn_fine [OF ok]]) (use send(4) in \<open>simp_all add: send_fits_def\<close>)
next
  case (shutdown inl m)
  then have r: "on_connection inl m (Shutdown inl) s = Inr s'" by simp
  show ?thesis by (rule user_op_queue [OF r], rule Shutdown_moves [OF sys_conn_fine [OF ok]])
next
  case (connect m fd wc hwm hw)
  then have "\<exists>c. s' = s\<lparr>sy_conns := put_conn m c (sy_conns s)\<rparr>" by (auto simp: sys_connect_def Inr_mapR_iff)
  then show ?thesis using connect(3) by (cases "k = m") (auto simp: queue_moves_def conn_runs_def)
qed (simp_all add: queue_same swap_pending_def)

section \<open>Every task is carried out\<close>

text \<open>A task at place \<open>n\<close> of the queue is run after \<open>n\<close> others, and at the latest when the loop has run \<open>n + 1\<close>.\<close>

definition task_at :: "nat \<Rightarrow> conn_task \<Rightarrow> nat \<Rightarrow> system \<Rightarrow> bool" where
  "task_at k t n s \<longleftrightarrow> (\<exists>c m. cl_conns (sy_conns s) k = Some c \<and> m < length (queued c) \<and> queued c ! m = t \<and> conn_runs k s + m = n)"

lemma task_at_step:
  assumes m: "queue_moves k s s'" and at: "task_at k t n s"
  shows "runs_task k t s s' \<and> conn_runs k s = n \<or> task_at k t n s'"
proof -
  from at obtain c m where c: "cl_conns (sy_conns s) k = Some c" "m < length (queued c)" "queued c ! m = t" "conn_runs k s + m = n"
    by (auto simp: task_at_def)
  then obtain u us where u: "queued c = u # us" by (cases "queued c") auto
  from m c(1) u obtain c' e where c': "cl_conns (sy_conns s') k = Some c'"
      "queued c' = queued c @ e \<and> conn_runs k s' = conn_runs k s
       \<or> queued c' = us @ e \<and> conn_runs k s' = Suc (conn_runs k s) \<and> runs_task k u s s'" by (auto simp: queue_moves_def)
  show ?thesis
  proof (cases "queued c' = queued c @ e \<and> conn_runs k s' = conn_runs k s")
    case True
    with c c'(1) show ?thesis by (auto simp: task_at_def nth_append intro!: exI [of _ m])
  next
    case False
    with c' have d: "queued c' = us @ e" "conn_runs k s' = Suc (conn_runs k s)" "runs_task k u s s'" by auto
    show ?thesis
    proof (cases m)
      case 0
      with c(3,4) u d(3) show ?thesis by simp
    next
      case (Suc l)
      with c u d c'(1) show ?thesis by (auto simp: task_at_def nth_append intro!: exI [of _ l])
    qed
  qed
qed

lemma task_run:
  assumes run: "sys_run Careful \<sigma>" "sys_ok now0 (\<sigma> 0)" "0 \<le> now0" and moving: "keeps_moving \<sigma>"
    and on: "\<forall>i. \<not> quit_flag (sy_loop (\<sigma> i))" and at: "task_at k t n (\<sigma> i)"
  shows "\<exists>j \<ge> i. runs_task k t (\<sigma> j) (\<sigma> (Suc j)) \<and> conn_runs k (\<sigma> j) = n"
proof (rule ccontr)
  assume no: "\<not> ?thesis"
  have stays: "task_at k t n (\<sigma> (i + l))" for l
  proof (induction l)
    case (Suc l)
    have "queue_moves k (\<sigma> (i + l)) (\<sigma> (Suc (i + l)))"
      using step_queue [OF _ run_ok [OF run]] run(1) by (simp add: sys_run_def)
    from task_at_step [OF this Suc] no show ?case by auto
  qed (simp add: at)
  from at obtain c m where c: "cl_conns (sy_conns (\<sigma> i)) k = Some c" "m < length (queued c)" "conn_runs k (\<sigma> i) + m = n"
    by (auto simp: task_at_def)
  have "count_list (codes (\<sigma> i)) (Suc k) = length (queued c)"
    using sys_okD(6) [OF run_ok [OF run], of i] c(1) by (auto simp: codes_ok_def split: option.splits)
  moreover from served [OF run moving on, of i] obtain j d where
    j: "i \<le> j" "executed (sy_loop (\<sigma> j)) = handed (\<sigma> i) @ d" by blast
  ultimately have "n < conn_runs k (\<sigma> j)" using c(2,3) by (simp add: conn_runs_def handed_def)
  with stays [of "j - i"] j(1) show False by (auto simp: task_at_def)
qed

text \<open>What a task does.\<close>

fun carried_out :: "write_result \<Rightarrow> poll_state \<Rightarrow> poll_state \<Rightarrow> conn_task \<Rightarrow> tcp_conn \<Rightarrow> tcp_conn \<Rightarrow> bool" where
  "carried_out wres p p' (SendTask buf) c c' \<longleftrightarrow> wire c' @ outdata c' = wire c @ outdata c @
     (if state c = Disconnected \<or> dropped wres c then [] else buf)"
| "carried_out wres p p' ShutdownTask c c' \<longleftrightarrow> wire c' @ outdata c' = wire c @ outdata c
     \<and> (state c \<noteq> Disconnected \<longrightarrow> (wr_shutdown c' \<longleftrightarrow> wr_shutdown c \<or> outdata c = []))"
| "carried_out wres p p' DestroyedTask c c' \<longleftrightarrow> state c' = Disconnected \<and> registered p (conn_chan c) \<and> \<not> registered p' (conn_chan c)"
| "carried_out wres p p' t c c' \<longleftrightarrow> wire c' @ outdata c' = wire c @ outdata c \<and> state c' = state c"

lemma destroyed_gone:
  assumes "StepIntoDestroyed True quiet c = Inr c'" and "state c = Disconnected"
  shows "state c' = Disconnected \<and> \<not> registered (poll c') (conn_chan c)"
proof -
  from assms obtain p where p: "RemoveChannel True (conn_chan c) (poll c) = Inr p" "c' = c\<lparr>poll := p\<rparr>"
    by (auto simp: StepIntoDestroyed_def quiet_def on_chan_def Channel_Remove_def res_iffs)
  from RemoveChannel_fields(1,2) [OF p(1)] show ?thesis using assms(2) by (simp add: registered_def p(2))
qed

lemma run_task_carried:
  assumes fine: "conn_ok c \<or> conn_down c" and r: "run_conn_task True (\<lambda>t. Inr) wres t c = Inr c'"
    and fits: "\<And>buf. t = SendTask buf \<Longrightarrow> conn_ok c \<Longrightarrow> write_contract wres (length buf) c \<and> length buf \<le> room (outputBuffer c)"
    and rem: "t = DestroyedTask \<Longrightarrow> registered (poll c) (conn_chan c) \<and> state c = Disconnected"
    and shut: "t = ShutdownTask \<Longrightarrow> state c \<noteq> Connected"
  shows "carried_out wres (poll c) (poll c') t c c'"
proof (cases t)
  case (SendTask buf)
  show ?thesis
  proof (cases "conn_ok c")
    case True
    then have "state c \<noteq> Disconnected" by (auto simp: conn_ok_def conn_live_def)
    with SendInLoop_ok [OF True, of wres buf] fits SendTask r True show ?thesis by (auto simp: run_conn_task_def)
  next
    case False
    with fine have "state c = Disconnected" by (simp add: conn_down_def)
    with r SendTask show ?thesis by (simp add: run_conn_task_def SendInLoop_def)
  qed
next
  case ShutdownTask
  show ?thesis
  proof (cases "conn_ok c")
    case True
    then have "state c = Disconnecting" using shut ShutdownTask by (auto simp: conn_ok_def conn_live_def)
    with ShutdownInLoop_ok [OF True] r ShutdownTask show ?thesis by (auto simp: run_conn_task_def)
  next
    case False
    with fine have "state c = Disconnected" by (simp add: conn_down_def)
    with r ShutdownTask show ?thesis by (auto simp: run_conn_task_def ShutdownInLoop_def)
  qed
next
  case DestroyedTask
  have "(\<lambda>call. Inr) = quiet" by (simp add: fun_eq_iff quiet_def)
  with r DestroyedTask have "StepIntoDestroyed True quiet c = Inr c'" by (simp add: run_conn_task_def)
  from destroyed_gone [OF this] rem DestroyedTask show ?thesis by simp
qed (use r in \<open>auto simp: run_conn_task_def\<close>)

lemma runs_carried:
  assumes ok: "sys_ok now0 s" and r: "runs_task k t s s'"
  shows "\<exists>c wres c'. cl_conns (sy_conns s) k = Some c \<and> queued c \<noteq> [] \<and> hd (queued c) = t \<and> run_conn_code k wres s = Inr s'
    \<and> cl_conns (sy_conns s') k = Some c' \<and> carried_out wres (cl_poll (sy_conns s)) (cl_poll (sy_conns s')) t c c'"
proof -
  let ?p = "cl_poll (sy_conns s)"
  from r obtain wres where w: "task_fits wres k s" "run_conn_code k wres s = Inr s'" by (auto simp: runs_task_def)
  from run_conn_code_task [OF ok w(2,1)] r obtain c ts c' where
    c: "cl_conns (sy_conns s) k = Some c" "queued c = t # ts"
      "run_conn_task True (\<lambda>t. Inr) wres t (conn_in ?p (c\<lparr>queued := ts\<rparr>)) = Inr c'" "sy_conns s' = put_conn k c' (sy_conns s)"
    by (auto simp: runs_task_def)
  let ?c = "conn_in ?p (c\<lparr>queued := ts\<rparr>)"
  have ck: "conn_chan c = k" using sys_okD(3) [OF ok] c(1) by (simp add: conns_ok_def conn_fine_def)
  have "carried_out wres ?p (poll c') t ?c c'"
    using run_task_carried [OF _ c(3)] head_fits [OF w(1) c(1), of _ ts] sys_conn_fine [OF ok c(1)] removal_down [OF ok c(1)]
      sys_okD(8) [OF ok c(1)] ck c(2) by (simp add: unqueued conn_down_def)
  then have "carried_out wres ?p (poll c') t c c'" by (cases t) (auto simp: dropped_def)
  with c w(2) show ?thesis by (intro exI [of _ c] exI [of _ wres] exI [of _ c']) simp
qed

section \<open>Properties\<close>

text \<open>C6. What other threads ask of a connection is done: in an infinite run with careful users (see C2) in which the loop goes on and nobody asks it to quit,
  the task at place \<open>n\<close> of the queue of a connection is run after exactly the \<open>n\<close> before it. Bytes that were sent join the output behind
  what was sent before, unless the connection is over or the peer gone; a shutdown shuts the write side if no output is
  left; and the removal the server hands in takes the channel out of the poller.\<close>

theorem system_tasks_run:
  assumes "0 \<le> tfd" and "0 \<le> efd" and "tfd \<noteq> efd" and "\<forall>c. \<not> eventHandling (st c)" and "0 \<le> now"
    and "new_loop this None tfd efd st = Inr (r, x)" and "sys_reach Careful (new_system now r) (\<sigma> 0)"
    and "sys_run Careful \<sigma>" and "keeps_moving \<sigma>" and "\<forall>i. \<not> quit_flag (sy_loop (\<sigma> i))"
    and "cl_conns (sy_conns (\<sigma> i)) k = Some c" and "n < length (queued c)"
  shows "\<exists>j \<ge> i. conn_runs k (\<sigma> j) = conn_runs k (\<sigma> i) + n \<and> (\<exists>c1 wres c2. cl_conns (sy_conns (\<sigma> j)) k = Some c1
    \<and> queued c1 \<noteq> [] \<and> hd (queued c1) = queued c ! n \<and> run_conn_code k wres (\<sigma> j) = Inr (\<sigma> (Suc j))
    \<and> cl_conns (sy_conns (\<sigma> (Suc j))) k = Some c2
    \<and> carried_out wres (cl_poll (sy_conns (\<sigma> j))) (cl_poll (sy_conns (\<sigma> (Suc j)))) (queued c ! n) c1 c2)"
proof -
  note ok = reach_ok [OF assms(1-7)]
  have "task_at k (queued c ! n) (conn_runs k (\<sigma> i) + n) (\<sigma> i)" using assms(11,12) by (auto simp: task_at_def)
  from task_run [OF assms(8) ok assms(5,9,10) this] obtain j where
    j: "i \<le> j" "runs_task k (queued c ! n) (\<sigma> j) (\<sigma> (Suc j))" "conn_runs k (\<sigma> j) = conn_runs k (\<sigma> i) + n" by blast
  from runs_carried [OF run_ok [OF assms(8) ok assms(5)] j(2)] j(1,3) show ?thesis by blast
qed

text \<open>A loop in which nothing but the tasks already queued has to be done, and none of them sends.\<close>

definition undisturbed :: "system \<Rightarrow> bool" where
  "undisturbed s \<longleftrightarrow> set (sy_active s) \<subseteq> owned
     \<and> (\<forall>k c buf. cl_conns (sy_conns s) k = Some c \<longrightarrow> SendTask buf \<notin> set (queued c))
     \<and> (\<forall>t \<in># tl_asked (sy_timed s). \<not> Repeat t)
     \<and> (\<forall>task \<in> set (tq_pending (tl_q (sy_timed s))). \<exists>t. task = TaskAdd t) \<and> \<not> quit_flag (sy_loop s)"

lemma no_sends_run:
  assumes ok: "sys_ok now0 s" and none: "\<And>k c buf. cl_conns (sy_conns s) k = Some c \<Longrightarrow> SendTask buf \<notin> set (queued c)"
    and r: "run_conn_code m wres s = Inr s'" and fits: "task_fits wres m s" and c: "cl_conns (sy_conns s') k = Some c'"
  shows "SendTask buf \<notin> set (queued c')"
proof -
  from run_conn_code_task [OF ok r fits] obtain c0 t ts c1 where
    c0: "cl_conns (sy_conns s) m = Some c0" "queued c0 = t # ts"
      "run_conn_task True (\<lambda>t. Inr) wres t (conn_in (cl_poll (sy_conns s)) (c0\<lparr>queued := ts\<rparr>)) = Inr c1"
      "sy_conns s' = put_conn m c1 (sy_conns s)" by blast
  have t: "t \<noteq> SendTask b" for b using none [OF c0(1), of b] c0(2) by auto
  then have "queued c1 = ts"
    using c0(3) by (cases t) (auto simp: run_conn_task_def ShutdownInLoop_def StepIntoDestroyed_def on_chan_def res_iffs split: if_splits)
  then have "SendTask buf \<notin> set (queued c1)" using none [OF c0(1), of buf] c0(2) by simp
  then show ?thesis using none c c0(4) by (auto split: if_splits)
qed

text \<open>What a step of the loop's own does to the connections.\<close>

lemma own_step_conns:
  assumes step: "sys_step Careful s (Some (Inr s'))" and moved: "control s' \<noteq> control s" and ok: "sys_ok now0 s"
  shows "cl_conns (sy_conns s') = cl_conns (sy_conns s) \<or> (\<exists>m \<in> set (sy_active s). m \<notin> owned)
    \<or> (\<exists>m wres. run_conn_code m wres s = Inr s' \<and> task_fits wres m s)"
proof -
  have still: False if "on_connection inl m f s = Inr s'" for inl m f using on_connection_moves(1) [OF that] moved by simp
  from step show ?thesis
  proof cases
    case (poll n rs mempool)
    then show ?thesis by (intro disjI1) (auto simp: sys_poll_def Inr_mapR_iff)
    next
    case (watcher ks clk now t)
    from watcher(1) have "handle_watcher t clk now (s\<lparr>sy_active := ks\<rparr>) = Some (Inr s')" by simp
    then show ?thesis by (intro disjI1) (auto simp: handle_watcher_eq [OF ok watcher(3)] on_timers_def res_iffs)
    next
    case (bridge ks t)
    then show ?thesis by (intro disjI1) (simp_all add: handle_bridge_eq [OF ok bridge(3)])
    next
    case (connection m ks user kr kw t)
    then show ?thesis by auto
    next
    case (timer_task cs)
    then show ?thesis by (intro disjI1)
      (auto simp: run_timer_code_def on_timers_def take_code_def Let_def Inr_mapR_iff split: list.splits)
    next
    case (conn_task m cs wres)
    then show ?thesis by auto
    next
    case (remove inl m c)
    then show ?thesis using still by fastforce
    next
    case (drop m d)
    from drop(1) have "sys_drop m s = Inr s'" by simp
    then have "control s' = control s" by (auto simp: sys_drop_def res_iffs drop(2))
    with moved show ?thesis by simp
  next
    case (quit inl)
    then show ?thesis by (intro disjI1) (auto simp: Inr_mapR_iff)
    next
    case (add_timer inl "when" itv cb)
    then show ?thesis by (intro disjI1)
      (auto simp: sys_AddTimer_def on_timers_def submitted_by_eq enqueue_moves Let_def res_iffs Inr_mapR_iff)
    next
    case (cancel_timer inl tid)
    then show ?thesis by (intro disjI1)
      (auto simp: sys_CancelTimer_def on_timers_def submitted_by_eq enqueue_moves Let_def res_iffs Inr_mapR_iff)
    next
    case (send inl m wres buf)
    then show ?thesis using still by fastforce
    next
    case (shutdown inl m)
    then show ?thesis using still by fastforce
    next
    case (connect m fd wc hwm hw)
    then have "control s' = control s" by (auto simp: sys_connect_def Inr_mapR_iff)
    with moved show ?thesis by simp
  qed simp_all
qed

lemma undisturbed_goes:
  assumes ok: "sys_ok now0 s" and calm: "undisturbed s" and go: "goes_to s s'"
  shows "undisturbed s'"
proof -
  have none: "SendTask buf \<notin> set (queued c)" if "cl_conns (sy_conns s) k = Some c" for k c buf
    using calm that unfolding undisturbed_def by blast
  consider "cl_conns (sy_conns s') = cl_conns (sy_conns s)" | m wres where "run_conn_code m wres s = Inr s'" "task_fits wres m s"
    using own_step_conns [OF _ _ ok, of s'] go calm by (auto simp: goes_to_def undisturbed_def)
  then have "SendTask buf \<notin> set (queued c)" if "cl_conns (sy_conns s') k = Some c" for k c buf
    using none no_sends_run [OF ok none _ _ that] that by cases auto
  then show ?thesis using calm go by (auto simp: undisturbed_def goes_to_def same_demands_def)
qed

lemma undisturbed_run:
  assumes "sys_ok now0 s" and "undisturbed s" and now0: "0 \<le> now0"
  shows "\<exists>\<sigma>. \<sigma> 0 = s \<and> sys_run Careful \<sigma> \<and> keeps_moving \<sigma> \<and> (\<forall>i. \<not> quit_flag (sy_loop (\<sigma> i)))"
proof (rule left_alone_run [where P = "\<lambda>s. sys_ok now0 s \<and> undisturbed s"])
  fix s assume s: "sys_ok now0 s \<and> undisturbed s"
  then have "has_room s \<and> next_cancel_harmless s" by (intro room_for_rest [OF _ now0]) (auto simp: undisturbed_def)
  with loop_goes_on [OF _ now0] s obtain s' where s': "goes_to s s'" by blast
  then have "undisturbed s'" using undisturbed_goes s by blast
  moreover have "sys_ok now0 s'" using sys_step_ok [OF _ _ now0] s' s by (fastforce simp: goes_to_def)
  ultimately show "\<exists>s'. (sys_ok now0 s' \<and> undisturbed s') \<and> goes_to s s'" using s' by blast
qed (use assms in \<open>auto simp: undisturbed_def\<close>)

text \<open>A free descriptor, since the loop owns two, and a connection on it.\<close>

lemma free_descriptor:
  assumes ok: "sys_ok now0 s" and none: "cl_conns (sy_conns s) = Map.empty"
  shows "\<exists>fd \<ge> 0. channels (cl_poll (sy_conns s)) fd = None"
proof -
  let ?p = "cl_poll (sy_conns s)"
  let ?fd = "\<bar>ch_fd (chan ?p watcher_chan)\<bar> + \<bar>ch_fd (chan ?p bridge_chan)\<bar> + 1"
  have "channels ?p ?fd \<noteq> Some k" for k
  proof
    assume k: "channels ?p ?fd = Some k"
    then have "k \<in> owned" using sys_okD(3) [OF ok] none by (fastforce simp: conns_ok_def)
    moreover have "ch_fd (chan ?p k) = ?fd" using sys_okD(3) [OF ok] k by (auto simp: conns_ok_def poller_ok_def at_index_def)
    ultimately show False by (auto simp: owned_def)
  qed
  then have "channels ?p ?fd = None" by (cases "channels ?p ?fd") auto
  then show ?thesis by (intro exI [of _ ?fd]) simp
qed

lemma demo_connected:
  assumes r: "new_loop 1 None 3 4 (\<lambda>c. new_Channel 0) = Inr (r, Some 1)"
  shows "\<exists>s c. sys_reach Careful (new_system 5 r) s \<and> sys_ok 5 s \<and> undisturbed s \<and> cl_conns (sy_conns s) = [2 \<mapsto> c]
    \<and> state c = Connected \<and> queued c = []"
proof -
  from demo_entered [OF r] obtain s where
    d: "sys_reach Careful (new_system 5 r) s" "sys_ok 5 s" "calm s" "tl_asked (sy_timed s) = {#}" "in_user s" "set (sy_active s) \<subseteq> owned"
    by blast
  have none: "cl_conns (sy_conns s) = Map.empty" using d(3) by (simp add: calm_def)
  from free_descriptor [OF d(2) none] obtain fd where fd: "0 \<le> fd" "channels (cl_poll (sy_conns s)) fd = None" by blast
  have step: "sys_step Careful s (Some (sys_connect fd 2 False 0 False s))"
    by (rule sys_step.connect [OF d(5) _ _ fd]) (simp_all add: none owned_def watcher_chan_def bridge_chan_def)
  from sys_step_ok [OF step d(2)] obtain s' where s': "sys_connect fd 2 False 0 False s = Inr s'" "sys_ok 5 s'" by auto
  from s'(1) obtain c where c: "s' = s\<lparr>sy_conns := put_conn 2 c (sy_conns s)\<rparr>" "state c = Connected" "queued c = []"
    by (auto simp: sys_connect_def StepIntoEstablished_def new_TcpConnection_def on_chan_def quiet_def Let_def res_iffs)
  have "undisturbed s'" using d(3,6) c by (auto simp: undisturbed_def calm_def)
  moreover have "cl_conns (sy_conns s') = [2 \<mapsto> c]" using none c(1) by simp
  moreover have "sys_reach Careful (new_system 5 r) s'" using sys_reach.there [OF d(1)] step s'(1) by simp
  ultimately show ?thesis using s'(2) c(2,3) by blast
qed

theorem system_tasks_run_witness:
  "\<exists>\<sigma> c. sys_run Careful \<sigma> \<and> cl_conns (sy_conns (\<sigma> 0)) 2 = Some c \<and> queued c = [ShutdownTask]
     \<and> (\<exists>j c1 wres c2. cl_conns (sy_conns (\<sigma> j)) 2 = Some c1 \<and> cl_conns (sy_conns (\<sigma> (Suc j))) 2 = Some c2
       \<and> run_conn_code 2 wres (\<sigma> j) = Inr (\<sigma> (Suc j)) \<and> wire c2 @ outdata c2 = wire c1 @ outdata c1)"
proof -
  from demo_loop obtain r where r: "new_loop 1 None 3 4 (\<lambda>c. new_Channel 0) = Inr (r, Some 1)" by blast
  from demo_connected [OF r] obtain s c where
    d: "sys_reach Careful (new_system 5 r) s" "sys_ok 5 s" "undisturbed s" "cl_conns (sy_conns s) = [2 \<mapsto> c]" "state c = Connected" "queued c = []"
    by blast
  let ?c = "(conn_in (cl_poll (sy_conns s)) c)\<lparr>state := Disconnecting, queued := [ShutdownTask]\<rparr>"
  let ?s = "enqueue_codes False 1 (Suc 2) (s\<lparr>sy_conns := put_conn 2 ?c (sy_conns s)\<rparr>)"
  have "sys_step Careful s (Some (on_connection False 2 (Shutdown False) s))" by (rule sys_step.shutdown) (simp_all add: d(4))
  moreover have "on_connection False 2 (Shutdown False) s = Inr ?s"
    by (simp add: on_connection_def d(4-6) Shutdown_def enqueue_def)
  ultimately have step: "sys_step Careful s (Some (Inr ?s))" by simp
  have ok: "sys_ok 5 ?s" using sys_step_ok [OF step d(2)] by simp
  have "undisturbed ?s" using d(3) by (auto simp: undisturbed_def enqueue_moves d(4))
  from undisturbed_run [OF ok this] obtain \<sigma> where
    \<sigma>: "\<sigma> 0 = ?s" "sys_run Careful \<sigma>" "keeps_moving \<sigma>" "\<forall>i. \<not> quit_flag (sy_loop (\<sigma> i))" by auto
  have reach: "sys_reach Careful (new_system 5 r) (\<sigma> 0)" unfolding \<sigma>(1) by (rule sys_reach.there [OF d(1) step])
  have c: "cl_conns (sy_conns (\<sigma> 0)) 2 = Some ?c" by (simp add: \<sigma>(1) enqueue_moves)
  from system_tasks_run [OF _ _ _ _ _ r reach \<sigma>(2-4) c, of 0]
  obtain j c1 wres c2 where "cl_conns (sy_conns (\<sigma> j)) 2 = Some c1" "run_conn_code 2 wres (\<sigma> j) = Inr (\<sigma> (Suc j))"
    "cl_conns (sy_conns (\<sigma> (Suc j))) 2 = Some c2" "wire c2 @ outdata c2 = wire c1 @ outdata c1"
    by (auto simp: new_Channel_def)
  with \<sigma>(2) c show ?thesis by (intro exI [of _ \<sigma>] exI [of _ ?c]) auto
qed

end
