(* ===== verification/SystemLives.thy ===== *)
theory SystemLives
  imports SystemTasks TcpServer
begin

text \<open>
  The whole loop of \<^verbatim>\<open>LoopSystem\<close> and the server of \<^verbatim>\<open>TcpServer\<close> meet in the life of a connection: the server is
  verified over the abstract life \<open>conn_life\<close>, of which \<open>life_of\<close> is the projection of a connection. Shown: a step of
  the loop takes one connection at most through its life, by the operations the server is verified against and in their order,
  and leaves the lives of the others alone; so a connection is made, established, shut down, closed, destroyed and freed in
  this order, whatever the other threads, the kernel and careful users do.
\<close>

section \<open>Lives\<close>

definition life_at :: "poll_state \<Rightarrow> nat \<Rightarrow> tcp_conn \<Rightarrow> conn_life" where
  "life_at p k c = \<lparr>lf_state = state c, lf_watch = registered p k \<and> polled p k, lf_added = registered p k\<rparr>"

definition life_in :: "system \<Rightarrow> nat \<Rightarrow> conn_life option" where
  "life_in s k = map_option (life_at (cl_poll (sy_conns s)) k) (cl_conns (sy_conns s) k)"

inductive life_step :: "conn_life option \<Rightarrow> conn_life option \<Rightarrow> bool" where
  made: "life_step None (Some new_life)"
| established: "life_establish f = Inr g \<Longrightarrow> life_step (Some f) (Some g)"
| shut: "life_shutdown f = Inr g \<Longrightarrow> life_step (Some f) (Some g)"
| closed: "life_close f = Inr g \<Longrightarrow> life_step (Some f) (Some g)"
| destroyed: "lf_state f = Disconnected \<Longrightarrow> life_destroy f = Inr g \<Longrightarrow> life_step (Some f) (Some g)"
| freed: "lf_state f = Disconnected \<Longrightarrow> \<not> lf_added f \<Longrightarrow> life_step (Some f) None"

abbreviation lives :: "conn_life option \<Rightarrow> conn_life option \<Rightarrow> bool" where
  "lives \<equiv> life_step\<^sup>*\<^sup>*"

text \<open>While its channel is in the poller, this is the life of the connection.\<close>

lemma life_at_of:
  assumes "registered p k" and "conn_chan c = k"
  shows "life_at p k c = life_of (conn_in p c)"
proof -
  from assms(1) obtain e where "interest p (ch_fd (chan p k)) = Some e" by (auto simp: registered_def interest_def Let_def)
  then show ?thesis using assms by (cases e) (auto simp: life_at_def life_of_def polled_def conn_in_def)
qed

lemma life_up: "conn_ok (conn_in p c) \<Longrightarrow> conn_chan c = k \<Longrightarrow> life_at p k c = \<lparr>lf_state = state c, lf_watch = True, lf_added = True\<rparr>"
  by (auto simp: life_at_def conn_ok_def polled_def)

lemma life_down:
  "ConnEvents.conn_down (conn_in p c) \<Longrightarrow> conn_chan c = k \<Longrightarrow>
   life_at p k c = \<lparr>lf_state = Disconnected, lf_watch = False, lf_added = registered p k\<rparr>"
  by (auto simp: life_at_def ConnEvents.conn_down_def polled_def)

lemma lives_close: "lf_state f = Connected \<or> lf_state f = Disconnecting \<Longrightarrow>
    lives (Some f) (Some (f\<lparr>lf_state := Disconnected, lf_watch := False\<rparr>))"
  by (rule r_into_rtranclp, rule life_step.closed) (auto simp: life_close_def)

lemma lives_destroy: "lives (Some \<lparr>lf_state = Disconnected, lf_watch = False, lf_added = True\<rparr>)
    (Some \<lparr>lf_state = Disconnected, lf_watch = False, lf_added = False\<rparr>)"
  by (rule r_into_rtranclp, rule life_step.destroyed) (simp_all add: life_destroy_def)

text \<open>An operation on a connection.\<close>

lemma op_lives:
  assumes fine: "conn_ok (conn_in p c) \<or> ConnEvents.conn_down (conn_in p c)" and out: "outcome (conn_in p c) c'"
    and stays: "ConnEvents.conn_down (conn_in p c) \<Longrightarrow> ConnEvents.conn_down c'" and ck: "conn_chan c = k"
    and reg: "registered p k \<or> poll c' = p"
  shows "lives (Some (life_at p k c)) (Some (life_at (poll c') k c'))"
proof -
  have ck': "conn_chan c' = k" and st: "state c \<noteq> Connected \<longrightarrow> state c' \<noteq> Connected"
    using out ck by (simp_all add: outcome_def conn_kept_def extends_def more_tasks_def)
  have c': "conn_in (poll c') c' = c'" by simp
  consider "conn_ok (conn_in p c)" "conn_ok c'" | "conn_ok (conn_in p c)" "ConnEvents.conn_down c'"
    | "ConnEvents.conn_down (conn_in p c)" "ConnEvents.conn_down c'"
    using fine out stays by (auto simp: outcome_def)
  then show ?thesis
  proof cases
    case 1
    then have s: "state c = Connected \<or> state c = Disconnecting" "state c' = Connected \<or> state c' = Disconnecting"
      by (simp_all add: conn_ok_def conn_live_def)
    have l: "life_at p k c = \<lparr>lf_state = state c, lf_watch = True, lf_added = True\<rparr>"
      "life_at (poll c') k c' = \<lparr>lf_state = state c', lf_watch = True, lf_added = True\<rparr>"
      using life_up [of p c k] life_up [of "poll c'" c' k] 1 ck ck' by simp_all
    show ?thesis
    proof (cases "state c' = state c")
      case False
      with s st have "life_shutdown (life_at p k c) = Inr (life_at (poll c') k c')" by (auto simp: l life_shutdown_def)
      then show ?thesis using life_step.shut by blast
    qed (simp add: l)
  next
    case 2
    then have "state c = Connected \<or> state c = Disconnecting" by (simp add: conn_ok_def conn_live_def)
    with lives_close [of "life_at p k c"] life_up [OF 2(1) ck]
    have "lives (Some (life_at p k c)) (Some \<lparr>lf_state = Disconnected, lf_watch = False, lf_added = True\<rparr>)" by simp
    moreover have "life_at (poll c') k c' = \<lparr>lf_state = Disconnected, lf_watch = False, lf_added = registered (poll c') k\<rparr>"
      using life_down [of "poll c'" c' k] 2(2) ck' by simp
    ultimately show ?thesis using lives_destroy by (cases "registered (poll c') k") (auto elim: rtranclp_trans)
  next
    case 3
    then have l: "life_at p k c = \<lparr>lf_state = Disconnected, lf_watch = False, lf_added = registered p k\<rparr>"
      "life_at (poll c') k c' = \<lparr>lf_state = Disconnected, lf_watch = False, lf_added = registered (poll c') k\<rparr>"
      using life_down [of p c k] life_down [of "poll c'" c' k] ck ck' by simp_all
    show ?thesis using reg lives_destroy by (cases "registered p k"; cases "registered (poll c') k") (auto simp: l)
  qed
qed

text \<open>What it does to the others.\<close>

lemma other_life:
  assumes kept: "others_kept k p p'" and d: "d \<noteq> k" and reg: "registered p k \<or> p' = p"
  shows "life_at p' d e = life_at p d e"
proof (cases "p' = p")
  case False
  with reg have "registered p k" by blast
  from kept_registered [OF kept d this] kept_channel(1) [OF kept d] show ?thesis
    by (cases "registered p d") (simp_all add: life_at_def polled_def)
qed simp

text \<open>One connection at most moves on.\<close>

definition one_lives :: "system \<Rightarrow> system \<Rightarrow> bool" where
  "one_lives s s' \<longleftrightarrow> (\<exists>k. lives (life_in s k) (life_in s' k) \<and> (\<forall>d. d \<noteq> k \<longrightarrow> life_in s' d = life_in s d))"

lemma one_lives_same: "(\<And>d. life_in s' d = life_in s d) \<Longrightarrow> one_lives s s'"
  by (auto simp: one_lives_def)

lemma one_lives_conns: "sy_conns s' = sy_conns s \<Longrightarrow> one_lives s s'"
  by (rule one_lives_same) (simp add: life_in_def)

text \<open>An operation that leaves the connection, and the poller, in order.\<close>

lemma put_lives:
  assumes fine: "conn_ok (conn_in (cl_poll (sy_conns s)) c) \<or> ConnEvents.conn_down (conn_in (cl_poll (sy_conns s)) c)"
    and c: "cl_conns (sy_conns s) k = Some c" "conn_chan c = k" and out: "outcome (conn_in (cl_poll (sy_conns s)) c) c'"
    and stays: "ConnEvents.conn_down (conn_in (cl_poll (sy_conns s)) c) \<Longrightarrow> ConnEvents.conn_down c'"
    and reg: "registered (cl_poll (sy_conns s)) k \<or> poll c' = cl_poll (sy_conns s)" and s': "sy_conns s' = put_conn k c' (sy_conns s)"
  shows "one_lives s s'"
proof -
  let ?p = "cl_poll (sy_conns s)"
  have kept: "others_kept k ?p (poll c')" using out c(2) by (simp add: outcome_def conn_kept_def)
  have "lives (life_in s k) (life_in s' k)"
    using op_lives [OF fine out stays c(2) reg] c(1) by (simp add: life_in_def s')
  moreover have "life_in s' d = life_in s d" if "d \<noteq> k" for d
    using other_life [OF kept that reg] that by (cases "cl_conns (sy_conns s) d") (simp_all add: life_in_def s')
  ultimately show ?thesis by (auto simp: one_lives_def)
qed

lemma on_connection_lives:
  assumes r: "on_connection inl k f s = Inr s'"
    and c: "cl_conns (sy_conns s) k = Some c" "conn_chan c = k"
      "conn_ok (conn_in (cl_poll (sy_conns s)) c) \<or> ConnEvents.conn_down (conn_in (cl_poll (sy_conns s)) c)"
    and f: "\<exists>c'. f (conn_in (cl_poll (sy_conns s)) c) = Inr c' \<and> conn_moves (conn_in (cl_poll (sy_conns s)) c) c'"
  shows "one_lives s s'"
proof -
  from r c(1) obtain c' where c': "f (conn_in (cl_poll (sy_conns s)) c) = Inr c'" "sy_conns s' = put_conn k c' (sy_conns s)"
    by (auto simp: on_connection_def enqueue_codes_def res_iffs)
  from f c'(1) have "conn_moves (conn_in (cl_poll (sy_conns s)) c) c'" by auto
  then show ?thesis using put_lives [OF c(3,1,2) _ _ _ c'(2)] c(2) by (auto simp: conn_moves_def)
qed

lemma sys_conn_chan: "sys_ok now0 s \<Longrightarrow> cl_conns (sy_conns s) k = Some c \<Longrightarrow> conn_chan c = k"
  using sys_okD(3) by (auto simp: conns_ok_def conn_fine_def)

lemma user_op_lives:
  assumes ok: "sys_ok now0 s" and r: "on_connection inl k f s = Inr s'"
    and f: "\<And>c. cl_conns (sy_conns s) k = Some c \<Longrightarrow> \<exists>c'. f (conn_in (cl_poll (sy_conns s)) c) = Inr c'
      \<and> conn_moves (conn_in (cl_poll (sy_conns s)) c) c'"
  shows "one_lives s s'"
proof -
  from r obtain c where c: "cl_conns (sy_conns s) k = Some c" by (auto simp: on_connection_def split: option.splits)
  from on_connection_lives [OF r c sys_conn_chan [OF ok c] sys_conn_fine [OF ok c] f [OF c]] show ?thesis .
qed

lemma conn_task_lives:
  assumes ok: "sys_ok now0 s" and r: "run_conn_code k wres s = Inr s'" and fits: "task_fits wres k s"
  shows "one_lives s s'"
proof -
  let ?p = "cl_poll (sy_conns s)"
  from run_conn_code_task [OF ok r fits] obtain c t ts c' where
    c: "cl_conns (sy_conns s) k = Some c" "conn_moves (conn_in ?p (c\<lparr>queued := ts\<rparr>)) c'"
      "sy_conns s' = put_conn k c' (sy_conns s)" by blast
  let ?s2 = "s\<lparr>sy_conns := (sy_conns s)\<lparr>cl_conns := (cl_conns (sy_conns s))(k \<mapsto> c\<lparr>queued := ts\<rparr>)\<rparr>\<rparr>"
  have fine: "conn_ok (conn_in ?p (c\<lparr>queued := ts\<rparr>)) \<or> ConnEvents.conn_down (conn_in ?p (c\<lparr>queued := ts\<rparr>))"
    using sys_conn_fine [OF ok c(1)] by (simp add: unqueued)
  have "one_lives ?s2 s'"
    using put_lives [of ?s2 "c\<lparr>queued := ts\<rparr>" k c' s'] fine sys_conn_chan [OF ok c(1)] c(2,3)
    by (auto simp: conn_moves_def put_conn_def)
  moreover have "life_in ?s2 d = life_in s d" for d using c(1) by (simp add: life_in_def life_at_def)
  ultimately show ?thesis by (simp add: one_lives_def)
qed

lemma connection_lives:
  assumes ok: "sys_ok now0 s" and act: "sy_active s = k # ks" and k: "k \<notin> owned"
    and user: "good_user user" and kernel: "good_kernel kr kw"
    and r: "on_connection True k (conn_HandleEvents (alive_in (sy_conns s)) (conn_cb user kr kw) t) (s\<lparr>sy_active := ks\<rparr>) = Inr s'"
  shows "one_lives s s'"
proof -
  note o = sys_okD [OF ok]
  let ?p = "cl_poll (sy_conns s)"
  from o(7) act k obtain c where c: "cl_conns (sy_conns s) k = Some c" "conn_ok (conn_in ?p c)" "linux_events (revents (chan ?p k))"
    by (auto simp: active_ok_def active_chan_ok_def)
  from handle_conn_ok [where kr = "\<lambda>k. kr" and kw = "\<lambda>k. kw" and t = t, OF o(3) c user kernel] obtain c' where
    c': "conn_HandleEvents (alive_in (sy_conns s)) (conn_cb user kr kw) t (conn_in ?p c) = Inr c'" "outcome (conn_in ?p c) c'" by blast
  have s': "sy_conns s' = put_conn k c' (sy_conns s)"
    using r c(1) c'(1) by (auto simp: on_connection_def enqueue_codes_def res_iffs)
  note ck = sys_conn_chan [OF ok c(1)]
  have "registered ?p k" using c(2) ck by (simp add: conn_ok_def)
  with put_lives [OF disjI1 [OF c(2)] c(1) ck c'(2) _ _ s'] ok_not_down [OF c(2)] show ?thesis by blast
qed

text \<open>A connection is made, and freed.\<close>

lemma connect_lives:
  assumes ok: "sys_ok now0 s" and k: "cl_conns (sy_conns s) k = None" "k \<notin> owned"
    and fd: "0 \<le> fd" "channels (cl_poll (sy_conns s)) fd = None" and r: "sys_connect fd k wc hwm hw s = Inr s'"
  shows "one_lives s s'"
proof -
  let ?p = "cl_poll (sy_conns s)" and ?alive = "(alive_in (sy_conns s))(k := True)"
  have "conns_ok ?alive owned (sy_conns s)" using sys_okD(3) [OF ok] by (auto simp: conns_ok_def conn_fine_def)
  from connect_ok [where wc = wc and hwm = hwm and hw = hw, OF this fd k] r obtain c where
    s': "s' = s\<lparr>sy_conns := put_conn k c (sy_conns s)\<rparr>" and c: "conns_ok ?alive owned (put_conn k c (sy_conns s))"
      "state c = Connected" "conn_ok c"
    and others: "\<And>d. d \<noteq> k \<Longrightarrow> chan (poll c) d = chan ?p d" "\<And>d. d \<noteq> k \<Longrightarrow> registered (poll c) d = registered ?p d"
      "\<And>d. d \<noteq> k \<Longrightarrow> registered ?p d \<Longrightarrow> interest (poll c) (ch_fd (chan ?p d)) = interest ?p (ch_fd (chan ?p d))"
    by (auto simp: sys_connect_def)
  have ck: "conn_chan c = k" using c(1) by (auto simp: conns_ok_def conn_fine_def)
  have "life_at (poll c) k c = \<lparr>lf_state = Connected, lf_watch = True, lf_added = True\<rparr>"
    using life_up [of "poll c" c k] c(2,3) ck by simp
  moreover have "life_establish new_life = Inr \<lparr>lf_state = Connected, lf_watch = True, lf_added = True\<rparr>"
    by (simp add: life_establish_def new_life_def)
  ultimately have "lives (life_in s k) (life_in s' k)"
    using k(1) life_step.made life_step.established [of new_life]
    by (auto simp: life_in_def s' intro: converse_rtranclp_into_rtranclp)
  moreover have "life_at (poll c) d e = life_at ?p d e" if "d \<noteq> k" for d e
    using others [OF that] by (cases "registered ?p d") (simp_all add: life_at_def polled_def)
  then have "life_in s' d = life_in s d" if "d \<noteq> k" for d
    using that by (cases "cl_conns (sy_conns s) d") (simp_all add: life_in_def s')
  ultimately show ?thesis by (auto simp: one_lives_def)
qed

lemma drop_lives:
  assumes ok: "sys_ok now0 s" and c: "cl_conns (sy_conns s) k = Some c" "\<not> registered (cl_poll (sy_conns s)) k"
    and r: "sys_drop k s = Inr s'"
  shows "one_lives s s'"
proof -
  have s': "s' = s\<lparr>sy_conns := (sy_conns s)\<lparr>cl_conns := (cl_conns (sy_conns s))(k := None)\<rparr>\<rparr>" "state c = Disconnected"
    using r c(1) by (auto simp: sys_drop_def Destruct_TcpConnection_def res_iffs)
  then have "lives (life_in s k) (life_in s' k)"
    using c by (auto simp: life_in_def life_at_def intro!: life_step.freed)
  then show ?thesis using s'(1) by (auto simp: one_lives_def life_in_def)
qed

lemma poll_lives:
  assumes ok: "sys_ok now0 s" and k: "kernel_polls n rs s" and r: "sys_poll mempool n rs s = Inr s'"
  shows "one_lives s s'"
proof -
  let ?p = "cl_poll (sy_conns s)"
  from r obtain p active where p: "Poll mempool n rs ?p = Inr (p, active)" "sy_conns s' = (sy_conns s)\<lparr>cl_poll := p\<rparr>"
    by (auto simp: sys_poll_def res_iffs)
  have pk: "poller_ok ?p" "poll_contract (pollfds ?p) n rs"
    using sys_okD(3) [OF ok] k by (simp_all add: conns_ok_def kernel_polls_def Let_def)
  from Poll_ready [OF pk, of mempool] p(1) have i: "interest p = interest ?p" by auto
  have "ch_fd (chan p d) = ch_fd (chan ?p d)" for d by (subst Poll_chan [OF p(1)]) simp
  then have "life_at p d = life_at ?p d" for d
    by (simp add: fun_eq_iff life_at_def registered_def polled_def Poll_channels [OF p(1)] i)
  then show ?thesis by (intro one_lives_same) (simp add: life_in_def p(2))
qed

lemma step_lives:
  assumes step: "sys_step Careful s (Some (Inr s'))" and ok: "sys_ok now0 s"
  shows "one_lives s s'"
  using step
proof cases
  case (poll n rs mempool)
  then show ?thesis using poll_lives [OF ok] by auto
next
  case (watcher ks clk now t)
  from watcher(1) have "handle_watcher t clk now (s\<lparr>sy_active := ks\<rparr>) = Some (Inr s')" by simp
  then show ?thesis by (intro one_lives_conns) (auto simp: handle_watcher_eq [OF ok watcher(3)] on_timers_def res_iffs)
next
  case (bridge ks t)
  then show ?thesis by (intro one_lives_conns) (simp add: handle_bridge_eq [OF ok bridge(3)])
next
  case (connection k ks user kr kw t)
  then show ?thesis using connection_lives [OF ok] by auto
next
  case (timer_task cs)
  then show ?thesis by (intro one_lives_conns)
    (auto simp: run_timer_code_def on_timers_def take_code_def Let_def Inr_mapR_iff split: list.splits)
next
  case (conn_task k cs wres)
  then show ?thesis using conn_task_lives [OF ok] by auto
next
  case (remove inl k c)
  let ?p = "cl_poll (sy_conns s)"
  from remove have r: "on_connection inl k (remove_conn inl) s = Inr s'" by simp
  note ck = sys_conn_chan [OF ok remove(3)]
  have "\<not> conn_ok (conn_in ?p c)" using remove(4) by (auto simp: conn_ok_def conn_live_def)
  then have down: "ConnEvents.conn_down (conn_in ?p c)" using sys_conn_fine [OF ok remove(3)] by blast
  show ?thesis
  proof (cases inl)
    case True
    with destroy_moves [OF down] remove(5,6) ck
    have "\<exists>c'. remove_conn inl (conn_in ?p c) = Inr c' \<and> conn_moves (conn_in ?p c) c'" by (simp add: remove_conn_def)
    with on_connection_lives [OF r remove(3) ck disjI2 [OF down]] show ?thesis .
  next
    case False
    with r remove(3) have "sy_conns s' = put_conn k (enqueue DestroyedTask (conn_in ?p c)) (sy_conns s)"
      by (auto simp: on_connection_def remove_conn_def enqueue_codes_def)
    then show ?thesis using remove(3) by (intro one_lives_same) (simp add: life_in_def life_at_def enqueue_def)
  qed
next
  case (drop k c)
  then show ?thesis using drop_lives [OF ok] by auto
next
  case (quit inl)
  then show ?thesis by (intro one_lives_conns) (auto simp: Inr_mapR_iff)
next
  case (add_timer inl "when" itv cb)
  then show ?thesis by (intro one_lives_conns) (auto simp: sys_AddTimer_def on_timers_def submitted_by_def enqueue_codes_def Let_def res_iffs Inr_mapR_iff)
next
  case (cancel_timer inl tid)
  then show ?thesis by (intro one_lives_conns) (auto simp: sys_CancelTimer_def on_timers_def submitted_by_def enqueue_codes_def Let_def res_iffs Inr_mapR_iff)
next
  case (send inl k wres buf)
  then have r: "on_connection inl k (Send inl wres buf) s = Inr s'" by simp
  show ?thesis
    by (rule user_op_lives [OF ok r], rule Send_moves [OF sys_conn_fine [OF ok]]) (use send(4) in \<open>simp_all add: send_fits_def\<close>)
next
  case (shutdown inl k)
  then have r: "on_connection inl k (Shutdown inl) s = Inr s'" by simp
  show ?thesis by (rule user_op_lives [OF ok r], rule Shutdown_moves [OF sys_conn_fine [OF ok]])
next
  case (connect k fd wc hwm hw)
  then show ?thesis using connect_lives [OF ok] by auto
qed (simp_all add: one_lives_conns)

text \<open>The order of a life: it is not lived backwards.\<close>

definition life_rank :: "conn_life \<Rightarrow> nat" where
  "life_rank f = (case lf_state f of Connecting \<Rightarrow> 0 | Connected \<Rightarrow> 1 | Disconnecting \<Rightarrow> 2
     | Disconnected \<Rightarrow> if lf_added f then 3 else 4)"

lemma life_order: "life_step (Some f) (Some g) \<Longrightarrow> life_rank f \<le> life_rank g"
  by (cases rule: life_step.cases) (auto simp: life_ops life_rank_def res_iffs Let_def split: if_splits conn_state.splits)

section \<open>The server\<close>

text \<open>The connections of the server go through the same lives.\<close>

definition life_on :: "server \<Rightarrow> nat \<Rightarrow> conn_life option" where
  "life_on s c = (if c < length (objs s) then Some (sc_life (objs s ! c)) else None)"

definition srv_lives :: "server \<Rightarrow> server \<Rightarrow> bool" where
  "srv_lives s s' \<longleftrightarrow> (\<forall>c. lives (life_on s c) (life_on s' c))"

lemma srv_lives_objs: "objs s' = objs s \<Longrightarrow> srv_lives s s'"
  by (simp add: srv_lives_def life_on_def)

lemma srv_lives_trans: "srv_lives a b \<Longrightarrow> srv_lives b c \<Longrightarrow> srv_lives a c"
  unfolding srv_lives_def by (meson rtranclp_trans)

lemma on_life_lives:
  assumes "on_life f c s = Inr s'" and "\<And>g. f (sc_life (objs s ! c)) = Inr g \<Longrightarrow> life_step (Some (sc_life (objs s ! c))) (Some g)"
  shows "srv_lives s s' \<and> length (objs s') = length (objs s)"
proof -
  from assms(1) obtain g where g: "f (sc_life (objs s ! c)) = Inr g" "s' = s\<lparr>objs := (objs s)[c := (objs s ! c)\<lparr>sc_life := g\<rparr>]\<rparr>"
    by (auto simp: on_life_def res_iffs)
  have "lives (life_on s d) (life_on s' d)" for d
    using assms(2) [OF g(1)] by (cases "d = c") (auto simp: life_on_def g(2))
  then show ?thesis by (simp add: srv_lives_def g(2))
qed

lemma counted_lives: "srv_lives s (conn_up c s')\<longleftrightarrow> srv_lives s s'" "srv_lives s (TcpServer.conn_down c s') \<longleftrightarrow> srv_lives s s'"
proof -
  have "life_on (conn_up c s') d = life_on s' d" "life_on (TcpServer.conn_down c s') d = life_on s' d" for d
    by (cases "d = c"; simp add: life_on_def conn_up_def TcpServer.conn_down_def)+
  then show "srv_lives s (conn_up c s')\<longleftrightarrow> srv_lives s s'" "srv_lives s (TcpServer.conn_down c s') \<longleftrightarrow> srv_lives s s'"
    by (simp_all add: srv_lives_def)
qed

lemma Establish_lives: "Establish t c s = Inr s' \<Longrightarrow> srv_lives s s'"
  using on_life_lives [of life_establish c s] life_step.established
  by (auto simp: Establish_def loop_only_def res_iffs counted_lives split: if_splits)

lemma Destroy_lives: "Destroy t c s = Inr s' \<Longrightarrow> lf_state (sc_life (objs s ! c)) = Disconnected \<Longrightarrow> srv_lives s s'"
  using on_life_lives [of life_destroy c s] life_step.destroyed
  by (auto simp: Destroy_def loop_only_def res_iffs counted_lives split: if_splits)

lemma run_in_loop_lives:
  assumes "run_in_loop t l task now s = Inr s'" and "\<And>s'. now s = Inr s' \<Longrightarrow> srv_lives s s'"
  shows "srv_lives s s'"
  using assms by (auto simp: run_in_loop_def srv_lives_objs split: if_splits)

lemma Remove_lives:
  assumes r: "RemoveConnectionInLoop t c s = Inr s'" and d: "lf_state (sc_life (objs s ! c)) = Disconnected"
  shows "srv_lives s s'"
proof -
  let ?s1 = "s\<lparr>conns := (conns s)(sc_name (objs s ! c) := None)\<rparr>"
  from r have "run_in_loop t (sc_loop (objs s ! c)) (DestroyTask c) (Destroy t c) ?s1 = Inr s'"
    by (auto simp: RemoveConnectionInLoop_def loop_only_def Let_def res_iffs split: if_splits)
  from run_in_loop_lives [OF this] Destroy_lives d have "srv_lives ?s1 s'" by fastforce
  with srv_lives_trans srv_lives_objs [of ?s1 s] show ?thesis by fastforce
qed

lemma Close_lives:
  assumes "CloseConnection t c s = Inr s'" and c: "c < length (objs s)"
  shows "srv_lives s s'"
proof -
  from assms(1) obtain s1 where s1: "on_life life_close c s = Inr s1" "RemoveConnection t c s1 = Inr s'"
    by (auto simp: CloseConnection_def loop_only_def res_iffs split: if_splits)
  have "lf_state (sc_life (objs s1 ! c)) = Disconnected" using s1(1) c by (auto simp: on_life_def life_close_def res_iffs)
  moreover from s1(2) have "run_in_loop t 0 (RemoveTask c) (RemoveConnectionInLoop t c) s1 = Inr s'"
    by (simp add: RemoveConnection_def split: if_splits)
  ultimately have "srv_lives s1 s'" using run_in_loop_lives Remove_lives by blast
  moreover have "srv_lives s s1" using on_life_lives [OF s1(1)] life_step.closed by blast
  ultimately show ?thesis using srv_lives_trans by blast
qed

text \<open>A task about a connection waits in its state only.\<close>

lemma queued_task_state:
  assumes ok: "srv_ok s" and t: "task \<in> set (pending s l)" and c: "conn_of task = Some c" "task = RemoveTask c \<or> task = DestroyTask c"
  shows "lf_state (sc_life (objs s ! c)) = Disconnected"
proof -
  have in_q: "task \<in> set (tasks_in (pending s) (Some c) l)" using t c(1) by (simp add: tasks_in_def)
  have "c < length (objs s)"
  proof (rule ccontr)
    assume "\<not> c < length (objs s)"
    then have "tasks_in (pending s) (Some c) l = []" using ok by (simp add: srv_ok_def)
    with in_q show False by simp
  qed
  then have "task \<in> set (expected (objs s ! c) (in_map s c) c l)" using ok in_q by (simp add: srv_ok_def conn_inv_def)
  with c(2) show ?thesis by (auto simp: expected_def split: conn_state.splits if_splits)
qed

lemma new_conn_lives:
  assumes "HandleNewConnection t ipport s = Inr s'"
  shows "srv_lives s s'"
proof -
  from assms obtain l p nm where h: "run_in_loop t l (EstablishTask (length (objs s))) (Establish t (length (objs s)))
      (s\<lparr>nextConnID := (nextConnID s + 1) mod 2 ^ 64, pool := p, conns := (conns s)(nm := Some (length (objs s))),
        objs := objs s @ [\<lparr>sc_name = nm, sc_loop = l, sc_life = new_life, sc_ups = 0, sc_downs = 0\<rparr>]\<rparr>) = Inr s'" (is "run_in_loop _ _ _ _ ?s1 = _")
    by (auto simp: HandleNewConnection_def loop_only_def Let_def res_iffs split: if_splits)
  have "srv_lives ?s1 s'" by (rule run_in_loop_lives [OF h Establish_lives])
  moreover have "srv_lives s ?s1"
    using life_step.made by (auto simp: srv_lives_def life_on_def nth_append)
  ultimately show ?thesis using srv_lives_trans by blast
qed

lemma server_lives:
  assumes ok: "srv_ok s" and step: "srv_step e s = Inr s'"
  shows "srv_lives s s'"
proof (cases e)
  case (Accepted k second reopened ipport)
  have "srv_lives s s'" if "HandleNewConnection 0 ipport (s\<lparr>acc := a\<rparr>) = Inr s'" for a
    using srv_lives_trans [OF srv_lives_objs new_conn_lives [OF that]] by simp
  with step Accepted show ?thesis by (auto simp: res_iffs srv_lives_objs split: if_splits option.splits)
next
  case (RunTask l)
  show ?thesis
  proof (cases "pending s l")
    case Nil
    with step RunTask show ?thesis by (simp add: run_next_def srv_lives_objs)
  next
    case (Cons task ts)
    let ?s = "s\<lparr>pending := (pending s)(l := ts)\<rparr>"
    from step RunTask Cons have r: "run_srv_task l task ?s = Inr s'" by (simp add: run_next_def)
    have "task \<in> set (pending s l)" by (simp add: Cons)
    note st = queued_task_state [OF ok this]
    have "srv_lives ?s s'"
    proof (cases task)
      case (RemoveTask c)
      with r st Remove_lives [of l c ?s s'] show ?thesis by simp
    next
      case (DestroyTask c)
      with r st Destroy_lives [of l c ?s s'] show ?thesis by simp
    qed (use r Establish_lives in \<open>auto simp: run_Build_def run_Listen_def res_iffs srv_lives_objs\<close>)
    with srv_lives_trans srv_lives_objs [of ?s s] show ?thesis by fastforce
  qed
next
  case (PeerClosed c)
  with step Close_lives show ?thesis by (auto simp: srv_lives_objs split: if_splits)
next
  case (UserShutdown c)
  with step on_life_lives [of life_shutdown c s s'] life_step.shut show ?thesis by (auto simp: srv_lives_objs split: if_splits)
next
  case (Serve t)
  with step have "objs s' = objs s"
    by (auto simp: ListenAndServe_def run_in_loop_def run_Build_def run_Listen_def res_iffs split: if_splits)
  then show ?thesis by (rule srv_lives_objs)
qed

section \<open>Properties\<close>

text \<open>C31. The loop keeps to the life of connections that the server is verified against: in every run of a loop with careful users (see C2) from its constructor
  on, a step takes at most one connection on, by operations of the abstract life and in their order, from
  its making to its end, and leaves the lives of all others as they are; and while its channel is in the poller, the life of a
  connection is the projection of its detailed state.\<close>

theorem system_refines_lives:
  assumes "0 \<le> tfd" and "0 \<le> efd" and "tfd \<noteq> efd" and "\<forall>c. \<not> eventHandling (st c)" and "0 \<le> now"
    and "new_loop this None tfd efd st = Inr (r, x)" and "sys_reach Careful (new_system now r) s" and "sys_step Careful s (Some (Inr s'))"
  shows "(\<exists>k. lives (life_in s k) (life_in s' k) \<and> (\<forall>d. d \<noteq> k \<longrightarrow> life_in s' d = life_in s d))
    \<and> (\<forall>k c. cl_conns (sy_conns s) k = Some c \<longrightarrow> registered (cl_poll (sy_conns s)) k \<longrightarrow>
         life_in s k = Some (life_of (conn_in (cl_poll (sy_conns s)) c)))"
proof -
  have ok: "sys_ok now s" by (rule reach_ok [OF assms(1-7)])
  have "life_in s k = Some (life_of (conn_in (cl_poll (sy_conns s)) c))"
    if "cl_conns (sy_conns s) k = Some c" "registered (cl_poll (sy_conns s)) k" for k c
    using life_at_of [OF that(2) sys_conn_chan [OF ok that(1)]] that(1) by (simp add: life_in_def)
  with step_lives [OF assms(8) ok] show ?thesis unfolding one_lives_def by blast
qed

theorem system_refines_lives_witness:
  "\<exists>s s'. sys_step Careful s (Some (Inr s')) \<and> life_in s 2 = None \<and> (\<exists>f. life_in s' 2 = Some f) \<and> lives (life_in s 2) (life_in s' 2)"
proof -
  from demo_loop obtain r where r: "new_loop 1 None 3 4 (\<lambda>c. new_Channel 0) = Inr (r, Some 1)" by blast
  from demo_entered [OF r] obtain s where
    d: "sys_reach Careful (new_system 5 r) s" "sys_ok 5 s" "calm s" "in_user s" by blast
  have none: "cl_conns (sy_conns s) = Map.empty" using d(3) by (simp add: calm_def)
  from free_descriptor [OF d(2) none] obtain fd where fd: "0 \<le> fd" "channels (cl_poll (sy_conns s)) fd = None" by blast
  have step: "sys_step Careful s (Some (sys_connect fd 2 False 0 False s))"
    by (rule sys_step.connect [OF d(4) _ _ fd]) (simp_all add: none owned_def watcher_chan_def bridge_chan_def)
  from sys_step_ok [OF step d(2)] obtain s' where s': "sys_connect fd 2 False 0 False s = Inr s'" by auto
  then have l: "life_in s 2 = None" "\<exists>f. life_in s' 2 = Some f" by (auto simp: life_in_def none sys_connect_def res_iffs)
  from system_refines_lives [OF _ _ _ _ _ r d(1), of s'] step s'
  obtain k where "lives (life_in s k) (life_in s' k)" "\<forall>d. d \<noteq> k \<longrightarrow> life_in s' d = life_in s d" by (auto simp: new_Channel_def)
  moreover from this(2) l have "k = 2" by force
  ultimately show ?thesis using step s' l by (intro exI [of _ s] exI [of _ s']) simp
qed

end
