(* ===== verification/UnitTests.thy ===== *)
theory UnitTests
  imports Buffer LogStream EventLoopThreadPool
begin

text \<open>
  The unit tests of the repository that check values, run on the models: \<^verbatim>\<open>Buffer_unittest.cc\<close>, \<^verbatim>\<open>Endian_unittest.cc\<close>,
  \<^verbatim>\<open>Logging_unittest.cc\<close> (the stream, but for floating-point numbers) and \<^verbatim>\<open>EventLoopThreadPool_unittest.cc\<close> (which loops are
  dealt out). A test is written like its source, an expectation as \<open>ensure\<close>, and shown to pass; those of the
  buffer pass whatever bytes they are run with. What the operations do to the room of a buffer, before and behind its
  contents, is shown first, for every buffer. The other tests print or wait, and check nothing.
\<close>

section \<open>The room in a buffer\<close>

definition sizes_are :: "nat \<Rightarrow> nat \<Rightarrow> nat \<Rightarrow> buffer \<Rightarrow> bool" where
  "sizes_are r w p b \<longleftrightarrow> ReadableBytes b = r \<and> WriteableBytes b = w \<and> PrependableBytes b = p"

text \<open>A buffer by its contents and the room behind and before them.\<close>

definition buf_is :: "byte list \<Rightarrow> nat \<Rightarrow> nat \<Rightarrow> buffer \<Rightarrow> bool" where
  "buf_is q w p b \<longleftrightarrow> buf_ok b \<and> contents b = q \<and> WriteableBytes b = w \<and> PrependableBytes b = p"

lemma buf_is_sizes: "buf_is q w p b \<Longrightarrow> sizes_are (length q) w p b"
  using length_contents by (auto simp: buf_is_def sizes_are_def)

lemma buf_is_new: "kCheapPrepend + n \<le> max_size \<Longrightarrow> buf_is [] n kCheapPrepend (new_Buffer n)"
  by (simp add: buf_is_def buf_ok_new) (simp add: new_Buffer_def buf_sizes)

lemma EnsureWriteableBytes_is:
  assumes b: "buf_is q w p b" and room: "w < n \<Longrightarrow> w + p < n + kCheapPrepend \<Longrightarrow> p + length q + n \<le> max_size"
  shows "\<exists>b'. EnsureWriteableBytes n b = Inr b' \<and> (if n \<le> w then buf_is q w p b'
    else if w + p < n + kCheapPrepend then buf_is q n p b'
    else buf_is q (w + p - kCheapPrepend) kCheapPrepend b')"
proof -
  have ok: "buf_ok b" "contents b = q" "WriteableBytes b = w" "PrependableBytes b = p" using b by (simp_all add: buf_is_def)
  have len: "length q = ReadableBytes b" using length_contents [OF ok(1)] ok(2) by simp
  note inv = buf_okD [OF ok(1)]
  consider "n \<le> w" | "w < n" "w + p < n + kCheapPrepend" | "w < n" "\<not> w + p < n + kCheapPrepend" by linarith
  then show ?thesis
  proof cases
    case 1
    then show ?thesis using b ok(3) by (simp add: EnsureWriteableBytes_def)
  next
    case 2
    have "writerIndex b + n \<le> max_size" using room [OF 2] len inv(1) ok(4) by (simp add: buf_sizes)
    with BroadenSpace_grow [OF ok(1)] 2 ok(3,4) have
      g: "BroadenSpace n b = Inr (b\<lparr>buffer_vec := buffer_vec b @ replicate (writerIndex b + n - length (buffer_vec b)) 0\<rparr>)" by simp
    note r = BroadenSpace_Inr [OF ok(1) _ g]
    from r 2 ok inv g show ?thesis by (simp add: EnsureWriteableBytes_def buf_is_def buf_sizes)
  next
    case 3
    with BroadenSpace_move [OF ok(1)] ok(3,4) have
      g: "BroadenSpace n b = Inr \<lparr>buffer_vec = blit (buffer_vec b) kCheapPrepend (contents b),
        readerIndex = kCheapPrepend, writerIndex = kCheapPrepend + ReadableBytes b\<rparr>" by simp
    note r = BroadenSpace_Inr [OF ok(1) _ g]
    have "length (blit (buffer_vec b) kCheapPrepend (contents b)) = length (buffer_vec b)"
      using inv 3 ok(3,4) len ok(2) by (simp add: length_blit buf_sizes)
    with r 3 ok inv g len show ?thesis by (simp add: EnsureWriteableBytes_def buf_is_def buf_sizes)
  qed
qed

lemma Append_is:
  assumes b: "buf_is q w p b" and room: "w < length d \<Longrightarrow> w + p < length d + kCheapPrepend \<Longrightarrow> p + length q + length d \<le> max_size"
  shows "\<exists>b'. Append d b = Inr b' \<and> (if length d \<le> w then buf_is (q @ d) (w - length d) p b'
    else if w + p < length d + kCheapPrepend then buf_is (q @ d) 0 p b'
    else buf_is (q @ d) (w + p - kCheapPrepend - length d) kCheapPrepend b')"
proof -
  have ok: "buf_ok b" using b by (simp add: buf_is_def)
  from EnsureWriteableBytes_is [OF b room] obtain b1 where
    e: "EnsureWriteableBytes (length d) b = Inr b1" "if length d \<le> w then buf_is q w p b1
      else if w + p < length d + kCheapPrepend then buf_is q (length d) p b1
      else buf_is q (w + p - kCheapPrepend) kCheapPrepend b1" by blast
  let ?b' = "b1\<lparr>buffer_vec := blit (buffer_vec b1) (writerIndex b1) d, writerIndex := writerIndex b1 + length d\<rparr>"
  from EnsureWriteableBytes_Inr [OF ok e(1)] have ok1: "buf_ok b1" "length d \<le> WriteableBytes b1" by blast+
  note w = write_block [OF ok1]
  have "WriteableBytes ?b' = WriteableBytes b1 - length d" "PrependableBytes ?b' = PrependableBytes b1"
    using ok1 buf_okD(2) [OF ok1(1)] by (simp_all add: length_blit buf_sizes)
  with e(2) w have "if length d \<le> w then buf_is (q @ d) (w - length d) p ?b'
    else if w + p < length d + kCheapPrepend then buf_is (q @ d) 0 p ?b'
    else buf_is (q @ d) (w + p - kCheapPrepend - length d) kCheapPrepend ?b'"
    by (simp add: buf_is_def split: if_splits)
  with Append_eq [OF ok e(1)] show ?thesis by blast
qed

lemma Retrieve_is:
  assumes b: "buf_is q w p b" and n: "n \<le> length q"
  shows "\<exists>b'. Retrieve n b = Inr b' \<and> (if n < length q then buf_is (drop n q) w (p + n) b'
    else buf_is [] (w + length q + p - kCheapPrepend) kCheapPrepend b')"
proof -
  have ok: "buf_ok b" "contents b = q" "WriteableBytes b = w" "PrependableBytes b = p" using b by (simp_all add: buf_is_def)
  have len: "ReadableBytes b = length q" using length_contents [OF ok(1)] ok(2) by simp
  note inv = buf_okD [OF ok(1)]
  from n len obtain b' where r: "Retrieve n b = Inr b'" using Retrieve_total by metis
  note i = Retrieve_Inr [OF ok(1) r]
  have "b' = (if n < length q then b\<lparr>readerIndex := readerIndex b + n\<rparr> else RetrieveAll b)"
    using r len by (auto simp: Retrieve_def res_iffs)
  with i r ok inv len n show ?thesis by (auto simp: buf_is_def buf_sizes RetrieveAll_def)
qed

lemma RetrieveAsString_is:
  assumes b: "buf_is q w p b" and n: "n \<le> length q"
  shows "\<exists>b'. RetrieveAsString n b = Inr (take n q, b') \<and> (if n < length q then buf_is (drop n q) w (p + n) b'
    else buf_is [] (w + length q + p - kCheapPrepend) kCheapPrepend b')"
proof -
  have ok: "buf_ok b" "contents b = q" using b by (simp_all add: buf_is_def)
  have len: "ReadableBytes b = length q" using length_contents [OF ok(1)] ok(2) by simp
  from Retrieve_is [OF assms] take_Peek [of n b] n len ok(2) show ?thesis by (auto simp: RetrieveAsString_def)
qed


section \<open>Buffer\<close>

definition TestBufferAppendRetrieve :: "byte \<Rightarrow> unit res" where
  "TestBufferAppendRetrieve x = (let buf = new_Buffer kInitialSize; str = replicate 200 x in
     ensure (sizes_are 0 kInitialSize kCheapPrepend buf) (
     bindR (Append str buf) (\<lambda>buf.
     ensure (sizes_are (length str) (kInitialSize - length str) kCheapPrepend buf) (
     bindR (RetrieveAsString 50 buf) (\<lambda>(str2, buf).
     ensure (length str2 = 50) (
     ensure (sizes_are (length str - length str2) (kInitialSize - length str) (kCheapPrepend + length str2) buf) (
     ensure (str2 = replicate 50 x) (
     bindR (Append str buf) (\<lambda>buf.
     ensure (sizes_are (2 * length str - length str2) (kInitialSize - 2 * length str) (kCheapPrepend + length str2) buf) (
     bindR (RetrieveAllAsString buf) (\<lambda>(str3, buf).
     ensure (length str3 = 350) (
     ensure (sizes_are 0 kInitialSize kCheapPrepend buf) (
     ensure (str3 = replicate 350 x) (Inr ()))))))))))))))"

definition testBufferGrow :: "byte \<Rightarrow> byte \<Rightarrow> unit res" where
  "testBufferGrow y z = bindR (Append (replicate 400 y) (new_Buffer kInitialSize)) (\<lambda>buf.
     ensure (ReadableBytes buf = 400 \<and> WriteableBytes buf = kInitialSize - 400) (
     bindR (Retrieve 50 buf) (\<lambda>buf.
     ensure (sizes_are 350 (kInitialSize - 400) (kCheapPrepend + 50) buf) (
     bindR (Append (replicate 1000 z) buf) (\<lambda>buf.
     ensure (sizes_are 1350 0 (kCheapPrepend + 50) buf) (
     let buf = RetrieveAll buf in ensure (sizes_are 0 1400 kCheapPrepend buf) (Inr ())))))))"

definition testBufferInsideGrow :: "byte \<Rightarrow> byte \<Rightarrow> unit res" where
  "testBufferInsideGrow y z = bindR (Append (replicate 800 y) (new_Buffer kInitialSize)) (\<lambda>buf.
     ensure (ReadableBytes buf = 800 \<and> WriteableBytes buf = kInitialSize - 800) (
     bindR (Retrieve 500 buf) (\<lambda>buf.
     ensure (sizes_are 300 (kInitialSize - 800) (kCheapPrepend + 500) buf) (
     bindR (Append (replicate 300 z) buf) (\<lambda>buf.
     ensure (sizes_are 600 (kInitialSize - 600) kCheapPrepend buf) (Inr ()))))))"

text \<open>\<^verbatim>\<open>Shrink\<close> gives back capacity, which the model does not have.\<close>

definition testBufferShrink :: "byte \<Rightarrow> unit res" where
  "testBufferShrink y = bindR (Append (replicate 2000 y) (new_Buffer kInitialSize)) (\<lambda>buf.
     ensure (sizes_are 2000 0 kCheapPrepend buf) (
     bindR (Retrieve 1500 buf) (\<lambda>buf.
     ensure (sizes_are 500 0 (kCheapPrepend + 1500) buf) (
     bindR (RetrieveAllAsString buf) (\<lambda>(s, buf).
     ensure (s = replicate 500 y) (
     ensure (PrependableBytes buf = kCheapPrepend) (Inr ())))))))"

definition testBufferPrepend :: "byte \<Rightarrow> byte list \<Rightarrow> unit res" where
  "testBufferPrepend y x = bindR (Append (replicate 200 y) (new_Buffer kInitialSize)) (\<lambda>buf.
     ensure (sizes_are 200 (kInitialSize - 200) kCheapPrepend buf) (
     bindR (Prepend x buf) (\<lambda>buf.
     ensure (sizes_are 204 (kInitialSize - 200) (kCheapPrepend - 4) buf) (Inr ()))))"

definition testReadInts :: "unit res" where
  "testReadInts = (let s16 = byteswap 2; s32 = byteswap 4 in
     bindR (Append [0x48, 0x54, 0x54, 0x50] (new_Buffer kInitialSize)) (\<lambda>buf.
     ensure (ReadableBytes buf = 4) (
     bindR (PeekInt8 buf) (\<lambda>a. ensure (a = 0x48) (
     bindR (PeekInt16 s16 buf) (\<lambda>top16. ensure (top16 = 0x48 * 256 + 0x54) (
     bindR (PeekInt32 s32 buf) (\<lambda>c. ensure (c = ucast top16 * 65536 + 0x54 * 256 + 0x50) (
     bindR (ReadInt8 buf) (\<lambda>(a, buf). ensure (a = 0x48) (
     bindR (ReadInt16 s16 buf) (\<lambda>(b, buf). ensure (b = 0x54 * 256 + 0x54) (
     bindR (ReadInt8 buf) (\<lambda>(a, buf). ensure (a = 0x50) (
     ensure (ReadableBytes buf = 0 \<and> WriteableBytes buf = kInitialSize) (
     bindR (AppendInt8 (-1) buf) (\<lambda>buf.
     bindR (AppendInt16 s16 (-2) buf) (\<lambda>buf.
     bindR (AppendInt32 s32 (-3) buf) (\<lambda>buf.
     ensure (ReadableBytes buf = 7) (
     bindR (ReadInt8 buf) (\<lambda>(a, buf). ensure (a = -1) (
     bindR (ReadInt16 s16 buf) (\<lambda>(b, buf). ensure (b = -2) (
     bindR (ReadInt32 s32 buf) (\<lambda>(c, buf). ensure (c = -3) (Inr ()))))))))))))))))))))))))))"

lemma new_buf_is: "buf_is [] 1024 8 (new_Buffer kInitialSize)"
  using buf_is_new [of kInitialSize] by (simp add: kInitialSize_def kCheapPrepend_def max_size_def)

lemma RetrieveAll_is: "buf_is q w p b \<Longrightarrow> buf_is [] (w + length q + p - 8) 8 (RetrieveAll b)"
  using RetrieveAll_ok [of b] contents_RetrieveAll [of b] length_contents [of b] buf_okD [of b]
  by (auto simp: buf_is_def buf_sizes RetrieveAll_def kCheapPrepend_def)

lemma RetrieveAllAsString_is:
  assumes b: "buf_is q w p b"
  shows "\<exists>b'. RetrieveAllAsString b = Inr (q, b') \<and> buf_is [] (w + length q + p - 8) 8 b'"
  using RetrieveAsString_is [OF b order_refl] buf_is_sizes [OF b]
  by (simp add: RetrieveAllAsString_def sizes_are_def kCheapPrepend_def)

lemma Prepend_is:
  assumes b: "buf_is q w p b" and d: "length d \<le> p"
  shows "\<exists>b'. Prepend d b = Inr b' \<and> buf_is (d @ q) w (p - length d) b'"
proof -
  have ok: "buf_ok b" "contents b = q" "WriteableBytes b = w" "PrependableBytes b = p" using b by (simp_all add: buf_is_def)
  from Prepend_Inr [OF ok(1)] d ok obtain b' where
    p: "Prepend d b = Inr b'" "buf_ok b'" "contents b' = d @ q" "writerIndex b' = writerIndex b" by blast
  have "readerIndex b - length d + length d \<le> length (buffer_vec b)" using buf_okD [OF ok(1)] d ok(4) by (simp add: buf_sizes)
  from copy_in_eq_blit [OF this] length_blit [OF this] p(1)
  have "readerIndex b' = readerIndex b - length d" "length (buffer_vec b') = length (buffer_vec b)"
    by (auto simp: Prepend_def Let_def res_iffs)
  with p ok show ?thesis by (simp add: buf_is_def buf_sizes)
qed


lemmas buf_consts = kInitialSize_def kCheapPrepend_def

lemma TestBufferAppendRetrieve_passes: "TestBufferAppendRetrieve x = Inr ()"
proof -
  let ?s = "replicate 200 x"
  note b0 = new_buf_is
  from Append_is [OF b0, of ?s] obtain b1 where
    b1: "Append ?s (new_Buffer kInitialSize) = Inr b1" "buf_is ?s 824 8 b1" by auto
  from RetrieveAsString_is [OF b1(2), of 50] obtain b2 where
    b2: "RetrieveAsString 50 b1 = Inr (replicate 50 x, b2)" "buf_is (replicate 150 x) 824 58 b2" by auto
  from Append_is [OF b2(2), of ?s] obtain b3 where
    b3: "Append ?s b2 = Inr b3" "buf_is (replicate 350 x) 624 58 b3" by (auto simp: replicate_add [symmetric])
  from RetrieveAllAsString_is [OF b3(2)] obtain b4 where
    b4: "RetrieveAllAsString b3 = Inr (replicate 350 x, b4)" "buf_is [] 1024 8 b4" by auto
  from buf_is_sizes [OF b0] buf_is_sizes [OF b1(2)] buf_is_sizes [OF b2(2)] buf_is_sizes [OF b3(2)] buf_is_sizes [OF b4(2)]
  show ?thesis by (simp add: TestBufferAppendRetrieve_def Let_def b1(1) [unfolded buf_consts] b2(1) b3(1) b4(1) buf_consts)
qed

lemma testBufferGrow_passes: "testBufferGrow y z = Inr ()"
proof -
  from Append_is [OF new_buf_is, of "replicate 400 y"] obtain b1 where
    b1: "Append (replicate 400 y) (new_Buffer kInitialSize) = Inr b1" "buf_is (replicate 400 y) 624 8 b1" by auto
  from Retrieve_is [OF b1(2), of 50] obtain b2 where
    b2: "Retrieve 50 b1 = Inr b2" "buf_is (replicate 350 y) 624 58 b2" by auto
  from Append_is [OF b2(2), of "replicate 1000 z"] obtain b3 where
    b3: "Append (replicate 1000 z) b2 = Inr b3" "buf_is (replicate 350 y @ replicate 1000 z) 0 58 b3"
    by (auto simp: buf_consts max_size_def)
  from buf_is_sizes [OF b1(2)] buf_is_sizes [OF b2(2)] buf_is_sizes [OF b3(2)] buf_is_sizes [OF RetrieveAll_is [OF b3(2)]]
  show ?thesis by (simp add: testBufferGrow_def Let_def b1(1) [unfolded buf_consts] b2(1) b3(1) buf_consts sizes_are_def)
qed

lemma testBufferInsideGrow_passes: "testBufferInsideGrow y z = Inr ()"
proof -
  from Append_is [OF new_buf_is, of "replicate 800 y"] obtain b1 where
    b1: "Append (replicate 800 y) (new_Buffer kInitialSize) = Inr b1" "buf_is (replicate 800 y) 224 8 b1" by auto
  from Retrieve_is [OF b1(2), of 500] obtain b2 where
    b2: "Retrieve 500 b1 = Inr b2" "buf_is (replicate 300 y) 224 508 b2" by auto
  from Append_is [OF b2(2), of "replicate 300 z"] obtain b3 where
    b3: "Append (replicate 300 z) b2 = Inr b3" "buf_is (replicate 300 y @ replicate 300 z) 424 8 b3"
    by (auto simp: buf_consts)
  from buf_is_sizes [OF b1(2)] buf_is_sizes [OF b2(2)] buf_is_sizes [OF b3(2)]
  show ?thesis by (simp add: testBufferInsideGrow_def b1(1) [unfolded buf_consts] b2(1) b3(1) buf_consts sizes_are_def)
qed

lemma testBufferShrink_passes: "testBufferShrink y = Inr ()"
proof -
  from Append_is [OF new_buf_is, of "replicate 2000 y"] obtain b1 where
    b1: "Append (replicate 2000 y) (new_Buffer kInitialSize) = Inr b1" "buf_is (replicate 2000 y) 0 8 b1"
    by (auto simp: buf_consts max_size_def)
  from Retrieve_is [OF b1(2), of 1500] obtain b2 where
    b2: "Retrieve 1500 b1 = Inr b2" "buf_is (replicate 500 y) 0 1508 b2" by auto
  from RetrieveAllAsString_is [OF b2(2)] obtain b3 where
    b3: "RetrieveAllAsString b2 = Inr (replicate 500 y, b3)" "buf_is [] 2000 8 b3" by auto
  from buf_is_sizes [OF b1(2)] buf_is_sizes [OF b2(2)] buf_is_sizes [OF b3(2)]
  show ?thesis by (simp add: testBufferShrink_def b1(1) [unfolded buf_consts] b2(1) b3(1) buf_consts sizes_are_def)
qed

lemma testBufferPrepend_passes: "length x = 4 \<Longrightarrow> testBufferPrepend y x = Inr ()"
proof -
  assume x: "length x = 4"
  from Append_is [OF new_buf_is, of "replicate 200 y"] obtain b1 where
    b1: "Append (replicate 200 y) (new_Buffer kInitialSize) = Inr b1" "buf_is (replicate 200 y) 824 8 b1" by auto
  from Prepend_is [OF b1(2), of x] x obtain b2 where
    b2: "Prepend x b1 = Inr b2" "buf_is (x @ replicate 200 y) 824 4 b2" by auto
  from buf_is_sizes [OF b1(2)] buf_is_sizes [OF b2(2)] x
  show ?thesis by (simp add: testBufferPrepend_def b1(1) [unfolded buf_consts] b2(1) buf_consts)
qed

lemma testReadInts_passes: "testReadInts = Inr ()"
  by code_simp


section \<open>Byte order\<close>

text \<open>The largest and the smallest value of every width survive the way to the network and back.\<close>

definition big_and_back :: "nat \<Rightarrow> 'a::len word \<Rightarrow> bool" where
  "big_and_back n x \<longleftrightarrow> BigToNative (byteswap n) (NativeToBig (byteswap n) x) = x"

definition little_and_back :: "'a::len word \<Rightarrow> bool" where
  "little_and_back x \<longleftrightarrow> LittleToNative id (NativeToLittle id x) = x"

definition Convert2Big :: bool where
  "Convert2Big \<longleftrightarrow> big_and_back 2 (2 ^ 15 - 1 :: 16 word) \<and> big_and_back 4 (2 ^ 31 - 1 :: 32 word)
     \<and> big_and_back 8 (2 ^ 63 - 1 :: 64 word) \<and> big_and_back 2 (- 1 :: 16 word)
     \<and> big_and_back 4 (- 1 :: 32 word) \<and> big_and_back 8 (- 1 :: 64 word)"

definition Convert2Little :: bool where
  "Convert2Little \<longleftrightarrow> little_and_back (2 ^ 15 :: 16 word) \<and> little_and_back (2 ^ 31 :: 32 word)
     \<and> little_and_back (2 ^ 63 :: 64 word) \<and> little_and_back (0 :: 16 word)
     \<and> little_and_back (0 :: 32 word) \<and> little_and_back (0 :: 64 word)"

lemma Convert2Big_passes: Convert2Big
  by code_simp

lemma Convert2Little_passes: Convert2Little
  by code_simp

section \<open>The stream of the logger\<close>

text \<open>Each argument is put into the stream, after which the text in it is compared.\<close>

fun stream_shows :: "(log_arg \<times> string) list \<Rightarrow> char fixed_buffer \<Rightarrow> bool" where
  "stream_shows [] s = True"
| "stream_shows ((a, t) # as) s = (let s1 = insert_arg a s in ToString s1 = t \<and> stream_shows as s1)"

definition Booleans :: bool where
  "Booleans \<longleftrightarrow> ToString new_LogStream = [] \<and> stream_shows
     [(Boolean True, ''true''), (CString (Some [CHR 0x0A]), ''true'' @ [CHR 0x0A]),
      (Boolean False, ''true'' @ [CHR 0x0A] @ ''false'')] new_LogStream"

definition Integers :: bool where
  "Integers \<longleftrightarrow> ToString new_LogStream = []
     \<and> stream_shows [(Integer 1, ''1''), (Integer 0, ''10''), (Integer (-1), ''10-1'')] new_LogStream
     \<and> ToString (insert_all [Integer 0, CString (Some '' ''), CString (Some ''123''), Character CHR ''x'', Integer 0x64]
         (ResetBuffer (insert_all [Integer 1, Integer 0, Integer (-1)] new_LogStream))) = ''0 123x100''"

definition alone :: "log_arg \<Rightarrow> string \<Rightarrow> bool" where
  "alone a t \<longleftrightarrow> ToString (insert_arg a (ResetBuffer (insert_arg (Integer 1) new_LogStream))) = t"

definition IntegerLimits :: bool where
  "IntegerLimits \<longleftrightarrow> stream_shows [(Integer (-2147483647), ''-2147483647''),
       (Integer (- (2 ^ 31)), ''-2147483647-2147483648''), (Integer (2 ^ 31 - 1), ''-2147483647-21474836482147483647'')] new_LogStream
     \<and> alone (Integer (- (2 ^ 15))) ''-32768'' \<and> alone (Integer (2 ^ 15 - 1)) ''32767''
     \<and> alone (Integer 0) ''0'' \<and> alone (Integer (2 ^ 16 - 1)) ''65535''
     \<and> alone (Integer (- (2 ^ 31))) ''-2147483648'' \<and> alone (Integer (2 ^ 31 - 1)) ''2147483647''
     \<and> alone (Integer (2 ^ 32 - 1)) ''4294967295''
     \<and> alone (Integer (- (2 ^ 63))) ''-9223372036854775808'' \<and> alone (Integer (2 ^ 63 - 1)) ''9223372036854775807''
     \<and> alone (Integer (2 ^ 64 - 1)) ''18446744073709551615''"

definition Void_test :: bool where
  "Void_test \<longleftrightarrow> alone (Pointer 0) ''0x0'' \<and> alone (Pointer 8888) ''0x22b8''"

definition Strings_test :: bool where
  "Strings_test \<longleftrightarrow> stream_shows [(CString (Some ''Hello ''), ''Hello ''), (StdString ''Muduo'', ''Hello Muduo'')] new_LogStream"

text \<open>\<open>Length_from i n s\<close> is the loop of the test from round \<open>i\<close> on, for \<open>n\<close> rounds.\<close>

primrec Length_from :: "nat \<Rightarrow> nat \<Rightarrow> char fixed_buffer \<Rightarrow> bool" where
  "Length_from i 0 s = True"
| "Length_from i (Suc n) s = (let s1 = insert_arg (CString (Some ''123456789 '')) s in
     GetLength s1 = 10 * (i + 1) \<and> Avail s1 = 4000 - 10 * (i + 1) \<and> Length_from (Suc i) n s1)"

definition Length_test :: bool where
  "Length_test \<longleftrightarrow> Length_from 0 399 new_LogStream"

lemma Booleans_passes: Booleans
  by code_simp

lemma Integers_passes: Integers
  by code_simp

lemma digit_chars:
  "digit 0 = CHR ''0''" "digit (Suc 0) = CHR ''1''" "digit 2 = CHR ''2''" "digit 3 = CHR ''3''" "digit 4 = CHR ''4''"
  "digit 5 = CHR ''5''" "digit 6 = CHR ''6''" "digit 7 = CHR ''7''" "digit 8 = CHR ''8''" "digit 9 = CHR ''9''"
  by code_simp+

lemma hex_chars: "hex_digit 2 = CHR ''2''" "hex_digit 8 = CHR ''8''" "hex_digit 11 = CHR ''b''"
  by code_simp+

lemma limit_texts:
  "int_to_string (-2147483647) = ''-2147483647''" "int_to_string (-2147483648) = ''-2147483648''"
  "int_to_string 2147483647 = ''2147483647''" "int_to_string (-32768) = ''-32768''" "int_to_string 32767 = ''32767''"
  "int_to_string 0 = ''0''" "int_to_string 65535 = ''65535''" "int_to_string 4294967295 = ''4294967295''"
  "int_to_string (-9223372036854775808) = ''-9223372036854775808''"
  "int_to_string 9223372036854775807 = ''9223372036854775807''"
  "int_to_string 18446744073709551615 = ''18446744073709551615''" "int_to_string 1 = ''1''"
  by (simp_all add: int_to_string_def to_string.simps [of "numeral n" for n] to_string.simps [of 0] to_string.simps [of "Suc 0"] digit_chars)

lemmas stream_defs = ToString_def GetLength_def insert_arg_def FixedBuffer_Append_def Avail_def new_LogStream_def
  new_FixedBuffer_def kSmallBuffer_def ResetBuffer_def FixedBuffer_Reset_def

lemma alone_iff: "length (arg_text a) < 4000 \<Longrightarrow> alone a t \<longleftrightarrow> arg_text a = t"
  by (simp add: alone_def stream_defs limit_texts)

lemma IntegerLimits_passes: IntegerLimits
  by (simp add: IntegerLimits_def alone_iff limit_texts) (simp add: stream_defs limit_texts Let_def)

lemma Void_passes: Void_test
  by (simp add: Void_test_def alone_iff hex_string.simps [of "numeral n" for n] hex_chars)

lemma Strings_passes: Strings_test
  by code_simp

lemma Length_from_holds:
  "fb_size s = 4000 \<Longrightarrow> length (fb_data s) = 10 * i \<Longrightarrow> i + n < 400 \<Longrightarrow> Length_from i n s"
proof (induction n arbitrary: i s)
  case (Suc n)
  let ?s = "insert_arg (CString (Some ''123456789 '')) s"
  have "fb_size ?s = 4000" "length (fb_data ?s) = 10 * Suc i"
    using Suc.prems by (simp_all add: insert_arg_def FixedBuffer_Append_def Avail_def strlen_def)
  with Suc.IH [of ?s "Suc i"] Suc.prems(3) show ?case by (simp add: Let_def GetLength_def Avail_def)
qed simp

lemma Length_passes: Length_test
  unfolding Length_test_def
  by (rule Length_from_holds) (simp_all add: new_LogStream_def new_FixedBuffer_def kSmallBuffer_def)

section \<open>The pool of loops\<close>

text \<open>\<open>next_loops n p\<close> asks for \<open>n\<close> loops, one after the other.\<close>

primrec next_loops :: "nat \<Rightarrow> loop_pool \<Rightarrow> nat list res" where
  "next_loops 0 p = Inr []"
| "next_loops (Suc n) p = bindR (GetNextLoop True p) (\<lambda>(l, p1). mapR (Cons l) (next_loops n p1))"

definition pool_of :: "nat \<Rightarrow> loop_pool res" where
  "pool_of n = BuildAndRun True (SetThreadInitCallback True (SetPoolSize n (new_EventLoopThreadPool 0)))"

text \<open>The init callback is expected once, for the base loop, which is dealt out every time.\<close>

definition SingleThread :: "unit res" where
  "SingleThread = bindR (pool_of 0) (\<lambda>p. ensure (init_calls p = [0])
     (bindR (next_loops 3 p) (\<lambda>ls. ensure (ls = [0, 0, 0]) (Inr ()))))"

definition AnotherThread :: "unit res" where
  "AnotherThread = bindR (pool_of 1) (\<lambda>p. bindR (next_loops 4 p) (\<lambda>ls.
     ensure (ls ! 1 \<noteq> 0) (ensure (ls ! 1 = ls ! 2 \<and> ls ! 1 = ls ! 3) (Inr ()))))"

definition ThreeThreads :: "unit res" where
  "ThreeThreads = bindR (pool_of 3) (\<lambda>p. bindR (next_loops 6 p) (\<lambda>ls. let first_loop = ls ! 0 in
     ensure (first_loop \<noteq> 0) (ensure (first_loop = ls ! 3) (ensure (first_loop \<noteq> ls ! 4)
       (ensure (first_loop \<noteq> ls ! 5) (Inr ()))))))"

lemma SingleThread_passes: "SingleThread = Inr ()"
  by code_simp

lemma AnotherThread_passes: "AnotherThread = Inr ()"
  by code_simp

lemma ThreeThreads_passes: "ThreeThreads = Inr ()"
  by code_simp

end
