(* ===== verification/Spec2Isabelle.thy ===== *)
theory Spec2Isabelle
  imports Prelude Endian Buffer TimerQueue PollPoller EventLoop TcpConnection Connector MemPool
    EventLoopThreadPool TcpServer TimerLoop ConnLoop ConnObject LogFile LogStream Logging AsyncLogging ThreadPool TcpClient InetAddr Reactor LoopLife
    LoopProgress SystemTasks SystemLives UnitTests
begin

text \<open>
  A verification library for the C++ network library under \<^verbatim>\<open>src/\<close>: a reactor with one event
  loop per thread, timers, TCP servers and clients over it, and a log with an asynchronous back
  end. The definitions follow the code function by function under the code's names (a name two
  classes share is qualified by its theory); what a call of the operating system answers
  is an argument, a failed assertion, a fatal log line, a null pointer and the like are values
  of the type \<open>fault\<close> of \<^verbatim>\<open>Prelude\<close>, and assertions are part of the model, as in a debug build.
  The build option \<^verbatim>\<open>MUDUO_USE_MEMPOOL\<close> is on, as in \<^verbatim>\<open>CMakeLists.txt\<close>, where it makes a difference.

  The parts and how they interact.

  \<^item> \<^verbatim>\<open>EventLoop\<close> (\<^verbatim>\<open>EventLoop.cpp\<close>, \<^verbatim>\<open>Bridge.cpp\<close>): a thread polls, handles the active channels and
    runs the callbacks other threads have queued, who wake it through an eventfd. The state is
    \<open>event_loop\<close>, the interleaving of threads the relation \<open>loop_step\<close>, with one step per critical
    section, atomic store or system call. Shown: callbacks run once each in the order of submission, no sleep on work,
    what one round runs.
  \<^item> \<^verbatim>\<open>Channel\<close> (\<^verbatim>\<open>Channel.cpp\<close>) and \<^verbatim>\<open>PollPoller\<close> (\<^verbatim>\<open>poller/PollPoller.cpp\<close>): interest in the events of
    a descriptor, their dispatch to callbacks, and the array handed to \<^verbatim>\<open>poll(2)\<close>. Shown: the dispatch equals
    the list of callbacks owed; array, map and indices agree and implement a map from descriptors
    to interest; what \<^verbatim>\<open>Poll\<close> reports.
  \<^item> \<^verbatim>\<open>Reactor\<close> and \<^verbatim>\<open>LoopLife\<close> (\<^verbatim>\<open>EventLoop.cpp\<close>, the constructors and destructors of \<^verbatim>\<open>Bridge.cpp\<close> and
    \<^verbatim>\<open>Timer.cpp\<close>): one loop over the three, with callbacks that enqueue tasks, change
    the interest of their channel and ask the loop to quit. Shown: what a round runs, that it keeps the
    invariants of all of them, and that a loop can be built, run until it quits and taken apart.
  \<^item> \<^verbatim>\<open>TimerHeap\<close>, \<^verbatim>\<open>TimerQueue\<close> (\<^verbatim>\<open>TimerQueue.cpp\<close>, \<^verbatim>\<open>Timer.h\<close>): the binary heap of timers with its index,
    under the contract \<open>timer_store\<close>, and the queue that drives one timerfd. Shown: heap order and index are
    kept, expiry ends and is complete, the timerfd is armed for the earliest timer.
    \<^verbatim>\<open>TimerLoop\<close> adds the \<^verbatim>\<open>Watcher\<close> of \<^verbatim>\<open>Timer.cpp\<close>, the passing of time and other threads, as the relation
    \<open>tl_step\<close>. Its parameter says whether users are careful: the code takes every request, and a cancel can break the
    heap order or take away the timer just announced. Shown for careful users: no timer runs early, none is lost or runs
    twice, a due timer is served; with a careless cancel the loop can fail.
  \<^item> \<^verbatim>\<open>Endian\<close>, \<^verbatim>\<open>ByteQueue\<close>, \<^verbatim>\<open>Buffer\<close> (\<^verbatim>\<open>base/Endian.h\<close>, \<^verbatim>\<open>Buffer.h\<close>): the byte buffer with its indices,
    under the contract \<open>byte_queue\<close>. Shown: it implements a queue of bytes, when it grows, fails or overflows into
    the stack array, and the round trip of integers in network order.
  \<^item> \<^verbatim>\<open>TcpConnection\<close> (\<^verbatim>\<open>TcpConnection.cpp\<close>): over \<^verbatim>\<open>Buffer\<close> and \<^verbatim>\<open>PollPoller\<close>. Shown: bytes go out in order and
    none twice, the write side is shut after the data, output drains, the life cycle.
  \<^item> \<^verbatim>\<open>ConnEvents\<close> and \<^verbatim>\<open>ConnLoop\<close> (\<^verbatim>\<open>TcpConnection.cpp\<close>, \<^verbatim>\<open>Channel.cpp\<close>, \<^verbatim>\<open>EventLoop.cpp\<close>): a connection driven by its
    channel, and the connections of a loop over one poller. Shown: for every set of events of Linux, and over
    every sequence of rounds, no assertion fails and no output is lost, and connections do not disturb each other.
    \<^verbatim>\<open>ConnObject\<close> is a connection as its users hold it, with its accessors and the default callbacks.
  \<^item> \<^verbatim>\<open>LoopSystem\<close> (\<^verbatim>\<open>EventLoop.cpp\<close>, with \<^verbatim>\<open>Timer.cpp\<close>, \<^verbatim>\<open>Bridge.cpp\<close> and \<^verbatim>\<open>TcpConnection.cpp\<close>): queue, timers and
    connections of one loop over one poller that holds the channels of the watcher and of the bridge too, as the
    relation \<open>sys_step\<close>. A queued function is a number: \<open>0\<close> for a task of the timers, \<open>Suc k\<close> for one of connection
    \<open>k\<close>. A call of another thread is one step; what user code does in the loop is a step while a handler runs;
    a connection is destroyed once nothing holds it any more. Shown, for users who are careful with timers as in \<open>tl_step\<close>: no step fails or hangs, and a run of the whole is a run of
    \<open>loop_step\<close> and of \<open>tl_step\<close> and keeps the connections in order, so that what is shown of the parts holds for it.
    \<^verbatim>\<open>SystemLives\<close> shows that a step takes one connection at most on in the abstract life the server is verified against.
    \<^verbatim>\<open>LoopProgress\<close> considers its infinite runs. Shown: the thread of the loop can always go on, and while it does, every
    function handed in runs and every timer that is due runs, by a measure the steps of that thread lower. \<^verbatim>\<open>SystemTasks\<close>
    adds what becomes of the tasks of a connection: sent bytes, shutdowns and removals that other threads ask for are carried out in order.
  \<^item> \<^verbatim>\<open>EventLoopThread\<close> (\<^verbatim>\<open>EventLoopThread.cpp\<close>): the steps of the owner and of the thread, with \<open>elt_step\<close> as their
    interleaving. Shown: the hand-over of the loop and the destructor, and where destroying a thread hangs or fails.
  \<^item> \<^verbatim>\<open>EventLoopThreadPool\<close> (\<^verbatim>\<open>EventLoopThreadPool.cpp\<close>) and \<^verbatim>\<open>TcpServer\<close>
    (\<^verbatim>\<open>TcpServer.cpp\<close>, \<^verbatim>\<open>Acceptor.cpp\<close>): the I/O loops under the contract \<open>loop_chooser\<close>, and the list of
    connections over all of them. A connection is its abstract life \<open>conn_life\<close>, of which
    \<open>conn_refines_life\<close> shows that \<^verbatim>\<open>TcpConnection\<close> implements it. Shown: over all interleavings of the loops
    no assertion fails and every connection goes once through its life.
  \<^item> \<^verbatim>\<open>Connector\<close> (\<^verbatim>\<open>Connector.cpp\<close>) and \<^verbatim>\<open>TcpClient\<close> (\<^verbatim>\<open>TcpClient.cpp\<close>): attempts with back-off, and the
    client that owns the connection they lead to. Shown: the states agree, the delays, at most one live connection,
    reconnection.
  \<^item> \<^verbatim>\<open>InetAddr\<close> (\<^verbatim>\<open>InetAddr.cpp\<close>, \<^verbatim>\<open>base/SocketOps.cpp\<close>, \<^verbatim>\<open>Socket.cpp\<close>): addresses, their text, sockets.
  \<^item> \<^verbatim>\<open>MemPool\<close> (\<^verbatim>\<open>base/allocator\<close>): the free-list allocator of a loop. Shown: every byte belongs to one
    of the region, the free blocks and the blocks in use.
  \<^item> \<^verbatim>\<open>ThreadPool\<close> (\<^verbatim>\<open>base/ThreadPool.cpp\<close>): workers and callers around a bounded queue, as the relation
    \<open>tp_step\<close>. Shown: order, bound and progress; two ways callers are badly served.
  \<^item> \<^verbatim>\<open>LogStream\<close>, \<^verbatim>\<open>Logging\<close>, \<^verbatim>\<open>LogFile\<close>, \<^verbatim>\<open>AsyncLogging\<close> (the files of these names under \<^verbatim>\<open>base/\<close>): a
    statement formats a line into a fixed buffer, the asynchronous logger collects lines in large
    buffers, its back thread writes them to rolled files through the contract \<open>log_sink\<close>. Shown: each part
    keeps every byte in order (the logger in runs in which it is not stopped before its new thread has begun), how large
    files get, that their names increase with the local time, and this theory joins them from the statement to the file.

  \<^item> \<^verbatim>\<open>UnitTests\<close> (\<^verbatim>\<open>tests\<close>): the unit tests that check values, written over the models. Shown: they pass, and
    what every operation of a buffer does to the room in it.

  Each theory has, in this order, the state, the operations, the invariant and its lemmas per operation, and the
  properties. \<^verbatim>\<open>Prelude\<close> holds the results of calls with the collection \<open>res_iffs\<close> that unfolds them,
  numbers as text, blocks of lists. Lemmas outside the properties show where the code fails: a removed
  timer that breaks the heap order, timers at the epoch, descriptors lost by refused connects,
  a channel never polled again, a connection destroyed half closed, an IPv6 address without its
  bracket, the inverted wait of the asynchronous logger and its stop right after its start, a log file whose name comes again, input the default callback never takes and others; each is explained before its lemma.

  Bounds and fuel. That a thread goes on, as a run in \<open>LoopProgress\<close> assumes, is the fairness of the scheduler and the return of \<^verbatim>\<open>poll(2)\<close>. Sizes are natural numbers below the limits written out (\<open>max_size\<close> of a vector,
  sixty-four bits of an eventfd, thirty-two of the counter of a client); events are words. No
  definition has fuel. The expiry loop of the timers is a partial function, which its property shows to return when repeated
  timers are re-armed into the future; the recursions of the allocator and of the heap are shown to
  end by measures; all others are structural.

  Not modelled. User callbacks beyond their being called, except where a theory takes them as an argument;
  exceptions thrown by callbacks and by \<^verbatim>\<open>operator new\<close> outside the allocator; a poll that a signal interrupts, in the theories of whole loops (\<open>PollPoller\<close> has it);
  the failure of \<^verbatim>\<open>timerfd_settime\<close>, of writes to a log file, and a log file that exists before it is opened; wrappers that only forward to a system call or cast a pointer;
  the text of floating-point numbers, dates and IPv6 addresses, which are arguments;
  address families other than the two the code makes; memory order weaker than
  sequential consistency; the server over several runs of \<open>sys_step\<close> at once (it is verified over the lives of its connections, which each such run keeps to); \<^verbatim>\<open>EpollPoller.cpp\<close> (empty), \<^verbatim>\<open>sgi_stl_construct.h\<close> (unused), the tests that only print or wait, the build files.
\<close>

section \<open>From a log statement to the file\<close>

text \<open>The output handler of the logger set to \<^verbatim>\<open>AsyncLogger::Append\<close>: statements are executed one
  after the other, and their lines are what is appended.\<close>

type_synonym log_call = "log_macro \<times> log_arg list \<times> log_site"

fun write_log :: "(int \<Rightarrow> string) \<Rightarrow> log_call list \<Rightarrow> logging \<Rightarrow> logging" where
  "write_log strerror [] g = g"
| "write_log strerror ((m, args, w) # cs) g = write_log strerror cs (fst (log_statement strerror m args w g))"

definition to_bytes :: "string \<Rightarrow> byte list" where
  "to_bytes s = map of_char s"

definition line_of :: "(int \<Rightarrow> string) \<Rightarrow> logging \<Rightarrow> log_call \<Rightarrow> string" where
  "line_of strerror g call = (case call of (m, args, w) \<Rightarrow> text_of (line_args strerror (g_toConsole g) m args w))"

definition enabled :: "logging \<Rightarrow> log_call \<Rightarrow> bool" where
  "enabled g call \<longleftrightarrow> macro_guard (g_logLevel g) (fst call)"

definition proper_call :: "(int \<Rightarrow> string) \<Rightarrow> logging \<Rightarrow> log_call \<Rightarrow> bool" where
  "proper_call strerror g call \<longleftrightarrow> macro_level (fst call) \<noteq> FATAL \<and> length (line_of strerror g call) < kSmallBuffer"

text \<open>The messages of a run, in order.\<close>

fun message_of :: "async_event \<Rightarrow> byte list option" where
  "message_of (Logged d) = Some d"
| "message_of e = None"

lemma messages_bytes: "concat (map event_bytes es) = concat (List.map_filter message_of es)"
proof (induction es)
  case (Cons e es)
  then show ?case by (cases e) (simp_all add: List.map_filter_simps)
qed (simp add: List.map_filter_simps)

lemma message_in: "Logged d \<in> set es \<Longrightarrow> d \<in> set (List.map_filter message_of es)"
  by (force simp: List.map_filter_def image_iff)

lemma one_statement:
  assumes "proper_call strerror g (m, args, w)"
  shows "fst (log_statement strerror m args w g)
    = (if enabled g (m, args, w) then g\<lparr>output_lines := output_lines g @ [line_of strerror g (m, args, w)]\<rparr> else g)"
proof (cases "enabled g (m, args, w)")
  case True
  let ?l = "fb_data (insert_all (line_args strerror (g_toConsole g) m args w) new_LogStream)"
  have "?l = line_of strerror g (m, args, w)" using assms insert_all_fits by (simp add: proper_call_def line_of_def)
  with log_statement_line [of g m ?l strerror args w] True assms show ?thesis
    by (simp add: enabled_def proper_call_def)
qed (simp add: enabled_def log_statement_def)

lemma line_of_cong: "line_of strerror (g\<lparr>output_lines := ls\<rparr>) = line_of strerror g"
  "enabled (g\<lparr>output_lines := ls\<rparr>) = enabled g"
  "proper_call strerror (g\<lparr>output_lines := ls\<rparr>) = proper_call strerror g"
  by (simp_all add: fun_eq_iff line_of_def enabled_def proper_call_def)

lemma write_log_lines:
  "\<forall>c \<in> set cs. proper_call strerror g c \<Longrightarrow>
   output_lines (write_log strerror cs g) = output_lines g @ map (line_of strerror g) (filter (enabled g) cs)"
proof (induction cs arbitrary: g)
  case (Cons c cs)
  obtain m args w where c: "c = (m, args, w)" by (cases c)
  show ?case using Cons by (simp add: c one_statement line_of_cong)
qed simp

section \<open>Properties\<close>

text \<open>C40. From a log statement to the file: statements none of which is fatal or longer than a small
  buffer are executed with the asynchronous logger as output handler; in every orderly
  interleaving of their messages with starts, stops and the back thread (see C17: in particular no stop
  before the new thread has begun) in which the back thread keeps up (never more than twenty-five
  buffers behind, or it drops buffers), no assertion fails, and the log files followed by what still
  waits in the buffers are exactly the lines of the statements whose level is enabled, complete and in
  the order of execution.\<close>

theorem log_statements_reach_file:
  assumes "CHR ''/'' \<notin> set base" and orderly: "async_orderly localtime pid es (new_AsyncLogger base limit)"
    and proper: "\<forall>c \<in> set cs. proper_call strerror g c" and "output_lines g = []"
    and msgs: "List.map_filter message_of es = map to_bytes (output_lines (write_log strerror cs g))"
    and "keeps_up localtime pid es (new_AsyncLogger base limit)"
  shows "\<exists>a. async_run localtime pid es (new_AsyncLogger base limit) = Inr a
    \<and> logged (sink a) @ unwritten a = concat (map (to_bytes \<circ> line_of strerror g) (filter (enabled g) cs))"
proof -
  have lines: "output_lines (write_log strerror cs g) = map (line_of strerror g) (filter (enabled g) cs)"
    using write_log_lines [OF proper] assms(4) by simp
  have "length (event_bytes e) < kLargeBuffer" if "e \<in> set es" for e
  proof (cases e)
    case (Logged d)
    with that message_in have "d \<in> set (map to_bytes (output_lines (write_log strerror cs g)))" using msgs by metis
    then obtain c where "c \<in> set cs" "d = to_bytes (line_of strerror g c)" unfolding lines by auto
    with proper Logged show ?thesis
      by (auto simp: proper_call_def to_bytes_def kSmallBuffer_def kLargeBuffer_def)
  qed (simp_all add: kLargeBuffer_def)
  with async_run_ok [OF async_ok_new _ orderly] assms(1,6) obtain a where
    "async_run localtime pid es (new_AsyncLogger base limit) = Inr a"
    "logged (sink a) @ unwritten a = concat (map event_bytes es)" by auto
  then show ?thesis using msgs lines messages_bytes [of es] by (simp add: comp_def)
qed

definition three_calls :: "log_call list" where
  "three_calls = [(LOG_INFO, [Integer 5], demo_site), (LOG_DEBUG ''f'', [], demo_site), (LOG_WARN, [], demo_site)]"

theorem log_statements_reach_file_witness:
  "\<exists>a. async_run first_day 1 [StartCalled, Logged (to_bytes (line_of (\<lambda>e. []) demo_logging (hd three_calls))), BackBegin 5,
         BackTop 6, Logged (to_bytes (line_of (\<lambda>e. []) demo_logging (three_calls ! 2)))] (new_AsyncLogger ''app'' 100) = Inr a
     \<and> logged (sink a) @ unwritten a
         = to_bytes (''[INFO ] d.005 Tid=9 5 - a.cc:7'' @ [CHR 0x0A] @ ''[WARN ] d.005 Tid=9  - a.cc:7'' @ [CHR 0x0A])"
proof -
  let ?g = demo_logging and ?e = "\<lambda>e :: int. [] :: string"
  have l: "line_of ?e ?g (hd three_calls) = ''[INFO ] d.005 Tid=9 5 - a.cc:7'' @ [CHR 0x0A]"
    "line_of ?e ?g (three_calls ! 1) = ''[DEBUG] d.005 Tid=9 {f}  - a.cc:7'' @ [CHR 0x0A]"
    "line_of ?e ?g (three_calls ! 2) = ''[WARN ] d.005 Tid=9  - a.cc:7'' @ [CHR 0x0A]" by code_simp+
  have "fst (hd three_calls) = LOG_INFO" "fst (three_calls ! 1) = LOG_DEBUG ''f''" "fst (three_calls ! 2) = LOG_WARN"
    by (simp_all add: three_calls_def)
  then have "proper_call ?e ?g (hd three_calls)" "proper_call ?e ?g (three_calls ! 1)" "proper_call ?e ?g (three_calls ! 2)"
    using l by (simp_all add: proper_call_def kSmallBuffer_def)
  moreover have "set three_calls = {hd three_calls, three_calls ! 1, three_calls ! 2}" by (simp add: three_calls_def)
  ultimately have proper: "\<forall>c \<in> set three_calls. proper_call ?e ?g c" by simp
  have en: "filter (enabled ?g) three_calls = [hd three_calls, three_calls ! 2]"
    by (simp add: three_calls_def enabled_def demo_logging_def less_eq_log_level_def)
  have out: "output_lines ?g = []" by (simp add: demo_logging_def)
  let ?n = "new_AsyncLogger ''app'' 100" and ?es = "[StartCalled, Logged (to_bytes (line_of ?e ?g (hd three_calls))), BackBegin 5, BackTop 6, Logged (to_bytes (line_of ?e ?g (three_calls ! 2)))]"
  have msgs: "List.map_filter message_of ?es = map to_bytes (output_lines (write_log ?e three_calls ?g))"
    by (simp add: write_log_lines [OF proper] out en List.map_filter_simps)
  have keeps: "keeps_up first_day 1 ?es ?n" and ord: "async_orderly first_day 1 ?es ?n"
    by (simp_all add: l to_bytes_def async_eval)
  have base: "CHR ''/'' \<notin> set ''app''" by simp
  from log_statements_reach_file [OF base ord proper out msgs keeps] obtain a where "async_run first_day 1 ?es ?n = Inr a"
    "logged (sink a) @ unwritten a = to_bytes (line_of ?e ?g (hd three_calls)) @ to_bytes (line_of ?e ?g (three_calls ! 2))"
    by (auto simp: en simp del: async_run.simps)
  then show ?thesis unfolding l by (auto simp: to_bytes_def simp del: async_run.simps)
qed

end
